(* ===== verification/Prelude.thy ===== *)
theory Prelude
  imports Main "HOL-Library.Word"
begin

unbundle bit_operations_syntax

section \<open>Prelude: the types and helper lemmas every component shares\<close>

text \<open>
  Names for the machine types of the C++ sources, a byte-addressed memory for the sector
  buffers, the little-endian field encodings used by the file headers, and the facts about
  them that the component theories need.

  Unsigned C++ integers are words of their width and wrap.  \<open>int64_t\<close> positions and sizes
  are \<open>int\<close>: signed overflow has no defined result in C++, and every narrowing cast from
  \<open>int64_t\<close> is written out as \<open>word_of_int\<close>.  Pointers to pool buffers are numbers.
\<close>

type_synonym u8 = "8 word"
type_synonym u16 = "16 word"
type_synonym u32 = "32 word"
type_synonym u64 = "64 word"
type_synonym ptr = nat

named_theorems byte_simps \<open>lengths and round trips of the byte encodings\<close>
named_theorems mem_simps \<open>reading a memory after a write\<close>

subsection \<open>Casts that lose nothing\<close>

lemma unat_of_nat_small: "n < 2 ^ LENGTH('a) \<Longrightarrow> unat (of_nat n :: 'a::len word) = n"
  by (simp add: unat_of_nat)

lemma unat_of_nat_le: "n \<le> unat (w :: 'a::len word) \<Longrightarrow> unat (of_nat n :: 'a word) = n"
proof (rule unat_of_nat_small)
  assume "n \<le> unat w"
  also have "unat w < 2 ^ LENGTH('a)" by simp
  finally show "n < 2 ^ LENGTH('a)" .
qed

lemma unat_2p: "k < LENGTH('a) \<Longrightarrow> unat (2 ^ k :: 'a::len word) = 2 ^ k"
  using unat_of_nat_small [where 'a = 'a, of "2 ^ k"] by simp

lemma uint_2p_len: "k < LENGTH('a) \<Longrightarrow> uint (2 ^ k :: 'a::len word) = 2 ^ k"
  by (simp only: uint_nat unat_2p of_nat_power of_nat_numeral)

lemma unat_less_32: "unat (w :: u32) < 2 ^ 32"
proof -
  have "unat w < 2 ^ LENGTH(32)" by (rule unsigned_less)
  then show ?thesis by simp
qed

lemma unat_ucast_up:
  assumes "LENGTH('a) \<le> LENGTH('b)"
  shows "unat (ucast (w :: 'a::len word) :: 'b::len word) = unat w"
proof -
  have "unat w < 2 ^ LENGTH('a)" by simp
  also have "(2 :: nat) ^ LENGTH('a) \<le> 2 ^ LENGTH('b)"
    by (rule power_increasing) (use assms in simp_all)
  finally show ?thesis
    by (simp add: unsigned_ucast_eq take_bit_nat_eq_self)
qed

lemma uint_of_int_small: "0 \<le> i \<Longrightarrow> i < 2 ^ LENGTH('a) \<Longrightarrow> uint (word_of_int i :: 'a::len word) = i"
  by (simp add: uint_word_of_int)

lemma sint_word_of_int_small:
  assumes "0 \<le> i" and "i < 2 ^ (LENGTH('a) - 1)"
  shows "sint (word_of_int i :: 'a::len word) = i"
proof -
  have "signed_take_bit (LENGTH('a) - 1) i = i"
    by (rule signed_take_bit_int_eq_self) (use assms(1) order_trans [of "- (2 ^ (LENGTH('a) - 1))" 0 i] in simp, rule assms(2))
  then show ?thesis
    by (simp only: sint_sbintrunc')
qed

lemma push_drop_bit_eq: "push_bit k (drop_bit k (i :: int)) = i - i mod 2 ^ k"
  by (simp add: push_bit_eq_mult drop_bit_eq_div minus_mod_eq_div_mult)

text \<open>Clearing the low \<open>k\<close> bits of a non-negative \<open>int64_t\<close>.\<close>

lemma and_not_mask_word:
  "(word_of_int i :: 'a::len word) AND NOT (mask k) = word_of_int (push_bit k (drop_bit k i))"
  by (rule bit_word_eqI) (auto simp: bit_simps)

subsection \<open>Lists and association lists\<close>

lemma map_of_in: "k \<in> fst ` set xs \<Longrightarrow> \<exists>v. map_of xs k = Some v \<and> v \<in> snd ` set xs"
  by (induction xs) auto

subsection \<open>Memory: what the pointers point to\<close>

text \<open>
  The memory maps a pointer and an offset to a byte.  It is total: a block that malloc has
  just returned reads as whatever the memory holds there, since C++ does not initialise it.
\<close>

type_synonym memory = "ptr \<Rightarrow> nat \<Rightarrow> u8"

definition mread :: "memory \<Rightarrow> ptr \<Rightarrow> nat \<Rightarrow> nat \<Rightarrow> u8 list" where
  "mread m p off n = map (\<lambda>i. m p (off + i)) [0..<n]"

definition mwrite :: "memory \<Rightarrow> ptr \<Rightarrow> nat \<Rightarrow> u8 list \<Rightarrow> memory" where
  "mwrite m p off bs =
     m(p := (\<lambda>i. if off \<le> i \<and> i < off + length bs then bs ! (i - off) else m p i))"

lemma length_mread [simp]: "length (mread m p off n) = n"
  by (simp add: mread_def)

lemma nth_mread [simp]: "i < n \<Longrightarrow> mread m p off n ! i = m p (off + i)"
  by (simp add: mread_def)

lemma mread_0 [simp]: "mread m p off 0 = []"
  by (simp add: mread_def)

lemma mread_other [mem_simps]: "q \<noteq> p \<Longrightarrow> mread (mwrite m p off bs) q o' n = mread m q o' n"
  by (simp add: mread_def mwrite_def)

lemma mwrite_other [mem_simps]: "q \<noteq> p \<Longrightarrow> mwrite m p off bs q = m q"
  by (simp add: mwrite_def)

lemma mread_same [mem_simps]: "mread (mwrite m p off bs) p off (length bs) = bs"
  by (rule nth_equalityI) (simp_all add: mwrite_def)

lemma mread_same_le: "n \<le> length bs \<Longrightarrow> mread (mwrite m p off bs) p off n = take n bs"
  by (rule nth_equalityI) (simp_all add: mwrite_def)

lemma mread_disjoint:
  "off + length bs \<le> o' \<or> o' + n \<le> off \<Longrightarrow> mread (mwrite m p off bs) p o' n = mread m p o' n"
  by (rule nth_equalityI) (auto simp: mwrite_def)

lemma mread_append: "mread m p off (a + b) = mread m p off a @ mread m p (off + a) b"
  by (rule nth_equalityI) (auto simp: nth_append)

lemma mread_cong: "(\<And>i. i < n \<Longrightarrow> m p (off + i) = m' p (off + i)) \<Longrightarrow> mread m p off n = mread m' p off n"
  by (rule nth_equalityI) simp_all

lemma mread_eq_ptr: "m p = m' p \<Longrightarrow> mread m p off n = mread m' p off n"
  by (simp add: mread_def)

lemma take_mread: "k \<le> n \<Longrightarrow> take k (mread m p off n) = mread m p off k"
  by (rule nth_equalityI) simp_all

lemma drop_mread: "drop k (mread m p off n) = mread m p (off + k) (n - k)"
  by (rule nth_equalityI) (simp_all add: add.assoc)

subsection \<open>Little-endian fields\<close>

definition le16 :: "u16 \<Rightarrow> u8 list" where
  "le16 w = [ucast w, ucast (drop_bit 8 w)]"

definition le32 :: "u32 \<Rightarrow> u8 list" where
  "le32 w = [ucast w, ucast (drop_bit 8 w), ucast (drop_bit 16 w), ucast (drop_bit 24 w)]"

definition le64 :: "u64 \<Rightarrow> u8 list" where
  "le64 w = le32 (ucast w) @ le32 (ucast (drop_bit 32 w))"

definition rd16 :: "u8 list \<Rightarrow> nat \<Rightarrow> u16" where
  "rd16 bs i = ucast (bs ! i) OR push_bit 8 (ucast (bs ! (i + 1)))"

definition rd32 :: "u8 list \<Rightarrow> nat \<Rightarrow> u32" where
  "rd32 bs i = ucast (bs ! i) OR push_bit 8 (ucast (bs ! (i + 1)))
     OR push_bit 16 (ucast (bs ! (i + 2))) OR push_bit 24 (ucast (bs ! (i + 3)))"

definition rd64 :: "u8 list \<Rightarrow> nat \<Rightarrow> u64" where
  "rd64 bs i = ucast (rd32 bs i) OR push_bit 32 (ucast (rd32 bs (i + 4)))"

lemma length_le16 [byte_simps, simp]: "length (le16 w) = 2"
  by (simp add: le16_def)

lemma length_le32 [byte_simps, simp]: "length (le32 w) = 4"
  by (simp add: le32_def)

lemma length_le64 [byte_simps, simp]: "length (le64 w) = 8"
  by (simp add: le64_def)

lemma rd16_le16 [byte_simps]: "rd16 (le16 w @ r) 0 = w"
  by (rule bit_word_eqI)
    (auto simp: rd16_def le16_def bit_simps)

lemma rd32_le32 [byte_simps]: "rd32 (le32 w @ r) 0 = w"
proof (rule bit_word_eqI)
  fix n assume "n < LENGTH(32)"
  then consider "n < 8" | "8 \<le> n" "n < 16" | "16 \<le> n" "n < 24" | "24 \<le> n" "n < 32"
    by fastforce
  then show "bit (rd32 (le32 w @ r) 0) n = bit w n"
    by cases (auto simp: rd32_def le32_def bit_simps)
qed

lemma rd32_append: "rd32 (a @ b) (length a + i) = rd32 b i"
  by (simp add: rd32_def nth_append)

lemma rd16_append: "rd16 (a @ b) (length a + i) = rd16 b i"
  by (simp add: rd16_def nth_append)

lemma rd32_at: "length a = n \<Longrightarrow> rd32 (a @ le32 w @ r) n = w"
  using rd32_append [of a "le32 w @ r" 0] by (simp add: rd32_le32)

lemma rd16_at: "length a = n \<Longrightarrow> rd16 (a @ le16 w @ r) n = w"
  using rd16_append [of a "le16 w @ r" 0] by (simp add: rd16_le16)

lemma rd64_at:
  assumes "length a = n"
  shows "rd64 (a @ le64 w @ r) n = w"
proof -
  have 1: "rd32 (a @ le64 w @ r) n = ucast w"
    using assms by (simp add: le64_def rd32_at)
  have 2: "rd32 (a @ le64 w @ r) (n + 4) = ucast (drop_bit 32 w)"
    using rd32_at [of "a @ le32 (ucast w)" "n + 4" "ucast (drop_bit 32 w)" r] assms
    by (simp add: le64_def)
  show ?thesis
    by (rule bit_word_eqI) (auto simp: rd64_def 1 2 bit_simps)
qed

subsection \<open>Arrays of little-endian words\<close>

lemma length_concat_le32 [byte_simps, simp]: "length (concat (map le32 ws)) = 4 * length ws"
  by (induction ws) simp_all

lemma length_concat_le16 [byte_simps, simp]: "length (concat (map le16 ws)) = 2 * length ws"
  by (induction ws) simp_all

lemma rd32_index:
  assumes "i < length ws" and "length a = n"
  shows "rd32 (a @ concat (map le32 ws) @ r) (n + 4 * i) = ws ! i"
proof -
  have "concat (map le32 ws) =
      concat (map le32 (take i ws)) @ le32 (ws ! i) @ concat (map le32 (drop (Suc i) ws))"
    using id_take_nth_drop [OF assms(1)]
    by (metis concat.simps(2) concat_append list.simps(9) map_append)
  moreover have "length (a @ concat (map le32 (take i ws))) = n + 4 * i"
    using assms by simp
  ultimately show ?thesis
    using rd32_at [of "a @ concat (map le32 (take i ws))" "n + 4 * i" "ws ! i"
        "concat (map le32 (drop (Suc i) ws)) @ r"] by simp
qed

subsection \<open>Files: writing a buffer at an offset\<close>

text \<open>
  A file is its list of bytes; a write past the end fills the gap with zero bytes, as the
  operating system does.
\<close>

definition file_write :: "u8 list \<Rightarrow> nat \<Rightarrow> u8 list \<Rightarrow> u8 list" where
  "file_write f off bs = (let g = f @ replicate (off - length f) 0
     in take off g @ bs @ drop (off + length bs) g)"

definition file_read :: "u8 list \<Rightarrow> nat \<Rightarrow> nat \<Rightarrow> u8 list" where
  "file_read f off n = take n (drop off f)"

lemma length_file_write: "length (file_write f off bs) = max (length f) (off + length bs)"
  by (auto simp: file_write_def Let_def)

lemma file_read_write_same: "file_read (file_write f off bs) off (length bs) = bs"
  by (simp add: file_read_def file_write_def Let_def)

lemma nth_file_write:
  "i < length (file_write f off bs) \<Longrightarrow>
     file_write f off bs ! i =
       (if off \<le> i \<and> i < off + length bs then bs ! (i - off)
        else if i < length f then f ! i else 0)"
  by (auto simp: file_write_def Let_def nth_append length_file_write min_def)

lemma file_read_write_other:
  assumes "a + n \<le> off \<or> off + length bs \<le> a" and "a + n \<le> length f"
  shows "file_read (file_write f off bs) a n = file_read f a n"
  by (rule nth_equalityI)
    (use assms in \<open>auto simp: file_read_def nth_file_write length_file_write\<close>)

subsection \<open>Powers of two as shifts\<close>

text \<open>The loop \<open>for (shift = 0; x > 1; x >>= 1) ++shift\<close> used for every block size.\<close>

fun shift_of :: "nat \<Rightarrow> nat" where
  "shift_of x = (if x > 1 then Suc (shift_of (x div 2)) else 0)"

declare shift_of.simps [simp del]

lemma shift_of_pow2 [simp]: "shift_of (2 ^ k) = k"
proof (induction k)
  case 0
  show ?case by (simp add: shift_of.simps)
next
  case (Suc k)
  have "(1 :: nat) < 2 ^ Suc k" by (rule one_less_power) simp_all
  with Suc show ?case by (subst shift_of.simps) simp
qed

lemma shift_of_bounds: "0 < x \<Longrightarrow> 2 ^ shift_of x \<le> x \<and> x < 2 ^ Suc (shift_of x)"
proof (induction x rule: shift_of.induct)
  case (1 x)
  show ?case
  proof (cases "x > 1")
    case True
    then have "0 < x div 2" by simp
    with 1 True have IH: "2 ^ shift_of (x div 2) \<le> x div 2 \<and> x div 2 < 2 ^ Suc (shift_of (x div 2))"
      by blast
    have "shift_of x = Suc (shift_of (x div 2))"
      using True by (simp add: shift_of.simps [of x])
    with IH show ?thesis by auto
  next
    case False
    with 1 have "x = 1" by simp
    then show ?thesis by (simp add: shift_of.simps)
  qed
qed

lemma div_less_pow2: "(a :: int) < b * 2 ^ k \<Longrightarrow> a div 2 ^ k < b"
  using div_mult_mod_eq [of a "2 ^ k"] pos_mod_sign [of "2 ^ k" a]
  by (smt (verit) mult_right_mono zero_less_power)

end
