(* ===== verification/BufferPool.thy ===== *)
theory BufferPool
  imports Prelude
begin

section \<open>The pool of equally sized sector buffers (src/buffer_pool.cpp)\<close>

text \<open>
  \<open>BufferPool\<close> hands out buffers of one size and takes them back into a free list; the size
  can change only while no buffer is in use.  The record holds the class's fields together
  with the part of the heap they own: \<open>live\<close> maps every block malloc returned and free has
  not taken back to the size it was allocated with, \<open>brk\<close> is the next address malloc gives,
  \<open>mem\<close> the bytes.  The pool's mutex makes each operation atomic; an allocation failure of
  malloc is not modelled (the code does not check for it).

  The locale \<open>buffer_store\<close> is what the rest of the program relies on; it is interpreted on
  this model at the end.
\<close>

subsection \<open>State and operations\<close>

record pool =
  bufferSize :: u32
  allocations :: nat
  free_bufs :: "ptr list"
  live :: "ptr \<Rightarrow> u32 option"
  brk :: ptr
  mem :: memory

definition MIN_SIZE :: u32 where
  "MIN_SIZE = 16384"

definition BufferPool_init :: "memory \<Rightarrow> pool" where
  "BufferPool_init m = \<lparr>bufferSize = MIN_SIZE, allocations = 0, free_bufs = [],
     live = Map.empty, brk = 0, mem = m\<rparr>"

definition c_malloc :: "pool \<Rightarrow> u32 \<Rightarrow> pool \<times> ptr" where
  "c_malloc P n = (P\<lparr>live := (live P)(brk P \<mapsto> n), brk := Suc (brk P)\<rparr>, brk P)"

definition c_free :: "pool \<Rightarrow> ptr \<Rightarrow> pool" where
  "c_free P p = P\<lparr>live := (live P)(p := None)\<rparr>"

definition Clear :: "pool \<Rightarrow> pool" where
  "Clear P = (let P1 = foldl c_free P (free_bufs P)
     in P1\<lparr>allocations := allocations P1 - length (free_bufs P1), free_bufs := []\<rparr>)"

definition SetBufferSize :: "pool \<Rightarrow> u32 \<Rightarrow> pool \<times> bool" where
  "SetBufferSize P newSize =
     (let newSize = (if newSize < MIN_SIZE then MIN_SIZE else newSize);
          P1 = Clear P
      in if allocations P1 = 0 then (P1\<lparr>bufferSize := newSize\<rparr>, True) else (P1, False))"

definition Alloc :: "pool \<Rightarrow> pool \<times> ptr" where
  "Alloc P =
     (if free_bufs P = [] then c_malloc (P\<lparr>allocations := Suc (allocations P)\<rparr>) (bufferSize P)
      else (P\<lparr>free_bufs := butlast (free_bufs P)\<rparr>, last (free_bufs P)))"

definition pool_Release :: "pool \<Rightarrow> ptr \<Rightarrow> pool" where
  "pool_Release P p = P\<lparr>free_bufs := free_bufs P @ [p]\<rparr>"

text \<open>memcpy and friends into a buffer; used by every client.\<close>

definition put :: "pool \<Rightarrow> ptr \<Rightarrow> nat \<Rightarrow> u8 list \<Rightarrow> pool" where
  "put P p off bs = P\<lparr>mem := mwrite (mem P) p off bs\<rparr>"

subsection \<open>Well-formed pools\<close>

text \<open>The buffers a client holds: live and not in the free list.\<close>

definition wild :: "pool \<Rightarrow> ptr set" where
  "wild P = dom (live P) - set (free_bufs P)"

definition pool_inv :: "pool \<Rightarrow> bool" where
  "pool_inv P \<longleftrightarrow> distinct (free_bufs P) \<and> set (free_bufs P) \<subseteq> dom (live P)
     \<and> finite (dom (live P)) \<and> allocations P = card (dom (live P))
     \<and> (\<forall>p s. live P p = Some s \<longrightarrow> s = bufferSize P \<and> p < brk P)
     \<and> MIN_SIZE \<le> bufferSize P"

lemma pool_inv_init: "pool_inv (BufferPool_init m)"
  by (simp add: pool_inv_def BufferPool_init_def)

lemma wild_init: "wild (BufferPool_init m) = {}"
  by (simp add: wild_def BufferPool_init_def)

lemma brk_not_live: "pool_inv P \<Longrightarrow> live P (brk P) = None"
  unfolding pool_inv_def by (cases "live P (brk P)") auto

lemma alloc_inv:
  assumes inv: "pool_inv P"
  shows "pool_inv (fst (Alloc P))"
proof (cases "free_bufs P = []")
  case True
  have "brk P \<notin> dom (live P)"
    using brk_not_live [OF inv] by auto
  then have "card (dom ((live P)(brk P \<mapsto> bufferSize P))) = Suc (card (dom (live P)))"
    and "finite (dom ((live P)(brk P \<mapsto> bufferSize P)))"
    if "finite (dom (live P))"
    using that by simp_all
  with True inv show ?thesis
    by (auto simp: pool_inv_def Alloc_def c_malloc_def less_SucI simp del: dom_fun_upd)
next
  case False
  with inv show ?thesis
    by (auto simp: pool_inv_def Alloc_def distinct_butlast dest: in_set_butlastD)
qed

lemma alloc_wild: "pool_inv P \<Longrightarrow> wild (fst (Alloc P)) = insert (snd (Alloc P)) (wild P)"
proof -
  assume inv: "pool_inv P"
  show ?thesis
  proof (cases "free_bufs P = []")
    case True
    then show ?thesis by (auto simp: wild_def Alloc_def c_malloc_def)
  next
    case False
    then obtain xs x where fr: "free_bufs P = xs @ [x]"
      by (metis append_butlast_last_id)
    with inv have "x \<in> dom (live P)" and "x \<notin> set xs"
      by (auto simp: pool_inv_def)
    with fr show ?thesis by (auto simp: wild_def Alloc_def)
  qed
qed

lemma alloc_fresh: "pool_inv P \<Longrightarrow> snd (Alloc P) \<notin> wild P"
  using brk_not_live [of P] by (auto simp: wild_def Alloc_def c_malloc_def)

lemma alloc_mem [simp]: "mem (fst (Alloc P)) = mem P"
  by (simp add: Alloc_def c_malloc_def)

lemma alloc_size [simp]: "bufferSize (fst (Alloc P)) = bufferSize P"
  by (simp add: Alloc_def c_malloc_def)

lemma release_inv: "pool_inv P \<Longrightarrow> p \<in> wild P \<Longrightarrow> pool_inv (pool_Release P p)"
  unfolding pool_inv_def pool_Release_def wild_def by auto

lemma release_wild: "wild (pool_Release P p) = wild P - {p}"
  by (auto simp: pool_Release_def wild_def)

lemma release_mem [simp]: "mem (pool_Release P p) = mem P"
  by (simp add: pool_Release_def)

lemma release_size [simp]: "bufferSize (pool_Release P p) = bufferSize P"
  by (simp add: pool_Release_def)

lemma put_inv [simp]: "pool_inv (put P p off bs) = pool_inv P"
  by (simp add: pool_inv_def put_def)

lemma put_wild [simp]: "wild (put P p off bs) = wild P"
  by (simp add: wild_def put_def)

lemma put_mem [simp]: "mem (put P p off bs) = mwrite (mem P) p off bs"
  by (simp add: put_def)

lemma put_size [simp]: "bufferSize (put P p off bs) = bufferSize P"
  by (simp add: put_def)

subsection \<open>Clearing and resizing\<close>

lemma foldl_c_free:
  "foldl c_free P ps = P\<lparr>live := (\<lambda>q. if q \<in> set ps then None else live P q)\<rparr>"
proof (induction ps arbitrary: P)
  case Nil
  show ?case by simp
next
  case (Cons p ps)
  have e: "(c_free P p)\<lparr>live := f\<rparr> = P\<lparr>live := f\<rparr>" for f
    by (simp add: c_free_def)
  have l: "(\<lambda>q. if q \<in> set ps then None else live (c_free P p) q)
      = (\<lambda>q. if q \<in> set (p # ps) then None else live P q)"
    by (auto simp: c_free_def)
  show ?case by (simp only: foldl.simps Cons.IH e l)
qed

lemma Clear_fields:
  "live (Clear P) = (\<lambda>q. if q \<in> set (free_bufs P) then None else live P q)"
  "free_bufs (Clear P) = []" "bufferSize (Clear P) = bufferSize P" "brk (Clear P) = brk P"
  "mem (Clear P) = mem P" "allocations (Clear P) = allocations P - length (free_bufs P)"
  by (simp_all add: Clear_def foldl_c_free)

lemma dom_Clear: "dom (live (Clear P)) = wild P"
  by (auto simp: Clear_fields wild_def dom_def split: if_splits)

lemma Clear_inv:
  assumes "pool_inv P"
  shows "pool_inv (Clear P)" and "wild (Clear P) = wild P"
proof -
  have "card (wild P) = allocations P - length (free_bufs P)"
    using assms unfolding wild_def pool_inv_def
    by (metis card_Diff_subset distinct_card finite_set)
  moreover have "finite (wild P)"
    using assms by (simp add: wild_def pool_inv_def)
  ultimately show "pool_inv (Clear P)"
    using assms dom_Clear [of P] unfolding pool_inv_def
    by (auto simp: Clear_fields split: if_splits)
  show "wild (Clear P) = wild P"
    using dom_Clear [of P] by (simp add: wild_def [of "Clear P"] Clear_fields)
qed

lemma Clear_allocations: "pool_inv P \<Longrightarrow> allocations (Clear P) = 0 \<longleftrightarrow> wild P = {}"
  using Clear_inv(1) [of P] dom_Clear [of P]
  by (auto simp: pool_inv_def)

lemma SetBufferSize_mem [simp]: "mem (fst (SetBufferSize P n)) = mem P"
  by (simp add: SetBufferSize_def Let_def Clear_fields)

subsection \<open>What the clients rely on\<close>

locale buffer_store =
  fixes inv :: "'p \<Rightarrow> bool"
    and out :: "'p \<Rightarrow> ptr set"
    and bytes :: "'p \<Rightarrow> memory"
    and alloc :: "'p \<Rightarrow> 'p \<times> ptr"
    and release :: "'p \<Rightarrow> ptr \<Rightarrow> 'p"
    and store :: "'p \<Rightarrow> ptr \<Rightarrow> nat \<Rightarrow> u8 list \<Rightarrow> 'p"
  assumes st_alloc_inv: "inv P \<Longrightarrow> inv (fst (alloc P))"
    and st_alloc_out: "inv P \<Longrightarrow> out (fst (alloc P)) = insert (snd (alloc P)) (out P)"
    and st_alloc_fresh: "inv P \<Longrightarrow> snd (alloc P) \<notin> out P"
    and st_alloc_bytes: "bytes (fst (alloc P)) = bytes P"
    and st_release_inv: "inv P \<Longrightarrow> p \<in> out P \<Longrightarrow> inv (release P p)"
    and st_release_out: "out (release P p) = out P - {p}"
    and st_release_bytes: "bytes (release P p) = bytes P"
    and st_store_inv: "inv (store P p off bs) = inv P"
    and st_store_out: "out (store P p off bs) = out P"
    and st_store_bytes: "bytes (store P p off bs) = mwrite (bytes P) p off bs"
begin

text \<open>Allocate a buffer and fill it: nothing else in use changes.\<close>

lemma fill_inv: "inv P \<Longrightarrow> inv (store (fst (alloc P)) (snd (alloc P)) off bs)"
  by (simp add: st_store_inv st_alloc_inv)

lemma fill_out: "inv P \<Longrightarrow> out (store (fst (alloc P)) (snd (alloc P)) off bs) = insert (snd (alloc P)) (out P)"
  by (simp add: st_store_out st_alloc_out)

lemma fill_other:
  "inv P \<Longrightarrow> q \<in> out P \<Longrightarrow> bytes (store (fst (alloc P)) (snd (alloc P)) off bs) q = bytes P q"
  using st_alloc_fresh [of P] by (auto simp: st_store_bytes st_alloc_bytes mwrite_def)

lemma fill_same:
  "mread (bytes (store (fst (alloc P)) (snd (alloc P)) off bs)) (snd (alloc P)) off (length bs) = bs"
  by (simp add: st_store_bytes st_alloc_bytes mread_same)

text \<open>A buffer that is allocated and given back leaves no trace.\<close>

lemma give_back_inv: "inv P \<Longrightarrow> inv (release (fst (alloc P)) (snd (alloc P)))"
  by (simp add: st_alloc_inv st_alloc_out st_release_inv)

lemma give_back_out: "inv P \<Longrightarrow> out (release (fst (alloc P)) (snd (alloc P))) = out P"
  using st_alloc_fresh [of P] by (auto simp: st_release_out st_alloc_out)

text \<open>Giving back a list of distinct buffers.\<close>

lemma release_all:
  "inv P \<Longrightarrow> distinct ps \<Longrightarrow> set ps \<subseteq> out P \<Longrightarrow>
     inv (foldl release P ps) \<and> out (foldl release P ps) = out P - set ps
       \<and> bytes (foldl release P ps) = bytes P"
proof (induction ps arbitrary: P)
  case Nil
  then show ?case by simp
next
  case (Cons p ps)
  then have "inv (release P p)" and "set ps \<subseteq> out (release P p)"
    by (auto simp: st_release_inv st_release_out)
  with Cons show ?case
    by (auto simp: st_release_out st_release_bytes)
qed

end

interpretation bp: buffer_store pool_inv wild mem Alloc pool_Release put
  by unfold_locales (simp_all add: alloc_inv alloc_wild alloc_fresh release_inv release_wild)

subsection \<open>The contract of SetBufferSize\<close>

lemma SetBufferSize_cases:
  assumes "pool_inv P"
  shows "snd (SetBufferSize P n) \<longleftrightarrow> wild P = {}"
    and "pool_inv (fst (SetBufferSize P n))"
    and "wild (fst (SetBufferSize P n)) = wild P"
    and "bufferSize (fst (SetBufferSize P n)) = (if wild P = {} then max n MIN_SIZE else bufferSize P)"
proof -
  have z: "allocations (Clear P) = 0 \<longleftrightarrow> wild P = {}"
    by (rule Clear_allocations [OF assms])
  show "snd (SetBufferSize P n) \<longleftrightarrow> wild P = {}"
    using z by (simp add: SetBufferSize_def Let_def)
  show "bufferSize (fst (SetBufferSize P n)) = (if wild P = {} then max n MIN_SIZE else bufferSize P)"
    using z by (auto simp: SetBufferSize_def Let_def Clear_fields max_def)
  show "wild (fst (SetBufferSize P n)) = wild P"
    using Clear_inv [OF assms] by (simp add: SetBufferSize_def Let_def wild_def)
  show "pool_inv (fst (SetBufferSize P n))"
    using Clear_inv(1) [OF assms] z dom_Clear [of P]
    by (auto simp: SetBufferSize_def Let_def pool_inv_def dom_def)
qed

text \<open>
  The program's use of the pool as a step machine: any sequence of allocations, releases of
  buffers in use, writes into buffers and size changes.
\<close>

datatype pool_op = OpAlloc | OpRelease ptr | OpSetSize u32 | OpPut ptr nat "u8 list"

fun pool_step :: "pool \<Rightarrow> pool_op \<Rightarrow> pool" where
  "pool_step P OpAlloc = fst (Alloc P)"
| "pool_step P (OpRelease p) = pool_Release P p"
| "pool_step P (OpSetSize n) = fst (SetBufferSize P n)"
| "pool_step P (OpPut p off bs) = put P p off bs"

text \<open>A client gives back only a buffer it holds.\<close>

fun pool_op_ok :: "pool \<Rightarrow> pool_op \<Rightarrow> bool" where
  "pool_op_ok P (OpRelease p) = (p \<in> wild P)"
| "pool_op_ok P _ = True"

inductive pool_run :: "pool \<Rightarrow> bool" where
  start: "pool_run (BufferPool_init m)"
| step: "pool_run P \<Longrightarrow> pool_op_ok P a \<Longrightarrow> pool_run (pool_step P a)"

lemma pool_run_inv: "pool_run P \<Longrightarrow> pool_inv P"
proof (induction rule: pool_run.induct)
  case (start m)
  show ?case by (rule pool_inv_init)
next
  case (step P a)
  then show ?case
    by (cases a) (simp_all add: alloc_inv release_inv SetBufferSize_cases)
qed

subsection \<open>Properties\<close>

text \<open>C16: In every state the program can reach, \<open>Alloc\<close> returns a buffer nobody else holds, live
  and of the current size; it becomes the caller's and everything the others hold stays theirs
  with its bytes.\<close>

theorem Alloc_fresh_buffer:
  assumes "pool_run P" and "Alloc P = (P', p)"
  shows "p \<notin> wild P \<and> wild P' = insert p (wild P) \<and> live P' p = Some (bufferSize P)
    \<and> mem P' = mem P \<and> pool_inv P'"
proof -
  have inv: "pool_inv P" by (rule pool_run_inv [OF assms(1)])
  have e: "P' = fst (Alloc P)" "p = snd (Alloc P)" using assms(2) by simp_all
  have w: "p \<notin> wild P" "wild P' = insert p (wild P)" "pool_inv P'" "mem P' = mem P"
    using alloc_fresh [OF inv] alloc_wild [OF inv] alloc_inv [OF inv] by (simp_all add: e)
  then have "p \<in> dom (live P')" by (auto simp: wild_def)
  then obtain n where n: "live P' p = Some n" by auto
  with w have "n = bufferSize P'" by (simp add: pool_inv_def)
  then show ?thesis using n w by (simp add: e)
qed

text \<open>One buffer is taken and given back; the next allocation reuses it.\<close>

definition pool_sample :: pool where
  "pool_sample = pool_step (pool_step (BufferPool_init (\<lambda>_ _. 7)) OpAlloc) (OpRelease 0)"

lemma pool_sample_run: "pool_run pool_sample"
  unfolding pool_sample_def
  by (intro pool_run.step pool_run.start)
     (simp_all add: wild_def Alloc_def c_malloc_def BufferPool_init_def)

lemma Alloc_fresh_buffer_witness:
  "Alloc pool_sample = (pool_sample\<lparr>free_bufs := []\<rparr>, 0) \<and> live (pool_sample\<lparr>free_bufs := []\<rparr>) 0 = Some 16384"
proof -
  have a: "Alloc pool_sample = (pool_sample\<lparr>free_bufs := []\<rparr>, 0)" "bufferSize pool_sample = 16384"
    by (simp_all add: pool_sample_def Alloc_def pool_Release_def c_malloc_def BufferPool_init_def MIN_SIZE_def)
  from Alloc_fresh_buffer [OF pool_sample_run this(1)] a show ?thesis by simp
qed

text \<open>C18: \<open>SetBufferSize\<close> succeeds exactly when no client holds a buffer; then the size is the
  requested one, at least 16384.  Otherwise nothing the clients hold changes, nor the size.\<close>

theorem SetBufferSize_contract:
  assumes "pool_run P" and "SetBufferSize P n = (P', ok)"
  shows "ok = (wild P = {}) \<and> wild P' = wild P \<and> pool_inv P' \<and> mem P' = mem P
    \<and> bufferSize P' = (if ok then max n MIN_SIZE else bufferSize P)"
  using SetBufferSize_cases [OF pool_run_inv [OF assms(1)], of n] SetBufferSize_mem [of P n] assms(2)
  by simp_all

lemma SetBufferSize_contract_witness:
  "bufferSize (fst (SetBufferSize pool_sample 32768)) = 32768 \<and> snd (SetBufferSize pool_sample 32768)"
proof -
  have w: "wild pool_sample = {}"
    by (auto simp: pool_sample_def wild_def Alloc_def pool_Release_def c_malloc_def BufferPool_init_def)
  obtain P' ok where e: "SetBufferSize pool_sample 32768 = (P', ok)" by (rule prod.exhaust)
  from SetBufferSize_contract [OF pool_sample_run e] w show ?thesis
    by (simp add: e MIN_SIZE_def)
qed

end
