(* ===== verification/Formats.thy ===== *)
theory Formats
  imports Prelude
begin

section \<open>Formats and task options (src/cso.h, src/dax.h, src/compress.h)\<close>

text \<open>
  The constants, enumerations and packed header structures the other parts share, the byte
  layout of the headers, and the \<open>Task\<close> a client hands in.
\<close>

subsection \<open>cso.h\<close>

datatype CSOFormat = CSO_FMT_CSO1 | CSO_FMT_CSO2 | CSO_FMT_ZSO | CSO_FMT_DAX

definition CSO_MAGIC :: "u8 list" where "CSO_MAGIC = [0x43, 0x49, 0x53, 0x4F]"
definition ZSO_MAGIC :: "u8 list" where "ZSO_MAGIC = [0x5A, 0x49, 0x53, 0x4F]"
definition CSO_INDEX_UNCOMPRESSED :: u32 where "CSO_INDEX_UNCOMPRESSED = 0x80000000"
definition CSO2_INDEX_LZ4 :: u32 where "CSO2_INDEX_LZ4 = 0x80000000"
definition SECTOR_SIZE :: nat where "SECTOR_SIZE = 0x800"
definition SECTOR_MASK :: nat where "SECTOR_MASK = 0x7FF"

record CSOHeader =
  magic :: "u8 list"
  header_size :: u32
  uncompressed_size :: u64
  sector_size :: u32
  version :: u8
  index_shift :: u8
  unused :: "u8 list"

definition sizeof_CSOHeader :: nat where "sizeof_CSOHeader = 24"

text \<open>The packed little-endian image of the structure, and its inverse.\<close>

definition cso_header_bytes :: "CSOHeader \<Rightarrow> u8 list" where
  "cso_header_bytes h = magic h @ le32 (header_size h) @ le64 (uncompressed_size h)
     @ le32 (sector_size h) @ [version h, index_shift h] @ unused h"

definition cso_header_of :: "u8 list \<Rightarrow> CSOHeader" where
  "cso_header_of b = \<lparr>magic = take 4 b, header_size = rd32 b 4, uncompressed_size = rd64 b 8,
     sector_size = rd32 b 16, version = b ! 20, index_shift = b ! 21,
     unused = take 2 (drop 22 b)\<rparr>"

definition cso_header_wf :: "CSOHeader \<Rightarrow> bool" where
  "cso_header_wf h \<longleftrightarrow> length (magic h) = 4 \<and> length (unused h) = 2"

lemma length_cso_header_bytes:
  "cso_header_wf h \<Longrightarrow> length (cso_header_bytes h) = sizeof_CSOHeader"
  by (simp add: cso_header_wf_def cso_header_bytes_def sizeof_CSOHeader_def)

lemma cso_header_of_bytes:
  assumes "cso_header_wf h"
  shows "cso_header_of (cso_header_bytes h @ r) = h"
proof -
  have m: "length (magic h) = 4" and u: "length (unused h) = 2"
    using assms by (simp_all add: cso_header_wf_def)
  have 1: "rd32 (cso_header_bytes h @ r) 4 = header_size h"
    using rd32_at [OF m] by (simp add: cso_header_bytes_def)
  have 2: "rd64 (cso_header_bytes h @ r) 8 = uncompressed_size h"
    using rd64_at [of "magic h @ le32 (header_size h)" 8] m by (simp add: cso_header_bytes_def)
  have 3: "rd32 (cso_header_bytes h @ r) 16 = sector_size h"
    using rd32_at [of "magic h @ le32 (header_size h) @ le64 (uncompressed_size h)" 16] m
    by (simp add: cso_header_bytes_def)
  show ?thesis
    using m u by (simp add: cso_header_of_def 1 2 3) (simp add: cso_header_bytes_def nth_append)
qed

subsection \<open>dax.h\<close>

definition DAX_MAGIC :: "u8 list" where "DAX_MAGIC = [0x44, 0x41, 0x58, 0x00]"
definition DAX_FRAME_SIZE :: nat where "DAX_FRAME_SIZE = 0x2000"
definition DAX_FRAME_MASK :: nat where "DAX_FRAME_MASK = 0x1FFF"
definition DAX_FRAME_SHIFT :: nat where "DAX_FRAME_SHIFT = 13"

record DAXHeader =
  dax_magic :: "u8 list"
  dax_uncompressed_size :: u32
  dax_version :: u32
  nc_areas :: u32
  dax_unused :: "u32 list"

record DAXNCArea =
  area_start :: u32
  area_count :: u32

definition sizeof_DAXHeader :: nat where "sizeof_DAXHeader = 32"

definition dax_header_bytes :: "DAXHeader \<Rightarrow> u8 list" where
  "dax_header_bytes h = dax_magic h @ le32 (dax_uncompressed_size h) @ le32 (dax_version h)
     @ le32 (nc_areas h) @ concat (map le32 (dax_unused h))"

text \<open>A header read from the first 24 of its bytes; \<open>unused\<close> is not looked at.\<close>

definition dax_header_of :: "u8 list \<Rightarrow> DAXHeader" where
  "dax_header_of b = \<lparr>dax_magic = take 4 b, dax_uncompressed_size = rd32 b 4, dax_version = rd32 b 8,
     nc_areas = rd32 b 12, dax_unused = []\<rparr>"

definition dax_header_wf :: "DAXHeader \<Rightarrow> bool" where
  "dax_header_wf h \<longleftrightarrow> length (dax_magic h) = 4 \<and> length (dax_unused h) = 4"

lemma length_dax_header_bytes:
  "dax_header_wf h \<Longrightarrow> length (dax_header_bytes h) = sizeof_DAXHeader"
  by (simp add: dax_header_wf_def dax_header_bytes_def sizeof_DAXHeader_def)

lemma dax_header_fields:
  assumes "dax_header_wf h"
  shows "take 4 (dax_header_bytes h @ r) = dax_magic h"
    and "rd32 (dax_header_bytes h @ r) 4 = dax_uncompressed_size h"
    and "rd32 (dax_header_bytes h @ r) 8 = dax_version h"
    and "rd32 (dax_header_bytes h @ r) 12 = nc_areas h"
proof -
  have m: "length (dax_magic h) = 4"
    using assms by (simp add: dax_header_wf_def)
  show "take 4 (dax_header_bytes h @ r) = dax_magic h"
    using m by (simp add: dax_header_bytes_def)
  show "rd32 (dax_header_bytes h @ r) 4 = dax_uncompressed_size h"
    using rd32_at [OF m] by (simp add: dax_header_bytes_def)
  show "rd32 (dax_header_bytes h @ r) 8 = dax_version h"
    using rd32_at [of "dax_magic h @ le32 (dax_uncompressed_size h)" 8] m
    by (simp add: dax_header_bytes_def)
  show "rd32 (dax_header_bytes h @ r) 12 = nc_areas h"
    using rd32_at [of "dax_magic h @ le32 (dax_uncompressed_size h) @ le32 (dax_version h)" 12] m
    by (simp add: dax_header_bytes_def)
qed

subsection \<open>compress.h: statuses, flags, tasks\<close>

definition DEFAULT_BLOCK_SIZE :: u32 where "DEFAULT_BLOCK_SIZE = 0xFFFFFFFF"

datatype TaskStatus = TASK_INPROGRESS | TASK_SUCCESS | TASK_BAD_INPUT | TASK_BAD_OUTPUT
  | TASK_INVALID_DATA | TASK_CANNOT_WRITE | TASK_INVALID_OPTION

definition TASKFLAG_NO_ZLIB :: u32 where "TASKFLAG_NO_ZLIB = 0x03"
definition TASKFLAG_NO_ZLIB_DEFAULT :: u32 where "TASKFLAG_NO_ZLIB_DEFAULT = 0x01"
definition TASKFLAG_NO_ZLIB_BRUTE :: u32 where "TASKFLAG_NO_ZLIB_BRUTE = 0x02"
definition TASKFLAG_NO_ZOPFLI :: u32 where "TASKFLAG_NO_ZOPFLI = 0x04"
definition TASKFLAG_NO_7ZIP :: u32 where "TASKFLAG_NO_7ZIP = 0x08"
definition TASKFLAG_NO_LIBDEFLATE :: u32 where "TASKFLAG_NO_LIBDEFLATE = 0x1000"
definition TASKFLAG_FORCE_ALL :: u32 where "TASKFLAG_FORCE_ALL = 0x10"
definition TASKFLAG_FMT_ZSO :: u32 where "TASKFLAG_FMT_ZSO = 0x20"
definition TASKFLAG_FMT_CSO_2 :: u32 where "TASKFLAG_FMT_CSO_2 = 0x40"
definition TASKFLAG_NO_LZ4 :: u32 where "TASKFLAG_NO_LZ4 = 0x380"
definition TASKFLAG_NO_LZ4_DEFAULT :: u32 where "TASKFLAG_NO_LZ4_DEFAULT = 0x80"
definition TASKFLAG_NO_LZ4_HC :: u32 where "TASKFLAG_NO_LZ4_HC = 0x100"
definition TASKFLAG_NO_LZ4_HC_BRUTE :: u32 where "TASKFLAG_NO_LZ4_HC_BRUTE = 0x200"
definition TASKFLAG_NO_ALL :: u32 where
  "TASKFLAG_NO_ALL = TASKFLAG_NO_ZLIB OR TASKFLAG_NO_ZOPFLI OR TASKFLAG_NO_7ZIP
     OR TASKFLAG_NO_LZ4 OR TASKFLAG_NO_LIBDEFLATE"
definition TASKFLAG_DECOMPRESS :: u32 where "TASKFLAG_DECOMPRESS = 0x400"
definition TASKFLAG_MEASURE :: u32 where "TASKFLAG_MEASURE = 0x2000"
definition TASKFLAG_FMT_DAX :: u32 where "TASKFLAG_FMT_DAX = 0x800"

lemmas flag_defs = TASKFLAG_NO_ZLIB_def TASKFLAG_NO_ZLIB_DEFAULT_def TASKFLAG_NO_ZLIB_BRUTE_def
  TASKFLAG_NO_ZOPFLI_def TASKFLAG_NO_7ZIP_def TASKFLAG_NO_LIBDEFLATE_def TASKFLAG_FORCE_ALL_def
  TASKFLAG_FMT_ZSO_def TASKFLAG_FMT_CSO_2_def TASKFLAG_NO_LZ4_def TASKFLAG_NO_LZ4_DEFAULT_def
  TASKFLAG_NO_LZ4_HC_def TASKFLAG_NO_LZ4_HC_BRUTE_def TASKFLAG_NO_ALL_def TASKFLAG_DECOMPRESS_def
  TASKFLAG_MEASURE_def TASKFLAG_FMT_DAX_def

text \<open>\<open>if (flags & F)\<close>.\<close>

definition has_flag :: "u32 \<Rightarrow> u32 \<Rightarrow> bool" where
  "has_flag flags f \<longleftrightarrow> flags AND f \<noteq> 0"

text \<open>
  A task.  The two percentages are C++ doubles; all the program computes from them is
  \<open>static_cast<uint32_t>((percent * blockSize) / 100)\<close>, so a percentage is represented by
  that function of the block size.  The progress and error callbacks are events of the model.
\<close>

record Task =
  task_input :: string
  task_output :: string
  task_block_size :: u32
  task_flags :: u32
  orig_max_cost_percent :: "u32 \<Rightarrow> u32"
  lz4_max_cost_percent :: "u32 \<Rightarrow> u32"

text \<open>
  What a task reports through its callbacks: \<open>Notify\<close> with positions calls \<open>progress\<close> for the
  two good statuses and \<open>error\<close> (without a reason) otherwise; \<open>Notify\<close> with a reason calls
  \<open>error\<close>.
\<close>

datatype task_event = EvProgress TaskStatus int int int | EvError TaskStatus "string option"

definition Notify :: "TaskStatus \<Rightarrow> int \<Rightarrow> int \<Rightarrow> int \<Rightarrow> task_event" where
  "Notify status pos total_size written =
     (if status = TASK_INPROGRESS \<or> status = TASK_SUCCESS then EvProgress status pos total_size written
      else EvError status None)"

definition Notify_reason :: "TaskStatus \<Rightarrow> string \<Rightarrow> task_event" where
  "Notify_reason status reason = EvError status (Some reason)"

end
