(* ===== verification/Sector.thy ===== *)
theory Sector
  imports BufferPool Formats
begin

section \<open>One output block and its compression trials (src/sector.cpp, src/sector.h)\<close>

text \<open>
  A \<open>Sector\<close> collects the 2048-byte sectors of one output block, tries every enabled
  compressor on the finished block in a worker thread and keeps the best result.  Each
  operation takes the pool and the sector and returns both; a worker's job is one operation,
  because only the worker touches the sector while the job runs.

  The compressors (zlib, zopfli, 7-zip, libdeflate, lz4) are a parameter of the model: a
  record with one function per library call.  A trial's result is a success flag and the bytes
  the call wrote into the buffer it was given; the number of bytes is the size it reports.
\<close>

subsection \<open>The library calls\<close>

datatype SectorFormat = SECTOR_FMT_ORIG | SECTOR_FMT_DEFLATE | SECTOR_FMT_LZ4

datatype zstrategy = Z_DEFAULT_STRATEGY | Z_FILTERED | Z_HUFFMAN_ONLY | Z_RLE

record zstream =
  z_strategy :: zstrategy
  z_withHeader :: bool

record codecs =
  zlib_init :: "zstream \<Rightarrow> bool"
  zlib_reset :: "zstream \<Rightarrow> bool"
  zlib_deflate :: "zstream \<Rightarrow> nat \<Rightarrow> u8 list \<Rightarrow> bool \<times> u8 list"
  zopfli :: "bool \<Rightarrow> u8 list \<Rightarrow> u8 list option"
  deflate7z :: "bool \<Rightarrow> nat \<Rightarrow> u8 list \<Rightarrow> bool \<times> u8 list"
  libdeflate :: "bool \<Rightarrow> nat \<Rightarrow> u8 list \<Rightarrow> bool \<times> u8 list"
  lz4_hc :: "nat \<Rightarrow> nat \<Rightarrow> u8 list \<Rightarrow> bool \<times> u8 list"
  lz4_default :: "nat \<Rightarrow> u8 list \<Rightarrow> bool \<times> u8 list"

subsection \<open>State\<close>

text \<open>
  \<open>s_ready\<close>, the stored completion callback, is represented by the block number it was
  created for (all of Output's callbacks differ only in that); \<open>None\<close> is the empty function.
\<close>

record sector =
  s_flags :: u32
  s_align :: u32
  s_origMaxCost :: u32
  s_lz4MaxCost :: u32
  s_busy :: bool
  s_enqueued :: bool
  s_compress :: bool
  s_blockSize :: u32
  s_readySize :: u32
  s_pos :: int
  s_buffer :: "ptr option"
  s_best :: "ptr option"
  s_bestSize :: u32
  s_bestFmt :: SectorFormat
  s_ready :: "u32 option"
  s_zStreams :: "zstream list"

subsection \<open>Construction and set-up\<close>

definition AddZlib :: "codecs \<Rightarrow> zstream list \<Rightarrow> zstrategy \<Rightarrow> bool \<Rightarrow> zstream list" where
  "AddZlib cx list strategy withHeader =
     (let z = \<lparr>z_strategy = strategy, z_withHeader = withHeader\<rparr>
      in if \<not> zlib_init cx z then list else list @ [z])"

text \<open>
  The constructor; \<open>s0\<close> supplies the fields it leaves uninitialised.
\<close>

definition Sector_new :: "codecs \<Rightarrow> sector \<Rightarrow> u32 \<Rightarrow> sector" where
  "Sector_new cx s0 flags =
     (let withHeader = has_flag flags TASKFLAG_FMT_DAX;
          z0 = [];
          z1 = (if \<not> has_flag flags TASKFLAG_NO_ZLIB_DEFAULT
                then AddZlib cx z0 Z_DEFAULT_STRATEGY withHeader else z0);
          z2 = (if \<not> has_flag flags TASKFLAG_NO_ZLIB_BRUTE
                then AddZlib cx (AddZlib cx (AddZlib cx z1 Z_FILTERED withHeader)
                       Z_HUFFMAN_ONLY withHeader) Z_RLE withHeader
                else z1)
      in s0\<lparr>s_flags := flags, s_origMaxCost := 0, s_lz4MaxCost := 0, s_busy := False,
            s_enqueued := False, s_compress := True, s_readySize := 0, s_buffer := None,
            s_best := None, s_ready := None, s_zStreams := z2\<rparr>)"

definition Setup :: "sector \<Rightarrow> u32 \<Rightarrow> u32 \<Rightarrow> u32 \<Rightarrow> u32 \<Rightarrow> sector" where
  "Setup s blockSize align origMaxCost lz4MaxCost =
     s\<lparr>s_blockSize := blockSize, s_align := align, s_origMaxCost := origMaxCost,
       s_lz4MaxCost := lz4MaxCost\<rparr>"

definition DisableCompress :: "sector \<Rightarrow> sector" where
  "DisableCompress s = s\<lparr>s_compress := False\<rparr>"

definition BestBuffer :: "sector \<Rightarrow> ptr option" where
  "BestBuffer s = (case s_best s of None \<Rightarrow> s_buffer s | Some b \<Rightarrow> Some b)"

definition BestSize :: "sector \<Rightarrow> u32" where
  "BestSize s = s_bestSize s"

definition Compressed :: "sector \<Rightarrow> bool" where
  "Compressed s \<longleftrightarrow> s_best s \<noteq> None"

definition Pos :: "sector \<Rightarrow> int" where
  "Pos s = s_pos s"

definition Format :: "sector \<Rightarrow> SectorFormat" where
  "Format s = s_bestFmt s"

definition AlignedBestSize :: "sector \<Rightarrow> u32 \<Rightarrow> u32" where
  "AlignedBestSize s align =
     (let off = s_bestSize s mod align
      in if off \<noteq> 0 then s_bestSize s + align - off else s_bestSize s)"

text \<open>The block the trials compress: \<open>s_blockSize\<close> bytes at \<open>s_buffer\<close>.\<close>

definition block_data :: "pool \<Rightarrow> sector \<Rightarrow> u8 list" where
  "block_data P s = mread (mem P) (the (s_buffer s)) 0 (unat (s_blockSize s))"

subsection \<open>Collecting the sectors of a block\<close>

text \<open>
  What a call of \<open>Process\<close> leads to: nothing yet, a job for the worker pool, a call of a
  completion callback, or (where the code calls \<open>s_ready\<close> before it was ever set) the
  exception of an empty \<open>std::function\<close>.
\<close>

datatype process_result = PWait | PQueued | PReady u32 bool string | PBadCall

definition call_ready :: "sector \<Rightarrow> bool \<Rightarrow> string \<Rightarrow> process_result" where
  "call_ready s ok reason = (case s_ready s of None \<Rightarrow> PBadCall | Some cb \<Rightarrow> PReady cb ok reason)"

text \<open>\<open>pos & ~static_cast<uint64_t>(blockSize - 1)\<close>, back in \<open>int64_t\<close>.\<close>

definition block_pos :: "int \<Rightarrow> u32 \<Rightarrow> int" where
  "block_pos pos blockSize = sint ((word_of_int pos :: u64) AND NOT (ucast (blockSize - 1)))"

definition copy_sector :: "pool \<Rightarrow> ptr \<Rightarrow> nat \<Rightarrow> ptr \<Rightarrow> pool" where
  "copy_sector P dst off src = put P dst off (mread (mem P) src 0 SECTOR_SIZE)"

definition Process :: "pool \<Rightarrow> sector \<Rightarrow> int \<Rightarrow> ptr \<Rightarrow> u32 \<Rightarrow> pool \<times> sector \<times> process_result" where
  "Process P s pos buffer ready =
     (let (P1, s1, bad) =
        (if \<not> s_busy s then
           let s1 = s\<lparr>s_busy := True, s_pos := block_pos pos (s_blockSize s),
                     s_bestSize := s_blockSize s, s_bestFmt := SECTOR_FMT_ORIG\<rparr>
           in if s_blockSize s1 = of_nat SECTOR_SIZE then (P, s1\<lparr>s_buffer := Some buffer\<rparr>, False)
              else
                let (P1, b) = Alloc P;
                    P2 = copy_sector P1 b (nat (pos - s_pos s1)) buffer
                in (pool_Release P2 buffer, s1\<lparr>s_buffer := Some b\<rparr>, False)
         else if (word_of_int (pos - s_pos s) :: u64) < ucast (bufferSize P) then
           (pool_Release (copy_sector P (the (s_buffer s)) (nat (pos - s_pos s)) buffer) buffer, s, False)
         else (P, s, True))
      in if bad then (P1, s1, call_ready s1 False ''Invalid buffer pos for this sector block'')
         else
           let s2 = s1\<lparr>s_readySize := s_readySize s1 + of_nat SECTOR_SIZE\<rparr>
           in if s_readySize s2 < s_blockSize s2 then (P1, s2, PWait)
              else if s_enqueued s2 then
                (P1, s2, call_ready s2 False ''Sector already waiting for queued operation'')
              else if s_compress s2 then
                (P1, s2\<lparr>s_enqueued := True, s_ready := Some ready\<rparr>, PQueued)
              else (P1, s2, PReady ready True []))"

subsection \<open>The trials\<close>

definition SubmitTrial :: "pool \<Rightarrow> sector \<Rightarrow> ptr \<Rightarrow> u32 \<Rightarrow> SectorFormat \<Rightarrow> (pool \<times> sector) \<times> bool" where
  "SubmitTrial P s result sz fmt =
     (let better = sz + s_origMaxCost s < s_bestSize s;
          better = (if has_flag (s_flags s) TASKFLAG_FMT_DAX
                    then (if \<not> better \<and> s_bestFmt s = SECTOR_FMT_ORIG then True else better)
                    else better);
          better = (if fmt = SECTOR_FMT_LZ4 \<and> s_bestFmt s = SECTOR_FMT_DEFLATE
                    then sz \<le> s_bestSize s + s_lz4MaxCost s
                    else if fmt = SECTOR_FMT_DEFLATE \<and> s_bestFmt s = SECTOR_FMT_LZ4
                    then sz + s_lz4MaxCost s < s_bestSize s
                    else better)
      in if better then
           ((case s_best s of None \<Rightarrow> P | Some b \<Rightarrow> pool_Release P b,
             s\<lparr>s_bestSize := sz, s_best := Some result, s_bestFmt := fmt\<rparr>), True)
         else ((pool_Release P result, s), False))"

text \<open>
  The common tail of the trials: the call wrote \<open>bs\<close> into the fresh buffer; on success the
  result is submitted, otherwise the buffer goes back.
\<close>

definition finish_trial :: "pool \<Rightarrow> sector \<Rightarrow> ptr \<Rightarrow> SectorFormat \<Rightarrow> bool \<times> u8 list \<Rightarrow> pool \<times> sector" where
  "finish_trial P s result fmt r =
     (let P1 = put P result 0 (snd r)
      in if fst r then fst (SubmitTrial P1 s result (of_nat (length (snd r))) fmt)
         else (pool_Release P1 result, s))"

definition ZlibTrial :: "codecs \<Rightarrow> pool \<Rightarrow> sector \<Rightarrow> zstream \<Rightarrow> pool \<times> sector" where
  "ZlibTrial cx P s z =
     (if \<not> zlib_reset cx z then (P, s)
      else
        let (P1, result) = Alloc P
        in finish_trial P1 s result SECTOR_FMT_DEFLATE
             (zlib_deflate cx z (unat (bufferSize P1)) (block_data P1 s)))"

definition ZopfliTrial :: "codecs \<Rightarrow> pool \<Rightarrow> sector \<Rightarrow> pool \<times> sector" where
  "ZopfliTrial cx P s =
     (case zopfli cx (has_flag (s_flags s) TASKFLAG_FMT_DAX) (block_data P s) of
        None \<Rightarrow> (P, s)
      | Some out \<Rightarrow>
          if 0 < length out \<and> length out < unat (bufferSize P) then
            let (P1, result) = Alloc P
            in finish_trial P1 s result SECTOR_FMT_DEFLATE (True, out)
          else (P, s))"

definition SevenZipTrial :: "codecs \<Rightarrow> pool \<Rightarrow> sector \<Rightarrow> pool \<times> sector" where
  "SevenZipTrial cx P s =
     (let (P1, result) = Alloc P
      in finish_trial P1 s result SECTOR_FMT_DEFLATE
           (deflate7z cx (has_flag (s_flags s) TASKFLAG_FMT_DAX) (unat (bufferSize P1)) (block_data P1 s)))"

definition LibDeflateTrial :: "codecs \<Rightarrow> pool \<Rightarrow> sector \<Rightarrow> pool \<times> sector" where
  "LibDeflateTrial cx P s =
     (let (P1, result) = Alloc P
      in finish_trial P1 s result SECTOR_FMT_DEFLATE
           (libdeflate cx (has_flag (s_flags s) TASKFLAG_FMT_DAX) (unat (bufferSize P1)) (block_data P1 s)))"

function LZ4HC_levels :: "codecs \<Rightarrow> pool \<Rightarrow> sector \<Rightarrow> nat \<Rightarrow> pool \<times> sector" where
  "LZ4HC_levels cx P s level =
     (if level \<le> 16 then
        let (P1, result) = Alloc P;
            (P2, s2) = finish_trial P1 s result SECTOR_FMT_LZ4
              (lz4_hc cx level (unat (bufferSize P1)) (block_data P1 s))
        in LZ4HC_levels cx P2 s2 (level + 3)
      else (P, s))"
  by pat_completeness auto
termination
  by (relation "measure (\<lambda>(cx, P, s, level). 17 - level)") auto

declare LZ4HC_levels.simps [simp del]

definition LZ4HCTrial :: "codecs \<Rightarrow> pool \<Rightarrow> sector \<Rightarrow> bool \<Rightarrow> pool \<times> sector" where
  "LZ4HCTrial cx P s allowBrute = LZ4HC_levels cx P s (if allowBrute then 4 else 16)"

definition LZ4Trial :: "codecs \<Rightarrow> pool \<Rightarrow> sector \<Rightarrow> pool \<times> sector" where
  "LZ4Trial cx P s =
     (let (P1, result) = Alloc P
      in finish_trial P1 s result SECTOR_FMT_LZ4
           (lz4_default cx (unat (bufferSize P1)) (block_data P1 s)))"

fun zlib_trials :: "codecs \<Rightarrow> pool \<Rightarrow> sector \<Rightarrow> zstream list \<Rightarrow> pool \<times> sector" where
  "zlib_trials cx P s [] = (P, s)"
| "zlib_trials cx P s (z # zs) = (let (P1, s1) = ZlibTrial cx P s z in zlib_trials cx P1 s1 zs)"

definition Compress :: "codecs \<Rightarrow> pool \<Rightarrow> sector \<Rightarrow> pool \<times> sector" where
  "Compress cx P s =
     (let f = s_flags s;
          (P, s) = zlib_trials cx P s (s_zStreams s);
          (P, s) = (if \<not> has_flag f TASKFLAG_NO_ZOPFLI then ZopfliTrial cx P s else (P, s));
          (P, s) = (if \<not> has_flag f TASKFLAG_NO_7ZIP then SevenZipTrial cx P s else (P, s));
          (P, s) = (if \<not> has_flag f TASKFLAG_NO_LIBDEFLATE then LibDeflateTrial cx P s else (P, s));
          (P, s) = (if \<not> has_flag f (TASKFLAG_NO_LZ4_HC OR TASKFLAG_NO_LZ4_HC_BRUTE)
                    then LZ4HCTrial cx P s (\<not> has_flag f TASKFLAG_NO_LZ4_HC_BRUTE) else (P, s));
          (P, s) = (if \<not> has_flag f TASKFLAG_NO_LZ4_DEFAULT then LZ4Trial cx P s else (P, s))
      in (P, s))"

definition FinalizeBest :: "pool \<Rightarrow> sector \<Rightarrow> u32 \<Rightarrow> pool \<times> sector" where
  "FinalizeBest P s align =
     (if AlignedBestSize s align \<ge> s_blockSize s \<and> s_best s \<noteq> None then
        if \<not> has_flag (s_flags s) TASKFLAG_FMT_DAX then
          (pool_Release P (the (s_best s)),
           s\<lparr>s_best := None, s_bestSize := s_blockSize s, s_bestFmt := SECTOR_FMT_ORIG\<rparr>)
        else (P, s)
      else (P, s))"

text \<open>The job queued by \<open>Process\<close>, and its completion on the main thread.\<close>

definition sector_work :: "codecs \<Rightarrow> pool \<Rightarrow> sector \<Rightarrow> pool \<times> sector" where
  "sector_work cx P s = (let (P1, s1) = Compress cx P s in FinalizeBest P1 s1 (s_align s1))"

definition sector_after_work :: "sector \<Rightarrow> int \<Rightarrow> process_result" where
  "sector_after_work s status =
     (if status < 0 then call_ready s False ''Failed to compress sector'' else call_ready s True [])"

definition sector_Release :: "pool \<Rightarrow> sector \<Rightarrow> pool \<times> sector" where
  "sector_Release P s =
     (let P1 = (case s_best s of None \<Rightarrow> P | Some b \<Rightarrow> pool_Release P b);
          P2 = (case s_buffer s of None \<Rightarrow> P1 | Some b \<Rightarrow> pool_Release P1 b)
      in (P2, s\<lparr>s_best := None, s_buffer := None, s_busy := False, s_enqueued := False,
               s_compress := True, s_readySize := 0\<rparr>))"

subsection \<open>What a trial may change\<close>

definition best_ptrs :: "sector \<Rightarrow> ptr set" where
  "best_ptrs s = set_option (s_best s)"

definition held :: "sector \<Rightarrow> ptr set" where
  "held s = set_option (s_buffer s) \<union> set_option (s_best s)"

text \<open>
  Between two states of a trial sequence only the best-result fields of the sector differ, the
  set of buffers in use outside the best result is the same, and their bytes are untouched.
\<close>

definition trial_step :: "pool \<times> sector \<Rightarrow> pool \<times> sector \<Rightarrow> bool" where
  "trial_step a b \<longleftrightarrow> (case (a, b) of ((P, s), (P', s')) \<Rightarrow>
     pool_inv P' \<and> bufferSize P' = bufferSize P
     \<and> s' = s\<lparr>s_best := s_best s', s_bestSize := s_bestSize s', s_bestFmt := s_bestFmt s'\<rparr>
     \<and> wild P' - best_ptrs s' = wild P - best_ptrs s
     \<and> best_ptrs s' \<subseteq> wild P' \<and> best_ptrs s' \<inter> (wild P - best_ptrs s) = {}
     \<and> (\<forall>q \<in> wild P - best_ptrs s. mem P' q = mem P q))"

definition trial_pre :: "pool \<times> sector \<Rightarrow> bool" where
  "trial_pre a \<longleftrightarrow> pool_inv (fst a) \<and> best_ptrs (snd a) \<subseteq> wild (fst a)"

lemma trial_step_refl: "trial_pre a \<Longrightarrow> trial_step a a"
  by (cases a) (simp add: trial_step_def trial_pre_def)

lemma trial_step_trans:
  assumes "trial_step a b" and "trial_step b c"
  shows "trial_step a c"
proof -
  obtain P s P' s' P'' s'' where e: "a = (P, s)" "b = (P', s')" "c = (P'', s'')"
    by (cases a; cases b; cases c)
  have 1: "s' = s\<lparr>s_best := s_best s', s_bestSize := s_bestSize s', s_bestFmt := s_bestFmt s'\<rparr>"
    using assms(1) by (simp add: trial_step_def e)
  have 2: "s'' = s'\<lparr>s_best := s_best s'', s_bestSize := s_bestSize s'', s_bestFmt := s_bestFmt s''\<rparr>"
    using assms(2) by (simp add: trial_step_def e)
  have "s'' = s\<lparr>s_best := s_best s'', s_bestSize := s_bestSize s'', s_bestFmt := s_bestFmt s''\<rparr>"
    by (subst 2, subst 1) simp
  then show ?thesis
    using assms unfolding trial_step_def e by auto
qed

lemma trial_step_pre: "trial_step a b \<Longrightarrow> trial_pre b"
  by (cases a; cases b) (simp add: trial_step_def trial_pre_def)

lemma trial_step_fields:
  assumes "trial_step (P, s) (P', s')"
  shows "s_flags s' = s_flags s" "s_align s' = s_align s" "s_blockSize s' = s_blockSize s"
    "s_buffer s' = s_buffer s" "s_pos s' = s_pos s" "s_busy s' = s_busy s"
    "s_enqueued s' = s_enqueued s" "s_compress s' = s_compress s" "s_readySize s' = s_readySize s"
    "s_ready s' = s_ready s" "s_zStreams s' = s_zStreams s" "bufferSize P' = bufferSize P"
    "s_origMaxCost s' = s_origMaxCost s" "s_lz4MaxCost s' = s_lz4MaxCost s"
proof -
  have "s' = s\<lparr>s_best := s_best s', s_bestSize := s_bestSize s', s_bestFmt := s_bestFmt s'\<rparr>"
    using assms by (simp add: trial_step_def)
  then have f: "\<exists>b z t. s' = s\<lparr>s_best := b, s_bestSize := z, s_bestFmt := t\<rparr>" by blast
  then show "s_flags s' = s_flags s" "s_align s' = s_align s" "s_blockSize s' = s_blockSize s"
    "s_buffer s' = s_buffer s" "s_pos s' = s_pos s" "s_busy s' = s_busy s"
    "s_enqueued s' = s_enqueued s" "s_compress s' = s_compress s" "s_readySize s' = s_readySize s"
    "s_ready s' = s_ready s" "s_zStreams s' = s_zStreams s"
    "s_origMaxCost s' = s_origMaxCost s" "s_lz4MaxCost s' = s_lz4MaxCost s"
    by auto
  show "bufferSize P' = bufferSize P"
    using assms by (simp add: trial_step_def)
qed

end
