(* ===== verification/Input.thy ===== *)
theory Input
  imports BufferPool Formats
begin

section \<open>Reading the input file (src/input.cpp, src/input.h)\<close>

text \<open>
  \<open>Input\<close> detects the format of its file and delivers the image, one 2048-byte sector at a
  time and in order, to its client.  The client's three callbacks are the record \<open>client\<close>,
  over the client's own state \<open>'w\<close>.  A callback may call \<open>Pause\<close> and \<open>Resume\<close> on the input;
  what it does to \<open>paused_\<close> is the function of the old flag it returns (no read is waiting to
  be resumed while a callback runs, so \<open>Resume\<close> has no other effect there).

  At most one libuv request is outstanding; it is the state's \<open>i_req\<close>, and the functions named
  \<open>..._done\<close> are the completion handlers.  What the environment answers (a result code, the
  bytes read) is an argument of the handler.  zlib's inflate and LZ4's partial decoder are
  parameters.
\<close>

subsection \<open>State\<close>

datatype FileType = UNKNOWN | ISO | CSO1 | CSO2 | ZSO | DAX

text \<open>
  Requests: the header, the index of a CSO or DAX file (with the number of bytes expected and
  the number of NC areas), fstat, a read into the cache, a decompression job (its destination
  buffer, offset of the source in the cache, length, offset of the wanted sector, method).
\<close>

datatype ireq = NoReq | ReqHeader ptr | ReqCsoIndex u32 | ReqDaxIndex u32 int | ReqStat
  | ReqRead int u32 u32 bool bool | ReqWork ptr nat u32 u32 bool

record inp =
  i_type :: FileType
  i_paused :: bool
  i_resumeShouldRead :: bool
  i_pos :: int
  i_size :: int
  i_cache :: "u8 list"
  i_cachePos :: int
  i_cacheSize :: nat
  i_csoIndexShift :: u8
  i_csoBlockShift :: nat
  i_csoBlockSize :: u32
  i_index :: "u32 list"
  i_daxSize :: "u16 list"
  i_daxIsNC :: "bool list"
  i_req :: ireq

record 'w client =
  on_sector :: "int \<Rightarrow> ptr \<Rightarrow> pool \<Rightarrow> 'w \<Rightarrow> pool \<times> 'w \<times> (bool \<Rightarrow> bool)"
  on_begin :: "int \<Rightarrow> pool \<Rightarrow> 'w \<Rightarrow> pool \<times> 'w \<times> (bool \<Rightarrow> bool)"
  on_finish :: "bool \<Rightarrow> string \<Rightarrow> 'w \<Rightarrow> 'w"

type_synonym 'w ist = "pool \<times> 'w \<times> inp"

text \<open>
  The decoders.  \<open>d_inflate\<close> gets the header mode, the input and the room in the output
  buffer; it returns whether the stream ended, zlib's message and the output.
  \<open>d_lz4\<close> gets the input and the destination size; it returns the library's result
  and the bytes written.
\<close>

record decoders =
  d_inflateInit :: "bool \<Rightarrow> bool \<times> string option"
  d_inflate :: "bool \<Rightarrow> u8 list \<Rightarrow> nat \<Rightarrow> bool \<times> string option \<times> u8 list"
  d_lz4 :: "u8 list \<Rightarrow> nat \<Rightarrow> int \<times> u8 list"

definition MAX_BLOCK_SIZE :: nat where "MAX_BLOCK_SIZE = 0x40000"

definition Input_new :: "inp \<Rightarrow> inp" where
  "Input_new x0 = x0\<lparr>i_type := UNKNOWN, i_paused := False, i_resumeShouldRead := False,
     i_size := -1, i_cache := [], i_index := [], i_daxSize := [], i_daxIsNC := [], i_req := NoReq\<rparr>"

definition fail :: "'w client \<Rightarrow> 'w ist \<Rightarrow> string \<Rightarrow> 'w ist" where
  "fail cl st reason = (case st of (P, w, x) \<Rightarrow> (P, on_finish cl False reason w, x))"

subsection \<open>Decompression\<close>

text \<open>Result: success, the size (or the old one) and the error text.\<close>

definition DecompressSectorDeflate ::
  "decoders \<Rightarrow> pool \<Rightarrow> ptr \<Rightarrow> u8 list \<Rightarrow> FileType \<Rightarrow> u32 \<Rightarrow> pool \<times> bool \<times> u32 \<times> string" where
  "DecompressSectorDeflate dx P dst src type readSize =
     (case d_inflateInit dx (type = DAX) of
        (False, msg) \<Rightarrow> (P, False, readSize, (case msg of Some m \<Rightarrow> m | None \<Rightarrow> ''Unable to initialize inflate''))
      | (True, _) \<Rightarrow>
          (case d_inflate dx (type = DAX) src (unat (bufferSize P)) of
             (ended, msg, out) \<Rightarrow>
               let P1 = put P dst 0 out
               in if \<not> ended then
                    (P1, False, readSize, (case msg of Some m \<Rightarrow> m | None \<Rightarrow> ''Inflate failed''))
                  else if length out < SECTOR_SIZE then
                    (P1, False, readSize, ''Expected to decompress into at least a full sector'')
                  else (P1, True, of_nat (length out), [])))"

definition DecompressSectorLZ4 ::
  "decoders \<Rightarrow> pool \<Rightarrow> ptr \<Rightarrow> u8 list \<Rightarrow> u32 \<Rightarrow> u32 \<Rightarrow> pool \<times> bool \<times> u32 \<times> string" where
  "DecompressSectorLZ4 dx P dst src dstSize readSize =
     (case d_lz4 dx src (unat dstSize) of
        (actualSize, out) \<Rightarrow>
          let P1 = put P dst 0 out
          in if actualSize < 0 then (P1, False, readSize, ''LZ4 decompression failed.'')
             else (P1, True, word_of_int actualSize, []))"

definition EnqueueDecompressSector :: "'w ist \<Rightarrow> nat \<Rightarrow> u32 \<Rightarrow> u32 \<Rightarrow> bool \<Rightarrow> 'w ist" where
  "EnqueueDecompressSector st src len offset isLZ4 =
     (case st of (P, w, x) \<Rightarrow>
        let (P1, actualBuf) = Alloc P
        in (P1, w, x\<lparr>i_req := ReqWork actualBuf src len offset isLZ4\<rparr>))"

subsection \<open>Finding a sector in the file\<close>

text \<open>\<open>static_cast<uint64_t>(index & 0x7FFFFFFF) << csoIndexShift_\<close> as \<open>int64_t\<close>.\<close>

definition index_pos :: "u32 \<Rightarrow> u8 \<Rightarrow> int" where
  "index_pos index shift = sint (push_bit (unat shift) (ucast (index AND 0x7FFFFFFF)) :: u64)"

record sector_loc =
  l_pos :: int
  l_offset :: u32
  l_len :: u32
  l_deflate :: bool
  l_lz4 :: bool

text \<open>
  An uncompressed block is addressed directly at the wanted sector.
\<close>

definition skip_offset :: "sector_loc \<Rightarrow> sector_loc" where
  "skip_offset l =
     (if \<not> l_deflate l \<and> \<not> l_lz4 l \<and> l_offset l \<noteq> 0
      then l\<lparr>l_pos := l_pos l + uint (l_offset l), l_len := l_len l - l_offset l, l_offset := 0\<rparr>
      else l)"

definition cso_loc :: "inp \<Rightarrow> sector_loc" where
  "cso_loc x =
     (let block = (word_of_int (drop_bit (i_csoBlockShift x) (i_pos x)) :: u32);
          index = i_index x ! unat block;
          nextIndex = i_index x ! unat (block + 1);
          pos = index_pos index (i_csoIndexShift x);
          nextPos = index_pos nextIndex (i_csoIndexShift x);
          len = (word_of_int (nextPos - pos) :: u32);
          offset = (ucast ((word_of_int (i_pos x) :: u64) AND ucast (i_csoBlockSize x - 1)) :: u32);
          flag = (index AND CSO_INDEX_UNCOMPRESSED \<noteq> 0)
      in skip_offset
           (case i_type x of
              CSO1 \<Rightarrow> \<lparr>l_pos = pos, l_offset = offset, l_len = len, l_deflate = \<not> flag, l_lz4 = False\<rparr>
            | CSO2 \<Rightarrow> if flag
                then \<lparr>l_pos = pos, l_offset = offset, l_len = len, l_deflate = False, l_lz4 = (len < i_csoBlockSize x)\<rparr>
                else \<lparr>l_pos = pos, l_offset = offset, l_len = len, l_deflate = (len < i_csoBlockSize x), l_lz4 = False\<rparr>
            | _ \<Rightarrow> \<lparr>l_pos = pos, l_offset = offset, l_len = len, l_deflate = False, l_lz4 = \<not> flag\<rparr>))"

definition dax_loc :: "inp \<Rightarrow> sector_loc" where
  "dax_loc x =
     (let frame = unat (word_of_int (drop_bit DAX_FRAME_SHIFT (i_pos x)) :: u32)
      in skip_offset \<lparr>l_pos = uint (i_index x ! frame),
           l_offset = word_of_int (i_pos x mod int DAX_FRAME_SIZE),
           l_len = ucast (i_daxSize x ! frame), l_deflate = \<not> i_daxIsNC x ! frame, l_lz4 = False\<rparr>)"

definition plain_loc :: "inp \<Rightarrow> sector_loc" where
  "plain_loc x = \<lparr>l_pos = i_pos x, l_offset = 0, l_len = of_nat SECTOR_SIZE, l_deflate = False, l_lz4 = False\<rparr>"

definition locate :: "inp \<Rightarrow> sector_loc" where
  "locate x = (case i_type x of
      ISO \<Rightarrow> plain_loc x
    | CSO1 \<Rightarrow> cso_loc x | CSO2 \<Rightarrow> cso_loc x | ZSO \<Rightarrow> cso_loc x
    | DAX \<Rightarrow> dax_loc x
    | UNKNOWN \<Rightarrow> plain_loc x)"

subsection \<open>ReadSector\<close>

text \<open>Hand a sector-sized copy of the cache to the client.\<close>

definition deliver_plain :: "'w client \<Rightarrow> 'w ist \<Rightarrow> nat \<Rightarrow> u32 \<Rightarrow> 'w ist" where
  "deliver_plain cl st src len =
     (case st of (P, w, x) \<Rightarrow>
        let (P1, readBuf) = Alloc P;
            P2 = put P1 readBuf 0 (take (unat len) (drop src (i_cache x)));
            (P3, w3, f) = on_sector cl (i_pos x) readBuf P2 w
        in (P3, w3, x\<lparr>i_paused := f (i_paused x), i_pos := i_pos x + int SECTOR_SIZE\<rparr>))"

definition cached :: "inp \<Rightarrow> sector_loc \<Rightarrow> bool" where
  "cached x l \<longleftrightarrow> l_pos l \<ge> i_cachePos x
     \<and> l_pos l + uint (l_len l) \<le> i_cachePos x + int (i_cacheSize x)"

lemma deliver_plain_progress:
  "snd (snd (deliver_plain cl (P, w, x) src len)) = x' \<Longrightarrow>
     i_pos x' = i_pos x + int SECTOR_SIZE \<and> i_size x' = i_size x"
  by (auto simp: deliver_plain_def Let_def split: prod.splits)

function ReadSector :: "'w client \<Rightarrow> 'w ist \<Rightarrow> 'w ist" where
  "ReadSector cl (P, w, x) =
     (if i_pos x \<ge> i_size x then (P, on_finish cl True [] w, x)
      else if i_paused x then (P, w, x\<lparr>i_resumeShouldRead := True\<rparr>)
      else
        let w1 = (if i_type x = UNKNOWN then on_finish cl False ''Unexpected input file type'' w else w);
            l = locate x
        in if cached x l then
             (let src = nat (l_pos l - i_cachePos x)
              in if l_deflate l \<or> l_lz4 l
                 then EnqueueDecompressSector (P, w1, x) src (l_len l) (l_offset l) (l_lz4 l)
                 else ReadSector cl (deliver_plain cl (P, w1, x) src (l_len l)))
           else (P, w1, x\<lparr>i_cachePos := l_pos l,
                          i_req := ReqRead (l_pos l) (l_len l) (l_offset l) (l_deflate l) (l_lz4 l)\<rparr>))"
  by pat_completeness auto
termination
proof (relation "measure (\<lambda>(_, _, _, x). nat (i_size x - i_pos x))", goal_cases)
  case 1
  show ?case by simp
next
  case (2 cl P w x w1 l src)
  obtain P' w' x' where e: "deliver_plain cl (P, w1, x) src (l_len l) = (P', w', x')"
    by (metis prod_cases3)
  with deliver_plain_progress [of cl P w1 x src "l_len l" x']
  have "i_pos x' = i_pos x + int SECTOR_SIZE" "i_size x' = i_size x" by simp_all
  with 2 e show ?case by (simp add: SECTOR_SIZE_def)
qed

declare ReadSector.simps [simp del]

text \<open>
  Completion of a read into the cache: \<open>bytes\<close> is what arrived, \<open>result\<close> its number or an
  error.
\<close>

definition read_done :: "'w client \<Rightarrow> 'w ist \<Rightarrow> int \<Rightarrow> u8 list \<Rightarrow> 'w ist" where
  "read_done cl st result bytes =
     (case st of (P, w, x) \<Rightarrow>
        case i_req x of
          ReqRead pos len offset deflate lz4 \<Rightarrow>
            let x1 = x\<lparr>i_req := NoReq, i_cache := bytes @ drop (length bytes) (i_cache x)\<rparr>
            in if result < uint len then fail cl (P, w, x1) ''Unable to read entire sector''
               else if deflate \<or> lz4 then EnqueueDecompressSector (P, w, x1) 0 len offset lz4
               else ReadSector cl (deliver_plain cl (P, w, x1) 0 len)
        | _ \<Rightarrow> st)"

subsection \<open>Delivering a decompressed block\<close>

text \<open>
  The loop over the sectors of a decompressed block.  \<open>suboffset\<close> and \<open>resultSize\<close> are at most
  the block size here, so the additions of the \<open>uint32_t\<close> code do not wrap.
\<close>

function sub_blocks :: "'w client \<Rightarrow> 'w ist \<Rightarrow> ptr \<Rightarrow> nat \<Rightarrow> nat \<Rightarrow> 'w ist" where
  "sub_blocks cl (P, w, x) actualBuf suboffset resultSize =
     (if suboffset < resultSize then
        let lastSubBlock = (suboffset + SECTOR_SIZE \<ge> resultSize);
            (P1, subBuf) = (if lastSubBlock then (P, actualBuf) else Alloc P);
            P2 = put P1 subBuf 0 (mread (mem P1) actualBuf suboffset SECTOR_SIZE);
            (P3, w3, f) = on_sector cl (i_pos x) subBuf P2 w;
            x3 = x\<lparr>i_paused := f (i_paused x), i_pos := i_pos x + int SECTOR_SIZE\<rparr>
        in if i_paused x3 \<and> \<not> lastSubBlock then (pool_Release P3 actualBuf, w3, x3)
           else sub_blocks cl (P3, w3, x3) actualBuf (suboffset + SECTOR_SIZE) resultSize
      else (P, w, x))"
  by pat_completeness auto
termination
  by (relation "measure (\<lambda>(_, _, _, suboffset, resultSize). resultSize - suboffset)")
     (auto simp: SECTOR_SIZE_def)

declare sub_blocks.simps [simp del]

text \<open>
  The job of the worker, then its completion on the main thread.  A cancelled job (a negative
  status, \<open>UV_ECANCELED\<close> of libuv) did not run: the size is still 0 and there is no error text.
\<close>

definition decompress_work :: "decoders \<Rightarrow> pool \<Rightarrow> inp \<Rightarrow> ptr \<Rightarrow> nat \<Rightarrow> u32 \<Rightarrow> bool \<Rightarrow> pool \<times> u32 \<times> string" where
  "decompress_work dx P x actualBuf src len isLZ4 =
     (let data = take (unat len) (drop src (i_cache x));
          (P1, result, sz, err) =
            (if isLZ4 then DecompressSectorLZ4 dx P actualBuf data (i_csoBlockSize x) 0
             else DecompressSectorDeflate dx P actualBuf data (i_type x) 0)
      in (P1, sz, if \<not> result then (if err = [] then ''Unknown error'' else err) else err))"

definition decompress_done :: "decoders \<Rightarrow> 'w client \<Rightarrow> 'w ist \<Rightarrow> int \<Rightarrow> 'w ist" where
  "decompress_done dx cl st status =
     (case st of (P, w, x) \<Rightarrow>
        case i_req x of
          ReqWork actualBuf src len offset isLZ4 \<Rightarrow>
            let (P1, sz, err) = (if status < 0 then (P, 0, [])
                                 else decompress_work dx P x actualBuf src len isLZ4);
                x1 = x\<lparr>i_req := NoReq\<rparr>
            in if err \<noteq> [] then
                 (let (_, w2, x2) = fail cl (P1, w, x1) err in (pool_Release P1 actualBuf, w2, x2))
               else if status = -1 then
                 (let (_, w2, x2) = fail cl (P1, w, x1) ''Decompression work failed''
                  in (pool_Release P1 actualBuf, w2, x2))
               else if sz > i_csoBlockSize x then
                 (let (_, w2, x2) = fail cl (P1, w, x1) ''Decompression produced more data than expected''
                  in (pool_Release P1 actualBuf, w2, x2))
               else
                 let sectorPos = i_pos x - uint offset;
                     resultSize = (if sectorPos + uint sz > i_size x
                                   then word_of_int (i_size x - sectorPos) else sz)
                 in ReadSector cl (sub_blocks cl (P1, w, x1) actualBuf (unat offset) (unat resultSize))
        | _ \<Rightarrow> st)"

subsection \<open>Pause and Resume\<close>

definition Pause :: "inp \<Rightarrow> inp" where
  "Pause x = x\<lparr>i_paused := True\<rparr>"

definition Resume :: "'w client \<Rightarrow> 'w ist \<Rightarrow> 'w ist" where
  "Resume cl st =
     (case st of (P, w, x) \<Rightarrow>
        let x1 = x\<lparr>i_paused := False\<rparr>
        in if i_resumeShouldRead x1 then ReadSector cl (P, w, x1\<lparr>i_resumeShouldRead := False\<rparr>)
           else (P, w, x1))"

end
