(* ===== verification/SectorProps.thy ===== *)
theory SectorProps
  imports Sector Input
begin

section \<open>Correctness of the compression trials\<close>

text \<open>
  Ownership (every trial buffer but the best one goes back to the pool, and no other buffer in
  use is written), quality (the kept result is a valid encoding of the block) and the final
  decision (\<open>FinalizeBest\<close>).
\<close>

subsection \<open>What the codecs promise\<close>

text \<open>
  \<open>dec fmt bytes d\<close> means that a reader that knows the length of block \<open>d\<close> makes \<open>d\<close> of
  \<open>bytes\<close>.  A codec is correct when the bytes of a successful call fit the buffer and decode to
  the block even when followed by alignment padding.  For the decoders of \<open>Input\<close> the relation
  is \<open>decodes\<close>: inflate ends at the end of its stream, whatever follows; \<open>LZ4_decompress_safe_partial\<close>
  stops at its target size, which is the size of the block (Note 5 of lz4.h: with bytes behind the
  compressed block, the target must not be above the size of the data); both take an input below
  \<open>2 ^ 31\<close> bytes.  A block is shorter than \<open>2 ^ 32\<close> bytes (\<open>blockSize_\<close>).  \<open>any_result\<close> asks nothing
  but that a codec respects the capacity of its buffer.
\<close>

type_synonym decoder = "SectorFormat \<Rightarrow> u8 list \<Rightarrow> u8 list \<Rightarrow> bool"

definition decodes :: "decoders \<Rightarrow> bool \<Rightarrow> decoder" where
  "decodes dx hdr fmt bytes d \<longleftrightarrow> bytes \<noteq> [] \<and> (length bytes < 2 ^ 31 \<longrightarrow>
     (case fmt of
        SECTOR_FMT_ORIG \<Rightarrow> bytes = d
      | SECTOR_FMT_DEFLATE \<Rightarrow> fst (d_inflateInit dx hdr)
          \<and> (\<forall>cap > length d. \<exists>msg. d_inflate dx hdr bytes cap = (True, msg, d))
      | SECTOR_FMT_LZ4 \<Rightarrow> d_lz4 dx bytes (length d) = (int (length d), d)))"

definition any_result :: decoder where
  "any_result fmt bytes d = True"

definition encodes :: "decoder \<Rightarrow> nat \<Rightarrow> u8 list \<Rightarrow> SectorFormat \<Rightarrow> bool \<times> u8 list \<Rightarrow> bool" where
  "encodes dec cap d fmt r \<longleftrightarrow> (fst r \<longrightarrow> length (snd r) \<le> cap \<and> (\<forall>pad. dec fmt (snd r @ pad) d))"

definition codecs_ok :: "codecs \<Rightarrow> decoder \<Rightarrow> bool \<Rightarrow> bool" where
  "codecs_ok cx dec hdr \<longleftrightarrow> (\<forall>cap d. length d < 2 ^ 32 \<longrightarrow>
     (\<forall>st. encodes dec cap d SECTOR_FMT_DEFLATE
             (zlib_deflate cx \<lparr>z_strategy = st, z_withHeader = hdr\<rparr> cap d))
     \<and> (\<forall>out pad. zopfli cx hdr d = Some out \<longrightarrow> dec SECTOR_FMT_DEFLATE (out @ pad) d)
     \<and> encodes dec cap d SECTOR_FMT_DEFLATE (deflate7z cx hdr cap d)
     \<and> encodes dec cap d SECTOR_FMT_DEFLATE (libdeflate cx hdr cap d)
     \<and> (\<forall>level. encodes dec cap d SECTOR_FMT_LZ4 (lz4_hc cx level cap d))
     \<and> encodes dec cap d SECTOR_FMT_LZ4 (lz4_default cx cap d))"

text \<open>The kept result: nothing, or a buffer of ours that decodes to the block.\<close>

definition best_ok :: "decoder \<Rightarrow> pool \<times> sector \<Rightarrow> bool" where
  "best_ok dec a \<longleftrightarrow> (case a of (P, s) \<Rightarrow>
     (\<exists>b. s_buffer s = Some b \<and> b \<in> wild P \<and> b \<notin> best_ptrs s)
     \<and> (case s_best s of
          None \<Rightarrow> s_bestFmt s = SECTOR_FMT_ORIG \<and> s_bestSize s = s_blockSize s
        | Some p \<Rightarrow> s_bestFmt s \<noteq> SECTOR_FMT_ORIG \<and> unat (s_bestSize s) \<le> unat (bufferSize P)
            \<and> (\<forall>pad. dec (s_bestFmt s) (mread (mem P) p 0 (unat (s_bestSize s)) @ pad)
                 (block_data P s))))"

lemma best_ok_Some:
  assumes "s_buffer s = Some b" and "b \<in> wild P" and "s_best s = Some p" and "b \<noteq> p"
    and "s_bestFmt s \<noteq> SECTOR_FMT_ORIG" and "unat (s_bestSize s) \<le> unat (bufferSize P)"
    and "\<And>pad. dec (s_bestFmt s) (mread (mem P) p 0 (unat (s_bestSize s)) @ pad) (block_data P s)"
  shows "best_ok dec (P, s)"
  using assms by (simp add: best_ok_def best_ptrs_def)

definition step_ok :: "bool \<Rightarrow> decoder \<Rightarrow> pool \<times> sector \<Rightarrow> pool \<times> sector \<Rightarrow> bool" where
  "step_ok good dec a b \<longleftrightarrow> trial_step a b \<and> (good \<longrightarrow> best_ok dec a \<longrightarrow> best_ok dec b)"

lemma step_ok_refl: "trial_pre a \<Longrightarrow> step_ok g dec a a"
  by (simp add: step_ok_def trial_step_refl)

lemma step_ok_trans: "step_ok g dec a b \<Longrightarrow> step_ok g dec b c \<Longrightarrow> step_ok g dec a c"
  unfolding step_ok_def by (blast intro: trial_step_trans)

lemma step_ok_pre: "step_ok g dec a b \<Longrightarrow> trial_pre b"
  unfolding step_ok_def by (blast intro: trial_step_pre)

lemma step_ok_fields: "step_ok g dec (P, s) (P', s') \<Longrightarrow>
    s_flags s' = s_flags s \<and> s_zStreams s' = s_zStreams s"
  unfolding step_ok_def by (blast dest: trial_step_fields)

subsection \<open>A single trial\<close>

lemma SubmitTrial_if:
  "\<exists>c. SubmitTrial P s r sz fmt =
     (if c then ((case s_best s of None \<Rightarrow> P | Some b \<Rightarrow> pool_Release P b,
         s\<lparr>s_bestSize := sz, s_best := Some r, s_bestFmt := fmt\<rparr>), True)
      else ((pool_Release P r, s), False))"
  unfolding SubmitTrial_def Let_def by (rule exI) (rule refl)

lemma SubmitTrial_kept:
  assumes "snd (SubmitTrial P s r sz fmt)"
  obtains P' where "fst (SubmitTrial P s r sz fmt)
      = (P', s\<lparr>s_bestSize := sz, s_best := Some r, s_bestFmt := fmt\<rparr>)"
    and "mem P' = mem P" "bufferSize P' = bufferSize P" "wild P' = wild P - best_ptrs s"
proof -
  obtain c where c: "SubmitTrial P s r sz fmt =
     (if c then ((case s_best s of None \<Rightarrow> P | Some b \<Rightarrow> pool_Release P b,
         s\<lparr>s_bestSize := sz, s_best := Some r, s_bestFmt := fmt\<rparr>), True)
      else ((pool_Release P r, s), False))"
    using SubmitTrial_if by blast
  with assms have c by (simp split: if_splits)
  show thesis
    by (rule that [of "case s_best s of None \<Rightarrow> P | Some b \<Rightarrow> pool_Release P b"])
       (use c \<open>c\<close> in \<open>simp_all add: best_ptrs_def release_wild split: option.split\<close>)
qed

lemma SubmitTrial_dropped:
  assumes "\<not> snd (SubmitTrial P s r sz fmt)"
  shows "fst (SubmitTrial P s r sz fmt) = (pool_Release P r, s)"
proof -
  obtain c where c: "SubmitTrial P s r sz fmt =
     (if c then ((case s_best s of None \<Rightarrow> P | Some b \<Rightarrow> pool_Release P b,
         s\<lparr>s_bestSize := sz, s_best := Some r, s_bestFmt := fmt\<rparr>), True)
      else ((pool_Release P r, s), False))"
    using SubmitTrial_if by blast
  with assms have "\<not> c" by (cases c) simp_all
  with c show ?thesis by simp
qed

lemma SubmitTrial_step:
  assumes inv: "pool_inv P" and best: "best_ptrs s \<subseteq> wild P"
    and r: "r \<notin> wild P" and Q: "pool_inv Q" "wild Q = insert r (wild P)" "bufferSize Q = bufferSize P"
    and m: "\<And>q. q \<in> wild P \<Longrightarrow> mem Q q = mem P q"
  shows "trial_step (P, s) (fst (SubmitTrial Q s r sz fmt))"
proof -
  have rel: "pool_inv (pool_Release Q b)" if "s_best s = Some b" for b
    using that best Q by (intro release_inv) (auto simp: best_ptrs_def)
  have rel': "pool_inv (pool_Release Q r)"
    using Q by (intro release_inv) auto
  obtain c where c: "SubmitTrial Q s r sz fmt =
     (if c then ((case s_best s of None \<Rightarrow> Q | Some b \<Rightarrow> pool_Release Q b,
         s\<lparr>s_bestSize := sz, s_best := Some r, s_bestFmt := fmt\<rparr>), True)
      else ((pool_Release Q r, s), False))"
    using SubmitTrial_if by blast
  show ?thesis
  proof (cases c)
    case True
    let ?P = "case s_best s of None \<Rightarrow> Q | Some b \<Rightarrow> pool_Release Q b"
    have P': "pool_inv ?P" "wild ?P = insert r (wild P) - best_ptrs s"
      "bufferSize ?P = bufferSize P" "mem ?P = mem Q"
      using rel Q by (simp_all add: best_ptrs_def release_wild split: option.split)
    have w: "insert r (wild P) - best_ptrs s - {r} = wild P - best_ptrs s"
      "r \<in> insert r (wild P) - best_ptrs s"
      using r best by blast+
    show ?thesis
      using True P' w m r by (simp add: c trial_step_def best_ptrs_def)
  next
    case False
    show ?thesis
      using False rel' Q m r best by (simp add: c trial_step_def release_wild)
  qed
qed

lemma finish_trial_step:
  assumes pre: "trial_pre (P, s)" and al: "Alloc P = (P1, r)"
    and enc: "g \<Longrightarrow> encodes dec (unat (bufferSize P)) (block_data P s) fmt res"
    and fmt: "fmt \<noteq> SECTOR_FMT_ORIG"
  shows "step_ok g dec (P, s) (finish_trial P1 s r fmt res)"
proof -
  have inv: "pool_inv P" and best: "best_ptrs s \<subseteq> wild P"
    using pre by (simp_all add: trial_pre_def)
  have P1: "P1 = fst (Alloc P)" and r: "r = snd (Alloc P)"
    using al by simp_all
  let ?Q = "put P1 r 0 (snd res)"
  have fresh: "r \<notin> wild P" unfolding r by (rule alloc_fresh [OF inv])
  have Q: "pool_inv ?Q" "wild ?Q = insert r (wild P)" "bufferSize ?Q = bufferSize P"
    using bp.fill_inv [OF inv] bp.fill_out [OF inv] by (simp_all add: P1 r)
  have m: "mem ?Q q = mem P q" if "q \<in> wild P" for q
    using bp.fill_other [OF inv that] by (simp add: P1 r)
  have rd: "mread (mem ?Q) r 0 (length (snd res)) = snd res"
    using bp.fill_same [of P 0 "snd res"] by (simp add: P1 r)
  have bs: "bufferSize P1 = bufferSize P"
    using Q(3) by simp
  show ?thesis
  proof (cases "fst res")
    case True
    let ?b = "fst (SubmitTrial ?Q s r (of_nat (length (snd res))) fmt)"
    have st: "trial_step (P, s) ?b"
      by (rule SubmitTrial_step [OF inv best fresh Q m])
    have "best_ok dec ?b" if g and ok: "best_ok dec (P, s)"
    proof -
      from ok obtain b where b: "s_buffer s = Some b" "b \<in> wild P" "b \<notin> best_ptrs s"
        by (auto simp: best_ok_def)
      have le: "length (snd res) \<le> unat (bufferSize P)"
        and dc: "\<And>pad. dec fmt (snd res @ pad) (block_data P s)"
        using enc [OF that(1)] True by (auto simp: encodes_def)
      have un: "unat (of_nat (length (snd res)) :: u32) = length (snd res)"
        by (rule unat_of_nat_le [OF le])
      have bd: "block_data R s = block_data P s" if "mem R b = mem P b" for R
        using that b(1) by (simp add: block_data_def mread_def)
      have mb: "mem ?Q b = mem P b" by (rule m [OF b(2)])
      have rb: "r \<noteq> b" using fresh b(2) by blast
      show ?thesis
      proof (cases "snd (SubmitTrial ?Q s r (of_nat (length (snd res))) fmt)")
        case True
        then obtain P' where e: "?b = (P', s\<lparr>s_bestSize := of_nat (length (snd res)),
              s_best := Some r, s_bestFmt := fmt\<rparr>)"
          and P': "mem P' = mem ?Q" "bufferSize P' = bufferSize ?Q" "wild P' = wild ?Q - best_ptrs s"
          by (rule SubmitTrial_kept)
        have "mread (mem P') r 0 (length (snd res)) = snd res"
          using rd P'(1) by simp
        then show ?thesis
          unfolding e using b fmt un le dc Q(2) rb bd [of P'] mb P'
          by (intro best_ok_Some [where b = b and p = r]) (simp_all add: block_data_def bs)
      next
        case False
        then have e: "?b = (pool_Release ?Q r, s)"
          by (rule SubmitTrial_dropped)
        have "mread (mem ?Q) p 0 k = mread (mem P) p 0 k" if "s_best s = Some p" for p k
          using that best m by (intro mread_eq_ptr) (auto simp: best_ptrs_def)
        then show ?thesis
          using ok b Q rb fresh bd [of "pool_Release ?Q r"] mb
          by (auto simp: e best_ok_def release_wild split: option.splits)
      qed
    qed
    with st True show ?thesis by (simp add: finish_trial_def step_ok_def)
  next
    case False
    have "pool_inv (pool_Release ?Q r)"
      using Q by (intro release_inv) auto
    with False have st: "trial_step (P, s) (finish_trial P1 s r fmt res)"
      using fresh Q m best
      by (auto simp: finish_trial_def trial_step_def release_wild P1 r)
    have "best_ok dec (pool_Release ?Q r, s)" if ok: "best_ok dec (P, s)"
    proof -
      from ok obtain b where b: "s_buffer s = Some b" "b \<in> wild P" "b \<notin> best_ptrs s"
        by (auto simp: best_ok_def)
      have "block_data (pool_Release ?Q r) s = block_data P s"
        using m [OF b(2)] b(1) by (simp add: block_data_def mread_def)
      moreover have "mread (mem ?Q) p 0 k = mread (mem P) p 0 k" if "s_best s = Some p" for p k
        using that best m by (intro mread_eq_ptr) (auto simp: best_ptrs_def)
      moreover have "r \<noteq> b" using fresh b(2) by blast
      ultimately show ?thesis
        using ok b Q fresh by (auto simp: best_ok_def release_wild split: option.splits)
    qed
    with st False show ?thesis
      by (simp add: finish_trial_def step_ok_def P1 r)
  qed
qed

lemma alloc_finish_ok:
  assumes "trial_pre (P, s)" and "fmt \<noteq> SECTOR_FMT_ORIG"
    and "g \<Longrightarrow> (\<And>cap. encodes dec cap (block_data P s) fmt (f cap (block_data P s)))"
  shows "step_ok g dec (P, s) (let (P1, result) = Alloc P in
           finish_trial P1 s result fmt (f (unat (bufferSize P1)) (block_data P1 s)))"
proof -
  obtain P1 r where al: "Alloc P = (P1, r)" by (rule prod.exhaust)
  then have e: "P1 = fst (Alloc P)" by simp
  have "encodes dec (unat (bufferSize P)) (block_data P s) fmt
      (f (unat (bufferSize P1)) (block_data P1 s))" if g
    using assms(3) [OF that, of "unat (bufferSize P)"] by (simp add: e block_data_def)
  from finish_trial_step [OF assms(1) al this assms(2)] show ?thesis
    by (simp add: al)
qed

subsection \<open>The trials of the code\<close>

text \<open>
  \<open>g\<close> stands for "the codecs are correct for this sector's header mode".  Every trial is a
  \<open>step_ok\<close>.
\<close>

definition codecs_fit :: "codecs \<Rightarrow> decoder \<Rightarrow> sector \<Rightarrow> bool" where
  "codecs_fit cx dec s \<longleftrightarrow> codecs_ok cx dec (has_flag (s_flags s) TASKFLAG_FMT_DAX)
     \<and> (\<forall>z \<in> set (s_zStreams s). z_withHeader z = has_flag (s_flags s) TASKFLAG_FMT_DAX)"

lemma block_data_u32 [simp]: "length (block_data P s) < 4294967296"
proof -
  have "unat (s_blockSize s) < 2 ^ LENGTH(32)" by (rule unsigned_less)
  then show ?thesis by (simp add: block_data_def mread_def)
qed

lemma codecs_fit_cong:
  "step_ok g dec (P, s) (P', s') \<Longrightarrow> codecs_fit cx dec s' = codecs_fit cx dec s"
  by (auto simp: codecs_fit_def dest: step_ok_fields)

lemma ZlibTrial_ok:
  assumes "trial_pre (P, s)" and "z \<in> set (s_zStreams s)"
  shows "step_ok (codecs_fit cx dec s) dec (P, s) (ZlibTrial cx P s z)"
proof (cases "zlib_reset cx z")
  case True
  have "encodes dec cap (block_data P s) SECTOR_FMT_DEFLATE (zlib_deflate cx z cap (block_data P s))"
    if "codecs_fit cx dec s" for cap
  proof -
    have "z = \<lparr>z_strategy = z_strategy z, z_withHeader = has_flag (s_flags s) TASKFLAG_FMT_DAX\<rparr>"
      using that assms(2) by (simp add: codecs_fit_def)
    moreover have "encodes dec cap (block_data P s) SECTOR_FMT_DEFLATE (zlib_deflate cx
        \<lparr>z_strategy = z_strategy z, z_withHeader = has_flag (s_flags s) TASKFLAG_FMT_DAX\<rparr>
        cap (block_data P s))"
      using that by (simp add: codecs_fit_def codecs_ok_def)
    ultimately show ?thesis by metis
  qed
  from alloc_finish_ok [where f = "zlib_deflate cx z", OF assms(1) _ this] True show ?thesis
    by (simp add: ZlibTrial_def)
next
  case False
  with assms(1) show ?thesis by (simp add: ZlibTrial_def step_ok_refl)
qed

lemma ZopfliTrial_ok:
  assumes pre: "trial_pre (P, s)"
  shows "step_ok (codecs_fit cx dec s) dec (P, s) (ZopfliTrial cx P s)"
proof -
  let ?h = "has_flag (s_flags s) TASKFLAG_FMT_DAX"
  show ?thesis
  proof (cases "zopfli cx ?h (block_data P s)")
    case None
    with pre show ?thesis by (simp add: ZopfliTrial_def step_ok_refl)
  next
    case (Some out)
    show ?thesis
    proof (cases "0 < length out \<and> length out < unat (bufferSize P)")
      case True
      obtain P1 r where al: "Alloc P = (P1, r)" by (rule prod.exhaust)
      have "encodes dec (unat (bufferSize P)) (block_data P s) SECTOR_FMT_DEFLATE (True, out)"
        if "codecs_fit cx dec s"
        using that Some True by (auto simp: codecs_fit_def codecs_ok_def encodes_def)
      from finish_trial_step [OF pre al this] show ?thesis
        using Some True by (simp add: ZopfliTrial_def al)
    next
      case False
      with Some pre show ?thesis by (auto simp: ZopfliTrial_def step_ok_refl)
    qed
  qed
qed

lemma SevenZipTrial_ok:
  "trial_pre (P, s) \<Longrightarrow> step_ok (codecs_fit cx dec s) dec (P, s) (SevenZipTrial cx P s)"
  unfolding SevenZipTrial_def
  by (rule alloc_finish_ok [where f = "deflate7z cx (has_flag (s_flags s) TASKFLAG_FMT_DAX)"])
     (simp_all add: codecs_fit_def codecs_ok_def)

lemma LibDeflateTrial_ok:
  "trial_pre (P, s) \<Longrightarrow> step_ok (codecs_fit cx dec s) dec (P, s) (LibDeflateTrial cx P s)"
  unfolding LibDeflateTrial_def
  by (rule alloc_finish_ok [where f = "libdeflate cx (has_flag (s_flags s) TASKFLAG_FMT_DAX)"])
     (simp_all add: codecs_fit_def codecs_ok_def)

lemma LZ4Trial_ok:
  "trial_pre (P, s) \<Longrightarrow> step_ok (codecs_fit cx dec s) dec (P, s) (LZ4Trial cx P s)"
  unfolding LZ4Trial_def
  by (rule alloc_finish_ok [where f = "lz4_default cx"]) (simp_all add: codecs_fit_def codecs_ok_def)

lemma LZ4HC_levels_ok:
  "trial_pre (P, s) \<Longrightarrow> step_ok (codecs_fit cx dec s) dec (P, s) (LZ4HC_levels cx P s l)"
proof (induction cx P s l rule: LZ4HC_levels.induct)
  case (1 cx P s l)
  show ?case
  proof (cases "l \<le> 16")
    case True
    obtain P1 r where al: "Alloc P = (P1, r)" by (rule prod.exhaust)
    obtain P2 s2 where f: "finish_trial P1 s r SECTOR_FMT_LZ4
        (lz4_hc cx l (unat (bufferSize P1)) (block_data P1 s)) = (P2, s2)" by (rule prod.exhaust)
    have one: "step_ok (codecs_fit cx dec s) dec (P, s) (P2, s2)"
      using alloc_finish_ok [OF "1.prems", of SECTOR_FMT_LZ4 "codecs_fit cx dec s" dec "lz4_hc cx l"]
      by (simp add: al f codecs_fit_def codecs_ok_def)
    have "step_ok (codecs_fit cx dec s2) dec (P2, s2) (LZ4HC_levels cx P2 s2 (l + 3))"
      by (rule "1.IH" [OF True al [symmetric] refl f [symmetric] refl step_ok_pre [OF one]])
    with one True show ?thesis
      using codecs_fit_cong [OF one, of cx]
      by (auto simp: LZ4HC_levels.simps [of cx P s l] al f intro: step_ok_trans)
  next
    case False
    with "1.prems" show ?thesis by (simp add: LZ4HC_levels.simps [of cx P s l] step_ok_refl)
  qed
qed

lemma LZ4HCTrial_ok:
  "trial_pre (P, s) \<Longrightarrow> step_ok (codecs_fit cx dec s) dec (P, s) (LZ4HCTrial cx P s b)"
  unfolding LZ4HCTrial_def by (rule LZ4HC_levels_ok)

lemma zlib_trials_ok:
  "trial_pre (P, s) \<Longrightarrow> set zs \<subseteq> set (s_zStreams s) \<Longrightarrow>
     step_ok (codecs_fit cx dec s) dec (P, s) (zlib_trials cx P s zs)"
proof (induction zs arbitrary: P s)
  case Nil
  then show ?case by (simp add: step_ok_refl)
next
  case (Cons z zs)
  obtain P1 s1 where e: "ZlibTrial cx P s z = (P1, s1)" by (rule prod.exhaust)
  have one: "step_ok (codecs_fit cx dec s) dec (P, s) (P1, s1)"
    using ZlibTrial_ok [OF Cons.prems(1), of z cx dec] Cons.prems(2) e by simp
  have "set zs \<subseteq> set (s_zStreams s1)"
    using Cons.prems(2) step_ok_fields [OF one] by auto
  from Cons.IH [OF step_ok_pre [OF one] this] show ?case
    using codecs_fit_cong [OF one, of cx] by (auto simp: e intro: step_ok_trans [OF one])
qed

text \<open>One more stage of \<open>Compress\<close>: run only when its flag allows it.\<close>

lemma stage_ok:
  assumes "step_ok (codecs_fit cx dec s0) dec (P0, s0) (P, s)"
    and "c \<Longrightarrow> trial_pre (P, s) \<Longrightarrow> step_ok (codecs_fit cx dec s) dec (P, s) f"
  shows "step_ok (codecs_fit cx dec s0) dec (P0, s0) (if c then f else (P, s))"
  using assms step_ok_pre [OF assms(1)] codecs_fit_cong [OF assms(1), of cx]
  by (cases c) (auto intro: step_ok_trans)

lemma Compress_ok:
  assumes pre: "trial_pre (P, s)"
  shows "step_ok (codecs_fit cx dec s) dec (P, s) (Compress cx P s)"
proof -
  let ?g = "codecs_fit cx dec s" and ?f = "s_flags s"
  obtain P1 s1 where 1: "zlib_trials cx P s (s_zStreams s) = (P1, s1)" by (rule prod.exhaust)
  obtain P2 s2 where 2: "(if \<not> has_flag ?f TASKFLAG_NO_ZOPFLI then ZopfliTrial cx P1 s1 else (P1, s1)) = (P2, s2)"
    by (rule prod.exhaust)
  obtain P3 s3 where 3: "(if \<not> has_flag ?f TASKFLAG_NO_7ZIP then SevenZipTrial cx P2 s2 else (P2, s2)) = (P3, s3)"
    by (rule prod.exhaust)
  obtain P4 s4 where 4: "(if \<not> has_flag ?f TASKFLAG_NO_LIBDEFLATE then LibDeflateTrial cx P3 s3 else (P3, s3)) = (P4, s4)"
    by (rule prod.exhaust)
  obtain P5 s5 where 5: "(if \<not> has_flag ?f (TASKFLAG_NO_LZ4_HC OR TASKFLAG_NO_LZ4_HC_BRUTE)
      then LZ4HCTrial cx P4 s4 (\<not> has_flag ?f TASKFLAG_NO_LZ4_HC_BRUTE) else (P4, s4)) = (P5, s5)"
    by (rule prod.exhaust)
  have "step_ok ?g dec (P, s) (P1, s1)"
    using zlib_trials_ok [OF pre, of "s_zStreams s" cx dec] 1 by simp
  from stage_ok [OF this ZopfliTrial_ok, of "\<not> has_flag ?f TASKFLAG_NO_ZOPFLI"]
  have "step_ok ?g dec (P, s) (P2, s2)" by (simp only: 2)
  from stage_ok [OF this SevenZipTrial_ok, of "\<not> has_flag ?f TASKFLAG_NO_7ZIP"]
  have "step_ok ?g dec (P, s) (P3, s3)" by (simp only: 3)
  from stage_ok [OF this LibDeflateTrial_ok, of "\<not> has_flag ?f TASKFLAG_NO_LIBDEFLATE"]
  have "step_ok ?g dec (P, s) (P4, s4)" by (simp only: 4)
  from stage_ok [OF this LZ4HCTrial_ok, of "\<not> has_flag ?f (TASKFLAG_NO_LZ4_HC OR TASKFLAG_NO_LZ4_HC_BRUTE)"
      "\<not> has_flag ?f TASKFLAG_NO_LZ4_HC_BRUTE"]
  have "step_ok ?g dec (P, s) (P5, s5)" by (simp only: 5)
  then have "step_ok ?g dec (P, s)
      (if \<not> has_flag ?f TASKFLAG_NO_LZ4_DEFAULT then LZ4Trial cx P5 s5 else (P5, s5))"
    by (rule stage_ok) (rule LZ4Trial_ok)
  then show ?thesis
    by (simp only: Compress_def Let_def 1 2 3 4 5 prod.case case_prod_Pair id_apply)
qed

subsection \<open>The whole job\<close>

lemma FinalizeBest_ok:
  assumes "trial_pre (P, s)"
  shows "step_ok g dec (P, s) (FinalizeBest P s al)"
proof (cases "AlignedBestSize s al \<ge> s_blockSize s \<and> s_best s \<noteq> None \<and> \<not> has_flag (s_flags s) TASKFLAG_FMT_DAX")
  case True
  then obtain b where b: "s_best s = Some b" by auto
  let ?s = "s\<lparr>s_best := None, s_bestSize := s_blockSize s, s_bestFmt := SECTOR_FMT_ORIG\<rparr>"
  have e: "FinalizeBest P s al = (pool_Release P b, ?s)"
    using True b by (simp add: FinalizeBest_def)
  have "b \<in> wild P" and "pool_inv P"
    using assms b by (auto simp: trial_pre_def best_ptrs_def)
  then have "trial_step (P, s) (pool_Release P b, ?s)"
    using b by (auto simp: trial_step_def best_ptrs_def release_wild release_inv)
  moreover have "best_ok dec (pool_Release P b, ?s)" if "best_ok dec (P, s)"
    using that b by (auto simp: best_ok_def best_ptrs_def release_wild)
  ultimately show ?thesis by (simp add: e step_ok_def)
next
  case False
  then have "FinalizeBest P s al = (P, s)" by (auto simp: FinalizeBest_def)
  with assms show ?thesis by (simp add: step_ok_refl)
qed

lemma sector_work_ok:
  assumes pre: "trial_pre (P, s)"
  shows "step_ok (codecs_fit cx dec s) dec (P, s) (sector_work cx P s)"
proof -
  obtain P1 s1 where c: "Compress cx P s = (P1, s1)" by (rule prod.exhaust)
  have "step_ok (codecs_fit cx dec s) dec (P, s) (P1, s1)"
    using Compress_ok [OF pre, of cx dec] c by simp
  from step_ok_trans [OF this FinalizeBest_ok [OF step_ok_pre [OF this]]] show ?thesis
    by (simp add: sector_work_def c)
qed

lemma FinalizeBest_smaller:
  assumes "FinalizeBest P s al = (P', s')" and "\<not> has_flag (s_flags s) TASKFLAG_FMT_DAX"
    and "s_best s' \<noteq> None"
  shows "AlignedBestSize s' al < s_blockSize s'"
  using assms by (auto simp: FinalizeBest_def split: if_splits)

text \<open>What the job leaves of a block whose trials start from nothing.\<close>

lemma sector_work_best:
  assumes "pool_inv P" and "s_buffer s = Some b" "b \<in> wild P"
    and "s_best s = None" "s_bestFmt s = SECTOR_FMT_ORIG" "s_bestSize s = s_blockSize s"
    and "codecs_fit cx dec s" and "sector_work cx P s = (P', s')"
  shows "block_data P' s' = block_data P s \<and> pool_inv P'
    \<and> wild P' = wild P \<union> best_ptrs s' \<and> best_ptrs s' \<inter> wild P = {}
    \<and> (if s_best s' = None
       then Format s' = SECTOR_FMT_ORIG \<and> BestSize s' = s_blockSize s \<and> BestBuffer s' = Some b
       else Format s' \<noteq> SECTOR_FMT_ORIG
         \<and> (\<forall>pad. dec (Format s') (mread (mem P') (the (BestBuffer s')) 0 (unat (BestSize s')) @ pad)
               (block_data P s)))"
proof -
  have pre: "trial_pre (P, s)" and own: "best_ptrs s = {}" and ok: "best_ok dec (P, s)"
    using assms by (simp_all add: trial_pre_def best_ptrs_def best_ok_def)
  have st: "trial_step (P, s) (P', s')" and res: "best_ok dec (P', s')"
    using sector_work_ok [OF pre, of cx dec] assms(7,8) ok by (simp_all add: step_ok_def)
  have s': "s' = s\<lparr>s_best := s_best s', s_bestSize := s_bestSize s', s_bestFmt := s_bestFmt s'\<rparr>"
    using st by (simp add: trial_step_def)
  have f: "s_buffer s' = Some b" "s_blockSize s' = s_blockSize s"
    by (subst s', simp add: assms(2))+
  have m: "mem P' b = mem P b" using st assms(3) own by (simp add: trial_step_def)
  have data: "block_data P' s' = block_data P s"
    using m by (simp add: block_data_def f assms(2) mread_def)
  have w: "wild P' - best_ptrs s' = wild P" "best_ptrs s' \<subseteq> wild P'" "best_ptrs s' \<inter> wild P = {}" "pool_inv P'"
    using st own by (simp_all add: trial_step_def)
  show ?thesis
    using res w unfolding best_ok_def data prod.case
    by (auto simp: data f Format_def BestSize_def BestBuffer_def split: option.splits)
qed

text \<open>A compressed result is smaller than the block, with its padding.\<close>

lemma sector_work_smaller:
  assumes "sector_work cx P s = (P', s')" and "\<not> has_flag (s_flags s) TASKFLAG_FMT_DAX" and "s_best s' \<noteq> None"
    and "trial_pre (P, s)"
  shows "AlignedBestSize s' (s_align s) < s_blockSize s"
proof -
  obtain P1 s1 where c: "Compress cx P s = (P1, s1)" by (rule prod.exhaust)
  have t: "trial_step (P, s) (P1, s1)" using Compress_ok [OF assms(4), of cx any_result] c by (simp add: step_ok_def)
  note f = trial_step_fields [OF t]
  have "FinalizeBest P1 s1 (s_align s1) = (P', s')" using assms(1) c by (simp add: sector_work_def)
  from FinalizeBest_smaller [OF this _ assms(3)] f assms(2)
  have "AlignedBestSize s' (s_align s) < s_blockSize s'" by simp
  moreover have "trial_step (P, s) (P', s')" using sector_work_ok [OF assms(4), of cx any_result] assms(1) by (simp add: step_ok_def)
  ultimately show ?thesis using trial_step_fields [of P s P' s'] by simp
qed

subsection \<open>Properties\<close>

text \<open>C8: Whatever the trials of a block's job leave as the best result is worth storing and decodes to
  the block.  The bytes of a compressed result, followed by any padding, give exactly the bytes of
  the block to the decoders of \<open>Input\<close>, with the size of the block as LZ4's target, and except in a
  DAX file their aligned size is smaller than the block; without a result the block itself is
  stored.  The block is not changed, and the only buffer the job keeps is a fresh one that holds its
  result.\<close>

theorem sector_work_decodes:
  assumes "pool_inv P" and "s_buffer s = Some b" "b \<in> wild P"
    and "s_best s = None" "s_bestFmt s = SECTOR_FMT_ORIG" "s_bestSize s = s_blockSize s"
    and "hdr = has_flag (s_flags s) TASKFLAG_FMT_DAX" "codecs_fit cx (decodes dx hdr) s" and "sector_work cx P s = (P', s')"
  shows "block_data P' s' = block_data P s \<and> pool_inv P'
    \<and> wild P' = wild P \<union> best_ptrs s' \<and> best_ptrs s' \<inter> wild P = {}
    \<and> (if s_best s' = None
       then Format s' = SECTOR_FMT_ORIG \<and> BestSize s' = s_blockSize s \<and> BestBuffer s' = Some b
       else Format s' \<noteq> SECTOR_FMT_ORIG
         \<and> (\<forall>pad. decodes dx hdr (Format s') (mread (mem P') (the (BestBuffer s')) 0 (unat (BestSize s')) @ pad)
               (block_data P s))
         \<and> (hdr \<or> AlignedBestSize s' (s_align s) < s_blockSize s))"
proof -
  have "trial_pre (P, s)" using assms(1,4) by (simp add: trial_pre_def best_ptrs_def)
  note small = sector_work_smaller [OF assms(9) _ _ this]
  show ?thesis using sector_work_best [OF assms(1-6,8,9)] small assms(7) by (auto split: if_splits)
qed

text \<open>A codec for blocks of one repeated byte.\<close>

definition run_enc :: "nat \<Rightarrow> u8 list \<Rightarrow> bool \<times> u8 list" where
  "run_enc cap d =
     (if 3 \<le> cap \<and> 0 < length d \<and> length d < 65536 \<and> d = replicate (length d) (hd d)
      then (True, [hd d, of_nat (length d mod 256), of_nat (length d div 256)]) else (False, []))"

fun run_dec :: "u8 list \<Rightarrow> u8 list option" where
  "run_dec (x # lo # hi # pad) = Some (replicate (unat lo + 256 * unat hi) x)"
| "run_dec _ = None"

definition run_decoders :: decoders where
  "run_decoders = \<lparr>d_inflateInit = (\<lambda>_. (True, None)),
     d_inflate = (\<lambda>_ bs _. case run_dec bs of Some d \<Rightarrow> (True, None, d) | None \<Rightarrow> (False, None, [])),
     d_lz4 = (\<lambda>bs _. case run_dec bs of Some d \<Rightarrow> (int (length d), d) | None \<Rightarrow> (-1, []))\<rparr>"

definition run_codecs :: codecs where
  "run_codecs = \<lparr>zlib_init = (\<lambda>_. True), zlib_reset = (\<lambda>_. True), zlib_deflate = (\<lambda>_. run_enc),
     zopfli = (\<lambda>_ d. if fst (run_enc 3 d) then Some (snd (run_enc 3 d)) else None),
     deflate7z = (\<lambda>_. run_enc), libdeflate = (\<lambda>_. run_enc), lz4_hc = (\<lambda>_. run_enc), lz4_default = run_enc\<rparr>"

lemma run_encodes:
  assumes "fmt \<noteq> SECTOR_FMT_ORIG"
  shows "encodes (decodes run_decoders hdr) cap d fmt (run_enc cap d)"
proof -
  have "unat (of_nat (length d mod 256) :: u8) + 256 * unat (of_nat (length d div 256) :: u8) = length d"
    if "length d < 65536"
  proof -
    have "unat (of_nat (length d mod 256) :: u8) = length d mod 256"
      "unat (of_nat (length d div 256) :: u8) = length d div 256"
      using that by (intro unat_of_nat_small; simp add: less_mult_imp_div_less)+
    then show ?thesis by simp
  qed
  then have "run_dec (snd (run_enc cap d) @ pad) = Some d" "snd (run_enc cap d) \<noteq> []" "length (snd (run_enc cap d)) \<le> cap"
    if "fst (run_enc cap d)" for pad
    using that by (auto simp: run_enc_def split: if_splits)
  then show ?thesis
    using assms by (cases fmt) (simp_all add: encodes_def decodes_def run_decoders_def)
qed

lemma run_codecs_ok: "codecs_ok run_codecs (decodes run_decoders hdr) hdr"
  unfolding codecs_ok_def run_codecs_def
  using run_encodes [of SECTOR_FMT_DEFLATE] run_encodes [of SECTOR_FMT_LZ4] by (auto simp: encodes_def)

lemma codecs_any: "codecs_ok cx dec hdr \<Longrightarrow> codecs_ok cx any_result hdr"
  by (auto simp: codecs_ok_def encodes_def any_result_def)

definition sample_pool :: pool where
  "sample_pool = fst (Alloc (BufferPool_init (\<lambda>_ _. 7)))"

definition sample_sector :: sector where
  "sample_sector = \<lparr>s_flags = TASKFLAG_NO_ALL AND NOT TASKFLAG_NO_LZ4_DEFAULT, s_align = 1, s_origMaxCost = 0,
     s_lz4MaxCost = 0, s_busy = True, s_enqueued = True, s_compress = True, s_blockSize = 4, s_readySize = 4,
     s_pos = 0, s_buffer = Some 0, s_best = None, s_bestSize = 4, s_bestFmt = SECTOR_FMT_ORIG,
     s_ready = Some 0, s_zStreams = []\<rparr>"

lemma sector_work_decodes_witness:
  "case sector_work run_codecs sample_pool sample_sector of (P', s') \<Rightarrow>
     Format s' = SECTOR_FMT_LZ4 \<and> BestSize s' = 3
     \<and> d_lz4 run_decoders (mread (mem P') (the (BestBuffer s')) 0 3) 4 = (4, [7, 7, 7, 7])"
proof -
  have P: "pool_inv sample_pool" "0 \<in> wild sample_pool"
    using alloc_inv [OF pool_inv_init] alloc_wild [OF pool_inv_init]
    by (simp_all add: sample_pool_def) (simp add: Alloc_def BufferPool_init_def c_malloc_def)
  have "codecs_fit run_codecs (decodes run_decoders (has_flag (s_flags sample_sector) TASKFLAG_FMT_DAX)) sample_sector"
    using run_codecs_ok unfolding codecs_fit_def by (simp add: sample_sector_def)
  note fit = this
  have d: "block_data sample_pool sample_sector = [7, 7, 7, 7]"
    by (simp add: block_data_def sample_sector_def sample_pool_def BufferPool_init_def mread_def upt_rec)
  have flags: "\<not> (\<not> has_flag (s_flags sample_sector) TASKFLAG_NO_ZOPFLI)" "\<not> (\<not> has_flag (s_flags sample_sector) TASKFLAG_NO_7ZIP)"
    "\<not> (\<not> has_flag (s_flags sample_sector) TASKFLAG_NO_LIBDEFLATE)" "\<not> has_flag (s_flags sample_sector) TASKFLAG_NO_LZ4_DEFAULT"
    "\<not> (\<not> has_flag (s_flags sample_sector) (TASKFLAG_NO_LZ4_HC OR TASKFLAG_NO_LZ4_HC_BRUTE))"
    by (simp_all add: has_flag_def sample_sector_def flag_defs)
  obtain P' s' where w: "sector_work run_codecs sample_pool sample_sector = (P', s')" by (rule prod.exhaust)
  obtain P1 where al: "Alloc sample_pool = (P1, 1)" "bufferSize P1 = 16384" "mem P1 = mem sample_pool"
    by (simp add: sample_pool_def Alloc_def c_malloc_def BufferPool_init_def MIN_SIZE_def)
  have "run_enc 16384 [7, 7, 7, 7] = (True, [7, 4, 0])" by (simp add: run_enc_def)
  then have "LZ4Trial run_codecs sample_pool sample_sector
      = (put P1 1 0 [7, 4, 0], sample_sector\<lparr>s_bestSize := 3, s_best := Some 1, s_bestFmt := SECTOR_FMT_LZ4\<rparr>)"
    using d al(3) by (simp add: LZ4Trial_def al(1,2) block_data_def run_codecs_def finish_trial_def SubmitTrial_def)
      (simp add: sample_sector_def has_flag_def flag_defs)
  then have "Format s' = SECTOR_FMT_LZ4 \<and> BestSize s' = 3 \<and> s_best s' \<noteq> None"
    using w unfolding sector_work_def Compress_def Let_def if_not_P [OF flags(1)] if_not_P [OF flags(2)]
      if_not_P [OF flags(3)] if_P [OF flags(4)] if_not_P [OF flags(5)]
    by (auto simp: FinalizeBest_def AlignedBestSize_def Format_def BestSize_def sample_sector_def)
  moreover have "s_buffer sample_sector = Some 0" "s_best sample_sector = None"
    "s_bestFmt sample_sector = SECTOR_FMT_ORIG" "s_bestSize sample_sector = s_blockSize sample_sector"
    by (simp_all add: sample_sector_def)
  note sector_work_decodes [OF P(1) this(1) P(2) this(2,3,4) refl fit w, unfolded d]
  ultimately have F: "Format s' = SECTOR_FMT_LZ4" "BestSize s' = 3" and
    D: "\<forall>pad. decodes run_decoders (has_flag (s_flags sample_sector) TASKFLAG_FMT_DAX) SECTOR_FMT_LZ4
      (mread (mem P') (the (BestBuffer s')) 0 3 @ pad) [7, 7, 7, 7]" by auto
  have L: "length [7, 7, 7, 7 :: u8] = 4" by simp
  have "d_lz4 run_decoders (mread (mem P') (the (BestBuffer s')) 0 3) 4 = (4, [7, 7, 7, 7])"
    using D [THEN spec, of "[]"] unfolding decodes_def SectorFormat.case append_Nil2 L of_nat_numeral
    by (simp add: mread_def)
  with F show ?thesis by (simp add: w)
qed

end
