(* ===== verification/OrderedMap.thy ===== *)
theory OrderedMap
  imports Prelude
begin

section \<open>std::map with integer keys\<close>

text \<open>
  \<open>Output\<close> keeps finished blocks, and \<open>ChecksumTask\<close> keeps early buffers, in a
  \<open>std::map<int64_t, T*>\<close> and relies on its ordered iteration.  The map is modelled as a
  sorted association list; the locale \<open>ordered_map\<close> is the contract its two clients use.
\<close>

type_synonym 'v omap = "(int \<times> 'v) list"

fun om_insert :: "int \<Rightarrow> 'v \<Rightarrow> 'v omap \<Rightarrow> 'v omap" where
  "om_insert k v [] = [(k, v)]"
| "om_insert k v ((k', v') # m) =
     (if k < k' then (k, v) # (k', v') # m
      else if k = k' then (k, v) # m
      else (k', v') # om_insert k v m)"

definition om_find :: "int \<Rightarrow> 'v omap \<Rightarrow> 'v option" where
  "om_find k m = map_of m k"

fun om_erase :: "int \<Rightarrow> 'v omap \<Rightarrow> 'v omap" where
  "om_erase k [] = []"
| "om_erase k ((k', v') # m) = (if k = k' then m else (k', v') # om_erase k m)"

definition om_begin :: "'v omap \<Rightarrow> (int \<times> 'v) option" where
  "om_begin m = (case m of [] \<Rightarrow> None | e # _ \<Rightarrow> Some e)"

definition om_inv :: "'v omap \<Rightarrow> bool" where
  "om_inv m \<longleftrightarrow> sorted_wrt (<) (map fst m)"

lemma om_inv_Nil [simp]: "om_inv []"
  by (simp add: om_inv_def)

lemma om_insert_keys: "fst ` set (om_insert k v m) = insert k (fst ` set m)"
  by (induction k v m rule: om_insert.induct) auto

lemma om_insert_inv: "om_inv m \<Longrightarrow> om_inv (om_insert k v m)"
  unfolding om_inv_def
  by (induction k v m rule: om_insert.induct) (auto simp: om_insert_keys simp flip: image_set)

lemma om_insert_find: "om_inv m \<Longrightarrow> om_find j (om_insert k v m) = ((\<lambda>i. om_find i m)(k \<mapsto> v)) j"
  unfolding om_find_def om_inv_def
  by (induction k v m rule: om_insert.induct) auto

lemma om_erase_subset: "set (om_erase k m) \<subseteq> set m"
  by (induction k m rule: om_erase.induct) auto

lemma om_erase_inv: "om_inv m \<Longrightarrow> om_inv (om_erase k m)"
  unfolding om_inv_def
proof (induction k m rule: om_erase.induct)
  case (2 k k' v' m)
  then show ?case using om_erase_subset [of k m] by fastforce
qed simp

lemma om_find_None: "om_find k m = None \<longleftrightarrow> k \<notin> fst ` set m"
  by (simp add: om_find_def map_of_eq_None_iff)

lemma om_erase_find: "om_inv m \<Longrightarrow> om_find j (om_erase k m) = ((\<lambda>i. om_find i m)(k := None)) j"
  unfolding om_inv_def
proof (induction k m rule: om_erase.induct)
  case (1 k)
  show ?case by (simp add: om_find_def)
next
  case (2 k k' v' m)
  show ?case
  proof (cases "k = k'")
    case True
    with 2 have "k \<notin> fst ` set m" by auto
    then have "map_of m k = None" by (simp add: map_of_eq_None_iff)
    with True show ?thesis by (simp add: om_find_def)
  next
    case False
    with 2 show ?thesis by (auto simp: om_find_def)
  qed
qed

lemma om_begin_min:
  assumes "om_inv m" and "om_begin m = Some (k, v)"
  shows "om_find k m = Some v" and "om_find j m \<noteq> None \<Longrightarrow> k \<le> j"
proof -
  obtain m' where m: "m = (k, v) # m'"
    using assms(2) by (cases m) (auto simp: om_begin_def)
  then show "om_find k m = Some v" by (simp add: om_find_def)
  assume "om_find j m \<noteq> None"
  then have "j \<in> fst ` set m" by (simp add: om_find_None)
  with assms(1) m show "k \<le> j" by (auto simp: om_inv_def)
qed

lemma om_begin_None: "om_begin m = None \<longleftrightarrow> (\<forall>k. om_find k m = None)"
  by (cases m) (auto simp: om_begin_def om_find_def split: if_splits)

subsection \<open>The contract\<close>

locale ordered_map =
  fixes inv :: "'m \<Rightarrow> bool"
    and find :: "int \<Rightarrow> 'm \<Rightarrow> 'v option"
    and insert :: "int \<Rightarrow> 'v \<Rightarrow> 'm \<Rightarrow> 'm"
    and erase :: "int \<Rightarrow> 'm \<Rightarrow> 'm"
    and begin_ent :: "'m \<Rightarrow> (int \<times> 'v) option"
  assumes insert_inv: "inv m \<Longrightarrow> inv (insert k v m)"
    and insert_find: "inv m \<Longrightarrow> find j (insert k v m) = (if j = k then Some v else find j m)"
    and erase_inv: "inv m \<Longrightarrow> inv (erase k m)"
    and erase_find: "inv m \<Longrightarrow> find j (erase k m) = (if j = k then None else find j m)"
    and begin_find: "inv m \<Longrightarrow> begin_ent m = Some (k, v) \<Longrightarrow> find k m = Some v"
    and begin_least: "inv m \<Longrightarrow> begin_ent m = Some (k, v) \<Longrightarrow> find j m \<noteq> None \<Longrightarrow> k \<le> j"
    and begin_empty: "begin_ent m = None \<longleftrightarrow> (\<forall>k. find k m = None)"
begin

text \<open>
  The first entry is the one at \<open>p\<close> exactly when \<open>p\<close> is present and nothing is below it:
  what both clients test before they use it.
\<close>

lemma begin_at:
  assumes "inv m" and "\<And>j. find j m \<noteq> None \<Longrightarrow> p \<le> j"
  shows "(\<exists>v. begin_ent m = Some (p, v)) \<longleftrightarrow> find p m \<noteq> None"
proof
  assume "\<exists>v. begin_ent m = Some (p, v)"
  then show "find p m \<noteq> None" using begin_find [OF assms(1)] by auto
next
  assume f: "find p m \<noteq> None"
  then obtain k v where b: "begin_ent m = Some (k, v)"
    using begin_empty [of m] by (cases "begin_ent m") auto
  have "k \<le> p" using begin_least [OF assms(1) b f] .
  moreover have "p \<le> k" using assms(2) [of k] begin_find [OF assms(1) b] by simp
  ultimately show "\<exists>v. begin_ent m = Some (p, v)" using b by simp
qed

lemma erase_present_keys:
  "inv m \<Longrightarrow> {j. find j (erase k m) \<noteq> None} = {j. find j m \<noteq> None} - {k}"
  by (auto simp: erase_find)

end

interpretation om: ordered_map om_inv om_find om_insert om_erase om_begin
  by unfold_locales
    (auto simp: om_insert_inv om_insert_find om_erase_inv om_erase_find om_begin_min
      om_begin_None dest: om_begin_min(2))

lemma om_erase_begin: "om_inv m \<Longrightarrow> om_begin m = Some (k, v) \<Longrightarrow> om_erase k m = tl m"
  by (cases m) (auto simp: om_begin_def)

lemma om_erase_length: "om_find k m = Some v \<Longrightarrow> length (om_erase k m) < length m"
  by (induction k m rule: om_erase.induct) (auto simp: om_find_def split: if_splits)

end
