(* ===== verification/Output.thy ===== *)
theory Output
  imports SectorProps OrderedMap
begin

section \<open>Writing the output file (src/output.cpp, src/output.h)\<close>

text \<open>
  \<open>Output\<close> splits the source into blocks, hands them to \<open>Sector\<close> objects and writes the
  finished blocks in source order, then the header and index.  The \<open>Sector\<close> objects are
  numbered; \<open>o_sec\<close> is the store of all of them.  Every libuv request the code submits is
  recorded in \<open>o_reqs\<close> until its completion is handled, the file's contents are \<open>o_disk\<close>, and
  each call of the client's \<open>finish_\<close> and \<open>progress_\<close> callbacks is recorded in \<open>o_calls\<close>.

  \<open>progress_\<close> is the one callback that calls back into \<open>Output\<close> (the client resumes its
  reader, which may call \<open>Enqueue\<close>), so \<open>HandleWrittenSectors\<close> is cut in two at that
  call: the first half records the call and leaves the frame of the second half in \<open>o_todo\<close>.
  The call is the last thing all of its callers do.
\<close>

subsection \<open>State\<close>

datatype out_call = CFinish bool string | CProgress int int int | CException

text \<open>
  A write in flight: of data (the sectors it covers, the source position after them, the number
  of bytes) or of the header and index.  Both carry the file offset and the bytes handed to libuv.
\<close>

datatype wreq = DataWrite "nat list" int int int "u8 list" | IndexWrite int "u8 list"

record out =
  o_flags :: u32
  o_state :: u32
  o_fmt :: CSOFormat
  o_origMaxCostPercent :: "u32 \<Rightarrow> u32"
  o_lz4MaxCostPercent :: "u32 \<Rightarrow> u32"
  o_file :: bool
  o_srcSize :: int
  o_srcPos :: int
  o_dstPos :: int
  o_index :: "u32 list"
  o_indexShift :: nat
  o_indexAlign :: u32
  o_blockSize :: u32
  o_blockShift :: nat
  o_freeSectors :: "nat list"
  o_pending :: "nat omap"
  o_partial :: "u32 \<Rightarrow> nat option"
  o_sec :: "nat \<Rightarrow> sector"
  o_reqs :: "wreq list"
  o_disk :: "u8 list"
  o_todo :: "int list"
  o_calls :: "out_call list"

definition QUEUE_SIZE :: nat where "QUEUE_SIZE = 32"
definition MAX_BUFS :: nat where "MAX_BUFS = 16"

definition STATE_INIT :: u32 where "STATE_INIT = 0x00"
definition STATE_HAS_FILE :: u32 where "STATE_HAS_FILE = 0x01"
definition STATE_INDEX_READY :: u32 where "STATE_INDEX_READY = 0x02"
definition STATE_INDEX_WRITTEN :: u32 where "STATE_INDEX_WRITTEN = 0x04"
definition STATE_DATA_WRITTEN :: u32 where "STATE_DATA_WRITTEN = 0x08"

lemmas state_defs = STATE_INIT_def STATE_HAS_FILE_def STATE_INDEX_READY_def
  STATE_INDEX_WRITTEN_def STATE_DATA_WRITTEN_def

definition set_state :: "out \<Rightarrow> u32 \<Rightarrow> out" where
  "set_state o' f = o'\<lparr>o_state := o_state o' OR f\<rparr>"

definition call :: "out \<Rightarrow> out_call \<Rightarrow> out" where
  "call o' c = o'\<lparr>o_calls := o_calls o' @ [c]\<rparr>"

definition submit_write :: "out \<Rightarrow> wreq \<Rightarrow> out" where
  "submit_write o' w = o'\<lparr>o_reqs := o_reqs o' @ [w]\<rparr>"

subsection \<open>Construction\<close>

definition Output_new :: "codecs \<Rightarrow> out \<Rightarrow> Task \<Rightarrow> out" where
  "Output_new cx o0 task = o0\<lparr>o_flags := task_flags task, o_state := STATE_INIT,
     o_fmt := CSO_FMT_CSO1, o_origMaxCostPercent := orig_max_cost_percent task,
     o_lz4MaxCostPercent := lz4_max_cost_percent task, o_srcSize := -1, o_index := [],
     o_freeSectors := [0..<QUEUE_SIZE], o_pending := [], o_partial := (\<lambda>_. None),
     o_sec := (\<lambda>i. Sector_new cx (o_sec o0 i) (task_flags task)),
     o_reqs := [], o_disk := [], o_todo := [], o_calls := []\<rparr>"

subsection \<open>SetFile\<close>

definition SrcSizeAligned :: "out \<Rightarrow> int" where
  "SrcSizeAligned o' = o_srcSize o' + uint (o_blockSize o') - 1"

definition DstFirstSectorPos :: "u32 \<Rightarrow> u32 \<Rightarrow> int" where
  "DstFirstSectorPos flags totalSectors =
     (if has_flag flags TASKFLAG_DECOMPRESS then 0
      else if has_flag flags TASKFLAG_FMT_DAX then
        int sizeof_DAXHeader + uint totalSectors * (4 + 2)
      else int sizeof_CSOHeader + uint (totalSectors + 1) * 4)"

text \<open>The loop \<open>for (int i = 62; i >= 31; --i)\<close>.\<close>

fun find_shift :: "int \<Rightarrow> nat \<Rightarrow> nat" where
  "find_shift worstSize i =
     (if i < 31 then 0
      else if worstSize \<ge> 2 ^ i then i + 1 - 31
      else find_shift worstSize (i - 1))"

declare find_shift.simps [simp del]

definition Align :: "u32 \<Rightarrow> int \<Rightarrow> int \<times> u32" where
  "Align indexAlign pos =
     (let off = (word_of_int (pos mod uint indexAlign) :: u32)
      in if off \<noteq> 0 then (pos + uint (indexAlign - off), indexAlign - off) else (pos, 0))"

fun setup_sectors :: "(nat \<Rightarrow> sector) \<Rightarrow> nat list \<Rightarrow> u32 \<Rightarrow> u32 \<Rightarrow> u32 \<Rightarrow> u32 \<Rightarrow> nat \<Rightarrow> sector" where
  "setup_sectors sec [] bs al oc lc = sec"
| "setup_sectors sec (i # is) bs al oc lc =
     setup_sectors (sec(i := Setup (sec i) bs al oc lc)) is bs al oc lc"

definition SetFile :: "out \<Rightarrow> bool \<Rightarrow> int \<Rightarrow> u32 \<Rightarrow> CSOFormat \<Rightarrow> out" where
  "SetFile o0 file srcSize blockSize fmt =
     (let o1 = o0\<lparr>o_file := file, o_srcSize := srcSize, o_srcPos := 0, o_fmt := fmt,
                  o_blockSize := blockSize, o_blockShift := shift_of (unat blockSize)\<rparr>;
          sectors = (word_of_int (drop_bit (o_blockShift o1) (srcSize + uint blockSize - 1)) :: u32);
          dstPos = DstFirstSectorPos (o_flags o1) sectors;
          worstSize = dstPos + srcSize;
          shift = (if has_flag (o_flags o1) TASKFLAG_DECOMPRESS then 0 else find_shift worstSize 62);
          o2 = o1\<lparr>o_index := replicate (unat (sectors + 1)) 0, o_dstPos := dstPos,
                  o_indexShift := shift\<rparr>
      in if fmt = CSO_FMT_DAX
            \<and> (shift \<noteq> 0 \<or> uint (word_of_int srcSize :: u32) < srcSize) then
           call o2 (CFinish False ''File too large to compress as DAX'')
         else if fmt = CSO_FMT_DAX \<and> blockSize \<noteq> of_nat DAX_FRAME_SIZE then
           call o2 (CFinish False ''DAX requires a block size of 8192'')
         else
           let indexAlign = push_bit shift 1;
               o3 = o2\<lparr>o_indexAlign := indexAlign, o_dstPos := fst (Align indexAlign dstPos)\<rparr>;
               o4 = set_state o3 STATE_HAS_FILE
           in o4\<lparr>o_sec := setup_sectors (o_sec o4) (o_freeSectors o4) blockSize indexAlign
                  (o_origMaxCostPercent o4 blockSize) (o_lz4MaxCostPercent o4 blockSize)\<rparr>)"

subsection \<open>The index\<close>

definition index_slot :: "int \<Rightarrow> nat" where
  "index_slot i = nat (sint (word_of_int i :: u32))"

definition UpdateIndex :: "out \<Rightarrow> int \<Rightarrow> int \<Rightarrow> SectorFormat \<Rightarrow> out \<times> bool" where
  "UpdateIndex o' srcPos dstPos compressedFmt =
     (let s = index_slot (drop_bit (o_blockShift o') srcPos);
          e = (word_of_int (drop_bit (o_indexShift o') dstPos) :: u32);
          e = (if compressedFmt = SECTOR_FMT_ORIG \<and> o_fmt o' \<noteq> CSO_FMT_CSO2 \<and> o_fmt o' \<noteq> CSO_FMT_DAX
               then e OR CSO_INDEX_UNCOMPRESSED else e);
          o1 = o'\<lparr>o_index := (o_index o')[s := e]\<rparr>
      in case o_fmt o' of
           CSO_FMT_CSO1 \<Rightarrow>
             if compressedFmt = SECTOR_FMT_LZ4
             then (call o1 (CFinish False ''LZ4 format not supported within CSO v1 file''), False)
             else (o1, True)
         | CSO_FMT_ZSO \<Rightarrow>
             if compressedFmt = SECTOR_FMT_DEFLATE
             then (call o1 (CFinish False ''Deflate format not supported within ZSO file''), False)
             else (o1, True)
         | CSO_FMT_CSO2 \<Rightarrow>
             if compressedFmt = SECTOR_FMT_LZ4
             then (o1\<lparr>o_index := (o_index o1)[s := e OR CSO2_INDEX_LZ4]\<rparr>, True)
             else (o1, True)
         | CSO_FMT_DAX \<Rightarrow>
             if compressedFmt \<noteq> SECTOR_FMT_DEFLATE
             then (call o1 (CFinish False ''Sector format must be ZLIB for entire file''), False)
             else (o1, True))"

subsection \<open>Finishing\<close>

definition CheckFinish :: "out \<Rightarrow> out" where
  "CheckFinish o' =
     (if has_flag (o_state o') STATE_INDEX_WRITTEN \<and> has_flag (o_state o') STATE_DATA_WRITTEN
      then call o' (CFinish True []) else o')"

definition out_sectors :: "out \<Rightarrow> u32" where
  "out_sectors o' = word_of_int (drop_bit (o_blockShift o') (SrcSizeAligned o'))"

definition cso_header :: "out \<Rightarrow> CSOHeader" where
  "cso_header o' = \<lparr>magic = (if o_fmt o' = CSO_FMT_ZSO then ZSO_MAGIC else CSO_MAGIC),
     header_size = of_nat sizeof_CSOHeader, uncompressed_size = word_of_int (o_srcSize o'),
     sector_size = o_blockSize o', version = (if o_fmt o' = CSO_FMT_CSO2 then 2 else 1),
     index_shift = of_nat (o_indexShift o'), unused = [0, 0]\<rparr>"

definition WriteCSOIndex :: "out \<Rightarrow> out" where
  "WriteCSOIndex o' =
     (let n = unat (out_sectors o' + 1);
          bytes = cso_header_bytes (cso_header o') @ concat (map le32 (take n (o_index o')));
          totalBytes = int sizeof_CSOHeader + int n * 4
      in if \<not> o_file o' then CheckFinish (set_state o' STATE_INDEX_WRITTEN)
         else submit_write o' (IndexWrite totalBytes bytes))"

definition dax_header :: "out \<Rightarrow> DAXHeader" where
  "dax_header o' = \<lparr>dax_magic = DAX_MAGIC, dax_uncompressed_size = word_of_int (o_srcSize o'),
     dax_version = 0, nc_areas = 0, dax_unused = [0, 0, 0, 0]\<rparr>"

text \<open>
  The loop that fills \<open>sizes\<close>.  An entry that does not fit 16 bits is reported and left as
  the uninitialised memory of \<open>new uint16_t[]\<close>, the parameter \<open>junk\<close>.
\<close>

fun dax_sizes :: "out \<Rightarrow> (nat \<Rightarrow> u16) \<Rightarrow> nat \<Rightarrow> nat \<Rightarrow> out \<times> u16 list" where
  "dax_sizes o' junk i 0 = (o', [])"
| "dax_sizes o' junk i (Suc n) =
     (let sz = o_index o' ! (i + 1) - o_index o' ! i;
          (o1, z) = (if sz < 0x10000 then (o', ucast sz)
                     else (call o' (CFinish False ''Compressed sector larger than 16 bits''), junk i));
          (o2, zs) = dax_sizes o1 junk (Suc i) n
      in (o2, z # zs))"

definition WriteDAXIndex :: "(nat \<Rightarrow> u16) \<Rightarrow> out \<Rightarrow> out" where
  "WriteDAXIndex junk o' =
     (let n = unat (out_sectors o');
          (o1, sizes) = dax_sizes o' junk 0 n;
          bytes = dax_header_bytes (dax_header o1) @ concat (map le32 (take n (o_index o1)))
                    @ concat (map le16 sizes);
          totalBytes = int sizeof_DAXHeader + int n * (4 + 2)
      in if \<not> o_file o1 then CheckFinish (set_state o1 STATE_INDEX_WRITTEN)
         else submit_write o1 (IndexWrite totalBytes bytes))"

definition Flush :: "(nat \<Rightarrow> u16) \<Rightarrow> out \<Rightarrow> out" where
  "Flush junk o' =
     (if \<not> has_flag (o_state o') STATE_INDEX_READY then
        call o' (CFinish False ''Flush called before index finalized'')
      else if has_flag (o_flags o') TASKFLAG_DECOMPRESS then
        CheckFinish (set_state o' STATE_INDEX_WRITTEN)
      else case o_fmt o' of
             CSO_FMT_DAX \<Rightarrow> WriteDAXIndex junk o'
           | _ \<Rightarrow> WriteCSOIndex o')"

subsection \<open>Writing finished blocks in order\<close>

text \<open>
  The \<open>while\<close> loop of \<open>HandleReadySector\<close> that takes the following blocks off the queue.
\<close>

function gather :: "nat omap \<Rightarrow> int \<Rightarrow> int \<Rightarrow> nat list \<Rightarrow> nat omap \<times> int \<times> nat list" where
  "gather pending nextPos blockSize sectors =
     (case om_find nextPos pending of
        None \<Rightarrow> (pending, nextPos, sectors)
      | Some sec \<Rightarrow>
          let sectors' = sectors @ [sec];
              pending' = om_erase nextPos pending;
              nextPos' = nextPos + blockSize
          in if length sectors' \<ge> MAX_BUFS then (pending', nextPos', sectors')
             else gather pending' nextPos' blockSize sectors')"
  by pat_completeness auto
termination
  by (relation "measure (\<lambda>(pending, _). length pending)") (auto simp: om_erase_length)

declare gather.simps [simp del]

text \<open>"In case there's padding in the compressed file, discard as needed."\<close>

definition clip_size :: "out \<Rightarrow> int \<Rightarrow> u32 \<Rightarrow> u32" where
  "clip_size o' dstPos bestSize =
     (if has_flag (o_flags o') TASKFLAG_DECOMPRESS \<and> dstPos + uint bestSize > o_srcSize o'
      then word_of_int (o_srcSize o' - dstPos) else bestSize)"

text \<open>
  The \<open>for\<close> loop that updates the index and builds the list of write buffers.  The flag is
  false when \<open>UpdateIndex\<close> failed and \<open>HandleReadySector\<close> returns early.
\<close>

fun write_bufs :: "pool \<Rightarrow> out \<Rightarrow> nat list \<Rightarrow> int \<Rightarrow> u8 list list \<Rightarrow> out \<times> int \<times> u8 list list \<times> bool" where
  "write_bufs P o' [] dstPos bufs = (o', dstPos, bufs, True)"
| "write_bufs P o' (i # is) dstPos bufs =
     (let sec = o_sec o' i;
          bestSize = BestSize sec;
          (o1, ok) = UpdateIndex o' (Pos sec) dstPos (Format sec)
      in if \<not> ok then (o1, dstPos, bufs, False)
         else
           let bestSize = clip_size o1 dstPos bestSize
           in if bestSize = 0 then write_bufs P o1 is dstPos bufs
              else
                let bufs1 = bufs @ [mread (mem P) (the (BestBuffer sec)) 0 (unat bestSize)];
                    (dstPos2, padSize) = Align (o_indexAlign o1) (dstPos + uint bestSize);
                    bufs2 = (if padSize \<noteq> 0 then bufs1 @ [replicate (unat padSize) 0] else bufs1)
                in write_bufs P o1 is dstPos2 bufs2)"

text \<open>\<open>HandleWrittenSectors\<close> up to its call of \<open>progress_\<close>, and the rest.\<close>

fun release_sectors :: "pool \<Rightarrow> out \<Rightarrow> nat list \<Rightarrow> pool \<times> out" where
  "release_sectors P o' [] = (P, o')"
| "release_sectors P o' (i # is) =
     (let (P1, s1) = sector_Release P (o_sec o' i)
      in release_sectors P1
           (o'\<lparr>o_sec := (o_sec o')(i := s1), o_freeSectors := o_freeSectors o' @ [i]\<rparr>) is)"

definition HandleWrittenSectors :: "pool \<Rightarrow> out \<Rightarrow> bool \<Rightarrow> nat list \<Rightarrow> int \<Rightarrow> int \<Rightarrow> pool \<times> out" where
  "HandleWrittenSectors P o' success sectors nextPos totalWrite =
     (let (P1, o1) = release_sectors P o' sectors
      in if \<not> success then (P1, o1)
         else
           let o2 = o1\<lparr>o_srcPos := nextPos, o_dstPos := o_dstPos o1 + totalWrite\<rparr>;
               o3 = call o2 (CProgress (o_srcPos o2) (o_srcSize o2) (o_dstPos o2))
           in (P1, o3\<lparr>o_todo := nextPos # o_todo o3\<rparr>))"

definition HandleReadySector :: "(nat \<Rightarrow> u16) \<Rightarrow> pool \<Rightarrow> out \<Rightarrow> nat option \<Rightarrow> pool \<times> out" where
  "HandleReadySector junk P o' sector =
     (let start =
        (case sector of
           Some i \<Rightarrow>
             if o_srcPos o' \<noteq> Pos (o_sec o' i)
             then Inl (o'\<lparr>o_pending := om_insert (Pos (o_sec o' i)) i (o_pending o')\<rparr>)
             else Inr (i, o')
         | None \<Rightarrow>
             (case om_begin (o_pending o') of
                None \<Rightarrow> Inl o'
              | Some (k, i) \<Rightarrow>
                  if o_srcPos o' \<noteq> Pos (o_sec o' i) then Inl o'
                  else Inr (i, o'\<lparr>o_pending := om_erase k (o_pending o')\<rparr>)))
      in case start of
           Inl o1 \<Rightarrow> (P, o1)
         | Inr (i, o1) \<Rightarrow>
             let (pending, nextPos, sectors) =
                   gather (o_pending o1) (o_srcPos o1 + uint (o_blockSize o1)) (uint (o_blockSize o1)) [i];
                 o2 = o1\<lparr>o_pending := pending\<rparr>;
                 (o3, dstPos, bufs, ok) = write_bufs P o2 sectors (o_dstPos o2) []
             in if \<not> ok then (P, o3)
                else
                  let o4 = (if nextPos \<ge> o_srcSize o3 then
                              let s = index_slot (drop_bit (o_blockShift o3) (SrcSizeAligned o3));
                                  o' = o3\<lparr>o_index := (o_index o3)[s := word_of_int (drop_bit (o_indexShift o3) dstPos)]\<rparr>
                              in Flush junk (set_state o' STATE_INDEX_READY)
                            else o3);
                      totalWrite = dstPos - o_dstPos o4
                  in if \<not> o_file o4 then HandleWrittenSectors P o4 True sectors nextPos totalWrite
                     else (P, submit_write o4 (DataWrite sectors nextPos totalWrite (o_dstPos o4) (concat bufs))))"

definition HandleWrittenSectors_rest :: "(nat \<Rightarrow> u16) \<Rightarrow> pool \<Rightarrow> out \<Rightarrow> int \<Rightarrow> pool \<times> out" where
  "HandleWrittenSectors_rest junk P o' nextPos =
     (if nextPos \<ge> o_srcSize o' then (P, CheckFinish (set_state o' STATE_DATA_WRITTEN))
      else HandleReadySector junk P o' None)"

subsection \<open>Taking a sector from the reader\<close>

definition ShouldCompress :: "u32 \<Rightarrow> bool" where
  "ShouldCompress flags = (if has_flag flags TASKFLAG_DECOMPRESS then False else True)"

definition QueueFull :: "out \<Rightarrow> bool" where
  "QueueFull o' \<longleftrightarrow> o_freeSectors o' = []"

text \<open>
  The callback \<open>Enqueue\<close> gives to \<open>Process\<close>; \<open>res\<close> is what \<open>Process\<close> led to.
\<close>

definition sector_callback :: "(nat \<Rightarrow> u16) \<Rightarrow> pool \<Rightarrow> out \<Rightarrow> nat \<Rightarrow> process_result \<Rightarrow> pool \<times> out" where
  "sector_callback junk P o' i res =
     (case res of
        PWait \<Rightarrow> (P, o')
      | PQueued \<Rightarrow> (P, o')
      | PBadCall \<Rightarrow> (P, call o' CException)
      | PReady block status reason \<Rightarrow>
          if \<not> status then (P, call o' (CFinish False reason))
          else HandleReadySector junk P
                 (if o_blockSize o' \<noteq> of_nat SECTOR_SIZE
                  then o'\<lparr>o_partial := (o_partial o')(block := None)\<rparr> else o') (Some i))"

definition process_sector :: "(nat \<Rightarrow> u16) \<Rightarrow> pool \<Rightarrow> out \<Rightarrow> nat \<Rightarrow> int \<Rightarrow> ptr \<Rightarrow> u32 \<Rightarrow> pool \<times> out" where
  "process_sector junk P o' i pos buffer block =
     (let (P1, s1, res) = Process P (o_sec o' i) pos buffer block
      in sector_callback junk P1 (o'\<lparr>o_sec := (o_sec o')(i := s1)\<rparr>) i res)"

text \<open>The padding loop for a source that does not fill its last block.\<close>

function pad_block :: "(nat \<Rightarrow> u16) \<Rightarrow> pool \<Rightarrow> out \<Rightarrow> nat \<Rightarrow> u32 \<Rightarrow> int \<Rightarrow> int \<Rightarrow> pool \<times> out" where
  "pad_block junk P o' i block padPos paddedSize =
     (if padPos < paddedSize then
        let (P1, padBuffer) = Alloc P;
            P2 = put P1 padBuffer 0 (replicate SECTOR_SIZE 0);
            (P3, o3) = process_sector junk P2 o' i padPos padBuffer block
        in pad_block junk P3 o3 i block (padPos + int SECTOR_SIZE) paddedSize
      else (P, o'))"
  by pat_completeness auto
termination
  by (relation "measure (\<lambda>(_, _, _, _, _, padPos, paddedSize). nat (paddedSize - padPos))")
    (auto simp: SECTOR_SIZE_def)

declare pad_block.simps [simp del]

text \<open>
  Taking \<open>freeSectors_.back()\<close> of an empty list is undefined in C++; the caller pauses
  the reader as soon as the list is empty.
\<close>

definition Enqueue :: "(nat \<Rightarrow> u16) \<Rightarrow> pool \<Rightarrow> out \<Rightarrow> int \<Rightarrow> ptr \<Rightarrow> pool \<times> out" where
  "Enqueue junk P o' pos buffer =
     (let tryCompress = ShouldCompress (o_flags o');
          block = (word_of_int (drop_bit (o_blockShift o') pos) :: u32);
          (i, o1) =
            (if o_blockSize o' \<noteq> of_nat SECTOR_SIZE then
               (case o_partial o' block of
                  Some i \<Rightarrow> (i, o')
                | None \<Rightarrow>
                    let i = last (o_freeSectors o')
                    in (i, o'\<lparr>o_freeSectors := butlast (o_freeSectors o'),
                              o_partial := (o_partial o')(block \<mapsto> i)\<rparr>))
             else (last (o_freeSectors o'), o'\<lparr>o_freeSectors := butlast (o_freeSectors o')\<rparr>));
          o2 = (if \<not> tryCompress
                then o1\<lparr>o_sec := (o_sec o1)(i := DisableCompress (o_sec o1 i))\<rparr> else o1);
          (P3, o3) = process_sector junk P o2 i pos buffer block
      in if o_blockSize o3 \<noteq> of_nat SECTOR_SIZE \<and> pos + int SECTOR_SIZE \<ge> o_srcSize o3 then
           pad_block junk P3 o3 i block (o_srcSize o3) (block_pos (SrcSizeAligned o3) (o_blockSize o3))
         else (P3, o3))"

subsection \<open>Completions\<close>

text \<open>
  The worker job of sector \<open>i\<close> ends with \<open>status\<close>: a cancelled job (a negative status) did
  not run.
\<close>

definition work_done :: "codecs \<Rightarrow> (nat \<Rightarrow> u16) \<Rightarrow> pool \<Rightarrow> out \<Rightarrow> nat \<Rightarrow> int \<Rightarrow> pool \<times> out" where
  "work_done cx junk P o' i status =
     (let (P1, s1) = (if status < 0 then (P, o_sec o' i) else sector_work cx P (o_sec o' i))
      in sector_callback junk P1 (o'\<lparr>o_sec := (o_sec o')(i := s1)\<rparr>) i (sector_after_work s1 status))"

text \<open>
  A write completes with \<open>result\<close>: negative for an error, otherwise the number of bytes that
  reached the file.
\<close>

definition write_done :: "pool \<Rightarrow> out \<Rightarrow> wreq \<Rightarrow> int \<Rightarrow> pool \<times> out" where
  "write_done P o' w result =
     (case w of
        DataWrite sectors nextPos totalWrite off bytes \<Rightarrow>
          let o1 = o'\<lparr>o_reqs := remove1 w (o_reqs o'),
                      o_disk := (if result < 0 then o_disk o'
                                 else file_write (o_disk o') (nat off) (take (nat result) bytes))\<rparr>;
              success = (result = totalWrite);
              (P2, o2) = HandleWrittenSectors P o1 success sectors nextPos totalWrite
          in if \<not> success then (P2, call o2 (CFinish False ''Data could not be written to output file''))
             else (P2, o2)
      | IndexWrite totalBytes bytes \<Rightarrow>
          let o1 = o'\<lparr>o_reqs := remove1 w (o_reqs o'),
                      o_disk := (if result < 0 then o_disk o'
                                 else file_write (o_disk o') 0 (take (nat result) bytes))\<rparr>
          in if result \<noteq> totalBytes then (P, call o1 (CFinish False ''Unable to write header data''))
             else (P, CheckFinish (set_state o1 STATE_INDEX_WRITTEN)))"

text \<open>\<open>progress_\<close> returns to the frame on top of \<open>o_todo\<close>.\<close>

definition progress_return :: "(nat \<Rightarrow> u16) \<Rightarrow> pool \<Rightarrow> out \<Rightarrow> pool \<times> out" where
  "progress_return junk P o' =
     (case o_todo o' of
        [] \<Rightarrow> (P, o')
      | nextPos # rest \<Rightarrow> HandleWrittenSectors_rest junk P (o'\<lparr>o_todo := rest\<rparr>) nextPos)"

end
