(* ===== verification/OutputProps.thy ===== *)
theory OutputProps
  imports Output
begin

section \<open>Correctness of the output layout\<close>

subsection \<open>The index shift\<close>

lemma find_shift_bound:
  "worst < 2 ^ Suc i \<Longrightarrow> worst < 2 ^ (31 + find_shift worst i)"
proof (induction worst i rule: find_shift.induct)
  case (1 worst i)
  show ?case
  proof (cases "i < 31")
    case True
    then have "worst < 2 ^ 31"
      using 1(2) power_increasing [of "Suc i" 31 "2 :: int"] by linarith
    with True show ?thesis by (simp add: find_shift.simps [of worst i])
  next
    case False
    show ?thesis
    proof (cases "worst \<ge> 2 ^ i")
      case True
      then have "find_shift worst i = i + 1 - 31"
        using False by (simp add: find_shift.simps [of worst i])
      then have "31 + find_shift worst i = Suc i" using False by simp
      with 1(2) show ?thesis by (simp only:)
    next
      case ge: False
      then have "worst < 2 ^ Suc (i - 1)" using False by simp
      from "1.IH" [OF False ge this] show ?thesis
        using False ge by (simp add: find_shift.simps [of worst i])
    qed
  qed
qed

lemma find_shift_least: "0 < find_shift worst i \<Longrightarrow> 2 ^ (30 + find_shift worst i) \<le> worst"
proof (induction worst i rule: find_shift.induct)
  case (1 worst i)
  show ?case
  proof (cases "i < 31 \<or> worst \<ge> 2 ^ i")
    case True
    with "1.prems" show ?thesis by (auto simp: find_shift.simps [of worst i] split: if_splits)
  next
    case False
    with 1 show ?thesis by (simp add: find_shift.simps [of worst i])
  qed
qed

lemma find_shift_le: "find_shift worst i \<le> i - 30"
proof (induction worst i rule: find_shift.induct)
  case (1 worst i)
  then show ?case by (auto simp: find_shift.simps [of worst i])
qed

text \<open>A position below the bound leaves bit 31 of its index entry free and is recovered.\<close>

definition index_value :: "nat \<Rightarrow> int \<Rightarrow> u32" where
  "index_value sh d = word_of_int (drop_bit sh d)"

lemma index_value_fits:
  assumes "0 \<le> d" and "d < 2 ^ (31 + sh)"
  shows "uint (index_value sh d) = d div 2 ^ sh" and "uint (index_value sh d) < 2 ^ 31"
proof -
  have "d div 2 ^ sh < 2 ^ 31"
    using assms(2) by (intro div_less_pow2) (simp add: power_add mult.commute)
  then have "0 \<le> d div 2 ^ sh" "d div 2 ^ sh < 2 ^ 32"
    using assms(1) by (simp_all add: pos_imp_zdiv_nonneg_iff)
  then show "uint (index_value sh d) = d div 2 ^ sh"
    unfolding index_value_def drop_bit_eq_div by (intro uint_of_int_small) simp_all
  then show "uint (index_value sh d) < 2 ^ 31"
    using \<open>d div 2 ^ sh < 2 ^ 31\<close> by simp
qed

subsection \<open>Alignment\<close>

lemma Align_pow2:
  assumes "sh < 32" and "0 \<le> pos"
  shows "2 ^ sh dvd fst (Align (2 ^ sh) pos)"
    and "fst (Align (2 ^ sh) pos) = pos + uint (snd (Align (2 ^ sh) pos))"
    and "uint (snd (Align (2 ^ sh) pos)) < 2 ^ sh"
    and "2 ^ sh dvd pos \<Longrightarrow> Align (2 ^ sh) pos = (pos, 0)"
proof -
  let ?a = "(2 :: u32) ^ sh" and ?m = "pos mod 2 ^ sh"
  have u: "uint ?a = 2 ^ sh"
    by (rule uint_2p_len) (use assms(1) in simp)
  have m: "0 \<le> ?m" "?m < 2 ^ sh" by simp_all
  have "(2 :: int) ^ sh < 2 ^ 32"
    by (rule power_strict_increasing) (use assms(1) in simp_all)
  then have "?m < 2 ^ LENGTH(32)" using less_trans [OF m(2)] by simp
  then have w: "uint (word_of_int ?m :: u32) = ?m"
    by (rule uint_of_int_small [OF m(1)])
  then have z: "(word_of_int ?m :: u32) = 0 \<longleftrightarrow> ?m = 0"
    by (metis unsigned_0 of_int_0)
  have pad: "uint (?a - word_of_int ?m) = 2 ^ sh - ?m"
    using uint_sub_lem [of "word_of_int ?m" ?a] m u w by simp
  have e: "Align ?a pos = (if ?m \<noteq> 0 then (pos + (2 ^ sh - ?m), ?a - word_of_int ?m) else (pos, 0))"
    using z pad by (simp add: Align_def Let_def u)
  have "2 ^ sh dvd pos - ?m" by simp
  then have "2 ^ sh dvd (pos - ?m) + 2 ^ sh" by (rule dvd_add) simp
  then have "2 ^ sh dvd pos + (2 ^ sh - ?m)" by (simp add: algebra_simps)
  then show "2 ^ sh dvd fst (Align (2 ^ sh) pos)"
    by (simp add: e dvd_eq_mod_eq_0)
  show "fst (Align (2 ^ sh) pos) = pos + uint (snd (Align (2 ^ sh) pos))"
    using pad by (simp add: e)
  have "0 < ?m" if "?m \<noteq> 0" using m(1) that by linarith
  then show "uint (snd (Align (2 ^ sh) pos)) < 2 ^ sh"
    using pad by (cases "?m = 0") (simp_all add: e)
  show "2 ^ sh dvd pos \<Longrightarrow> Align (2 ^ sh) pos = (pos, 0)"
    by (simp add: e dvd_eq_mod_eq_0)
qed

subsection \<open>Index entries\<close>

definition index_entry :: "CSOFormat \<Rightarrow> nat \<Rightarrow> int \<Rightarrow> SectorFormat \<Rightarrow> u32" where
  "index_entry fmt sh d cf =
     (if (fmt = CSO_FMT_CSO1 \<or> fmt = CSO_FMT_ZSO) \<and> cf = SECTOR_FMT_ORIG
          \<or> fmt = CSO_FMT_CSO2 \<and> cf = SECTOR_FMT_LZ4
      then index_value sh d OR 0x80000000 else index_value sh d)"

text \<open>Which stored formats a file format can hold.\<close>

fun format_allowed :: "CSOFormat \<Rightarrow> SectorFormat \<Rightarrow> bool" where
  "format_allowed CSO_FMT_CSO1 cf = (cf \<noteq> SECTOR_FMT_LZ4)"
| "format_allowed CSO_FMT_CSO2 cf = True"
| "format_allowed CSO_FMT_ZSO cf = (cf \<noteq> SECTOR_FMT_DEFLATE)"
| "format_allowed CSO_FMT_DAX cf = (cf = SECTOR_FMT_DEFLATE)"

lemma UpdateIndex_ok: "snd (UpdateIndex o' sp d cf) \<longleftrightarrow> format_allowed (o_fmt o') cf"
  by (cases "o_fmt o'") (simp_all add: UpdateIndex_def Let_def)

lemma UpdateIndex_entry:
  "format_allowed (o_fmt o') cf \<Longrightarrow> UpdateIndex o' sp d cf =
     (o'\<lparr>o_index := (o_index o')[index_slot (drop_bit (o_blockShift o') sp)
            := index_entry (o_fmt o') (o_indexShift o') d cf]\<rparr>, True)"
  by (cases "o_fmt o'"; cases cf)
     (simp_all add: UpdateIndex_def Let_def index_entry_def index_value_def
        CSO_INDEX_UNCOMPRESSED_def CSO2_INDEX_LZ4_def)

lemma UpdateIndex_refused:
  "\<not> format_allowed (o_fmt o') cf \<Longrightarrow>
     \<exists>msg ix. UpdateIndex o' sp d cf = (call (o'\<lparr>o_index := ix\<rparr>) (CFinish False msg), False)"
  by (cases "o_fmt o'"; cases cf) (auto simp: UpdateIndex_def Let_def)

subsection \<open>The blocks taken together\<close>

text \<open>
  \<open>gather\<close> takes the blocks at the positions \<open>nextPos, nextPos + bs, ...\<close> while they are
  there, at most up to 16 in all.
\<close>

lemma gather_length: "length (fst (gather pending n bs secs)) \<le> length pending"
proof (induction pending n bs secs rule: gather.induct)
  case (1 pending n bs secs)
  show ?case
  proof (cases "om_find n pending")
    case (Some sec)
    with 1 [OF Some refl refl refl] om_erase_length [of n pending sec] show ?thesis
      by (subst gather.simps) (auto simp: Let_def)
  qed (simp add: gather.simps)
qed

lemma gather_spec:
  assumes "om_inv pending" and "gather pending nextPos bs secs = (pending', nextPos', secs')"
    and "length secs < MAX_BUFS" and "0 < bs"
  shows "\<exists>new. secs' = secs @ new \<and> length secs' \<le> MAX_BUFS
    \<and> nextPos' = nextPos + int (length new) * bs
    \<and> (\<forall>k < length new. om_find (nextPos + int k * bs) pending = Some (new ! k))
    \<and> om_inv pending'
    \<and> (\<forall>j. om_find j pending' = (if \<exists>k < length new. j = nextPos + int k * bs then None else om_find j pending))
    \<and> (length secs' < MAX_BUFS \<longrightarrow> om_find nextPos' pending = None)"
  using assms
proof (induction pending nextPos bs secs rule: gather.induct)
  case (1 pending nextPos bs secs)
  show ?case
  proof (cases "om_find nextPos pending")
    case None
    then have "pending' = pending \<and> nextPos' = nextPos \<and> secs' = secs"
      using 1(3) by (simp add: gather.simps [of pending])
    then show ?thesis using 1 None by (intro exI [of _ "[]"]) auto
  next
    case (Some i)
    let ?p = "om_erase nextPos pending"
    have inv: "om_inv ?p" by (rule om.erase_inv [OF 1(2)])
    have fnd: "om_find j ?p = (if j = nextPos then None else om_find j pending)" for j
      by (rule om.erase_find [OF 1(2)])
    show ?thesis
    proof (cases "length (secs @ [i]) \<ge> MAX_BUFS")
      case True
      then have "pending' = ?p \<and> nextPos' = nextPos + bs \<and> secs' = secs @ [i]"
        using 1(3) Some by (simp add: gather.simps [of pending])
      then show ?thesis using 1(4) True inv fnd Some
        by (intro exI [of _ "[i]"]) (auto simp: fnd)
    next
      case False
      then have g: "gather ?p (nextPos + bs) bs (secs @ [i]) = (pending', nextPos', secs')"
        using 1(3) Some by (simp add: gather.simps [of pending])
      obtain new where new: "secs' = (secs @ [i]) @ new" "length secs' \<le> MAX_BUFS"
        "nextPos' = nextPos + bs + int (length new) * bs"
        "\<And>k. k < length new \<Longrightarrow> om_find (nextPos + bs + int k * bs) ?p = Some (new ! k)"
        "om_inv pending'"
        "\<And>j. om_find j pending' = (if \<exists>k < length new. j = nextPos + bs + int k * bs then None else om_find j ?p)"
        "length secs' < MAX_BUFS \<longrightarrow> om_find nextPos' ?p = None"
        using "1.IH" [OF Some refl refl refl False inv g _ 1(5)] False by auto
      have pos: "nextPos + int (Suc k) * bs = nextPos + bs + int k * bs" for k
        by (simp add: algebra_simps)
      have ne: "nextPos + bs + int k * bs \<noteq> nextPos" for k
        using 1(5) by (smt (verit) of_nat_0_le_iff zero_le_mult_iff)
      have "om_find (nextPos + int k * bs) pending = Some ((i # new) ! k)" if "k < length (i # new)" for k
      proof (cases k)
        case 0
        then show ?thesis using Some by simp
      next
        case (Suc m)
        then show ?thesis using that new(4) [of m] ne [of m] by (simp only: pos fnd) (simp split: if_splits)
      qed
      moreover have "(\<exists>k < length (i # new). j = nextPos + int k * bs)
          \<longleftrightarrow> j = nextPos \<or> (\<exists>k < length new. j = nextPos + bs + int k * bs)" for j
      proof -
        have "(\<exists>k < Suc (length new). j = nextPos + int k * bs)
            \<longleftrightarrow> j = nextPos + int 0 * bs \<or> (\<exists>k < length new. j = nextPos + int (Suc k) * bs)"
          using less_Suc_eq_0_disj by auto
        then show ?thesis by (simp only: pos) simp
      qed
      moreover have "nextPos' = nextPos + int (length (i # new)) * bs"
        using new(3) by (simp add: algebra_simps)
      moreover have "om_find nextPos' pending = None" if "length secs' < MAX_BUFS"
        using new(7) that ne [of "length new"] by (simp add: new(3) fnd split: if_splits)
      ultimately show ?thesis
        using new(1,2,5,6) by (intro exI [of _ "i # new"]) (auto simp: fnd)
    qed
  qed
qed

subsection \<open>The write buffers\<close>

text \<open>
  \<open>stored_size\<close> is the number of bytes of a block that go to the file (a decompressed last
  block is cut at the size of the source), \<open>next_pos\<close> where the next block starts, and
  \<open>block_bytes\<close> the bytes written for it, alignment padding included.
\<close>

definition stored_size :: "out \<Rightarrow> nat \<Rightarrow> int \<Rightarrow> u32" where
  "stored_size o' i d = clip_size o' d (BestSize (o_sec o' i))"

lemma clip_size_frame [simp]: "clip_size (o'\<lparr>o_index := x\<rparr>) d z = clip_size o' d z"
  unfolding clip_size_def by simp

lemma stored_size_frame [simp]: "stored_size (o'\<lparr>o_index := x\<rparr>) i d = stored_size o' i d"
  unfolding stored_size_def by simp

definition next_pos :: "out \<Rightarrow> nat \<Rightarrow> int \<Rightarrow> int" where
  "next_pos o' i d = (if stored_size o' i d = 0 then d
     else fst (Align (o_indexAlign o') (d + uint (stored_size o' i d))))"

definition block_bytes :: "pool \<Rightarrow> out \<Rightarrow> nat \<Rightarrow> int \<Rightarrow> u8 list" where
  "block_bytes P o' i d = (if stored_size o' i d = 0 then []
     else mread (mem P) (the (BestBuffer (o_sec o' i))) 0 (unat (stored_size o' i d))
       @ replicate (unat (snd (Align (o_indexAlign o') (d + uint (stored_size o' i d))))) 0)"

fun layout_end :: "out \<Rightarrow> nat list \<Rightarrow> int \<Rightarrow> int" where
  "layout_end o' [] d = d"
| "layout_end o' (i # is) d = layout_end o' is (next_pos o' i d)"

fun layout_bytes :: "pool \<Rightarrow> out \<Rightarrow> nat list \<Rightarrow> int \<Rightarrow> u8 list" where
  "layout_bytes P o' [] d = []"
| "layout_bytes P o' (i # is) d = block_bytes P o' i d @ layout_bytes P o' is (next_pos o' i d)"

definition block_entry :: "out \<Rightarrow> nat \<Rightarrow> int \<Rightarrow> u32" where
  "block_entry o' i d = index_entry (o_fmt o') (o_indexShift o') d (Format (o_sec o' i))"

fun layout_index :: "out \<Rightarrow> nat list \<Rightarrow> int \<Rightarrow> u32 list \<Rightarrow> u32 list" where
  "layout_index o' [] d ix = ix"
| "layout_index o' (i # is) d ix = layout_index o' is (next_pos o' i d)
     (ix[index_slot (drop_bit (o_blockShift o') (Pos (o_sec o' i))) := block_entry o' i d])"

definition all_allowed :: "out \<Rightarrow> nat list \<Rightarrow> bool" where
  "all_allowed o' is \<longleftrightarrow> (\<forall>i \<in> set is. format_allowed (o_fmt o') (Format (o_sec o' i)))"

lemma layout_frame [simp]:
  "next_pos (o'\<lparr>o_index := x\<rparr>) i d = next_pos o' i d"
  "block_bytes P (o'\<lparr>o_index := x\<rparr>) i d = block_bytes P o' i d"
  "block_entry (o'\<lparr>o_index := x\<rparr>) i d = block_entry o' i d"
  by (simp_all add: next_pos_def block_bytes_def block_entry_def)

lemma layout_frame_list [simp]:
  "layout_end (o'\<lparr>o_index := x\<rparr>) is d = layout_end o' is d"
  "layout_bytes P (o'\<lparr>o_index := x\<rparr>) is d = layout_bytes P o' is d"
  "layout_index (o'\<lparr>o_index := x\<rparr>) is d ix = layout_index o' is d ix"
  "all_allowed (o'\<lparr>o_index := x\<rparr>) is = all_allowed o' is"
proof -
  show "layout_end (o'\<lparr>o_index := x\<rparr>) is d = layout_end o' is d"
    by (induction "is" arbitrary: d) simp_all
  show "layout_bytes P (o'\<lparr>o_index := x\<rparr>) is d = layout_bytes P o' is d"
    by (induction "is" arbitrary: d) simp_all
  show "layout_index (o'\<lparr>o_index := x\<rparr>) is d ix = layout_index o' is d ix"
    by (induction "is" arbitrary: d ix) simp_all
  show "all_allowed (o'\<lparr>o_index := x\<rparr>) is = all_allowed o' is"
    by (simp add: all_allowed_def)
qed

lemma write_bufs_step:
  assumes "format_allowed (o_fmt o') (Format (o_sec o' i))"
  shows "\<exists>new. write_bufs P o' (i # is) d bufs = write_bufs P
      (o'\<lparr>o_index := (o_index o')[index_slot (drop_bit (o_blockShift o') (Pos (o_sec o' i))) := block_entry o' i d]\<rparr>)
      is (next_pos o' i d) (bufs @ new) \<and> concat new = block_bytes P o' i d \<and> length new \<le> 2"
proof -
  let ?z = "stored_size o' i d"
  let ?A = "Align (o_indexAlign o') (d + uint ?z)"
  let ?new = "if ?z = 0 then []
    else mread (mem P) (the (BestBuffer (o_sec o' i))) 0 (unat ?z) #
      (if snd ?A \<noteq> 0 then [replicate (unat (snd ?A)) 0] else [])"
  have "write_bufs P o' (i # is) d bufs = write_bufs P
      (o'\<lparr>o_index := (o_index o')[index_slot (drop_bit (o_blockShift o') (Pos (o_sec o' i))) := block_entry o' i d]\<rparr>)
      is (next_pos o' i d) (bufs @ ?new)"
    using UpdateIndex_entry [OF assms]
    by (simp add: Let_def block_entry_def next_pos_def stored_size_def split: prod.split)
  moreover have "concat ?new = block_bytes P o' i d" and "length ?new \<le> 2"
    by (simp_all add: block_bytes_def)
  ultimately show ?thesis by blast
qed

lemma write_bufs_spec:
  assumes "all_allowed o' is"
  shows "\<exists>new. write_bufs P o' is d bufs =
      (o'\<lparr>o_index := layout_index o' is d (o_index o')\<rparr>, layout_end o' is d, bufs @ new, True)
    \<and> concat new = layout_bytes P o' is d \<and> length new \<le> 2 * length is"
  using assms
proof (induction "is" arbitrary: o' d bufs)
  case Nil
  show ?case by (intro exI [of _ "[]"]) simp
next
  case (Cons i "is")
  have ok: "format_allowed (o_fmt o') (Format (o_sec o' i))" "all_allowed o' is"
    using Cons.prems by (simp_all add: all_allowed_def)
  let ?o = "o'\<lparr>o_index := (o_index o')[index_slot (drop_bit (o_blockShift o') (Pos (o_sec o' i))) := block_entry o' i d]\<rparr>"
  obtain n1 where n1: "write_bufs P o' (i # is) d bufs = write_bufs P ?o is (next_pos o' i d) (bufs @ n1)"
    "concat n1 = block_bytes P o' i d" "length n1 \<le> 2"
    using write_bufs_step [OF ok(1)] by blast
  have "all_allowed ?o is" using ok(2) by simp
  from Cons.IH [OF this, of "next_pos o' i d" "bufs @ n1"] obtain n2 where
    "write_bufs P ?o is (next_pos o' i d) (bufs @ n1)
      = (?o\<lparr>o_index := layout_index ?o is (next_pos o' i d) (o_index ?o)\<rparr>,
         layout_end ?o is (next_pos o' i d), (bufs @ n1) @ n2, True)"
    "concat n2 = layout_bytes P ?o is (next_pos o' i d)" "length n2 \<le> 2 * length is"
    by blast
  with n1 show ?case by (intro exI [of _ "n1 @ n2"]) simp
qed

text \<open>When a block has a format the file cannot hold, the loop stops and reports it.\<close>

lemma write_bufs_refused:
  "\<not> all_allowed o' is \<Longrightarrow> \<exists>ix d' bufs' msg.
     write_bufs P o' is d bufs = (call (o'\<lparr>o_index := ix\<rparr>) (CFinish False msg), d', bufs', False)"
proof (induction "is" arbitrary: o' d bufs)
  case Nil
  then show ?case by (simp add: all_allowed_def)
next
  case (Cons i "is")
  show ?case
  proof (cases "format_allowed (o_fmt o') (Format (o_sec o' i))")
    case True
    let ?o = "o'\<lparr>o_index := (o_index o')[index_slot (drop_bit (o_blockShift o') (Pos (o_sec o' i))) := block_entry o' i d]\<rparr>"
    obtain n1 where n1: "write_bufs P o' (i # is) d bufs = write_bufs P ?o is (next_pos o' i d) (bufs @ n1)"
      using write_bufs_step [OF True] by blast
    have "\<not> all_allowed ?o is"
      using Cons.prems True by (simp add: all_allowed_def)
    from Cons.IH [OF this] show ?thesis
      unfolding n1 by (fastforce simp: call_def)
  next
    case False
    from UpdateIndex_refused [OF False] obtain msg ix where
      "UpdateIndex o' (Pos (o_sec o' i)) d (Format (o_sec o' i))
        = (call (o'\<lparr>o_index := ix\<rparr>) (CFinish False msg), False)" by blast
    then show ?thesis by auto
  qed
qed

subsection \<open>Properties\<close>

text \<open>C23: The index shift is the least one for which every position below the worst size fits into
  31 bits, and it is at most 32, for every size below 2^63.\<close>

theorem index_shift_least:
  assumes "worst < 2 ^ 63"
  shows "worst < 2 ^ (31 + find_shift worst 62) \<and> find_shift worst 62 \<le> 32
    \<and> (find_shift worst 62 = 0 \<or> 2 ^ (30 + find_shift worst 62) \<le> worst)"
  using find_shift_bound [of worst 62] find_shift_le [of worst 62] find_shift_least [of worst 62] assms
  by auto

lemma index_shift_least_witness: "find_shift 0x123456789 62 = 2"
proof -
  have h: "(0x123456789 :: int) < 2 ^ 63" by simp
  define s where "s = find_shift 0x123456789 62"
  have b: "0x123456789 < (2 :: int) ^ (31 + s)" "s = 0 \<or> 2 ^ (30 + s) \<le> (0x123456789 :: int)"
    using index_shift_least [OF h] by (simp_all add: s_def)
  have "31 + s \<ge> 33"
  proof (rule ccontr)
    assume "\<not> 31 + s \<ge> 33"
    then have "(2 :: int) ^ (31 + s) \<le> 2 ^ 32" by (intro power_increasing) simp_all
    with b(1) show False by simp
  qed
  moreover have "30 + s < 33"
  proof (rule ccontr)
    assume "\<not> 30 + s < 33"
    then have "(2 :: int) ^ 33 \<le> 2 ^ (30 + s)" by (intro power_increasing) simp_all
    with b(2) \<open>\<not> 30 + s < 33\<close> show False by simp
  qed
  ultimately show ?thesis by (simp add: s_def)
qed

lemma next_pos_aligned:
  assumes "o_indexAlign o' = 2 ^ sh" "sh < 32" "0 \<le> d" "2 ^ sh dvd d"
  shows "2 ^ sh dvd next_pos o' i d" and "next_pos o' i d = d + int (length (block_bytes P o' i d))"
    and "d \<le> next_pos o' i d"
proof -
  let ?z = "stored_size o' i d"
  have z: "0 \<le> d + uint ?z" using assms(3) by (simp add: add_nonneg_nonneg)
  note al = Align_pow2 [OF assms(2) z]
  show 1: "2 ^ sh dvd next_pos o' i d"
    using assms(4) al(1) by (simp add: next_pos_def assms(1))
  show 2: "next_pos o' i d = d + int (length (block_bytes P o' i d))"
    using al(2) by (simp add: next_pos_def block_bytes_def assms(1))
  then show "d \<le> next_pos o' i d" by simp
qed

lemma layout_aligned:
  assumes "o_indexAlign o' = 2 ^ sh" "sh < 32"
  shows "0 \<le> d \<Longrightarrow> 2 ^ sh dvd d \<Longrightarrow> 2 ^ sh dvd layout_end o' is d
    \<and> layout_end o' is d = d + int (length (layout_bytes P o' is d))"
proof (induction "is" arbitrary: d)
  case (Cons i "is")
  note n = next_pos_aligned [OF assms Cons.prems, of i]
  have "0 \<le> next_pos o' i d" using n(3) Cons.prems(1) by linarith
  from Cons.IH [OF this n(1)] have "2 ^ sh dvd layout_end o' (i # is) d"
    "layout_end o' (i # is) d = next_pos o' i d + int (length (layout_bytes P o' is (next_pos o' i d)))"
    unfolding layout_end.simps by blast+
  then show ?case using n(2) [of P] by (metis add.assoc layout_bytes.simps(2) length_append of_nat_add)
qed simp


text \<open>An output with one block of three stored bytes, alignment 4.\<close>

definition small_out :: out where
  "small_out = \<lparr>o_flags = 0, o_state = 0, o_fmt = CSO_FMT_CSO1, o_origMaxCostPercent = (\<lambda>_. 0),
     o_lz4MaxCostPercent = (\<lambda>_. 0), o_file = True, o_srcSize = 4096, o_srcPos = 0, o_dstPos = 36, o_index = [0, 0, 0],
     o_indexShift = 2, o_indexAlign = 2 ^ 2, o_blockSize = 2048, o_blockShift = 11, o_freeSectors = [],
     o_pending = [], o_partial = Map.empty,
     o_sec = (\<lambda>i. sample_sector\<lparr>s_pos := 2048 * int i, s_best := Some 0, s_bestSize := 3, s_bestFmt := SECTOR_FMT_DEFLATE\<rparr>),
     o_reqs = [], o_disk = [], o_todo = [], o_calls = []\<rparr>"


text \<open>C11: Blocks are written in source order however they finish: the blocks \<open>HandleReadySector\<close>
  takes along are exactly those waiting at the following positions without a gap, at most 16 in
  all; they leave the queue, every other entry stays, and the position goes to the end of the run.\<close>

theorem gather_takes_run:
  assumes "om_inv pending" and "gather pending nextPos bs secs = (pending', nextPos', secs')"
    and "length secs < MAX_BUFS" and "0 < bs"
  shows "\<exists>new. secs' = secs @ new \<and> length secs' \<le> MAX_BUFS
    \<and> nextPos' = nextPos + int (length new) * bs
    \<and> (\<forall>k < length new. om_find (nextPos + int k * bs) pending = Some (new ! k))
    \<and> om_inv pending'
    \<and> (\<forall>j. om_find j pending' = (if \<exists>k < length new. j = nextPos + int k * bs then None else om_find j pending))
    \<and> (length secs' < MAX_BUFS \<longrightarrow> om_find nextPos' pending = None)"
  by (rule gather_spec [OF assms])

lemma gather_takes_run_witness:
  "\<exists>new. gather [(2048, 5), (4096, 3), (8192, 6)] 2048 2048 [1] = ([(8192, 6)], 6144, [1] @ new) \<and> new = [5, 3 :: nat]"
proof -
  let ?p = "[(2048, 5), (4096, 3), (8192, 6)] :: nat omap"
  have g: "gather ?p 2048 2048 [1] = ([(8192, 6)], 6144, [1, 5, 3])"
    by (simp add: gather.simps MAX_BUFS_def om_find_def)
  have "om_inv ?p" by (simp add: om_inv_def)
  from gather_takes_run [OF this g] obtain new where "[1, 5, 3] = [1] @ new"
    "\<forall>k < length new. om_find (2048 + int k * 2048) ?p = Some (new ! k)"
    by (auto simp: MAX_BUFS_def)
  with g show ?thesis by auto
qed

text \<open>C22: A block in a format the file cannot hold (LZ4 in CSO v1, deflate in ZSO, anything but
  deflate in DAX) makes the loop stop with one error for the client.\<close>

theorem format_not_allowed_refused:
  assumes "\<not> all_allowed o' is"
  shows "\<exists>ix d' bufs' msg. write_bufs P o' is d bufs = (call (o'\<lparr>o_index := ix\<rparr>) (CFinish False msg), d', bufs', False)"
  by (rule write_bufs_refused [OF assms])

lemma format_not_allowed_refused_witness:
  "\<exists>ix d' bufs' msg. write_bufs sample_pool (small_out\<lparr>o_fmt := CSO_FMT_ZSO\<rparr>) [0, 1] 36 []
     = (call (small_out\<lparr>o_fmt := CSO_FMT_ZSO, o_index := ix\<rparr>) (CFinish False msg), d', bufs', False)"
proof -
  have "\<not> all_allowed (small_out\<lparr>o_fmt := CSO_FMT_ZSO\<rparr>) [0, 1]"
    by (auto simp: all_allowed_def small_out_def Format_def)
  from format_not_allowed_refused [OF this, of sample_pool 36 "[]"] show ?thesis .
qed

end
