(* ===== verification/SectorFill.thy ===== *)
theory SectorFill
  imports SectorProps
begin

section \<open>Collecting a block: \<open>Sector::Process\<close>\<close>

text \<open>
  However the sectors of one output block arrive, \<open>Process\<close> puts each at its place, gives
  every input buffer back to the pool and completes exactly when the last one is in.
\<close>

lemma mask_ucast:
  assumes "k < 32"
  shows "(ucast ((2 :: u32) ^ k - 1) :: u64) = mask k"
proof -
  have "(2 :: u32) ^ k - 1 = mask k" by (simp add: mask_eq_exp_minus_1)
  then show ?thesis
    using assms by (simp) (rule bit_word_eqI, auto simp: bit_simps)
qed

lemma block_pos_eq:
  assumes "0 \<le> pos" and "pos < 2 ^ 63" and "k < 32"
  shows "block_pos pos (2 ^ k) = pos - pos mod 2 ^ k"
proof -
  have "block_pos pos (2 ^ k) = sint (word_of_int (pos - pos mod 2 ^ k) :: u64)"
    by (simp add: block_pos_def mask_ucast [OF assms(3)] and_not_mask_word push_drop_bit_eq)
  moreover have "pos mod 2 ^ k \<le> pos"
    using assms(1) by (simp add: zmod_le_nonneg_dividend)
  moreover have "0 \<le> pos mod 2 ^ k" by simp
  then have "pos - pos mod 2 ^ k \<le> pos" by linarith
  then have "pos - pos mod 2 ^ k < 2 ^ 63"
    using assms(2) by (rule le_less_trans)
  then have "pos - pos mod 2 ^ k < 2 ^ (LENGTH(64) - 1)" by simp
  ultimately show ?thesis
    using sint_word_of_int_small [where 'a = 64, of "pos - pos mod 2 ^ k"] by simp
qed

subsection \<open>A partly filled block\<close>

text \<open>
  \<open>G i = Some d\<close>: the sector with index \<open>i\<close> of the block at \<open>base\<close> has arrived with the
  bytes \<open>d\<close>.
\<close>

definition filling :: "pool \<Rightarrow> sector \<Rightarrow> int \<Rightarrow> nat \<Rightarrow> (nat \<Rightarrow> u8 list option) \<Rightarrow> bool" where
  "filling P s base n G \<longleftrightarrow>
     s_busy s \<and> \<not> s_enqueued s \<and> s_pos s = base \<and> unat (s_blockSize s) = n * SECTOR_SIZE
     \<and> n * SECTOR_SIZE \<le> unat (bufferSize P) \<and> s_readySize s = of_nat (card (dom G) * SECTOR_SIZE)
     \<and> s_bestSize s = s_blockSize s \<and> s_bestFmt s = SECTOR_FMT_ORIG
     \<and> finite (dom G) \<and> dom G \<subseteq> {..<n}
     \<and> (\<exists>b. s_buffer s = Some b \<and> b \<in> wild P
          \<and> (\<forall>i d. G i = Some d \<longrightarrow> mread (mem P) b (i * SECTOR_SIZE) SECTOR_SIZE = d))"

definition sector_bytes :: "pool \<Rightarrow> ptr \<Rightarrow> u8 list" where
  "sector_bytes P q = mread (mem P) q 0 SECTOR_SIZE"

text \<open>What \<open>Process\<close> answers once \<open>m\<close> of \<open>n\<close> sectors are in.\<close>

definition fill_result :: "sector \<Rightarrow> u32 \<Rightarrow> nat \<Rightarrow> nat \<Rightarrow> process_result" where
  "fill_result s ready m n =
     (if m < n then PWait else if s_compress s then PQueued else PReady ready True [])"

definition after_fill :: "sector \<Rightarrow> u32 \<Rightarrow> nat \<Rightarrow> nat \<Rightarrow> sector" where
  "after_fill s ready m n =
     (if m < n \<or> \<not> s_compress s then s else s\<lparr>s_enqueued := True, s_ready := Some ready\<rparr>)"

text \<open>The tail of \<open>Process\<close>: count the sector in and decide.\<close>

lemma Process_count:
  assumes "s_readySize s = of_nat (m * SECTOR_SIZE)" and "m < n"
    and "unat (s_blockSize s) = n * SECTOR_SIZE" and "\<not> s_enqueued s"
  shows "(let s2 = s\<lparr>s_readySize := s_readySize s + of_nat SECTOR_SIZE\<rparr>
     in if s_readySize s2 < s_blockSize s2 then (P1, s2, PWait)
        else if s_enqueued s2 then
          (P1, s2, call_ready s2 False ''Sector already waiting for queued operation'')
        else if s_compress s2 then
          (P1, s2\<lparr>s_enqueued := True, s_ready := Some ready\<rparr>, PQueued)
        else (P1, s2, PReady ready True []))
   = (P1, after_fill (s\<lparr>s_readySize := of_nat (Suc m * SECTOR_SIZE)\<rparr>) ready (Suc m) n,
      fill_result s ready (Suc m) n)"
proof -
  have sz: "s_readySize s + of_nat SECTOR_SIZE = (of_nat (Suc m * SECTOR_SIZE) :: u32)"
    using assms(1) by (simp add: algebra_simps)
  have le: "Suc m * SECTOR_SIZE \<le> unat (s_blockSize s)"
    unfolding assms(3) by (rule mult_le_mono1) (use assms(2) in simp)
  have "unat (of_nat (Suc m * SECTOR_SIZE) :: u32) = Suc m * SECTOR_SIZE"
    by (rule unat_of_nat_le [OF le])
  then have lt: "(of_nat (Suc m * SECTOR_SIZE) :: u32) < s_blockSize s \<longleftrightarrow> Suc m < n"
    unfolding word_less_nat_alt assms(3) by (simp only: mult_less_cancel2) (simp add: SECTOR_SIZE_def)
  show ?thesis
    by (simp only: Let_def sz) (simp add: lt assms(4) after_fill_def fill_result_def del: of_nat_Suc of_nat_mult mult_Suc)
qed

lemma Process_next:
  assumes fi: "filling P s base n G" and inv: "pool_inv P" and i: "i < n" "G i = None"
    and q: "q \<in> wild P" "Some q \<noteq> s_buffer s"
    and pr: "Process P s (base + int (i * SECTOR_SIZE)) q ready = (P', s', res)"
  shows "res = fill_result s ready (Suc (card (dom G))) n"
    and "s' = after_fill (s\<lparr>s_readySize := of_nat (Suc (card (dom G)) * SECTOR_SIZE)\<rparr>) ready (Suc (card (dom G))) n"
    and "pool_inv P'" and "wild P' = wild P - {q}" and "bufferSize P' = bufferSize P"
    and "\<And>p. p \<noteq> q \<Longrightarrow> Some p \<noteq> s_buffer s \<Longrightarrow> mem P' p = mem P p"
    and "\<And>b j d. s_buffer s = Some b \<Longrightarrow> (G(i \<mapsto> sector_bytes P q)) j = Some d \<Longrightarrow>
           mread (mem P') b (j * SECTOR_SIZE) SECTOR_SIZE = d"
proof -
  obtain b where b: "s_buffer s = Some b" "b \<in> wild P"
    and rd: "\<And>i d. G i = Some d \<Longrightarrow> mread (mem P) b (i * SECTOR_SIZE) SECTOR_SIZE = d"
    using fi by (auto simp: filling_def)
  let ?off = "i * SECTOR_SIZE"
  let ?Q = "pool_Release (copy_sector P b ?off q) q"
  have n: "n * SECTOR_SIZE \<le> unat (bufferSize P)" "unat (s_blockSize s) = n * SECTOR_SIZE"
    using fi by (auto simp: filling_def)
  have "Suc i * SECTOR_SIZE \<le> n * SECTOR_SIZE"
    using i(1) by (intro mult_le_mono1) simp
  then have off: "?off < unat (bufferSize P)"
    using n(1) by (simp add: SECTOR_SIZE_def)
  have lt: "(word_of_int (int ?off) :: u64) < ucast (bufferSize P)"
  proof -
    have "unat (bufferSize P) < 2 ^ 32"
      by (rule unat_less_32)
    then have "unat (of_nat ?off :: u64) = ?off"
      using off by (intro unat_of_nat_small) simp
    moreover have "unat (ucast (bufferSize P) :: u64) = unat (bufferSize P)"
      by (simp add: unat_ucast_up)
    ultimately show ?thesis
      using off by (simp add: word_less_nat_alt)
  qed
  have fin: "finite (dom G)" "dom G \<subseteq> {..<n}"
    using fi by (auto simp: filling_def)
  have "card (dom G) < card {..<n}"
    using fin i by (intro psubset_card_mono) auto
  then have card: "card (dom G) < n" by simp
  have bq: "b \<noteq> q" using q(2) b(1) by auto
  have busy: "s_busy s" "s_pos s = base" "\<not> s_enqueued s"
    and rs: "s_readySize s = of_nat (card (dom G) * SECTOR_SIZE)"
    using fi by (auto simp: filling_def)
  have e: "Process P s (base + int ?off) q ready =
      (?Q, after_fill (s\<lparr>s_readySize := of_nat (Suc (card (dom G)) * SECTOR_SIZE)\<rparr>) ready (Suc (card (dom G))) n,
       fill_result s ready (Suc (card (dom G))) n)"
    using Process_count [OF rs card n(2) busy(3), of ?Q ready] lt
    by (simp add: Process_def busy b(1) del: of_nat_mult of_nat_Suc mult_Suc)
  then have P': "P' = ?Q" using pr by simp
  from e show "res = fill_result s ready (Suc (card (dom G))) n"
    and "s' = after_fill (s\<lparr>s_readySize := of_nat (Suc (card (dom G)) * SECTOR_SIZE)\<rparr>) ready (Suc (card (dom G))) n"
    using pr by simp_all
  show "pool_inv P'"
    unfolding P' by (rule release_inv) (use inv q in \<open>simp_all add: copy_sector_def\<close>)
  show "wild P' = wild P - {q}" and "bufferSize P' = bufferSize P"
    by (simp_all add: P' release_wild copy_sector_def)
  show "mem P' p = mem P p" if "p \<noteq> q" "Some p \<noteq> s_buffer s" for p
    using that b(1) by (simp add: P' copy_sector_def mem_simps)
  show "mread (mem P') b' (j * SECTOR_SIZE) SECTOR_SIZE = d"
    if "s_buffer s = Some b'" and j: "(G(i \<mapsto> sector_bytes P q)) j = Some d" for b' j d
  proof (cases "j = i")
    case True
    have "mread (mwrite (mem P) b ?off (sector_bytes P q)) b ?off SECTOR_SIZE = sector_bytes P q"
      using mread_same [of "mem P" b ?off "sector_bytes P q"] by (simp add: sector_bytes_def)
    with that b(1) True show ?thesis
      by (simp add: P' copy_sector_def sector_bytes_def)
  next
    case False
    have "?off + SECTOR_SIZE \<le> j * SECTOR_SIZE \<or> j * SECTOR_SIZE + SECTOR_SIZE \<le> ?off"
    proof (cases "i < j")
      case True
      then have "Suc i * SECTOR_SIZE \<le> j * SECTOR_SIZE" by (intro mult_le_mono1) simp
      then show ?thesis by simp
    next
      case False
      with \<open>j \<noteq> i\<close> have "Suc j * SECTOR_SIZE \<le> i * SECTOR_SIZE" by (intro mult_le_mono1) simp
      then show ?thesis by simp
    qed
    then have "mread (mem P') b (j * SECTOR_SIZE) SECTOR_SIZE = mread (mem P) b (j * SECTOR_SIZE) SECTOR_SIZE"
      by (simp add: P' copy_sector_def mread_disjoint)
    with rd [of j d] False j that(1) b(1) show ?thesis by simp
  qed
qed

subsection \<open>The first sector of a block\<close>

lemma Process_first:
  assumes idle: "\<not> s_busy s" "\<not> s_enqueued s" "s_readySize s = 0" and inv: "pool_inv P"
    and k: "unat (s_blockSize s) = n * SECTOR_SIZE" "s_blockSize s = 2 ^ k" "k < 32" "1 < n"
    and sz: "n * SECTOR_SIZE \<le> unat (bufferSize P)"
    and base: "0 \<le> base" "base mod 2 ^ k = 0" "base + 2 ^ k \<le> 2 ^ 63"
    and i: "i < n" and q: "q \<in> wild P"
    and pr: "Process P s (base + int (i * SECTOR_SIZE)) q ready = (P', s', res)"
  shows "res = PWait" and "filling P' s' base n [i \<mapsto> sector_bytes P q]"
    and "pool_inv P'" and "the (s_buffer s') \<notin> wild P"
    and "wild P' = insert (the (s_buffer s')) (wild P - {q})" and "bufferSize P' = bufferSize P"
    and "\<And>p. p \<in> wild P \<Longrightarrow> mem P' p = mem P p"
    and "s' = s\<lparr>s_busy := True, s_pos := base, s_bestSize := s_blockSize s,
           s_bestFmt := SECTOR_FMT_ORIG, s_buffer := s_buffer s', s_readySize := of_nat SECTOR_SIZE\<rparr>"
proof -
  let ?pos = "base + int (i * SECTOR_SIZE)"
  obtain P1 b where al: "Alloc P = (P1, b)" by (rule prod.exhaust)
  then have P1: "P1 = fst (Alloc P)" and b: "b = snd (Alloc P)" by simp_all
  have fresh: "b \<notin> wild P" unfolding b by (rule alloc_fresh [OF inv])
  have nk: "n * SECTOR_SIZE = 2 ^ k"
  proof -
    have "unat ((2 :: u32) ^ k) = 2 ^ k"
      by (rule unat_2p) (use k(3) in simp)
    then show ?thesis using k(1,2) by simp
  qed
  have "Suc i * SECTOR_SIZE \<le> n * SECTOR_SIZE"
    using i by (intro mult_le_mono1) simp
  then have "i * SECTOR_SIZE < n * SECTOR_SIZE" by (simp add: SECTOR_SIZE_def)
  then have "i * SECTOR_SIZE < 2 ^ k" by (simp only: nk)
  then have off: "int (i * SECTOR_SIZE) < 2 ^ k"
    by (metis of_nat_less_iff of_nat_numeral of_nat_power)
  have bp: "block_pos ?pos (2 ^ k) = base"
  proof -
    have "block_pos ?pos (2 ^ k) = ?pos - ?pos mod 2 ^ k"
      by (rule block_pos_eq) (use base off k(3) in linarith)+
    moreover have "?pos mod 2 ^ k = int (i * SECTOR_SIZE)"
      using base(2) off by (simp add: mod_add_eq [symmetric] del: of_nat_mult)
    ultimately show ?thesis by simp
  qed
  have ne: "s_blockSize s \<noteq> of_nat SECTOR_SIZE"
    using k(1,4) by (auto simp: SECTOR_SIZE_def)
  let ?s1 = "s\<lparr>s_busy := True, s_pos := base, s_bestSize := s_blockSize s,
     s_bestFmt := SECTOR_FMT_ORIG, s_buffer := Some b\<rparr>"
  let ?Q = "pool_Release (copy_sector P1 b (i * SECTOR_SIZE) q) q"
  have "Process P s ?pos q ready =
      (?Q, after_fill (?s1\<lparr>s_readySize := of_nat (Suc 0 * SECTOR_SIZE)\<rparr>) ready (Suc 0) n,
       fill_result ?s1 ready (Suc 0) n)"
    apply (subst Process_count [of ?s1 0 n ?Q ready, symmetric])
    using idle k(1,4) apply simp_all [4]
    using idle ne bp by (simp add: Process_def k(2) al del: of_nat_mult)
  then have P': "P' = ?Q" and s': "s' = ?s1\<lparr>s_readySize := of_nat SECTOR_SIZE\<rparr>" and "res = PWait"
    using pr k(4) by (simp_all add: after_fill_def fill_result_def)
  then show "res = PWait" by simp
  have al1: "pool_inv P1" "wild P1 = insert b (wild P)" "bufferSize P1 = bufferSize P" "mem P1 = mem P"
    using inv by (simp_all add: P1 b alloc_inv alloc_wild)
  show inv': "pool_inv P'"
    unfolding P' by (rule release_inv) (use al1 q in \<open>simp_all add: copy_sector_def\<close>)
  show "the (s_buffer s') \<notin> wild P" using fresh by (simp add: s')
  show w: "wild P' = insert (the (s_buffer s')) (wild P - {q})"
    using fresh q al1 by (auto simp: P' s' release_wild copy_sector_def)
  show sz': "bufferSize P' = bufferSize P" by (simp add: P' copy_sector_def al1)
  show "mem P' p = mem P p" if "p \<in> wild P" for p
    using that fresh al1 by (auto simp: P' copy_sector_def mwrite_def)
  show "s' = s\<lparr>s_busy := True, s_pos := base, s_bestSize := s_blockSize s,
       s_bestFmt := SECTOR_FMT_ORIG, s_buffer := s_buffer s', s_readySize := of_nat SECTOR_SIZE\<rparr>"
    by (simp add: s')
  have "mread (mem P') b (i * SECTOR_SIZE) SECTOR_SIZE = sector_bytes P q"
    using mread_same [of "mem P" b "i * SECTOR_SIZE" "sector_bytes P q"] al1
    by (simp add: P' copy_sector_def sector_bytes_def)
  then show "filling P' s' base n [i \<mapsto> sector_bytes P q]"
    using idle k(1) sz sz' i w by (simp add: filling_def s')
qed

text \<open>The state between two calls of \<open>Process\<close> stays a partly filled block.\<close>

lemma filling_next:
  assumes fi: "filling P s base n G" and inv: "pool_inv P" and i: "i < n" "G i = None"
    and q: "q \<in> wild P" "Some q \<noteq> s_buffer s"
    and pr: "Process P s (base + int (i * SECTOR_SIZE)) q ready = (P', s', PWait)"
  shows "filling P' s' base n (G(i \<mapsto> sector_bytes P q))"
proof -
  note nx = Process_next [OF fi inv i q pr]
  have m: "Suc (card (dom G)) < n"
    using nx(1) by (simp add: fill_result_def split: if_splits)
  then have s': "s' = s\<lparr>s_readySize := of_nat (Suc (card (dom G)) * SECTOR_SIZE)\<rparr>"
    using nx(2) by (simp add: after_fill_def)
  have fin: "finite (dom G)" using fi by (simp add: filling_def)
  have "i \<notin> dom G" using i(2) by auto
  then have c: "card (dom (G(i \<mapsto> sector_bytes P q))) = Suc (card (dom G))"
    using fin by simp
  obtain b where b: "s_buffer s = Some b" "b \<in> wild P"
    using fi by (auto simp: filling_def)
  have "\<exists>b. s_buffer s' = Some b \<and> b \<in> wild P' \<and> (\<forall>j d. (G(i \<mapsto> sector_bytes P q)) j = Some d
      \<longrightarrow> mread (mem P') b (j * SECTOR_SIZE) SECTOR_SIZE = d)"
    using b q(2) nx(4) nx(7) [OF b(1)] by (intro exI [of _ b]) (auto simp: s')
  moreover have "s_readySize s' = of_nat (card (dom (G(i \<mapsto> sector_bytes P q))) * SECTOR_SIZE)"
    by (simp only: c) (simp add: s')
  ultimately show ?thesis
    using fi fin i nx(5) unfolding filling_def by (simp add: s' del: fun_upd_apply)
qed

subsection \<open>A whole block\<close>

text \<open>
  The calls of \<open>Process\<close> for the sectors of one block, each given by its index in the block
  and its buffer.
\<close>

fun Process_all :: "pool \<Rightarrow> sector \<Rightarrow> int \<Rightarrow> u32 \<Rightarrow> (nat \<times> ptr) list \<Rightarrow> pool \<times> sector \<times> process_result list" where
  "Process_all P s base ready [] = (P, s, [])"
| "Process_all P s base ready ((i, q) # iqs) =
     (let (P1, s1, r) = Process P s (base + int (i * SECTOR_SIZE)) q ready;
          (P2, s2, rs) = Process_all P1 s1 base ready iqs
      in (P2, s2, r # rs))"

lemma mread_blocks: "mread m p 0 (n * k) = concat (map (\<lambda>i. mread m p (i * k) k) [0..<n])"
proof (induction n)
  case 0
  show ?case by simp
next
  case (Suc n)
  have "mread m p 0 (Suc n * k) = mread m p 0 (n * k) @ mread m p (n * k) k"
    using mread_append [of m p 0 "n * k" k] by (simp add: add.commute)
  with Suc show ?case by simp
qed

lemma fill_rest:
  assumes "filling P s base n G" and "pool_inv P"
    and "distinct (map fst iqs)" and "fst ` set iqs \<inter> dom G = {}"
    and "dom G \<union> fst ` set iqs = {..<n}" and "iqs \<noteq> []"
    and "distinct (map snd iqs)" and "snd ` set iqs \<subseteq> wild P" and "s_buffer s \<notin> Some ` snd ` set iqs"
    and "Process_all P s base ready iqs = (P', s', rs)"
  shows "rs = replicate (length iqs - 1) PWait @ [if s_compress s then PQueued else PReady ready True []]
    \<and> s_buffer s' = s_buffer s \<and> s_blockSize s' = s_blockSize s \<and> pool_inv P'
    \<and> wild P' = wild P - snd ` set iqs
    \<and> (\<forall>i<n. mread (mem P') (the (s_buffer s)) (i * SECTOR_SIZE) SECTOR_SIZE
         = (case G i of Some d \<Rightarrow> d | None \<Rightarrow> sector_bytes P (the (map_of iqs i))))"
  using assms
proof (induction iqs arbitrary: P s G rs P' s')
  case Nil
  then show ?case by simp
next
  case (Cons iq iqs)
  obtain i q where iq: "iq = (i, q)" by (rule prod.exhaust)
  obtain P1 s1 r where pr: "Process P s (base + int (i * SECTOR_SIZE)) q ready = (P1, s1, r)"
    by (metis prod_cases3)
  obtain P2 s2 rs2 where rest: "Process_all P1 s1 base ready iqs = (P2, s2, rs2)"
    by (metis prod_cases3)
  have out: "P' = P2" "s' = s2" "rs = r # rs2"
    using Cons.prems(10) by (simp_all add: iq pr rest del: of_nat_mult)
  have i: "i < n" "G i = None"
    using Cons.prems(4,5) by (auto simp: iq)
  have q: "q \<in> wild P" "Some q \<noteq> s_buffer s"
    using Cons.prems(8,9) by (auto simp: iq)
  note nx = Process_next [OF Cons.prems(1,2) i q pr]
  obtain b where b: "s_buffer s = Some b"
    using Cons.prems(1) by (auto simp: filling_def)
  have fin: "finite (dom G)" using Cons.prems(1) by (simp add: filling_def)
  have "card (dom G \<union> fst ` set (iq # iqs)) = card (dom G) + length (iq # iqs)"
    using Cons.prems(3,4) fin
  proof -
    have "card (fst ` set (iq # iqs)) = length (map fst (iq # iqs))"
      using distinct_card [OF Cons.prems(3)] by (simp only: set_map)
    then show ?thesis
      using fin Cons.prems(4) by (subst card_Un_disjoint) auto
  qed
  then have len: "card (dom G) + Suc (length iqs) = n"
    unfolding Cons.prems(5) by simp
  show ?case
  proof (cases "iqs = []")
    case True
    then have m: "Suc (card (dom G)) = n" using len by simp
    have "r = (if s_compress s then PQueued else PReady ready True [])"
      using nx(1) m by (simp add: fill_result_def)
    moreover have "s_buffer s1 = s_buffer s \<and> s_blockSize s1 = s_blockSize s"
      using nx(2) by (simp add: after_fill_def)
    moreover have "P2 = P1" "s2 = s1" "rs2 = []"
      using rest True by simp_all
    moreover have "mread (mem P1) b (j * SECTOR_SIZE) SECTOR_SIZE
        = (case G j of Some d \<Rightarrow> d | None \<Rightarrow> sector_bytes P (the (map_of (iq # iqs) j)))" if "j < n" for j
    proof -
      have "j \<in> dom G \<or> j = i"
        using that Cons.prems(5) by (auto simp: True iq)
      then show ?thesis
        using nx(7) [OF b, of j] i by (auto simp: iq True split: option.split)
    qed
    ultimately show ?thesis
      using True nx(3,4) out by (simp add: iq b)
  next
    case False
    then have m: "Suc (card (dom G)) < n" using len by (cases iqs) auto
    then have r: "r = PWait" and s1: "s1 = s\<lparr>s_readySize := of_nat (Suc (card (dom G)) * SECTOR_SIZE)\<rparr>"
      using nx(1,2) by (simp_all add: fill_result_def after_fill_def)
    let ?G = "G(i \<mapsto> sector_bytes P q)"
    have fi: "filling P1 s1 base n ?G"
      using filling_next [OF Cons.prems(1,2) i q, of ready P1 s1] pr r by simp
    have disj: "fst ` set iqs \<inter> dom ?G = {}" "dom ?G \<union> fst ` set iqs = {..<n}"
      using Cons.prems(3,4,5) by (auto simp: iq)
    have qs: "q \<notin> snd ` set iqs" and w1: "snd ` set iqs \<subseteq> wild P1"
      using Cons.prems(7,8) nx(4) by (auto simp: iq)
    have bs: "s_buffer s1 \<notin> Some ` snd ` set iqs"
      using Cons.prems(9) by (auto simp: s1 iq)
    have IH: "rs2 = replicate (length iqs - 1) PWait @ [if s_compress s then PQueued else PReady ready True []]
      \<and> s_buffer s2 = s_buffer s \<and> s_blockSize s2 = s_blockSize s \<and> pool_inv P2
      \<and> wild P2 = wild P1 - snd ` set iqs
      \<and> (\<forall>i<n. mread (mem P2) b (i * SECTOR_SIZE) SECTOR_SIZE
           = (case ?G i of Some d \<Rightarrow> d | None \<Rightarrow> sector_bytes P1 (the (map_of iqs i))))"
      using Cons.IH [OF fi nx(3) _ disj False _ w1 bs rest] Cons.prems(3,7) by (simp add: s1 iq b)
    have same: "sector_bytes P1 (the (map_of iqs j)) = sector_bytes P (the (map_of iqs j))"
      if "j \<in> fst ` set iqs" for j
    proof -
      obtain p where p: "map_of iqs j = Some p" "p \<in> snd ` set iqs"
        using map_of_in [of j iqs] \<open>j \<in> fst ` set iqs\<close> by blast
      have "p \<noteq> q" using qs p(2) by blast
      moreover have "Some p \<in> Some ` snd ` set iqs" using p(2) by (rule imageI)
      moreover have "s_buffer s \<notin> Some ` snd ` set iqs" using Cons.prems(9) by simp
      ultimately have "p \<noteq> q" "Some p \<noteq> s_buffer s" by metis+
      then show ?thesis
        using nx(6) [of p] p(1) by (simp add: sector_bytes_def mread_def)
    qed
    have "mread (mem P2) b (j * SECTOR_SIZE) SECTOR_SIZE
        = (case G j of Some d \<Rightarrow> d | None \<Rightarrow> sector_bytes P (the (map_of (iq # iqs) j)))" if "j < n" for j
    proof -
      have "j \<in> dom G \<or> j = i \<or> j \<in> fst ` set iqs \<and> j \<noteq> i \<and> G j = None"
        using that Cons.prems(3,4,5) by (auto simp: iq)
      then show ?thesis
        using IH that i same by (auto simp: iq split: option.split)
    qed
    moreover have "replicate (length iqs) PWait = PWait # replicate (length iqs - 1) PWait"
      using False by (cases iqs) simp_all
    moreover have "wild P2 = wild P - snd ` set (iq # iqs)"
      using IH nx(4) by (auto simp: iq)
    ultimately show ?thesis
      using IH out r by (simp add: b)
  qed
qed

lemma fill_block:
  assumes idle: "\<not> s_busy s" "\<not> s_enqueued s" "s_readySize s = 0" and inv: "pool_inv P"
    and k: "unat (s_blockSize s) = n * SECTOR_SIZE" "s_blockSize s = 2 ^ k" "k < 32" "1 < n"
    and sz: "n * SECTOR_SIZE \<le> unat (bufferSize P)"
    and base: "0 \<le> base" "base mod 2 ^ k = 0" "base + 2 ^ k \<le> 2 ^ 63"
    and iqs: "distinct (map fst iqs)" "fst ` set iqs = {..<n}"
      "distinct (map snd iqs)" "snd ` set iqs \<subseteq> wild P"
    and run: "Process_all P s base ready iqs = (P', s', rs)"
  shows "rs = replicate (n - 1) PWait @ [if s_compress s then PQueued else PReady ready True []]"
    and "block_data P' s' = concat (map (\<lambda>i. sector_bytes P (the (map_of iqs i))) [0..<n])"
    and "pool_inv P'"
    and "wild P' = insert (the (s_buffer s')) (wild P - snd ` set iqs)"
    and "the (s_buffer s') \<notin> wild P"
proof -
  from iqs(2) k(4) have "iqs \<noteq> []" by auto
  then obtain iq rest where iqs_eq: "iqs = iq # rest" by (cases iqs) auto
  obtain i q where iq: "iq = (i, q)" by (rule prod.exhaust)
  obtain P1 s1 r where pr: "Process P s (base + int (i * SECTOR_SIZE)) q ready = (P1, s1, r)"
    by (metis prod_cases3)
  obtain P2 s2 rs2 where run2: "Process_all P1 s1 base ready rest = (P2, s2, rs2)"
    by (metis prod_cases3)
  have out: "P' = P2" "s' = s2" "rs = r # rs2"
    using run by (simp_all add: iqs_eq iq pr run2 del: of_nat_mult)
  have i: "i < n" and q: "q \<in> wild P"
    using iqs(2,4) by (auto simp: iqs_eq iq)
  note f = Process_first [OF idle inv k sz base i q pr]
  let ?b = "the (s_buffer s1)" and ?G = "[i \<mapsto> sector_bytes P q]"
  have b: "s_buffer s1 = Some ?b"
    using f(2) by (auto simp: filling_def)
  have len: "length iqs = n"
    using iqs(1,2) by (metis card_lessThan distinct_card image_set length_map)
  have ne: "rest \<noteq> []" using len k(4) by (cases rest) (auto simp: iqs_eq)
  have disj: "fst ` set rest \<inter> dom ?G = {}" "dom ?G \<union> fst ` set rest = {..<n}"
    using iqs(1,2) by (auto simp: iqs_eq iq)
  have ptrs: "distinct (map snd rest)" "snd ` set rest \<subseteq> wild P1"
    using iqs(3,4) f(5) by (auto simp: iqs_eq iq)
  have nb: "s_buffer s1 \<notin> Some ` snd ` set rest"
    using f(4) iqs(4) b by (auto simp: iqs_eq iq)
  have sc: "s_compress s1 = s_compress s" "s_blockSize s1 = s_blockSize s"
    by (subst f(8), simp)+
  note R = fill_rest [OF f(2,3) _ disj ne ptrs nb run2]
  have dr: "distinct (map fst rest)" using iqs(1) by (simp add: iqs_eq)
  note R = R [OF dr]
  have "replicate (n - 1) PWait = PWait # replicate (length rest - 1) PWait"
    using len ne by (cases rest) (auto simp: iqs_eq)
  then show "rs = replicate (n - 1) PWait @ [if s_compress s then PQueued else PReady ready True []]"
    using R f(1) sc by (simp add: out)
  show "pool_inv P'" using R by (simp add: out)
  show "the (s_buffer s') \<notin> wild P" using R f(4) by (simp add: out)
  show "wild P' = insert (the (s_buffer s')) (wild P - snd ` set iqs)"
    using R f(5) nb b by (auto simp: out iqs_eq iq)
  have "mread (mem P2) ?b (j * SECTOR_SIZE) SECTOR_SIZE = sector_bytes P (the (map_of iqs j))"
    if "j < n" for j
  proof (cases "j = i")
    case True
    then show ?thesis using R that by (simp add: iqs_eq iq)
  next
    case False
    then have "j \<in> fst ` set rest" using that iqs(2) by (auto simp: iqs_eq iq)
    from map_of_in [OF this] obtain p where "map_of rest j = Some p" "p \<in> snd ` set rest"
      by blast
    moreover from this(2) have "p \<in> wild P" using iqs(4) by (auto simp: iqs_eq)
    ultimately show ?thesis
      using R that False f(7) [of p] by (simp add: iqs_eq iq sector_bytes_def mread_def)
  qed
  then have "map (\<lambda>j. mread (mem P2) ?b (j * SECTOR_SIZE) SECTOR_SIZE) [0..<n]
      = map (\<lambda>j. sector_bytes P (the (map_of iqs j))) [0..<n]"
    by simp
  moreover have "block_data P' s' = mread (mem P2) ?b 0 (n * SECTOR_SIZE)"
    using R sc k(1) b by (simp add: block_data_def out)
  ultimately show "block_data P' s' = concat (map (\<lambda>i. sector_bytes P (the (map_of iqs i))) [0..<n])"
    by (simp only: mread_blocks)
qed

subsection \<open>Properties\<close>

text \<open>C9: When the sectors of a block arrive, each once and in any order, \<open>Process\<close> asks for more
  until the last one, whose call queues the compression job (or reports the block ready when
  compression is off).  The block then holds the sectors at their offsets, and exactly the
  sectors' buffers have been given back to the pool.\<close>

theorem block_filled_in_any_order:
  assumes "\<not> s_busy s" "\<not> s_enqueued s" "s_readySize s = 0" and "pool_inv P"
    and "unat (s_blockSize s) = n * SECTOR_SIZE" "s_blockSize s = 2 ^ k" "k < 32" "1 < n"
    and "n * SECTOR_SIZE \<le> unat (bufferSize P)"
    and "0 \<le> base" "base mod 2 ^ k = 0" "base + 2 ^ k \<le> 2 ^ 63"
    and "distinct (map fst iqs)" "fst ` set iqs = {..<n}" "distinct (map snd iqs)" "snd ` set iqs \<subseteq> wild P"
    and "Process_all P s base ready iqs = (P', s', rs)"
  shows "rs = replicate (n - 1) PWait @ [if s_compress s then PQueued else PReady ready True []]
    \<and> block_data P' s' = concat (map (\<lambda>i. sector_bytes P (the (map_of iqs i))) [0..<n])
    \<and> pool_inv P' \<and> wild P' = insert (the (s_buffer s')) (wild P - snd ` set iqs)
    \<and> the (s_buffer s') \<notin> wild P"
  using fill_block [OF assms] by blast

lemma block_filled_in_any_order_witness:
  "case Process_all (fst (Alloc (fst (Alloc (BufferPool_init (\<lambda>p _. of_nat p))))))
      (Setup (Sector_new run_codecs sample_sector 0) 4096 1 0 0) 8192 5 [(1, 0), (0, 1)] of
     (P', s', rs) \<Rightarrow> rs = [PWait, PQueued] \<and> block_data P' s' = replicate 2048 1 @ replicate 2048 0"
proof -
  let ?P0 = "BufferPool_init (\<lambda>p _. of_nat p)"
  let ?P1 = "fst (Alloc ?P0)" and ?s = "Setup (Sector_new run_codecs sample_sector 0) 4096 1 0 0"
  let ?P = "fst (Alloc ?P1)"
  have i1: "pool_inv ?P1" by (rule alloc_inv [OF pool_inv_init])
  have P: "pool_inv ?P" "wild ?P = {0, 1}" "bufferSize ?P = 16384"
    using alloc_inv [OF i1] alloc_wild [OF i1] alloc_wild [OF pool_inv_init, of "\<lambda>p _. of_nat p"]
    by (simp_all add: wild_init) (auto simp: Alloc_def BufferPool_init_def c_malloc_def MIN_SIZE_def)
  have s: "\<not> s_busy ?s" "\<not> s_enqueued ?s" "s_readySize ?s = 0" "s_blockSize ?s = 4096" "s_compress ?s"
    by (simp_all add: Setup_def Sector_new_def Let_def)
  obtain P' s' rs where e: "Process_all ?P ?s 8192 5 [(1, 0), (0, 1)] = (P', s', rs)" by (rule prod_cases3)
  have b: "sector_bytes ?P q = replicate 2048 (of_nat q)" for q
    by (simp add: sector_bytes_def mread_def SECTOR_SIZE_def map_replicate_const)
      (simp add: BufferPool_init_def map_replicate_const)
  have m: "fst ` set [(1, 0), (0, 1)] = {..<2 :: nat}" by auto
  have "rs = [PWait, PQueued] \<and> block_data P' s' = replicate 2048 1 @ replicate 2048 0"
    using block_filled_in_any_order [of ?s ?P 2 12 8192 "[(1, 0), (0, 1)]" 5 P' s' rs, OF s(1,2,3) P(1)] s P e m b
    by (simp add: SECTOR_SIZE_def upt_rec)
  then show ?thesis by (simp only: e prod.case)
qed

end
