(* ===== verification/InputDetect.thy ===== *)
theory InputDetect
  imports Input
begin

section \<open>Detecting the format of the input (src/input.cpp)\<close>

text \<open>
  \<open>Pipe\<close> and the completion handlers of \<open>DetectFormat\<close>: the header, the index of a CSO or
  DAX file, fstat of a plain image.  Memory from \<open>new T[n]\<close> is uninitialised; its bytes are
  the parameter \<open>g\<close>, a function of the size.  A DAX file can make the code write outside
  \<open>daxIsNC_\<close>; that is undefined behaviour, and the handler's result is then \<open>None\<close>.
\<close>

definition words32 :: "u8 list \<Rightarrow> u32 list" where
  "words32 b = map (\<lambda>i. rd32 b (4 * i)) [0..<length b div 4]"

definition words16 :: "u8 list \<Rightarrow> u16 list" where
  "words16 b = map (\<lambda>i. rd16 b (2 * i)) [0..<length b div 2]"

definition nc_area_list :: "u8 list \<Rightarrow> DAXNCArea list" where
  "nc_area_list b = map (\<lambda>i. \<lparr>area_start = rd32 b (8 * i), area_count = rd32 b (8 * i + 4)\<rparr>)
     [0..<length b div 8]"

text \<open>A read of \<open>bytes\<close> into the front of an array whose memory held \<open>old\<close>.\<close>

definition overlay :: "u8 list \<Rightarrow> u8 list \<Rightarrow> u8 list" where
  "overlay bytes old = bytes @ drop (length bytes) old"

definition SizeAligned :: "inp \<Rightarrow> int" where
  "SizeAligned x = i_size x + uint (i_csoBlockSize x) - 1"

text \<open>The loop \<open>while (minSize < STANDARD_SIZE) minSize <<= 1\<close>; \<open>minSize\<close> is not 0.\<close>

function cache_size :: "nat \<Rightarrow> nat" where
  "cache_size minSize = (if 0 < minSize \<and> minSize < 32768 then cache_size (2 * minSize) else minSize)"
  by pat_completeness auto
termination
  by (relation "measure (\<lambda>n. 32768 - n)") auto

declare cache_size.simps [simp del]

definition SetupCache :: "(nat \<Rightarrow> u8 list) \<Rightarrow> inp \<Rightarrow> u32 \<Rightarrow> inp" where
  "SetupCache g x minSize =
     (let n = cache_size (unat minSize)
      in x\<lparr>i_cachePos := i_size x, i_cacheSize := n, i_cache := g n\<rparr>)"

definition DetectFormat :: "'w ist \<Rightarrow> 'w ist" where
  "DetectFormat st = (case st of (P, w, x) \<Rightarrow>
     let (P1, headerBuf) = Alloc P in (P1, w, x\<lparr>i_req := ReqHeader headerBuf\<rparr>))"

definition Pipe :: "'w ist \<Rightarrow> 'w ist" where
  "Pipe st = (case st of (P, w, x) \<Rightarrow> DetectFormat (P, w, x\<lparr>i_pos := 0\<rparr>))"

definition release_header :: "'w ist \<Rightarrow> ptr \<Rightarrow> 'w ist" where
  "release_header st headerBuf = (case st of (P, w, x) \<Rightarrow> (pool_Release P headerBuf, w, x))"

text \<open>The CSO and ZSO branch after the type is set.\<close>

definition cso_open :: "(nat \<Rightarrow> u8 list) \<Rightarrow> 'w client \<Rightarrow> 'w ist \<Rightarrow> ptr \<Rightarrow> CSOHeader \<Rightarrow> 'w ist" where
  "cso_open g cl st headerBuf h =
     (case st of (P, w, x) \<Rightarrow>
        if version h > 2 then
          release_header (fail cl st ''CSO header indicates unsupported version'') headerBuf
        else if sector_size h < of_nat SECTOR_SIZE \<or> sector_size h > of_nat MAX_BLOCK_SIZE then
          release_header (fail cl st ''CSO header indicates unsupported sector size'') headerBuf
        else if uncompressed_size h AND of_nat SECTOR_MASK \<noteq> 0 then
          release_header (fail cl st ''CSO uncompressed size not aligned to sector size'') headerBuf
        else
          let x1 = x\<lparr>i_size := sint (uncompressed_size h), i_csoIndexShift := index_shift h,
                     i_csoBlockSize := sector_size h, i_csoBlockShift := shift_of (unat (sector_size h))\<rparr>;
              P1 = pool_Release P headerBuf;
              (P2, ok) = (if i_csoBlockSize x1 * 2 > bufferSize P1
                          then SetBufferSize P1 (i_csoBlockSize x1 * 2) else (P1, True))
          in if \<not> ok then
               (let (P3, w3, x3) = fail cl (P2, w, x1)
                      ''Unable to update buffer size to match decompress block size''
                in (P3, w3, x3\<lparr>i_size := -1\<rparr>))
             else
               let sectors = (word_of_int (drop_bit (i_csoBlockShift x1) (SizeAligned x1)) :: u32);
                   bytes = (sectors + 1) * 4;
                   x2 = SetupCache g x1 (i_csoBlockSize x1)
               in (P2, w, x2\<lparr>i_index := words32 (g (4 * unat (sectors + 1))), i_req := ReqCsoIndex bytes\<rparr>))"

definition dax_nareas :: "DAXHeader \<Rightarrow> int" where
  "dax_nareas h = (if dax_version h \<ge> 1 then sint (nc_areas h) else 0)"

text \<open>
  The DAX branch.  The three arrays are read with one request; what it delivers is split in
  the handler.  The request carries the number of bytes expected and of areas.
\<close>

definition dax_open :: "(nat \<Rightarrow> u8 list) \<Rightarrow> 'w client \<Rightarrow> 'w ist \<Rightarrow> ptr \<Rightarrow> DAXHeader \<Rightarrow> 'w ist" where
  "dax_open g cl st headerBuf h =
     (case st of (P, w, x) \<Rightarrow>
        if dax_version h > 1 then
          release_header (fail cl st ''DAX header indicates unsupported version'') headerBuf
        else if dax_uncompressed_size h AND of_nat SECTOR_MASK \<noteq> 0 then
          release_header (fail cl st ''DAX uncompressed size not aligned to sector size'') headerBuf
        else
          let x1 = x\<lparr>i_size := uint (dax_uncompressed_size h), i_csoBlockSize := of_nat DAX_FRAME_SIZE\<rparr>;
              frames = (word_of_int (drop_bit DAX_FRAME_SHIFT (i_size x1 + int DAX_FRAME_SIZE - 1)) :: u32);
              n = unat frames;
              nareas = dax_nareas h;
              bytes = frames * 6 + (if nareas > 0 then word_of_int (nareas * 8) else 0);
              x2 = SetupCache g x1 (of_nat DAX_FRAME_SIZE)
          in release_header (P, w, x2\<lparr>i_index := words32 (g (4 * n)), i_daxSize := words16 (g (2 * n)),
               i_daxIsNC := replicate n False, i_req := ReqDaxIndex bytes nareas\<rparr>) headerBuf)"

text \<open>Completion of the read of the first 24 bytes.\<close>

definition header_done :: "(nat \<Rightarrow> u8 list) \<Rightarrow> 'w client \<Rightarrow> 'w ist \<Rightarrow> int \<Rightarrow> u8 list \<Rightarrow> 'w ist" where
  "header_done g cl st result bytes =
     (case st of (P, w, x) \<Rightarrow>
        case i_req x of
          ReqHeader headerBuf \<Rightarrow>
            let P1 = put P headerBuf 0 bytes;
                x1 = x\<lparr>i_req := NoReq\<rparr>
            in if result \<noteq> 24 then
                 release_header (fail cl (P1, w, x1) ''Not able to read first 24 bytes'') headerBuf
               else
                 let hb = mread (mem P1) headerBuf 0 24;
                     h = cso_header_of hb;
                     isZSO = (take 4 hb = ZSO_MAGIC)
                 in if isZSO \<or> take 4 hb = CSO_MAGIC then
                      cso_open g cl (P1, w, x1\<lparr>i_type := (if isZSO then ZSO
                        else if version h = 2 then CSO2 else CSO1)\<rparr>) headerBuf h
                    else if take 4 hb = DAX_MAGIC then
                      dax_open g cl (P1, w, x1\<lparr>i_type := DAX\<rparr>) headerBuf (dax_header_of hb)
                    else release_header (P1, w, x1\<lparr>i_type := ISO, i_req := ReqStat\<rparr>) headerBuf
        | _ \<Rightarrow> st)"

text \<open>\<open>begin_(size_); ReadSector();\<close>\<close>

definition begin_reading :: "'w client \<Rightarrow> 'w ist \<Rightarrow> 'w ist" where
  "begin_reading cl st =
     (case st of (P, w, x) \<Rightarrow>
        let (P1, w1, f) = on_begin cl (i_size x) P w
        in ReadSector cl (P1, w1, x\<lparr>i_paused := f (i_paused x)\<rparr>))"

definition cso_index_done :: "'w client \<Rightarrow> 'w ist \<Rightarrow> int \<Rightarrow> u8 list \<Rightarrow> 'w ist" where
  "cso_index_done cl st result bytes =
     (case st of (P, w, x) \<Rightarrow>
        case i_req x of
          ReqCsoIndex expected \<Rightarrow>
            let x1 = x\<lparr>i_req := NoReq,
                       i_index := words32 bytes @ drop (length (words32 bytes)) (i_index x)\<rparr>
            in if result \<noteq> uint expected then fail cl (P, w, x1) ''Unable to read entire index''
               else begin_reading cl (P, w, x1)
        | _ \<Rightarrow> st)"

text \<open>The loops that mark the uncompressed frames; the index is a \<open>uint32_t\<close> and can wrap.\<close>

fun mark_area :: "u32 \<Rightarrow> nat \<Rightarrow> bool list \<Rightarrow> bool list option" where
  "mark_area idx 0 nc = Some nc"
| "mark_area idx (Suc k) nc =
     (if unat idx < length nc then mark_area (idx + 1) k (nc[unat idx := True]) else None)"

fun mark_areas :: "DAXNCArea list \<Rightarrow> bool list \<Rightarrow> bool list option" where
  "mark_areas [] nc = Some nc"
| "mark_areas (a # as) nc =
     (case mark_area (area_start a) (unat (area_count a)) nc of
        None \<Rightarrow> None
      | Some nc' \<Rightarrow> mark_areas as nc')"

definition dax_index_done ::
  "(nat \<Rightarrow> u8 list) \<Rightarrow> 'w client \<Rightarrow> 'w ist \<Rightarrow> int \<Rightarrow> u8 list \<Rightarrow> 'w ist option" where
  "dax_index_done g cl st result bytes =
     (case st of (P, w, x) \<Rightarrow>
        case i_req x of
          ReqDaxIndex expected nareas \<Rightarrow>
            let x1 = x\<lparr>i_req := NoReq\<rparr>
            in if result \<noteq> uint expected then
                 Some (fail cl (P, w, x1) ''Unable to read entire index'')
               else
                 let n = length (i_daxIsNC x);
                     x2 = x1\<lparr>i_index := words32 (take (4 * n) bytes),
                             i_daxSize := words16 (take (2 * n) (drop (4 * n) bytes))\<rparr>;
                     areas = (if nareas > 0
                              then nc_area_list (overlay (drop (6 * n) bytes) (g (8 * nat nareas))) else [])
                 in (case mark_areas areas (i_daxIsNC x2) of
                       None \<Rightarrow> None
                     | Some nc \<Rightarrow> Some (begin_reading cl (P, w, x2\<lparr>i_daxIsNC := nc\<rparr>)))
        | _ \<Rightarrow> Some st)"

text \<open>Completion of fstat: a negative result or the size.\<close>

definition stat_done :: "(nat \<Rightarrow> u8 list) \<Rightarrow> 'w client \<Rightarrow> 'w ist \<Rightarrow> int \<Rightarrow> int \<Rightarrow> 'w ist" where
  "stat_done g cl st result st_size =
     (case st of (P, w, x) \<Rightarrow>
        case i_req x of
          ReqStat \<Rightarrow>
            let x1 = x\<lparr>i_req := NoReq\<rparr>
            in if result < 0 \<or> st_size mod int SECTOR_SIZE \<noteq> 0 then
                 fail cl (P, w, x1) ''ISO file not aligned to sector size''
               else
                 begin_reading cl (P, w, SetupCache g (x1\<lparr>i_size := st_size\<rparr>) (of_nat SECTOR_SIZE))
        | _ \<Rightarrow> st)"

end
