(* ===== verification/RoundTrip.thy ===== *)
theory RoundTrip
  imports OutputProps SectorFill InputDetect
begin

section \<open>The reader understands what the writer wrote\<close>

text \<open>
  \<open>Output\<close> and \<open>Input\<close> meet only in the file format.  The lemmas here take the index
  entries and headers \<open>Output\<close> produces and evaluate \<open>Input\<close>'s parsing on them.
\<close>

subsection \<open>Index entries\<close>

lemma and_low31:
  assumes "uint (v :: u32) < 2 ^ 31"
  shows "v AND 0x7FFFFFFF = v" and "v AND 0x80000000 = 0"
    and "(v OR 0x80000000) AND 0x7FFFFFFF = v" and "(v OR 0x80000000) AND 0x80000000 \<noteq> 0"
proof -
  have "take_bit 31 (uint v) = uint v"
    using assms by (simp add: take_bit_int_eq_self)
  then have "take_bit 31 v = v"
    by (simp add: word_uint_eq_iff unsigned_take_bit_eq)
  then show m: "v AND 0x7FFFFFFF = v"
    by (simp add: take_bit_eq_mask mask_eq_exp_minus_1)
  have "(v AND 0x7FFFFFFF) AND 0x80000000 = 0" by (simp add: and.assoc)
  then show "v AND 0x80000000 = 0" by (simp only: m)
  show "(v OR 0x80000000) AND 0x7FFFFFFF = v"
    by (simp add: bit.conj_disj_distrib2 m)
  show "(v OR 0x80000000) AND 0x80000000 \<noteq> 0"
    by (simp add: bit.conj_disj_distrib2)
qed

lemma index_entry_value:
  assumes "0 \<le> d" and "d < 2 ^ (31 + sh)"
  shows "index_entry fmt sh d cf AND 0x7FFFFFFF = index_value sh d"
    and "index_entry fmt sh d cf AND 0x80000000 \<noteq> 0 \<longleftrightarrow>
      (fmt = CSO_FMT_CSO1 \<or> fmt = CSO_FMT_ZSO) \<and> cf = SECTOR_FMT_ORIG
          \<or> fmt = CSO_FMT_CSO2 \<and> cf = SECTOR_FMT_LZ4"
  using and_low31 [OF index_value_fits(2) [OF assms]] by (auto simp: index_entry_def)

lemma index_pos_value:
  assumes "0 \<le> d" and "d < 2 ^ (31 + sh)" and "sh \<le> 32" and "2 ^ sh dvd d"
    and "e AND 0x7FFFFFFF = index_value sh d"
  shows "index_pos e (of_nat sh) = d"
proof -
  let ?v = "index_value sh d"
  have v: "uint ?v = d div 2 ^ sh" "uint ?v < 2 ^ 31"
    using index_value_fits [OF assms(1,2)] by blast+
  have s: "unat (of_nat sh :: u8) = sh"
    using assms(3) by (intro unat_of_nat_small) simp
  have "(2 :: int) ^ (31 + sh) \<le> 2 ^ 63"
    using assms(3) by (intro power_increasing) simp_all
  with assms(2) have d: "d < 2 ^ 63" by linarith
  have "uint (push_bit sh (ucast ?v) :: u64) = d"
  proof -
    have "(ucast ?v :: u64) = word_of_int (uint ?v)" by simp
    then have "(ucast ?v :: u64) = word_of_int (d div 2 ^ sh)" by (simp only: v(1))
    then have "(push_bit sh (ucast ?v) :: u64) = word_of_int (d div 2 ^ sh * 2 ^ sh)"
      by (simp add: push_bit_eq_mult)
    also have "d div 2 ^ sh * 2 ^ sh = d" using assms(4) by simp
    finally show ?thesis using d assms(1) by (simp add: uint_of_int_small)
  qed
  then have "push_bit sh (ucast ?v) = (word_of_int d :: u64)"
    by (metis word_of_int_uint)
  then show ?thesis
    unfolding index_pos_def assms(5) s
    using d assms(1) by (simp add: sint_word_of_int_small)
qed

text \<open>The reader's view of a file with block size \<open>2 ^ k\<close> and index shift \<open>sh\<close>.\<close>

fun type_of :: "CSOFormat \<Rightarrow> FileType" where
  "type_of CSO_FMT_CSO1 = CSO1"
| "type_of CSO_FMT_CSO2 = CSO2"
| "type_of CSO_FMT_ZSO = ZSO"
| "type_of CSO_FMT_DAX = DAX"

definition opened :: "CSOFormat \<Rightarrow> nat \<Rightarrow> nat \<Rightarrow> inp \<Rightarrow> bool" where
  "opened fmt k sh x \<longleftrightarrow> i_type x = type_of fmt \<and> i_csoIndexShift x = of_nat sh
     \<and> i_csoBlockSize x = 2 ^ k \<and> i_csoBlockShift x = k"

lemma block_number:
  assumes "0 \<le> off" and "off < 2 ^ k"
  shows "drop_bit k (int b * 2 ^ k + off) = int b" and "(int b * 2 ^ k + off) mod 2 ^ k = off"
  using assms by (simp_all add: drop_bit_eq_div)

lemma sector_offset:
  assumes "k < 32"
  shows "(ucast ((word_of_int pos :: u64) AND ucast ((2 :: u32) ^ k - 1)) :: u32) = word_of_int (pos mod 2 ^ k)"
proof -
  have "(word_of_int pos :: u64) AND mask k = word_of_int (take_bit k pos)"
    using assms by (simp add: take_bit_eq_mask of_int_and_eq of_int_mask_eq)
  then have "(word_of_int pos :: u64) AND ucast ((2 :: u32) ^ k - 1) = word_of_int (take_bit k pos)"
    by (simp only: mask_ucast [OF assms])
  moreover have "(ucast (word_of_int (take_bit k pos) :: u64) :: u32) = word_of_int (take_bit k pos)"
    by (rule bit_word_eqI) (auto simp: bit_simps)
  ultimately show ?thesis by (simp add: take_bit_eq_mod)
qed

lemma cso_locate_written:
  assumes o: "opened fmt k sh x" "fmt \<noteq> CSO_FMT_DAX" "k < 32" "sh \<le> 32"
    and pos: "i_pos x = int b * 2 ^ k + off" "0 \<le> off" "off < 2 ^ k" "Suc b < 2 ^ 32"
    and ix: "i_index x ! b = index_entry fmt sh d cf"
      "i_index x ! Suc b AND 0x7FFFFFFF = index_value sh d'"
    and d: "0 \<le> d" "d \<le> d'" "d' < 2 ^ (31 + sh)" "2 ^ sh dvd d" "2 ^ sh dvd d'" "d' - d < 2 ^ 32"
    and fmt: "format_allowed fmt cf" "fmt = CSO_FMT_CSO2 \<Longrightarrow> (cf = SECTOR_FMT_ORIG) = (2 ^ k \<le> d' - d)"
  shows "locate x = skip_offset \<lparr>l_pos = d, l_offset = word_of_int off, l_len = word_of_int (d' - d),
    l_deflate = (cf = SECTOR_FMT_DEFLATE), l_lz4 = (cf = SECTOR_FMT_LZ4)\<rparr>"
proof -
  have dl: "d < 2 ^ (31 + sh)" and d0: "0 \<le> d'" using d by linarith+
  note v = index_entry_value [OF d(1) dl]
  have blk: "unat (word_of_int (drop_bit k (i_pos x)) :: u32) = b"
    "unat ((word_of_int (drop_bit k (i_pos x)) :: u32) + 1) = Suc b"
  proof -
    have "(word_of_int (drop_bit k (i_pos x)) :: u32) = of_nat b"
      unfolding pos(1) block_number(1) [OF pos(2,3)] by simp
    moreover have "(of_nat b :: u32) + 1 = of_nat (Suc b)" by simp
    moreover have "unat (of_nat b :: u32) = b" "unat (of_nat (Suc b) :: u32) = Suc b"
      using pos(4) by (intro unat_of_nat_small; simp)+
    ultimately show "unat (word_of_int (drop_bit k (i_pos x)) :: u32) = b"
      "unat ((word_of_int (drop_bit k (i_pos x)) :: u32) + 1) = Suc b" by (simp_all only:)
  qed
  have p: "index_pos (i_index x ! b) (of_nat sh) = d"
    unfolding ix(1) by (rule index_pos_value [OF d(1) dl o(4) d(4) v(1)])
  have p': "index_pos (i_index x ! Suc b) (of_nat sh) = d'"
    by (rule index_pos_value [OF d0 d(3) o(4) d(5) ix(2)])
  have len: "(word_of_int (d' - d) :: u32) < 2 ^ k \<longleftrightarrow> d' - d < 2 ^ k"
  proof -
    have "uint (word_of_int (d' - d) :: u32) = d' - d"
      by (rule uint_of_int_small) (use d in simp_all)
    moreover have "uint ((2 :: u32) ^ k) = 2 ^ k" by (rule uint_2p_len) (use o(3) in simp)
    ultimately show ?thesis by (simp only: word_less_alt)
  qed
  have off: "(ucast ((word_of_int (i_pos x) :: u64) AND ucast (i_csoBlockSize x - 1)) :: u32) = word_of_int off"
    using o(1) sector_offset [OF o(3), of "i_pos x"] block_number(2) [OF pos(2,3), of b]
    by (simp add: opened_def pos(1))
  have loc: "locate x = cso_loc x"
    using o(1,2) by (cases fmt) (simp_all add: opened_def locate_def)
  have sh: "i_csoIndexShift x = of_nat sh" "i_csoBlockShift x = k" "i_csoBlockSize x = 2 ^ k"
    "i_type x = type_of fmt"
    using o(1) by (simp_all add: opened_def)
  show ?thesis
    unfolding loc cso_loc_def Let_def off sh(1,2) blk p p'
    unfolding ix(1) CSO_INDEX_UNCOMPRESSED_def sh v(2)
    using o(2) fmt len by (cases fmt; cases cf) (simp_all)
qed

text \<open>The same for a DAX file, whose index holds a position and a 16-bit size.\<close>

lemma dax_locate_written:
  assumes o: "i_type x = DAX" and nc: "\<not> i_daxIsNC x ! b"
    and pos: "i_pos x = int b * 2 ^ 13 + off" "0 \<le> off" "off < 2 ^ 13" "b < 2 ^ 32"
    and ix: "i_index x ! b = index_entry CSO_FMT_DAX 0 d SECTOR_FMT_DEFLATE"
      "i_daxSize x ! b = ucast (index_entry CSO_FMT_DAX 0 d' SECTOR_FMT_DEFLATE - index_entry CSO_FMT_DAX 0 d SECTOR_FMT_DEFLATE)"
    and d: "0 \<le> d" "d \<le> d'" "d' < 2 ^ 31" "d' - d < 2 ^ 16"
  shows "locate x = \<lparr>l_pos = d, l_offset = word_of_int off, l_len = word_of_int (d' - d),
    l_deflate = True, l_lz4 = False\<rparr>"
proof -
  have "unat (word_of_int (drop_bit 13 (i_pos x)) :: u32) = b"
    unfolding pos(1) block_number(1) [OF pos(2,3)] using pos(4) by (simp add: unat_of_nat_small)
  moreover have "uint (i_index x ! b) = d"
    using d by (simp add: ix index_entry_def index_value_def uint_of_int_small)
  moreover have "(ucast (i_daxSize x ! b) :: u32) = word_of_int (d' - d)"
  proof -
    have w: "uint (word_of_int (d' - d) :: u32) = d' - d"
      using d by (intro uint_of_int_small) simp_all
    have "i_daxSize x ! b = ucast (word_of_int (d' - d) :: u32)"
      by (simp add: ix(2) index_entry_def index_value_def)
    then have "uint (i_daxSize x ! b) = take_bit 16 (d' - d)"
      by (simp only: unsigned_ucast_eq w) simp
    then have "uint (ucast (i_daxSize x ! b) :: u32) = d' - d"
      using d by (simp add: unsigned_ucast_eq take_bit_int_eq_self)
    then show ?thesis using w by (simp add: word_uint_eq_iff)
  qed
  ultimately show ?thesis
    using nc block_number(2) [OF pos(2,3), of b]
    by (simp add: locate_def o dax_loc_def Let_def skip_offset_def DAX_FRAME_SHIFT_def DAX_FRAME_SIZE_def pos(1))
qed

subsection \<open>Headers\<close>

lemma nth_words32: "i < length b div 4 \<Longrightarrow> words32 b ! i = rd32 b (4 * i)"
  by (simp add: words32_def)

lemma words32_le32 [simp]: "words32 (concat (map le32 ws)) = ws"
  by (rule nth_equalityI)
     (simp_all add: words32_def rd32_index [where a = "[]" and n = 0 and r = "[]", simplified])

lemma words16_le16 [simp]: "words16 (concat (map le16 ws)) = ws"
proof (rule nth_equalityI)
  show l: "length (words16 (concat (map le16 ws))) = length ws" by (simp add: words16_def)
  fix i assume "i < length (words16 (concat (map le16 ws)))"
  then have i: "i < length ws" using l by simp
  have "concat (map le16 ws) = concat (map le16 (take i ws)) @ le16 (ws ! i) @ concat (map le16 (drop (Suc i) ws))"
    using id_take_nth_drop [OF i] by (metis concat.simps(2) concat_append list.simps(9) map_append)
  then have "rd16 (concat (map le16 ws)) (2 * i) = ws ! i"
    using rd16_at [of "concat (map le16 (take i ws))" "2 * i"] i by simp
  then show "words16 (concat (map le16 ws)) ! i = ws ! i"
    using i by (simp add: words16_def)
qed

text \<open>The bytes of header and index of a CSO file, and that \<open>WriteCSOIndex\<close> submits them.\<close>

definition cso_prefix :: "out \<Rightarrow> u8 list" where
  "cso_prefix o' = cso_header_bytes (cso_header o') @ concat (map le32 (o_index o'))"

lemma WriteCSOIndex_bytes:
  assumes "o_file o'" and "length (o_index o') = unat (out_sectors o' + 1)"
  shows "WriteCSOIndex o' = submit_write o' (IndexWrite (int (length (cso_prefix o'))) (cso_prefix o'))"
proof -
  have "length (cso_header_bytes (cso_header o')) = sizeof_CSOHeader"
    by (rule length_cso_header_bytes) (simp add: cso_header_wf_def cso_header_def CSO_MAGIC_def ZSO_MAGIC_def)
  then show ?thesis using assms by (simp add: WriteCSOIndex_def cso_prefix_def mult.commute)
qed

lemma cso_header_wf_written: "cso_header_wf (cso_header o')"
  by (simp add: cso_header_wf_def cso_header_def CSO_MAGIC_def ZSO_MAGIC_def)

text \<open>What the reader's handler sees once the 24 bytes are in.\<close>

lemma header_done_cso:
  assumes "i_req x = ReqHeader hb" and "cso_header_wf h"
    and "magic h = (if z then ZSO_MAGIC else CSO_MAGIC)"
  shows "header_done g cl (P, w, x) 24 (cso_header_bytes h) =
    cso_open g cl (put P hb 0 (cso_header_bytes h), w, x\<lparr>i_req := NoReq,
      i_type := (if z then ZSO else if version h = 2 then CSO2 else CSO1)\<rparr>) hb h"
proof -
  let ?b = "cso_header_bytes h"
  have len: "length ?b = 24"
    using length_cso_header_bytes [OF assms(2)] by (simp add: sizeof_CSOHeader_def)
  have r: "mread (mwrite (mem P) hb 0 ?b) hb 0 24 = ?b"
    using mread_same [of "mem P" hb 0 ?b] by (simp only: len)
  have h: "cso_header_of ?b = h"
    using cso_header_of_bytes [OF assms(2), of "[]"] by simp
  have m: "take 4 ?b = magic h"
    using assms(2) by (simp add: cso_header_bytes_def cso_header_wf_def)
  show ?thesis
    by (cases z) (simp_all add: header_done_def assms(1,3) Let_def r h m ZSO_MAGIC_def CSO_MAGIC_def)
qed

lemma SetBufferSize_if:
  assumes inv: "pool_inv P" and w: "wild P = {}"
    and r: "(if n > bufferSize P then SetBufferSize P n else (P, True)) = (P', ok)"
  shows "ok" and "pool_inv P'" and "wild P' = {}" and "n \<le> bufferSize P'"
proof -
  have "ok \<and> pool_inv P' \<and> wild P' = {} \<and> n \<le> bufferSize P'"
  proof (cases "n > bufferSize P")
    case True
    then have "SetBufferSize P n = (P', ok)" using r by simp
    then show ?thesis using SetBufferSize_cases [OF inv, of n] w by simp
  next
    case False
    then show ?thesis using r inv w by auto
  qed
  then show "ok" "pool_inv P'" "wild P' = {}" "n \<le> bufferSize P'" by blast+
qed

lemma and_low11:
  assumes "0 \<le> S" and "S < 2 ^ 63" and "2048 dvd S"
  shows "(word_of_int S :: u64) AND of_nat SECTOR_MASK = 0"
proof -
  have "(of_nat SECTOR_MASK :: u64) = mask 11"
    by (simp add: SECTOR_MASK_def mask_eq_exp_minus_1)
  then have "(word_of_int S :: u64) AND of_nat SECTOR_MASK = word_of_int (take_bit 11 S)"
    by (simp add: take_bit_eq_mask of_int_and_eq of_int_mask_eq)
  also have "take_bit 11 S = 0" using assms(3) by (simp add: take_bit_eq_mod)
  finally show ?thesis by simp
qed

text \<open>What a writer has set up: a CSO or ZSO file of \<open>n\<close> blocks.\<close>

definition cso_writer :: "CSOFormat \<Rightarrow> nat \<Rightarrow> nat \<Rightarrow> int \<Rightarrow> nat \<Rightarrow> out \<Rightarrow> bool" where
  "cso_writer fmt k sh S n o' \<longleftrightarrow> fmt \<noteq> CSO_FMT_DAX \<and> o_fmt o' = fmt \<and> o_blockSize o' = 2 ^ k
     \<and> o_blockShift o' = k \<and> o_indexShift o' = sh \<and> o_srcSize o' = S
     \<and> 11 \<le> k \<and> k \<le> 18 \<and> sh \<le> 32 \<and> 0 \<le> S \<and> S < 2 ^ 48 \<and> 2048 dvd S
     \<and> int n = (S + 2 ^ k - 1) div 2 ^ k \<and> n < 2 ^ 30 - 1 \<and> length (o_index o') = Suc n"

lemma cso_writer_fields:
  assumes "cso_writer fmt k sh S n o'"
  shows "sector_size (cso_header o') = 2 ^ k" and "uncompressed_size (cso_header o') = word_of_int S"
    and "index_shift (cso_header o') = of_nat sh" and "version (cso_header o') = (if fmt = CSO_FMT_CSO2 then 2 else 1)"
    and "magic (cso_header o') = (if fmt = CSO_FMT_ZSO then ZSO_MAGIC else CSO_MAGIC)"
    and "unat (out_sectors o' + 1) = Suc n"
proof -
  have n: "(S + 2 ^ k - 1) div 2 ^ k = int n" and u: "uint ((2 :: u32) ^ k) = 2 ^ k"
    using assms by (simp_all add: cso_writer_def uint_2p_len)
  have "out_sectors o' = word_of_int (int n)"
    using assms unfolding cso_writer_def out_sectors_def SrcSizeAligned_def drop_bit_eq_div
    by (simp only: u n)
  then have "out_sectors o' = of_nat n" by simp
  then have "out_sectors o' + 1 = of_nat (Suc n)" by simp
  moreover have "unat (of_nat (Suc n) :: u32) = Suc n"
    using assms by (intro unat_of_nat_small) (simp add: cso_writer_def)
  ultimately show "unat (out_sectors o' + 1) = Suc n" by (simp only:)
qed (use assms in \<open>auto simp: cso_writer_def cso_header_def\<close>)

lemma block_size_bounds:
  assumes "11 \<le> k" and "k \<le> 18"
  shows "\<not> (2 :: u32) ^ k < of_nat SECTOR_SIZE" and "\<not> (2 :: u32) ^ k > of_nat MAX_BLOCK_SIZE"
    and "unat ((2 :: u32) ^ k) = 2 ^ k" and "unat ((2 :: u32) ^ k * 2) = 2 ^ Suc k"
proof -
  have u: "unat ((2 :: u32) ^ k) = 2 ^ k" "unat ((2 :: u32) ^ Suc k) = 2 ^ Suc k"
    using assms by (intro unat_2p; simp)+
  have "(2 :: nat) ^ 11 \<le> 2 ^ k" "(2 :: nat) ^ k \<le> 2 ^ 18"
    using assms by (intro power_increasing; simp)+
  then show "\<not> (2 :: u32) ^ k < of_nat SECTOR_SIZE" "\<not> (2 :: u32) ^ k > of_nat MAX_BLOCK_SIZE"
    by (simp_all add: word_less_nat_alt u SECTOR_SIZE_def MAX_BLOCK_SIZE_def)
  show "unat ((2 :: u32) ^ k) = 2 ^ k" by (rule u)
  show "unat ((2 :: u32) ^ k * 2) = 2 ^ Suc k" using u(2) by (simp add: mult.commute)
qed

lemma SizeAligned_blocks:
  "i_size x = S \<Longrightarrow> i_csoBlockSize x = 2 ^ k \<Longrightarrow> k < 32 \<Longrightarrow>
     drop_bit k (SizeAligned x) = (S + 2 ^ k - 1) div 2 ^ k"
  by (simp add: SizeAligned_def drop_bit_eq_div uint_2p_len)

lemma cso_open_ok:
  assumes h: "\<not> version h > 2" "\<not> sector_size h < of_nat SECTOR_SIZE" "\<not> sector_size h > of_nat MAX_BLOCK_SIZE"
      "uncompressed_size h AND of_nat SECTOR_MASK = 0"
    and x1: "x1 = x\<lparr>i_size := sint (uncompressed_size h), i_csoIndexShift := index_shift h,
        i_csoBlockSize := sector_size h, i_csoBlockShift := shift_of (unat (sector_size h))\<rparr>"
    and P2: "(if i_csoBlockSize x1 * 2 > bufferSize (pool_Release P hb)
        then SetBufferSize (pool_Release P hb) (i_csoBlockSize x1 * 2) else (pool_Release P hb, True)) = (P2, True)"
    and sec: "word_of_int (drop_bit (i_csoBlockShift x1) (SizeAligned x1)) = sectors"
  shows "cso_open g cl (P, w, x) hb h = (P2, w, (SetupCache g x1 (i_csoBlockSize x1))
    \<lparr>i_index := words32 (g (4 * unat (sectors + 1))), i_req := ReqCsoIndex ((sectors + 1) * 4)\<rparr>)"
  unfolding cso_open_def prod.case if_not_P [OF h(1)] Let_def x1 [symmetric] P2 sec
  using h(2,3,4) by simp

lemma cso_index_done_ok:
  assumes "i_req x = ReqCsoIndex (of_nat (4 * m))" and "4 * m < 2 ^ 32" and "length ix = m"
    and "length (i_index x) \<le> m"
  shows "cso_index_done cl (P, w, x) (int (4 * m)) (concat (map le32 ix))
    = begin_reading cl (P, w, x\<lparr>i_req := NoReq, i_index := ix\<rparr>)"
proof -
  have "4 * m < 2 ^ LENGTH(32)" using assms(2) by simp
  then have u: "uint (of_nat (4 * m) :: u32) = int (4 * m)"
    by (metis uint_nat unat_of_nat_small)
  show ?thesis
    using assms(3,4) by (simp add: cso_index_done_def assms(1) u del: of_nat_mult)
qed

text \<open>
  A reader that gets the first 24 bytes of such a file reads the index next and
  then holds exactly the writer's parameters and index.
\<close>

lemma cso_open_written:
  assumes wr: "cso_writer fmt k sh S n o'"
    and g: "\<And>n. length (g n) = n"
    and inv: "pool_inv P" and hb: "wild P = {hb}" "i_req x = ReqHeader hb"
  obtains P' x' where
    "header_done g cl (P, w, x) 24 (take 24 (cso_prefix o')) = (P', w, x')"
    "i_req x' = ReqCsoIndex (of_nat (4 * Suc n))"
    "cso_index_done cl (P', w, x') (int (4 * Suc n)) (drop 24 (cso_prefix o'))
       = begin_reading cl (P', w, x'\<lparr>i_req := NoReq, i_index := o_index o'\<rparr>)"
    "opened fmt k sh x'" "i_size x' = S" "i_pos x' = i_pos x" "i_paused x' = i_paused x"
    "pool_inv P'" "wild P' = {}" "2 ^ Suc k \<le> unat (bufferSize P')"
    "i_cachePos x' = S" "i_cacheSize x' = cache_size (2 ^ k)" "length (i_cache x') = cache_size (2 ^ k)"
    "i_resumeShouldRead x' = i_resumeShouldRead x"
proof -
  let ?h = "cso_header o'"
  let ?t = "if fmt = CSO_FMT_ZSO then ZSO else if version ?h = 2 then CSO2 else CSO1"
  note f = cso_writer_fields [OF wr]
  have k: "11 \<le> k" "k \<le> 18" and S: "0 \<le> S" "S < 2 ^ 48" "2048 dvd S" and sh: "sh \<le> 32"
    and n: "int n = (S + 2 ^ k - 1) div 2 ^ k" "n < 2 ^ 30 - 1" "length (o_index o') = Suc n"
    and fmt: "fmt \<noteq> CSO_FMT_DAX"
    using wr by (simp_all add: cso_writer_def)
  note kb = block_size_bounds [OF k]
  have len: "length (cso_header_bytes ?h) = 24"
    using length_cso_header_bytes [OF cso_header_wf_written] by (simp add: sizeof_CSOHeader_def)
  have tk: "take 24 (cso_prefix o') = cso_header_bytes ?h" "drop 24 (cso_prefix o') = concat (map le32 (o_index o'))"
    by (simp_all add: cso_prefix_def len)
  let ?P = "put P hb 0 (cso_header_bytes ?h)"
  let ?P1 = "pool_Release ?P hb"
  obtain P2 ok where P2: "(if 2 ^ k * 2 > bufferSize ?P1 then SetBufferSize ?P1 (2 ^ k * 2) else (?P1, True)) = (P2, ok)"
    by (rule prod.exhaust)
  have "pool_inv ?P1" "wild ?P1 = {}"
    using inv hb by (simp_all add: release_inv release_wild)
  note sz = SetBufferSize_if [OF this P2]
  let ?x1 = "x\<lparr>i_req := NoReq, i_type := ?t, i_size := S, i_csoIndexShift := of_nat sh,
    i_csoBlockSize := 2 ^ k, i_csoBlockShift := k\<rparr>"
  let ?x2 = "SetupCache g ?x1 (2 ^ k)"
  let ?x3 = "?x2\<lparr>i_index := words32 (g (4 * Suc n)), i_req := ReqCsoIndex (of_nat (4 * Suc n))\<rparr>"
  have sec: "(word_of_int (drop_bit k (SizeAligned ?x1)) :: u32) = of_nat n"
  proof -
    have "drop_bit k (SizeAligned ?x1) = int n"
      unfolding n(1) by (rule SizeAligned_blocks) (use k in simp_all)
    then show ?thesis by (simp only: of_int_of_nat_eq)
  qed
  have un: "unat (of_nat n + 1 :: u32) = Suc n"
    using f(6) n(2) by (simp add: unat_of_nat_small unat_word_ariths)
  have sS: "sint (word_of_int S :: u64) = S"
    using S by (intro sint_word_of_int_small) simp_all
  have m: "(word_of_int S :: u64) AND of_nat SECTOR_MASK = 0"
    using S by (intro and_low11) simp_all
  have v: "\<not> version ?h > 2" by (simp add: f(4))
  have "header_done g cl (P, w, x) 24 (cso_header_bytes ?h) =
      cso_open g cl (?P, w, x\<lparr>i_req := NoReq, i_type := ?t\<rparr>) hb ?h"
    by (rule header_done_cso [OF hb(2) cso_header_wf_written f(5)])
  also have "\<dots> = (P2, w, ?x3)"
  proof -
    have e: "4 * unat (of_nat n + 1 :: u32) = 4 * Suc n" "(of_nat n + 1 :: u32) * 4 = of_nat (4 * Suc n)"
      by (simp_all only: un) simp
    have B: "i_csoBlockSize ?x1 = 2 ^ k" by simp
    have "cso_open g cl (?P, w, x\<lparr>i_req := NoReq, i_type := ?t\<rparr>) hb ?h = (P2, w, (SetupCache g ?x1 (i_csoBlockSize ?x1))
        \<lparr>i_index := words32 (g (4 * unat (of_nat n + 1 :: u32))), i_req := ReqCsoIndex ((of_nat n + 1) * 4)\<rparr>)"
    proof (rule cso_open_ok [OF v])
      show "?x1 = x\<lparr>i_req := NoReq, i_type := ?t, i_size := sint (uncompressed_size ?h), i_csoIndexShift := index_shift ?h,
          i_csoBlockSize := sector_size ?h, i_csoBlockShift := shift_of (unat (sector_size ?h))\<rparr>"
        by (simp only: f(1,2,3) kb(3) sS shift_of_pow2)
      show "(if i_csoBlockSize ?x1 * 2 > bufferSize ?P1 then SetBufferSize ?P1 (i_csoBlockSize ?x1 * 2) else (?P1, True)) = (P2, True)"
        unfolding B using P2 sz(1) by (simp only: simp_thms)
      show "word_of_int (drop_bit (i_csoBlockShift ?x1) (SizeAligned ?x1)) = (of_nat n :: u32)"
        using sec by simp
    qed (simp_all only: f(1,2,3) kb m not_False_eq_True)
    then show ?thesis by (simp only: e) simp
  qed
  finally have 1: "header_done g cl (P, w, x) 24 (take 24 (cso_prefix o')) = (P2, w, ?x3)"
    by (simp only: tk)
  have 2: "cso_index_done cl (P2, w, ?x3) (int (4 * Suc n)) (drop 24 (cso_prefix o'))
      = begin_reading cl (P2, w, ?x3\<lparr>i_req := NoReq, i_index := o_index o'\<rparr>)"
    unfolding tk(2)
    by (rule cso_index_done_ok) (use n g [of "4 * Suc n"] in \<open>simp_all add: words32_def\<close>)
  show thesis
  proof (rule that [OF 1 _ 2])
    show "opened fmt k sh ?x3"
      using fmt f(4) by (cases fmt) (simp_all add: opened_def SetupCache_def Let_def)
    show "2 ^ Suc k \<le> unat (bufferSize P2)"
      using sz(4) kb(4) by (simp add: word_le_nat_alt)
  qed (use sz kb(3) in \<open>simp_all add: SetupCache_def Let_def g\<close>)
qed

text \<open>\<open>SetFile\<close> sets up such a writer.\<close>

lemma SetFile_writer:
  assumes "fmt \<noteq> CSO_FMT_DAX" "\<not> has_flag (o_flags o0) TASKFLAG_DECOMPRESS" "11 \<le> k" "k \<le> 18"
    and "0 \<le> S" "S < 2 ^ 48" "2048 dvd S" "int n = (S + 2 ^ k - 1) div 2 ^ k" "n < 2 ^ 30 - 1"
    and "length ix = Suc n"
  shows "\<exists>sh. cso_writer fmt k sh S n (SetFile o0 file S (2 ^ k) fmt\<lparr>o_index := ix\<rparr>)"
proof -
  have u: "unat ((2 :: u32) ^ k) = 2 ^ k" using assms(3,4) by (simp add: unat_2p)
  show ?thesis
    using assms(1-10) find_shift_le [of _ 62]
    by (intro exI) (auto simp: SetFile_def Let_def cso_writer_def set_state_def u)
qed

subsection \<open>Properties\<close>

text \<open>C15: The index entry \<open>Output\<close> makes for an aligned position below \<open>2 ^ (31 + shift)\<close> gives
  \<open>Input\<close> that position back, and its top bit says whether the block is stored in the format's
  exceptional way: uncompressed in CSO v1 and ZSO, LZ4 in CSO v2.\<close>

theorem index_entry_roundtrip:
  assumes "0 \<le> d" "d < 2 ^ (31 + sh)" "sh \<le> 32" "2 ^ sh dvd d"
  shows "index_pos (index_entry fmt sh d cf) (of_nat sh) = d
    \<and> (index_entry fmt sh d cf AND 0x80000000 \<noteq> 0) =
        ((fmt = CSO_FMT_CSO1 \<or> fmt = CSO_FMT_ZSO) \<and> cf = SECTOR_FMT_ORIG \<or> fmt = CSO_FMT_CSO2 \<and> cf = SECTOR_FMT_LZ4)"
  using index_pos_value [OF assms index_entry_value(1) [OF assms(1,2)]] index_entry_value(2) [OF assms(1,2)]
  by blast

lemma index_entry_roundtrip_witness:
  "index_pos (index_entry CSO_FMT_ZSO 2 0x1FFFFFFFC SECTOR_FMT_ORIG) 2 = 0x1FFFFFFFC"
  using index_entry_roundtrip [of "0x1FFFFFFFC" 2 CSO_FMT_ZSO SECTOR_FMT_ORIG] by simp

text \<open>C13: Every position of the image is found where it was written.  For a CSO or ZSO file whose
  index entries come from \<open>Output\<close>, \<open>Input\<close> locates an image position at offset \<open>off\<close> in block
  \<open>b\<close>, written at \<open>d\<close> and ending at \<open>d'\<close>: a compressed block at \<open>d\<close>, with its length and method and
  the offset to skip after decompression; an uncompressed block directly at \<open>d + off\<close>, with the rest
  of the block and nothing to skip.\<close>

theorem image_position_located:
  assumes "opened fmt k sh x" "fmt \<noteq> CSO_FMT_DAX" "k < 32" "sh \<le> 32"
    and "i_pos x = int b * 2 ^ k + off" "0 \<le> off" "off < 2 ^ k" "Suc b < 2 ^ 32"
    and "i_index x ! b = index_entry fmt sh d cf" "i_index x ! Suc b AND 0x7FFFFFFF = index_value sh d'"
    and "0 \<le> d" "d \<le> d'" "d' < 2 ^ (31 + sh)" "2 ^ sh dvd d" "2 ^ sh dvd d'" "d' - d < 2 ^ 32"
    and "format_allowed fmt cf" "fmt = CSO_FMT_CSO2 \<Longrightarrow> (cf = SECTOR_FMT_ORIG) = (2 ^ k \<le> d' - d)"
  shows "locate x = (if cf = SECTOR_FMT_ORIG
    then \<lparr>l_pos = d + off, l_offset = 0, l_len = word_of_int (d' - d - off), l_deflate = False, l_lz4 = False\<rparr>
    else \<lparr>l_pos = d, l_offset = word_of_int off, l_len = word_of_int (d' - d),
      l_deflate = (cf = SECTOR_FMT_DEFLATE), l_lz4 = (cf = SECTOR_FMT_LZ4)\<rparr>)"
proof -
  have "off < 2 ^ 32" using assms(7) power_increasing [of k 32 "2 :: int"] assms(3) by simp
  then have u: "uint (word_of_int off :: u32) = off" using assms(6) by (simp add: uint_of_int_small)
  show ?thesis
    using cso_locate_written [OF assms] u by (cases cf) (auto simp: skip_offset_def)
qed

text \<open>A CSO v2 reader in its second block, which is LZ4 compressed.\<close>

definition small_input :: inp where
  "small_input = \<lparr>i_type = CSO2, i_paused = False, i_resumeShouldRead = False, i_pos = 4096 + 2048, i_size = 8192,
     i_cache = [], i_cachePos = 0, i_cacheSize = 0, i_csoIndexShift = 1, i_csoBlockShift = 12, i_csoBlockSize = 2 ^ 12,
     i_index = [18, 0x80000000 + 2066, 2166], i_daxSize = [], i_daxIsNC = [], i_req = NoReq\<rparr>"

lemma image_position_located_witness:
  "locate small_input = \<lparr>l_pos = 4132, l_offset = 2048, l_len = 200, l_deflate = False, l_lz4 = True\<rparr>
    \<and> locate (small_input\<lparr>i_index := [18, 2066, 4114]\<rparr>)
      = \<lparr>l_pos = 6180, l_offset = 0, l_len = 2048, l_deflate = False, l_lz4 = False\<rparr>"
proof
  have "opened CSO_FMT_CSO2 12 1 small_input" by (simp add: opened_def small_input_def)
  from image_position_located [OF this, of 1 2048 4132 SECTOR_FMT_LZ4 4332]
  show "locate small_input = \<lparr>l_pos = 4132, l_offset = 2048, l_len = 200, l_deflate = False, l_lz4 = True\<rparr>"
    by (simp add: small_input_def index_entry_def index_value_def drop_bit_eq_div)
  have "opened CSO_FMT_CSO2 12 1 (small_input\<lparr>i_index := [18, 2066, 4114]\<rparr>)" by (simp add: opened_def small_input_def)
  from image_position_located [OF this, of 1 2048 4132 SECTOR_FMT_ORIG 8228]
  show "locate (small_input\<lparr>i_index := [18, 2066, 4114]\<rparr>)
      = \<lparr>l_pos = 6180, l_offset = 0, l_len = 2048, l_deflate = False, l_lz4 = False\<rparr>"
    by (simp add: small_input_def index_entry_def index_value_def drop_bit_eq_div)
qed

text \<open>C14: In a DAX file written by \<open>Output\<close> every frame is located at the position of its index
  entry, with the length of its 16-bit size entry.\<close>

theorem dax_position_located:
  assumes "i_type x = DAX" "\<not> i_daxIsNC x ! b"
    and "i_pos x = int b * 2 ^ 13 + off" "0 \<le> off" "off < 2 ^ 13" "b < 2 ^ 32"
    and "i_index x ! b = index_entry CSO_FMT_DAX 0 d SECTOR_FMT_DEFLATE"
      "i_daxSize x ! b = ucast (index_entry CSO_FMT_DAX 0 d' SECTOR_FMT_DEFLATE - index_entry CSO_FMT_DAX 0 d SECTOR_FMT_DEFLATE)"
    and "0 \<le> d" "d \<le> d'" "d' < 2 ^ 31" "d' - d < 2 ^ 16"
  shows "locate x = \<lparr>l_pos = d, l_offset = word_of_int off, l_len = word_of_int (d' - d),
    l_deflate = True, l_lz4 = False\<rparr>"
  by (rule dax_locate_written [OF assms])

lemma dax_position_located_witness:
  "locate (small_input\<lparr>i_type := DAX, i_pos := 8192 + 2048, i_index := [44, 1000], i_daxSize := [956, 500], i_daxIsNC := [False, False]\<rparr>)
     = \<lparr>l_pos = 1000, l_offset = 2048, l_len = 500, l_deflate = True, l_lz4 = False\<rparr>"
  by (subst dax_position_located [where b = 1 and off = 2048 and d = 1000 and d' = 1500])
    (simp_all add: small_input_def index_entry_def index_value_def)

text \<open>C12: The reader opens what the writer has set up.  Given the first 24 bytes of the file of a CSO
  or ZSO writer, \<open>Input\<close> asks for exactly the index, and given the index it starts to read, with
  the writer's size, block size, shift and index entries.\<close>

theorem written_header_opens:
  assumes "cso_writer fmt k sh S n o'" and "\<forall>n. length (g n) = n"
    and "pool_inv P" "wild P = {hb}" "i_req x = ReqHeader hb"
  shows "\<exists>P' x'. header_done g cl (P, w, x) 24 (take 24 (cso_prefix o')) = (P', w, x')
    \<and> i_req x' = ReqCsoIndex (of_nat (4 * Suc n))
    \<and> cso_index_done cl (P', w, x') (int (4 * Suc n)) (drop 24 (cso_prefix o'))
        = begin_reading cl (P', w, x'\<lparr>i_req := NoReq, i_index := o_index o'\<rparr>)
    \<and> opened fmt k sh x' \<and> i_size x' = S \<and> pool_inv P' \<and> wild P' = {} \<and> 2 ^ Suc k \<le> unat (bufferSize P')"
proof -
  have g: "\<And>n. length (g n) = n" using assms(2) by blast
  show ?thesis
    by (rule cso_open_written [where cl = cl and w = w, OF assms(1) g assms(3-5)]) blast
qed

end
