(* ===== verification/InputProps.thy ===== *)
theory InputProps
  imports InputDetect
begin

section \<open>The reader delivers the image\<close>

text \<open>
  A file \<open>f\<close> serves an image when every sector can be located in it and decoded.  For
  such a file, and for any client that keeps the contract of the locale \<open>input_client\<close>, every
  reachable state of the reader has handed over exactly the first \<open>n\<close> sectors of the image,
  in order, whatever the client pauses; it never reports an error, and it stops only after the
  last sector.
\<close>

subsection \<open>Files that serve an image\<close>

definition img_sector :: "u8 list \<Rightarrow> nat \<Rightarrow> u8 list" where
  "img_sector img n = file_read img (n * SECTOR_SIZE) SECTOR_SIZE"

lemma whole_sector:
  "SECTOR_SIZE dvd L \<Longrightarrow> n * SECTOR_SIZE < L \<Longrightarrow> Suc n * SECTOR_SIZE \<le> L"
  by (metis dvd_def mult.commute mult_less_cancel2 less_eq_Suc_le mult_le_mono1)

lemma length_img_sector:
  "SECTOR_SIZE dvd length img \<Longrightarrow> n * SECTOR_SIZE < length img \<Longrightarrow> length (img_sector img n) = SECTOR_SIZE"
  using whole_sector [of "length img" n] by (simp add: img_sector_def file_read_def)

lemma mread_same_length: "length bs = n \<Longrightarrow> mread (mwrite m p off bs) p off n = bs"
  using mread_same by blast

lemma mread_mwrite_part:
  "off + n \<le> length bs \<Longrightarrow> mread (mwrite m p 0 bs) p off n = file_read bs off n"
  by (rule nth_equalityI) (auto simp: mwrite_def file_read_def)

definition located :: "inp \<Rightarrow> nat \<Rightarrow> sector_loc" where
  "located x n = locate (x\<lparr>i_pos := int (n * SECTOR_SIZE)\<rparr>)"

text \<open>What the decoder of a location returns for its bytes, with \<open>cap\<close> bytes of room.\<close>

definition decoded :: "decoders \<Rightarrow> inp \<Rightarrow> nat \<Rightarrow> sector_loc \<Rightarrow> u8 list \<Rightarrow> u8 list option" where
  "decoded dx x cap l src =
     (if l_lz4 l then
        (case d_lz4 dx src (unat (i_csoBlockSize x)) of
           (r, blk) \<Rightarrow> if r = int (length blk) then Some blk else None)
      else
        (case d_inflate dx (i_type x = DAX) src cap of
           (ended, msg, blk) \<Rightarrow>
             if ended \<and> fst (d_inflateInit dx (i_type x = DAX)) then Some blk else None))"

text \<open>A decoded block holds whole sectors, which are those of the image around sector \<open>n\<close>.\<close>

definition block_serves :: "u8 list \<Rightarrow> inp \<Rightarrow> nat \<Rightarrow> sector_loc \<Rightarrow> u8 list \<Rightarrow> bool" where
  "block_serves img x n l blk \<longleftrightarrow>
     (\<exists>k m. unat (l_offset l) = k * SECTOR_SIZE \<and> length blk = m * SECTOR_SIZE \<and> k < m \<and> k \<le> n
        \<and> length blk \<le> unat (i_csoBlockSize x)
        \<and> (\<forall>j < m. (n - k + j) * SECTOR_SIZE < length img \<longrightarrow>
              file_read blk (j * SECTOR_SIZE) SECTOR_SIZE = img_sector img (n - k + j)))"

definition sector_serves :: "decoders \<Rightarrow> u8 list \<Rightarrow> u8 list \<Rightarrow> nat \<Rightarrow> inp \<Rightarrow> nat \<Rightarrow> bool" where
  "sector_serves dx f img cap x n \<longleftrightarrow>
     (let l = located x n; len = unat (l_len l) in
        0 \<le> l_pos l \<and> nat (l_pos l) + len \<le> length f \<and> len \<le> i_cacheSize x
        \<and> (if l_deflate l \<or> l_lz4 l then
             (\<exists>blk. decoded dx x cap l (file_read f (nat (l_pos l)) len) = Some blk \<and> block_serves img x n l blk)
           else SECTOR_SIZE \<le> len \<and> file_read f (nat (l_pos l)) SECTOR_SIZE = img_sector img n))"

definition serves :: "decoders \<Rightarrow> u8 list \<Rightarrow> u8 list \<Rightarrow> nat \<Rightarrow> inp \<Rightarrow> bool" where
  "serves dx f img cap x \<longleftrightarrow>
     i_type x \<noteq> UNKNOWN \<and> i_size x = int (length img) \<and> SECTOR_SIZE dvd length img
     \<and> (i_type x \<noteq> ISO \<longrightarrow> unat (i_csoBlockSize x) \<le> cap)
     \<and> (img \<noteq> [] \<longrightarrow> l_pos (located x 0) < i_size x)
     \<and> (\<forall>n. n * SECTOR_SIZE < length img \<longrightarrow> sector_serves dx f img cap x n)"

text \<open>Only the fields that describe the file matter.\<close>

definition same_file :: "inp \<Rightarrow> inp \<Rightarrow> bool" where
  "same_file x y \<longleftrightarrow> i_type y = i_type x \<and> i_size y = i_size x \<and> i_cacheSize y = i_cacheSize x
     \<and> i_csoIndexShift y = i_csoIndexShift x \<and> i_csoBlockShift y = i_csoBlockShift x
     \<and> i_csoBlockSize y = i_csoBlockSize x \<and> i_index y = i_index x \<and> i_daxSize y = i_daxSize x
     \<and> i_daxIsNC y = i_daxIsNC x"

lemma locate_cong: "same_file x y \<Longrightarrow> i_pos y = i_pos x \<Longrightarrow> locate y = locate x"
  unfolding same_file_def by (simp only: locate_def cso_loc_def dax_loc_def plain_loc_def)

lemma same_file_trans: "same_file x y \<Longrightarrow> same_file y z \<Longrightarrow> same_file x z"
  by (simp add: same_file_def)

lemma same_file_located: "same_file x y \<Longrightarrow> located y n = located x n"
  unfolding located_def by (rule locate_cong) (simp_all add: same_file_def)

lemma locate_located: "i_pos x = int (n * SECTOR_SIZE) \<Longrightarrow> locate x = located x n"
  unfolding located_def by (rule locate_cong) (simp_all add: same_file_def)

lemma same_file_decoded: "same_file x y \<Longrightarrow> decoded dx y cap l src = decoded dx x cap l src"
  by (simp add: decoded_def same_file_def)

lemma same_file_serves: "same_file x y \<Longrightarrow> serves dx f img cap x \<Longrightarrow> serves dx f img cap y"
proof -
  assume sf: "same_file x y" and s: "serves dx f img cap x"
  have "block_serves img y n l blk = block_serves img x n l blk" for n l blk
    using sf by (simp add: block_serves_def same_file_def)
  then have "sector_serves dx f img cap y n = sector_serves dx f img cap x n" for n
    using sf unfolding sector_serves_def same_file_located [OF sf] same_file_decoded [OF sf]
    by (simp add: same_file_def)
  then show ?thesis
    using s sf unfolding serves_def same_file_located [OF sf] same_file_def by metis
qed

subsection \<open>The cache\<close>

text \<open>
  The cache holds a piece of the file, or it has not been filled and claims to lie at the end
  of the image, where no located sector is.
\<close>

definition coherent :: "u8 list \<Rightarrow> inp \<Rightarrow> bool" where
  "coherent f x \<longleftrightarrow> 0 \<le> i_cachePos x \<and> length (i_cache x) = i_cacheSize x
     \<and> (\<forall>j < i_cacheSize x. nat (i_cachePos x) + j < length f
          \<longrightarrow> i_cache x ! j = f ! (nat (i_cachePos x) + j))"

definition unfilled :: "inp \<Rightarrow> bool" where
  "unfilled x \<longleftrightarrow> i_pos x = 0 \<and> i_cachePos x = i_size x \<and> length (i_cache x) = i_cacheSize x"

lemma coherent_read:
  assumes c: "coherent f x" and p: "i_cachePos x \<le> p" "p + int n \<le> i_cachePos x + int (i_cacheSize x)"
    and len: "nat p + n \<le> length f"
  shows "take n (drop (nat (p - i_cachePos x)) (i_cache x)) = file_read f (nat p) n"
proof (rule nth_equalityI)
  have 0: "0 \<le> i_cachePos x" and lc: "length (i_cache x) = i_cacheSize x" using c by (simp_all add: coherent_def)
  then show "length (take n (drop (nat (p - i_cachePos x)) (i_cache x))) = length (file_read f (nat p) n)"
    using p len by (simp add: file_read_def min_def) linarith
  fix i assume "i < length (take n (drop (nat (p - i_cachePos x)) (i_cache x)))"
  then have i: "i < n" "nat (p - i_cachePos x) + i < i_cacheSize x" using lc by auto
  have e: "nat (i_cachePos x) + (nat (p - i_cachePos x) + i) = nat p + i" using 0 p by linarith
  have "i_cache x ! (nat (p - i_cachePos x) + i) = f ! (nat p + i)"
    using c i len unfolding coherent_def by (metis e add_strict_left_mono order_less_le_trans)
  then show "take n (drop (nat (p - i_cachePos x)) (i_cache x)) ! i = file_read f (nat p) n ! i"
    using i lc len by (simp add: file_read_def)
qed

text \<open>A completed read makes the cache coherent; what was there before is beyond the end of the file.\<close>

lemma coherent_fill:
  assumes "0 \<le> i_cachePos x" and "length (i_cache x) = i_cacheSize x"
    and "bs = file_read f (nat (i_cachePos x)) (i_cacheSize x)"
  shows "coherent f (x\<lparr>i_req := r, i_cache := bs @ drop (length bs) (i_cache x)\<rparr>)"
proof -
  have lb: "length bs = min (i_cacheSize x) (length f - nat (i_cachePos x))"
    by (simp add: assms(3) file_read_def)
  have "(bs @ drop (length bs) (i_cache x)) ! j = f ! (nat (i_cachePos x) + j)"
    if "j < i_cacheSize x" "nat (i_cachePos x) + j < length f" for j
  proof -
    have "j < length bs" using that lb by simp
    then show ?thesis using that by (simp add: nth_append assms(3) file_read_def)
  qed
  then show ?thesis
    using assms(1,2) lb by (simp add: coherent_def)
qed

text \<open>The stage of a state: waiting to be resumed, for a read, for a decompression, or none of them.\<close>

definition stage :: "'w ist \<Rightarrow> nat" where
  "stage st = (case st of (P, w, x) \<Rightarrow>
     (case i_req x of ReqWork _ _ _ _ _ \<Rightarrow> 0 | ReqRead _ _ _ _ _ \<Rightarrow> 1 | _ \<Rightarrow> 2))"

subsection \<open>Runs\<close>

text \<open>
  The environment completes the outstanding request with the file's bytes; an idle reader
  that was paused is resumed.  \<open>drive\<close> does so \<open>k\<close> times; \<open>in_reach\<close> also lets anyone pause or
  resume the reader at any moment.
\<close>

definition answer :: "u8 list \<Rightarrow> decoders \<Rightarrow> 'w client \<Rightarrow> 'w ist \<Rightarrow> 'w ist" where
  "answer f dx cl st = (case st of (P, w, x) \<Rightarrow>
     (case i_req x of
        ReqRead pos len offset deflate lz4 \<Rightarrow>
          (let bs = file_read f (nat pos) (i_cacheSize x) in read_done cl st (int (length bs)) bs)
      | ReqWork _ _ _ _ _ \<Rightarrow> decompress_done dx cl st 0
      | _ \<Rightarrow> if i_resumeShouldRead x then Resume cl st else st))"

fun drive :: "nat \<Rightarrow> u8 list \<Rightarrow> decoders \<Rightarrow> 'w client \<Rightarrow> 'w ist \<Rightarrow> 'w ist" where
  "drive 0 f dx cl st = st"
| "drive (Suc k) f dx cl st = drive k f dx cl (answer f dx cl st)"

inductive in_reach :: "u8 list \<Rightarrow> decoders \<Rightarrow> 'w client \<Rightarrow> 'w ist \<Rightarrow> 'w ist \<Rightarrow> bool"
  for f dx cl st0 where
  start: "in_reach f dx cl st0 st0"
| completes: "in_reach f dx cl st0 st \<Longrightarrow> in_reach f dx cl st0 (answer f dx cl st)"
| pause: "in_reach f dx cl st0 (P, w, x) \<Longrightarrow> in_reach f dx cl st0 (P, w, Pause x)"
| resume: "in_reach f dx cl st0 st \<Longrightarrow> in_reach f dx cl st0 (Resume cl st)"

subsection \<open>The contract of a client\<close>

text \<open>
  \<open>ok n P w\<close> says that the client holds the first \<open>n\<close> sectors; \<open>own w\<close> are the pool buffers it
  holds.  It takes over the buffer of each sector and leaves all others alone.
\<close>

locale input_client =
  fixes cl :: "'w client"
    and ok :: "nat \<Rightarrow> pool \<Rightarrow> 'w \<Rightarrow> bool"
    and own :: "'w \<Rightarrow> ptr set"
    and img :: "u8 list"
  assumes c_sector: "pool_inv P \<Longrightarrow> ok n P w \<Longrightarrow> own w \<subseteq> wild P \<Longrightarrow> b \<in> wild P - own w \<Longrightarrow>
      n * SECTOR_SIZE < length img \<Longrightarrow> mread (mem P) b 0 SECTOR_SIZE = img_sector img n \<Longrightarrow>
      on_sector cl (int (n * SECTOR_SIZE)) b P w = (P', w', f) \<Longrightarrow>
      pool_inv P' \<and> ok (Suc n) P' w' \<and> own w' \<subseteq> wild P' \<and> wild P' - own w' = wild P - own w - {b}
        \<and> bufferSize P' = bufferSize P \<and> (\<forall>q \<in> wild P - own w - {b}. mem P' q = mem P q)"
    and c_mem: "ok n P w \<Longrightarrow>
      (\<And>q. q \<in> own w \<Longrightarrow> mem P' q = mem P q) \<Longrightarrow> bufferSize P' = bufferSize P \<Longrightarrow> ok n P' w"
begin

text \<open>
  The state of the reader between two events: \<open>n\<close> sectors are delivered, the reader holds the
  buffers \<open>mine\<close>.
\<close>

definition at_sector :: "decoders \<Rightarrow> u8 list \<Rightarrow> inp \<Rightarrow> nat \<Rightarrow> ptr set \<Rightarrow> 'w ist \<Rightarrow> bool" where
  "at_sector dx f x0 n mine st \<longleftrightarrow> (case st of (P, w, x) \<Rightarrow>
     pool_inv P \<and> ok n P w \<and> own w \<inter> mine = {} \<and> wild P = own w \<union> mine
     \<and> i_pos x = int (n * SECTOR_SIZE) \<and> n * SECTOR_SIZE \<le> length img
     \<and> same_file x0 x \<and> serves dx f img (unat (bufferSize P)) x)"

text \<open>What is outstanding.\<close>

definition waits :: "decoders \<Rightarrow> u8 list \<Rightarrow> inp \<Rightarrow> nat \<Rightarrow> 'w ist \<Rightarrow> bool" where
  "waits dx f x0 n st \<longleftrightarrow> (case st of (P, w, x) \<Rightarrow>
     n * SECTOR_SIZE < length img \<and>
     (case i_req x of
        NoReq \<Rightarrow> at_sector dx f x0 n {} st \<and> (coherent f x \<or> unfilled x) \<and> i_resumeShouldRead x
      | ReqRead pos len offset deflate lz4 \<Rightarrow>
          at_sector dx f x0 n {} st \<and> length (i_cache x) = i_cacheSize x \<and> \<not> i_resumeShouldRead x
          \<and> located x n = \<lparr>l_pos = pos, l_offset = offset, l_len = len, l_deflate = deflate, l_lz4 = lz4\<rparr>
          \<and> i_cachePos x = pos
      | ReqWork buf src len offset lz4 \<Rightarrow>
          at_sector dx f x0 n {buf} st \<and> coherent f x \<and> \<not> i_resumeShouldRead x
          \<and> (l_deflate (located x n) \<or> l_lz4 (located x n)) \<and> cached x (located x n)
          \<and> len = l_len (located x n) \<and> offset = l_offset (located x n) \<and> lz4 = l_lz4 (located x n)
          \<and> src = nat (l_pos (located x n) - i_cachePos x)
      | _ \<Rightarrow> False))"

definition finished :: "decoders \<Rightarrow> u8 list \<Rightarrow> inp \<Rightarrow> 'w ist \<Rightarrow> bool" where
  "finished dx f x0 st \<longleftrightarrow> (\<exists>P w x. st = (P, on_finish cl True [] w, x)
     \<and> at_sector dx f x0 (length img div SECTOR_SIZE) {} (P, w, x) \<and> i_req x = NoReq \<and> \<not> i_resumeShouldRead x)"

lemma at_sector_deliver:
  assumes a: "at_sector dx f x0 n mine (P, w, x)" and n: "n * SECTOR_SIZE < length img"
    and b: "b \<in> mine" "mread (mem P) b 0 SECTOR_SIZE = img_sector img n"
    and s: "on_sector cl (i_pos x) b P w = (P', w', h)"
  shows "at_sector dx f x0 (Suc n) (mine - {b}) (P', w', x\<lparr>i_paused := p, i_pos := i_pos x + int SECTOR_SIZE\<rparr>)"
    and "\<And>q. q \<in> mine - {b} \<Longrightarrow> mem P' q = mem P q" and "bufferSize P' = bufferSize P"
proof -
  have A: "pool_inv P" "ok n P w" "own w \<inter> mine = {}" "wild P = own w \<union> mine" "i_pos x = int (n * SECTOR_SIZE)"
    "same_file x0 x" "serves dx f img (unat (bufferSize P)) x"
    using a by (simp_all add: at_sector_def)
  have "own w \<subseteq> wild P" "b \<in> wild P - own w" using A b by auto
  from c_sector [OF A(1,2) this n b(2) s [unfolded A(5)]]
  have B: "pool_inv P'" "ok (Suc n) P' w'" "own w' \<subseteq> wild P'" "wild P' - own w' = wild P - own w - {b}"
    "bufferSize P' = bufferSize P" "\<forall>q \<in> wild P - own w - {b}. mem P' q = mem P q"
    by blast+
  have m: "wild P - own w - {b} = mine - {b}" using A by auto
  have "SECTOR_SIZE dvd length img" using A(7) by (simp add: serves_def)
  then have "Suc n * SECTOR_SIZE \<le> length img"
    by (rule whole_sector [OF _ n])
  moreover have "same_file x (x\<lparr>i_paused := p, i_pos := i_pos x + int SECTOR_SIZE\<rparr>)"
    by (simp add: same_file_def)
  ultimately show "at_sector dx f x0 (Suc n) (mine - {b}) (P', w', x\<lparr>i_paused := p, i_pos := i_pos x + int SECTOR_SIZE\<rparr>)"
    using B A(5,6,7) m same_file_trans [of x0 x] same_file_serves [of x _ dx f img]
    unfolding at_sector_def by auto
  show "\<And>q. q \<in> mine - {b} \<Longrightarrow> mem P' q = mem P q" "bufferSize P' = bufferSize P"
    using B m by auto
qed

lemma at_sector_put:
  assumes "at_sector dx f x0 n mine (P, w, x)" and "b \<in> mine"
  shows "at_sector dx f x0 n mine (put P b off bs, w, x)"
proof -
  have m: "mem (put P b off bs) q = mem P q" if "q \<in> own w" for q
    using assms that by (auto simp: at_sector_def mwrite_def)
  have "ok n (put P b off bs) w"
    by (rule c_mem [of n P w]) (use assms(1) m in \<open>auto simp: at_sector_def\<close>)
  then show ?thesis using assms(1) by (simp add: at_sector_def)
qed

lemma at_sector_alloc:
  assumes a: "at_sector dx f x0 n mine (P, w, x)" and al: "Alloc P = (P1, b)"
  shows "at_sector dx f x0 n (insert b mine) (P1, w, x)" and "b \<notin> mine"
proof -
  have A: "pool_inv P" "ok n P w" "wild P = own w \<union> mine"
    using a by (simp_all add: at_sector_def)
  have B: "pool_inv P1" "wild P1 = insert b (wild P)" "b \<notin> wild P" "mem P1 = mem P" "bufferSize P1 = bufferSize P"
    using bp.st_alloc_inv [OF A(1)] bp.st_alloc_out [OF A(1)] bp.st_alloc_fresh [OF A(1)]
      bp.st_alloc_bytes [of P] alloc_size [of P] by (simp_all add: al)
  have "ok n P1 w" by (rule c_mem [OF A(2)]) (simp_all add: B)
  then show "at_sector dx f x0 n (insert b mine) (P1, w, x)" "b \<notin> mine"
    using a A B by (auto simp: at_sector_def)
qed

lemma at_sector_release:
  assumes a: "at_sector dx f x0 n mine (P, w, x)" and b: "b \<in> mine"
  shows "at_sector dx f x0 n (mine - {b}) (pool_Release P b, w, x)"
proof -
  have "ok n (pool_Release P b) w"
    by (rule c_mem [of n P w]) (use a in \<open>simp_all add: at_sector_def\<close>)
  then show ?thesis
    using a b by (auto simp: at_sector_def release_inv release_wild)
qed

lemma deliver_plain_at:
  assumes a: "at_sector dx f x0 n {} (P, w, x)" and n: "n * SECTOR_SIZE < length img"
    and len: "SECTOR_SIZE \<le> unat len"
    and c: "take SECTOR_SIZE (drop src (i_cache x)) = img_sector img n"
  obtains P' w' x' p where "deliver_plain cl (P, w, x) src len = (P', w', x')"
    "at_sector dx f x0 (Suc n) {} (P', w', x')" "x' = x\<lparr>i_paused := p, i_pos := i_pos x + int SECTOR_SIZE\<rparr>"
    "bufferSize P' = bufferSize P"
proof -
  obtain P1 b where al: "Alloc P = (P1, b)" by (rule prod.exhaust)
  let ?bs = "take (unat len) (drop src (i_cache x))"
  let ?P2 = "put P1 b 0 ?bs"
  obtain P3 w3 h where s: "on_sector cl (i_pos x) b ?P2 w = (P3, w3, h)" by (rule prod_cases3)
  have "SECTOR_SIZE \<le> length ?bs"
  proof -
    have "SECTOR_SIZE dvd length img" using a by (simp add: at_sector_def serves_def)
    then have "length (img_sector img n) = SECTOR_SIZE" by (rule length_img_sector [OF _ n])
    then show ?thesis using c len by (metis length_take min.absorb_iff2 min.bounded_iff)
  qed
  then have "mread (mem ?P2) b 0 SECTOR_SIZE = img_sector img n"
    using c len by (simp add: mread_same_le min_def)
  note d = at_sector_deliver [OF at_sector_put [OF at_sector_alloc(1) [OF a al]] n _ this s]
  show thesis
    using d(1) [where p = "h (i_paused x)"] d(3)
    by (intro that [of P3 w3 "x\<lparr>i_paused := h (i_paused x), i_pos := i_pos x + int SECTOR_SIZE\<rparr>" "h (i_paused x)"])
       (use al s alloc_size [of P] in \<open>simp_all add: deliver_plain_def Let_def\<close>)
qed

lemma not_unfilled:
  assumes "serves dx f img cap x" and "n * SECTOR_SIZE < length img" and "i_pos x = int (n * SECTOR_SIZE)"
    and "cached x (located x n)"
  shows "\<not> unfilled x"
proof
  assume "unfilled x"
  then have "n = 0" "i_cachePos x = i_size x" using assms(3) by (simp_all add: unfilled_def SECTOR_SIZE_def)
  moreover have "l_pos (located x 0) < i_size x" using assms(1,2) by (auto simp: serves_def)
  ultimately show False using assms(4) by (simp add: cached_def)
qed

lemma ReadSector_waits:
  "at_sector dx f x0 n {} (P, w, x) \<Longrightarrow> coherent f x \<or> unfilled x \<Longrightarrow> i_req x = NoReq \<Longrightarrow>
   \<not> i_resumeShouldRead x \<Longrightarrow>
   finished dx f x0 (ReadSector cl (P, w, x)) \<or> (\<exists>n' \<ge> n. waits dx f x0 n' (ReadSector cl (P, w, x))
     \<and> (n' = n \<longrightarrow> i_paused x \<or> stage (ReadSector cl (P, w, x)) < 2))"
proof (induction "nat (i_size x - i_pos x)" arbitrary: P w x n rule: less_induct)
  case less
  note a = less.prems(1)
  have A: "i_pos x = int (n * SECTOR_SIZE)" "n * SECTOR_SIZE \<le> length img" "same_file x0 x"
    and sv: "serves dx f img (unat (bufferSize P)) x"
    using a by (simp_all add: at_sector_def)
  have S: "i_size x = int (length img)" "SECTOR_SIZE dvd length img" "i_type x \<noteq> UNKNOWN"
    using sv by (simp_all add: serves_def)
  have lt: "n * SECTOR_SIZE < length img" if "i_pos x < i_size x"
    using that unfolding A(1) S(1) by (simp only: of_nat_less_iff)
  let ?l = "located x n"
  have l: "locate x = ?l" by (rule locate_located [OF A(1)])
  consider (end') "i_pos x \<ge> i_size x" | (paused) "i_pos x < i_size x" "i_paused x"
    | (read) "i_pos x < i_size x" "\<not> i_paused x" "\<not> cached x ?l"
    | (work) "i_pos x < i_size x" "\<not> i_paused x" "cached x ?l" "l_deflate ?l \<or> l_lz4 ?l"
    | (plain) "i_pos x < i_size x" "\<not> i_paused x" "cached x ?l" "\<not> l_deflate ?l" "\<not> l_lz4 ?l"
    by linarith
  then show ?case
  proof cases
    case end'
    then have "int (length img) \<le> int (n * SECTOR_SIZE)" using A(1) S(1) by (simp only:)
    then have "length img = n * SECTOR_SIZE" using A(2) by linarith
    then have "length img div SECTOR_SIZE = n" by (simp add: SECTOR_SIZE_def)
    then show ?thesis
      using end' less.prems by (auto simp: finished_def ReadSector.simps [of cl P w x])
  next
    case paused
    let ?x = "x\<lparr>i_resumeShouldRead := True\<rparr>"
    have "same_file x ?x" by (simp add: same_file_def)
    then have "at_sector dx f x0 n {} (P, w, ?x)"
      using a same_file_trans [OF A(3)] same_file_serves [OF _ sv] by (simp add: at_sector_def)
    moreover have "ReadSector cl (P, w, x) = (P, w, ?x)"
      using paused by (simp add: ReadSector.simps [of cl P w x])
    moreover have "coherent f ?x \<or> unfilled ?x"
      using less.prems(2) by (simp add: coherent_def unfilled_def)
    ultimately show ?thesis
      using lt [OF paused(1)] less.prems(3) paused(2) by (intro disjI2 exI [of _ n]) (simp add: waits_def)
  next
    case read
    let ?x = "x\<lparr>i_cachePos := l_pos ?l,
      i_req := ReqRead (l_pos ?l) (l_len ?l) (l_offset ?l) (l_deflate ?l) (l_lz4 ?l)\<rparr>"
    have sf: "same_file x ?x" by (simp add: same_file_def)
    then have "at_sector dx f x0 n {} (P, w, ?x)"
      using a same_file_trans [OF A(3)] same_file_serves [OF _ sv] by (simp add: at_sector_def)
    moreover have "ReadSector cl (P, w, x) = (P, w, ?x)"
      using read S by (simp add: ReadSector.simps [of cl P w x] l Let_def)
    moreover have "length (i_cache x) = i_cacheSize x"
      using less.prems(2) by (auto simp: coherent_def unfilled_def)
    ultimately show ?thesis
      using lt [OF read(1)] less.prems(4) by (intro disjI2 exI [of _ n]) (simp add: waits_def stage_def same_file_located [OF sf])
  next
    case work
    note n = lt [OF work(1)]
    obtain P1 b where al: "Alloc P = (P1, b)" by (rule prod.exhaust)
    let ?x = "x\<lparr>i_req := ReqWork b (nat (l_pos ?l - i_cachePos x)) (l_len ?l) (l_offset ?l) (l_lz4 ?l)\<rparr>"
    have sf: "same_file x ?x" by (simp add: same_file_def)
    have "at_sector dx f x0 n {b} (P1, w, ?x)"
      using at_sector_alloc(1) [OF a al] alloc_size [of P] same_file_trans [OF A(3) sf] same_file_serves [OF sf sv]
      by (simp add: at_sector_def al)
    moreover have "ReadSector cl (P, w, x) = (P1, w, ?x)"
      using work S by (simp add: ReadSector.simps [of cl P w x] l Let_def EnqueueDecompressSector_def al)
    moreover have "coherent f ?x" using not_unfilled [OF sv n A(1) work(3)] less.prems(2) by (simp add: coherent_def)
    ultimately show ?thesis
      using work less.prems(4) n by (intro disjI2 exI [of _ n]) (simp add: waits_def stage_def same_file_located [OF sf] cached_def)
  next
    case plain
    note n = lt [OF plain(1)]
    have co: "coherent f x" using not_unfilled [OF sv n A(1) plain(3)] less.prems(2) by simp
    have sec: "SECTOR_SIZE \<le> unat (l_len ?l)" "file_read f (nat (l_pos ?l)) SECTOR_SIZE = img_sector img n"
      "nat (l_pos ?l) + unat (l_len ?l) \<le> length f"
      using sv n plain(4,5) by (auto simp: serves_def sector_serves_def Let_def)
    have "int SECTOR_SIZE \<le> int (unat (l_len ?l))" using sec(1) by (simp only: of_nat_le_iff)
    then have sec_int: "int SECTOR_SIZE \<le> uint (l_len ?l)" by simp
    let ?src = "nat (l_pos ?l - i_cachePos x)"
    have "take SECTOR_SIZE (drop ?src (i_cache x)) = img_sector img n"
      unfolding sec(2) [symmetric]
      by (rule coherent_read [OF co]) (use plain(3) sec sec_int in \<open>simp_all add: cached_def\<close>)
    then obtain P' w' x' p where d: "deliver_plain cl (P, w, x) ?src (l_len ?l) = (P', w', x')"
      "at_sector dx f x0 (Suc n) {} (P', w', x')" "x' = x\<lparr>i_paused := p, i_pos := i_pos x + int SECTOR_SIZE\<rparr>"
      using deliver_plain_at [OF a n sec(1)] by metis
    have "nat (i_size x' - i_pos x') < nat (i_size x - i_pos x)"
      using plain(1) by (simp add: d(3) SECTOR_SIZE_def)
    moreover have "coherent f x'" "i_req x' = NoReq" "\<not> i_resumeShouldRead x'"
      using co less.prems by (simp_all add: d(3) coherent_def)
    ultimately have "finished dx f x0 (ReadSector cl (P', w', x')) \<or> (\<exists>n' \<ge> Suc n. waits dx f x0 n' (ReadSector cl (P', w', x')))"
      using less.hyps d(2) by blast
    moreover have "ReadSector cl (P, w, x) = ReadSector cl (P', w', x')"
      using plain S by (simp add: ReadSector.simps [of cl P w x] l Let_def d(1))
    ultimately show ?thesis by (metis Suc_leD Suc_n_not_le_n)
  qed
qed

text \<open>Completion of the read.\<close>

lemma read_done_waits:
  assumes w: "waits dx f x0 n (P, w, x)" and r: "i_req x = ReqRead pos len offset deflate lz4"
    and bs: "bs = file_read f (nat pos) (i_cacheSize x)"
  shows "finished dx f x0 (read_done cl (P, w, x) (int (length bs)) bs)
    \<or> (\<exists>n' \<ge> n. waits dx f x0 n' (read_done cl (P, w, x) (int (length bs)) bs)
         \<and> (n' = n \<longrightarrow> stage (read_done cl (P, w, x) (int (length bs)) bs) = 0))"
proof -
  have n: "n * SECTOR_SIZE < length img" and a: "at_sector dx f x0 n {} (P, w, x)"
    and lc: "length (i_cache x) = i_cacheSize x" and rs: "\<not> i_resumeShouldRead x"
    and l: "located x n = \<lparr>l_pos = pos, l_offset = offset, l_len = len, l_deflate = deflate, l_lz4 = lz4\<rparr>"
    and cp: "i_cachePos x = pos"
    using w r by (auto simp: waits_def)
  have A: "i_pos x = int (n * SECTOR_SIZE)" "same_file x0 x" "serves dx f img (unat (bufferSize P)) x"
    using a by (simp_all add: at_sector_def)
  have s: "0 \<le> pos" "nat pos + unat len \<le> length f" "unat len \<le> i_cacheSize x"
    using A(3) n by (auto simp: serves_def sector_serves_def Let_def l)
  let ?x = "x\<lparr>i_req := NoReq, i_cache := bs @ drop (length bs) (i_cache x)\<rparr>"
  have sf: "same_file x ?x" by (simp add: same_file_def)
  have a': "at_sector dx f x0 n {} (P, w, ?x)"
    using a same_file_trans [OF A(2) sf] same_file_serves [OF sf A(3)] by (simp add: at_sector_def)
  have co: "coherent f ?x" by (rule coherent_fill) (use s lc bs cp in simp_all)
  have nl: "\<not> int (length bs) < uint len"
  proof -
    have "unat len \<le> length bs" using s by (simp add: bs file_read_def)
    then have "int (unat len) \<le> int (length bs)" by (simp only: of_nat_le_iff)
    then show ?thesis by simp
  qed
  have "int (unat len) \<le> int (i_cacheSize x)" using s(3) by (simp only: of_nat_le_iff)
  then have ic: "uint len \<le> int (i_cacheSize x)" by simp
  have loc: "located ?x n = located x n" by (rule same_file_located [OF sf])
  show ?thesis
  proof (cases "deflate \<or> lz4")
    case True
    obtain P1 b where al: "Alloc P = (P1, b)" by (rule prod.exhaust)
    let ?x2 = "x\<lparr>i_cache := bs @ drop (length bs) (i_cache x), i_req := ReqWork b 0 len offset lz4\<rparr>"
    have sf2: "same_file x ?x2" by (simp add: same_file_def)
    have "at_sector dx f x0 n {b} (P1, w, ?x2)"
      using at_sector_alloc(1) [OF a' al] alloc_size [of P] same_file_trans [OF A(2) sf2]
        same_file_serves [OF sf2 A(3)]
      by (simp add: at_sector_def al)
    moreover have "read_done cl (P, w, x) (int (length bs)) bs = (P1, w, ?x2)"
      using True nl by (simp add: read_done_def r Let_def EnqueueDecompressSector_def al)
    moreover have "coherent f ?x2" using co by (simp add: coherent_def)
    ultimately show ?thesis
      using True rs n cp ic by (intro disjI2 exI [of _ n])
        (simp add: waits_def stage_def same_file_located [OF sf2] l cached_def)
  next
    case False
    then have sec: "SECTOR_SIZE \<le> unat len" "file_read f (nat pos) SECTOR_SIZE = img_sector img n"
      using A(3) n by (auto simp: serves_def sector_serves_def Let_def l)
    have "take SECTOR_SIZE (drop (nat (pos - i_cachePos ?x)) (i_cache ?x)) = img_sector img n"
      unfolding sec(2) [symmetric] by (rule coherent_read [OF co]) (use s sec cp in simp_all)
    then have "take SECTOR_SIZE (drop 0 (i_cache ?x)) = img_sector img n" using cp by simp
    then obtain P' w' x' p where d: "deliver_plain cl (P, w, ?x) 0 len = (P', w', x')"
      "at_sector dx f x0 (Suc n) {} (P', w', x')" "x' = ?x\<lparr>i_paused := p, i_pos := i_pos ?x + int SECTOR_SIZE\<rparr>"
      using deliver_plain_at [OF a' n sec(1)] by metis
    have "coherent f x'" "i_req x' = NoReq" "\<not> i_resumeShouldRead x'"
      using co rs by (simp_all add: d(3) coherent_def)
    then have "finished dx f x0 (ReadSector cl (P', w', x')) \<or> (\<exists>n' \<ge> Suc n. waits dx f x0 n' (ReadSector cl (P', w', x')))"
      using ReadSector_waits [OF d(2)] by blast
    moreover have "read_done cl (P, w, x) (int (length bs)) bs = ReadSector cl (P', w', x')"
      using False nl d(1) by (simp add: read_done_def r Let_def)
    ultimately show ?thesis by (metis Suc_leD Suc_n_not_le_n)
  qed
qed

text \<open>The sectors of a decompressed block, until the client pauses the reader.\<close>

lemma sub_blocks_at:
  "at_sector dx f x0 n {buf} (P, w, x) \<Longrightarrow> j < R \<Longrightarrow> (n + (R - j)) * SECTOR_SIZE \<le> length img \<Longrightarrow>
   (\<And>i. i < R - j \<Longrightarrow> mread (mem P) buf ((j + i) * SECTOR_SIZE) SECTOR_SIZE = img_sector img (n + i)) \<Longrightarrow>
   \<exists>P' w' n' p. n < n' \<and> sub_blocks cl (P, w, x) buf (j * SECTOR_SIZE) (R * SECTOR_SIZE)
       = (P', w', x\<lparr>i_paused := p, i_pos := int (n' * SECTOR_SIZE)\<rparr>)
     \<and> at_sector dx f x0 n' {} (P', w', x\<lparr>i_paused := p, i_pos := int (n' * SECTOR_SIZE)\<rparr>)"
proof (induction "R - j" arbitrary: P w x n j)
  case 0
  then show ?case by simp
next
  case (Suc d)
  have S: "0 < SECTOR_SIZE" by (simp add: SECTOR_SIZE_def)
  note a = Suc.prems(1)
  have pos: "i_pos x = int (n * SECTOR_SIZE)" using a by (simp add: at_sector_def)
  have "Suc n * SECTOR_SIZE \<le> (n + (R - j)) * SECTOR_SIZE" using Suc.prems(2) by (intro mult_le_mono1) simp
  then have n: "n * SECTOR_SIZE < length img" using Suc.prems(3) S by simp
  have data: "mread (mem P) buf (j * SECTOR_SIZE) SECTOR_SIZE = img_sector img n"
    using Suc.prems(4) [of 0] Suc.prems(2) by simp
  have lt: "j * SECTOR_SIZE < R * SECTOR_SIZE" using Suc.prems(2) S by simp
  show ?case
  proof (cases "Suc j = R")
    case True
    let ?P2 = "put P buf 0 (mread (mem P) buf (j * SECTOR_SIZE) SECTOR_SIZE)"
    obtain P3 w3 h where s: "on_sector cl (i_pos x) buf ?P2 w = (P3, w3, h)" by (rule prod_cases3)
    have "mread (mem ?P2) buf 0 SECTOR_SIZE = img_sector img n"
      unfolding put_mem data [symmetric] by (rule mread_same_length) simp
    note dl = at_sector_deliver [OF at_sector_put [OF a] n _ this s, simplified]
    let ?x3 = "x\<lparr>i_paused := h (i_paused x), i_pos := i_pos x + int SECTOR_SIZE\<rparr>"
    have le: "R * SECTOR_SIZE \<le> j * SECTOR_SIZE + SECTOR_SIZE" using True by auto
    have stop: "sub_blocks cl (P3, w3, ?x3) buf (j * SECTOR_SIZE + SECTOR_SIZE) (R * SECTOR_SIZE) = (P3, w3, ?x3)"
      using le by (subst sub_blocks.simps) simp
    have "sub_blocks cl (P, w, x) buf (j * SECTOR_SIZE) (R * SECTOR_SIZE) = (P3, w3, ?x3)"
      by (subst sub_blocks.simps) (simp only: lt le s stop Let_def if_True if_False prod.case simp_thms)
    then show ?thesis
      using dl(1) [of "h (i_paused x)"] pos
      by (intro exI [of _ P3] exI [of _ w3] exI [of _ "Suc n"] exI [of _ "h (i_paused x)"]) (simp add: algebra_simps)
  next
    case False
    then have last: "Suc j < R" using Suc.prems(2) by simp
    then have nl: "\<not> j * SECTOR_SIZE + SECTOR_SIZE \<ge> R * SECTOR_SIZE"
      using mult_less_mono1 [OF last S] by simp
    obtain P1 b where al: "Alloc P = (P1, b)" by (rule prod.exhaust)
    have a1: "at_sector dx f x0 n {b, buf} (P1, w, x)" and b: "b \<noteq> buf"
      using at_sector_alloc [OF a al] by simp_all
    have m1: "mem P1 = mem P" "bufferSize P1 = bufferSize P" using alloc_mem [of P] alloc_size [of P] al by simp_all
    let ?P2 = "put P1 b 0 (mread (mem P1) buf (j * SECTOR_SIZE) SECTOR_SIZE)"
    have a2: "at_sector dx f x0 n {b, buf} (?P2, w, x)" by (rule at_sector_put [OF a1]) simp
    obtain P3 w3 h where s: "on_sector cl (i_pos x) b ?P2 w = (P3, w3, h)" by (rule prod_cases3)
    have rd: "mread (mem ?P2) b 0 SECTOR_SIZE = img_sector img n"
      unfolding put_mem m1 data [symmetric] by (rule mread_same_length) simp
    note dl = at_sector_deliver [OF a2 n _ rd s]
    have mine: "{b, buf} - {b} = {buf}" using b by auto
    let ?x3 = "x\<lparr>i_paused := h (i_paused x), i_pos := i_pos x + int SECTOR_SIZE\<rparr>"
    have a3: "at_sector dx f x0 (Suc n) {buf} (P3, w3, ?x3)"
      using dl(1) by (simp add: mine)
    have x3: "?x3 = x\<lparr>i_paused := h (i_paused x), i_pos := int (Suc n * SECTOR_SIZE)\<rparr>"
      using pos by (simp add: algebra_simps)
    have e: "sub_blocks cl (P, w, x) buf (j * SECTOR_SIZE) (R * SECTOR_SIZE) =
        (if h (i_paused x) then (pool_Release P3 buf, w3, ?x3)
         else sub_blocks cl (P3, w3, ?x3) buf (Suc j * SECTOR_SIZE) (R * SECTOR_SIZE))"
      using s lt nl al by (simp add: sub_blocks.simps [of cl P] Let_def add.commute)
    show ?thesis
    proof (cases "h (i_paused x)")
      case True
      have "at_sector dx f x0 (Suc n) {} (pool_Release P3 buf, w3, ?x3)"
        using at_sector_release [OF a3, of buf] by simp
      then show ?thesis
        using e True x3
        by (intro exI [of _ "pool_Release P3 buf"] exI [of _ w3] exI [of _ "Suc n"] exI [of _ "h (i_paused x)"]) simp
    next
      case False
      have "mem P3 buf = mem P buf" using dl(2) [of buf] b m1 by (simp add: mwrite_def)
      then have rd3: "mread (mem P3) buf ((Suc j + i) * SECTOR_SIZE) SECTOR_SIZE = img_sector img (Suc n + i)"
        if "i < R - Suc j" for i
        using Suc.prems(4) [of "Suc i"] that by (simp add: mread_eq_ptr [of "mem P3" buf "mem P"])
      have "Suc n + (R - Suc j) = n + (R - j)" using last by simp
      then have len: "(Suc n + (R - Suc j)) * SECTOR_SIZE \<le> length img" using Suc.prems(3) by (simp only:)
      have d: "d = R - Suc j" using Suc.hyps(2) by simp
      obtain P' w' n' p where r: "Suc n < n'"
        "sub_blocks cl (P3, w3, ?x3) buf (Suc j * SECTOR_SIZE) (R * SECTOR_SIZE)
          = (P', w', ?x3\<lparr>i_paused := p, i_pos := int (n' * SECTOR_SIZE)\<rparr>)"
        "at_sector dx f x0 n' {} (P', w', ?x3\<lparr>i_paused := p, i_pos := int (n' * SECTOR_SIZE)\<rparr>)"
        using Suc.hyps(1) [OF d a3 last len] rd3 by blast
      show ?thesis
        by (intro exI [of _ P'] exI [of _ w'] exI [of _ n'] exI [of _ p])
           (use e False r in simp)
    qed
  qed
qed

text \<open>Completion of a decompression job.\<close>

lemma decompress_work_decoded:
  assumes d: "decoded dx x (unat (bufferSize P)) l src = Some blk"
    and src: "take (unat (l_len l)) (drop s (i_cache x)) = src"
    and k: "l_deflate l \<or> l_lz4 l" and m: "SECTOR_SIZE \<le> length blk" "length blk < 2 ^ 32"
  shows "decompress_work dx P x buf s (l_len l) (l_lz4 l) = (put P buf 0 blk, of_nat (length blk), [])"
proof (cases "l_lz4 l")
  case True
  obtain r b where e: "d_lz4 dx src (unat (i_csoBlockSize x)) = (r, b)" by (rule prod.exhaust)
  then have "r = int (length blk)" "b = blk"
    using d True by (simp_all add: decoded_def split: if_splits)
  then show ?thesis
    using True e src by (simp add: decompress_work_def DecompressSectorLZ4_def Let_def)
next
  case False
  obtain ended msg b where e: "d_inflate dx (i_type x = DAX) src (unat (bufferSize P)) = (ended, msg, b)"
    by (rule prod_cases3)
  then have "ended" "b = blk" and i: "fst (d_inflateInit dx (i_type x = DAX))"
    using d False by (simp_all add: decoded_def split: if_splits)
  obtain m' where "d_inflateInit dx (i_type x = DAX) = (True, m')"
    using i by (cases "d_inflateInit dx (i_type x = DAX)") simp
  then show ?thesis
    using False e src m \<open>ended\<close> \<open>b = blk\<close> by (simp add: decompress_work_def DecompressSectorDeflate_def Let_def)
qed

lemma decompress_done_waits:
  assumes w: "waits dx f x0 n (P, w, x)" and r: "i_req x = ReqWork buf src len offset lz4"
  shows "finished dx f x0 (decompress_done dx cl (P, w, x) 0)
    \<or> (\<exists>n' > n. waits dx f x0 n' (decompress_done dx cl (P, w, x) 0))"
proof -
  let ?l = "located x n"
  have n: "n * SECTOR_SIZE < length img" and a: "at_sector dx f x0 n {buf} (P, w, x)"
    and co: "coherent f x" and rs: "\<not> i_resumeShouldRead x" and cmp: "l_deflate ?l \<or> l_lz4 ?l"
    and ca: "cached x ?l" and e: "len = l_len ?l" "offset = l_offset ?l" "lz4 = l_lz4 ?l"
    "src = nat (l_pos ?l - i_cachePos x)"
    using w r by (auto simp: waits_def)
  have A: "i_pos x = int (n * SECTOR_SIZE)" "same_file x0 x" "serves dx f img (unat (bufferSize P)) x"
    using a by (simp_all add: at_sector_def)
  have S: "i_size x = int (length img)" "SECTOR_SIZE dvd length img"
    using A(3) by (simp_all add: serves_def)
  have ss: "sector_serves dx f img (unat (bufferSize P)) x n" using A(3) n by (simp add: serves_def)
  then obtain blk where len: "nat (l_pos ?l) + unat len \<le> length f"
    and dec: "decoded dx x (unat (bufferSize P)) ?l (file_read f (nat (l_pos ?l)) (unat len)) = Some blk"
    and bs: "block_serves img x n ?l blk"
    using cmp by (auto simp: sector_serves_def Let_def e(1))
  obtain k m where k: "unat offset = k * SECTOR_SIZE" "length blk = m * SECTOR_SIZE" "k < m" "k \<le> n"
    and bl: "length blk \<le> unat (i_csoBlockSize x)"
    and sec: "\<forall>j < m. (n - k + j) * SECTOR_SIZE < length img \<longrightarrow>
      file_read blk (j * SECTOR_SIZE) SECTOR_SIZE = img_sector img (n - k + j)"
    using bs unfolding block_serves_def e(2) [symmetric] by (elim exE conjE)
  have S0: "0 < SECTOR_SIZE" by (simp add: SECTOR_SIZE_def)
  have src: "take (unat (l_len ?l)) (drop src (i_cache x)) = file_read f (nat (l_pos ?l)) (unat len)"
    unfolding e(1,4) by (rule coherent_read [OF co]) (use ca len e in \<open>simp_all add: cached_def\<close>)
  have "SECTOR_SIZE \<le> length blk" "length blk < 2 ^ 32"
    using k(2,3) bl unat_less_32 [of "i_csoBlockSize x"] by (simp_all add: Suc_le_eq)
  note dw = decompress_work_decoded [OF dec src cmp this, of buf]
  have u: "uint (of_nat (length blk) :: u32) = int (length blk)" "unat (of_nat (length blk) :: u32) = length blk"
    using \<open>length blk < 2 ^ 32\<close> unat_of_nat_small [of "length blk", where 'a = 32] by (simp_all add: uint_nat)
  obtain N where N: "length img = N * SECTOR_SIZE" using S(2) by (metis dvd_def mult.commute)
  have nN: "n < N" using n N by simp
  define R where "R = min m (N - (n - k))"
  have kR: "k < R" using k nN by (simp add: R_def)
  let ?x1 = "x\<lparr>i_req := NoReq\<rparr>" and ?P1 = "put P buf 0 blk"
  have sf: "same_file x ?x1" by (simp add: same_file_def)
  have a1: "at_sector dx f x0 n {buf} (?P1, w, ?x1)"
    using at_sector_put [OF a, of buf 0 blk] same_file_trans [OF A(2) sf] same_file_serves [OF sf A(3)]
    by (simp add: at_sector_def)
  have RN: "(n + (R - k)) * SECTOR_SIZE \<le> length img"
  proof -
    have "n + (R - k) \<le> N" using k nN by (simp add: R_def)
    then show ?thesis unfolding N by (rule mult_le_mono1)
  qed
  have rd: "mread (mem ?P1) buf ((k + i) * SECTOR_SIZE) SECTOR_SIZE = img_sector img (n + i)" if "i < R - k" for i
  proof -
    have i: "k + i < m" "n - k + (k + i) = n + i" "n + i < N" using that k nN by (simp_all add: R_def)
    then have "(n - k + (k + i)) * SECTOR_SIZE < length img" using S0 N by simp
    moreover have "(k + i) * SECTOR_SIZE + SECTOR_SIZE \<le> length blk"
      using mult_le_mono1 [of "Suc (k + i)" m SECTOR_SIZE] i(1) k(2) by simp
    ultimately show ?thesis
      using sec [rule_format, OF i(1)] i(2) by (simp add: mread_mwrite_part)
  qed
  from sub_blocks_at [OF a1 kR RN rd] obtain P' w' n' p where sb: "n < n'"
    "sub_blocks cl (?P1, w, ?x1) buf (k * SECTOR_SIZE) (R * SECTOR_SIZE)
       = (P', w', ?x1\<lparr>i_paused := p, i_pos := int (n' * SECTOR_SIZE)\<rparr>)"
    "at_sector dx f x0 n' {} (P', w', ?x1\<lparr>i_paused := p, i_pos := int (n' * SECTOR_SIZE)\<rparr>)"
    by blast
  let ?x2 = "?x1\<lparr>i_paused := p, i_pos := int (n' * SECTOR_SIZE)\<rparr>"
  have "coherent f ?x2" "i_req ?x2 = NoReq" "\<not> i_resumeShouldRead ?x2"
    using co rs by (simp_all add: coherent_def)
  then have "finished dx f x0 (ReadSector cl (P', w', ?x2)) \<or> (\<exists>n'' \<ge> n'. waits dx f x0 n'' (ReadSector cl (P', w', ?x2)))"
    using ReadSector_waits [OF sb(3)] by blast
  moreover have "decompress_done dx cl (P, w, x) 0 = ReadSector cl (P', w', ?x2)"
  proof -
    let ?sz = "of_nat (length blk) :: u32"
    have big: "\<not> ?sz > i_csoBlockSize x" using bl by (simp add: word_less_nat_alt u(2))
    have "uint offset = int (unat offset)" by simp
    then have "i_pos x - uint offset = int (n * SECTOR_SIZE) - int (k * SECTOR_SIZE)" by (simp only: A(1) k(1))
    also have "\<dots> = int ((n - k) * SECTOR_SIZE)"
      using mult_le_mono1 [OF k(4), of SECTOR_SIZE] by (simp only: of_nat_diff diff_mult_distrib)
    finally have sp: "i_pos x - uint offset = int ((n - k) * SECTOR_SIZE)" .
    let ?rs = "if int ((n - k) * SECTOR_SIZE) + uint ?sz > i_size x
      then word_of_int (i_size x - int ((n - k) * SECTOR_SIZE)) else ?sz"
    have rs: "unat ?rs = R * SECTOR_SIZE"
    proof (cases "N - (n - k) < m")
      case True
      have lt: "N * SECTOR_SIZE < (n - k) * SECTOR_SIZE + m * SECTOR_SIZE"
        using mult_less_mono1 [of N "n - k + m" SECTOR_SIZE] True S0 by (simp add: add_mult_distrib)
      have le: "(n - k) * SECTOR_SIZE \<le> N * SECTOR_SIZE" using nN by (intro mult_le_mono1) simp
      have c: "int ((n - k) * SECTOR_SIZE) + uint ?sz > i_size x"
        unfolding u(1) unfolding k(2) S(1) N using lt by (simp only: of_nat_add [symmetric] of_nat_less_iff)
      have "i_size x - int ((n - k) * SECTOR_SIZE) = int ((N - (n - k)) * SECTOR_SIZE)"
        unfolding S(1) N using le by (simp only: of_nat_diff diff_mult_distrib)
      moreover have "(N - (n - k)) * SECTOR_SIZE < 2 ^ 32"
        using mult_le_mono1 [of "N - (n - k)" m SECTOR_SIZE] True k(2) \<open>length blk < 2 ^ 32\<close> by linarith
      ultimately have "?rs = of_nat ((N - (n - k)) * SECTOR_SIZE)" using c by simp
      moreover have "unat (of_nat ((N - (n - k)) * SECTOR_SIZE) :: u32) = (N - (n - k)) * SECTOR_SIZE"
        using \<open>(N - (n - k)) * SECTOR_SIZE < 2 ^ 32\<close> by (intro unat_of_nat_small) simp
      ultimately show ?thesis using True by (simp only: R_def min.absorb4)
    next
      case False
      then have "(n - k) * SECTOR_SIZE + m * SECTOR_SIZE \<le> N * SECTOR_SIZE"
        using mult_le_mono1 [of "n - k + m" N SECTOR_SIZE] nN by (simp add: add_mult_distrib)
      then have c: "\<not> int ((n - k) * SECTOR_SIZE) + uint ?sz > i_size x"
        unfolding u(1) unfolding k(2) S(1) N by (simp only: of_nat_add [symmetric] of_nat_less_iff not_less)
      have "R = m" using False by (simp add: R_def)
      then show ?thesis unfolding if_not_P [OF c] u(2) by (simp only: k(2))
    qed
    show ?thesis
      unfolding decompress_done_def prod.case r ireq.case e(1,3) if_not_P [OF less_irrefl] dw Let_def
      unfolding sp rs k(1)
      using big sb(2) by simp
  qed
  ultimately show ?thesis using sb(1) by (metis order_less_le_trans)
qed

text \<open>Pausing and resuming.\<close>

lemma waits_paused: "waits dx f x0 n (P, w, x) \<Longrightarrow> waits dx f x0 n (P, w, x\<lparr>i_paused := b\<rparr>)"
proof -
  assume w: "waits dx f x0 n (P, w, x)"
  let ?x = "x\<lparr>i_paused := b\<rparr>"
  have sf: "same_file x ?x" by (simp add: same_file_def)
  have a: "at_sector dx f x0 n mine (P, w, ?x)" if "at_sector dx f x0 n mine (P, w, x)" for mine
    using that same_file_serves [OF sf] same_file_trans [OF _ sf] by (simp add: at_sector_def)
  have c: "coherent f ?x = coherent f x" "unfilled ?x = unfilled x" "cached ?x l = cached x l" for l
    by (simp_all add: coherent_def unfilled_def cached_def)
  show ?thesis
    using w a unfolding waits_def prod.case c same_file_located [OF sf]
    by (cases "i_req x") simp_all
qed

lemma Resume_waits:
  assumes w: "waits dx f x0 n (P, w, x)"
  shows "finished dx f x0 (Resume cl (P, w, x)) \<or> (\<exists>n' \<ge> n. waits dx f x0 n' (Resume cl (P, w, x))
    \<and> (n' = n \<longrightarrow> stage (Resume cl (P, w, x)) < 2))"
proof (cases "i_resumeShouldRead x")
  case True
  then have a: "at_sector dx f x0 n {} (P, w, x)" "coherent f x \<or> unfilled x" "i_req x = NoReq"
    using w by (auto simp: waits_def split: ireq.splits)
  let ?x = "x\<lparr>i_paused := False, i_resumeShouldRead := False\<rparr>"
  have sf: "same_file x ?x" by (simp add: same_file_def)
  have "at_sector dx f x0 n {} (P, w, ?x)"
    using a(1) same_file_serves [OF sf] same_file_trans [OF _ sf] by (simp add: at_sector_def)
  moreover have "coherent f ?x \<or> unfilled ?x" using a(2) by (simp add: coherent_def unfilled_def)
  moreover have "Resume cl (P, w, x) = ReadSector cl (P, w, ?x)" using True by (simp add: Resume_def Let_def)
  ultimately show ?thesis
    using ReadSector_waits [of dx f x0 n P w ?x] a(3) by simp
next
  case False
  let ?x = "x\<lparr>i_paused := False\<rparr>"
  have "waits dx f x0 n (P, w, ?x)" by (rule waits_paused [OF w])
  moreover have "stage (P, w, ?x) < 2"
    using w False by (cases "i_req x") (simp_all add: waits_def stage_def)
  ultimately show ?thesis using False by (auto simp: Resume_def Let_def)
qed

lemma waits_bounds:
  assumes "waits dx f x0 n st"
  shows "n * SECTOR_SIZE < length img" and "SECTOR_SIZE dvd length img" and "n < length img div SECTOR_SIZE"
proof -
  obtain P w x where st: "st = (P, w, x)" by (rule prod_cases3)
  show n: "n * SECTOR_SIZE < length img" and d: "SECTOR_SIZE dvd length img"
    using assms by (cases "i_req x"; simp add: st waits_def at_sector_def serves_def)+
  then show "n < length img div SECTOR_SIZE" by (metis dvd_div_mult_self mult_less_cancel2)
qed

lemma answer_waits:
  assumes "waits dx f x0 n st"
  shows "finished dx f x0 (answer f dx cl st)
    \<or> (\<exists>n' \<ge> n. waits dx f x0 n' (answer f dx cl st) \<and> (n' = n \<longrightarrow> stage (answer f dx cl st) < stage st))"
proof -
  obtain P w x where st: "st = (P, w, x)" by (rule prod_cases3)
  note w = assms [unfolded st]
  show ?thesis
  proof (cases "i_req x")
    case (ReqRead pos len offset deflate lz4)
    then show ?thesis
      using read_done_waits [OF w ReqRead refl] by (simp add: st answer_def Let_def stage_def)
  next
    case (ReqWork buf src len offset lz4)
    then have e: "answer f dx cl st = decompress_done dx cl (P, w, x) 0" by (simp add: st answer_def)
    show ?thesis
      unfolding e using decompress_done_waits [OF w ReqWork] by (metis less_imp_le less_irrefl)
  next
    case NoReq
    then have "i_resumeShouldRead x" using w by (simp add: waits_def)
    then show ?thesis
      using Resume_waits [OF w] NoReq by (simp add: st answer_def stage_def)
  qed (use w in \<open>simp_all add: waits_def\<close>)
qed

lemma finished_idle:
  assumes "finished dx f x0 (P, w, x)"
  shows "finished dx f x0 (P, w, x\<lparr>i_paused := b\<rparr>)" and "i_req x = NoReq" and "\<not> i_resumeShouldRead x"
proof -
  let ?x = "x\<lparr>i_paused := b\<rparr>"
  have sf: "same_file x ?x" by (simp add: same_file_def)
  show "finished dx f x0 (P, w, ?x)"
    using assms same_file_serves [OF sf] same_file_trans [OF _ sf] by (auto simp: finished_def at_sector_def)
qed (use assms in \<open>auto simp: finished_def\<close>)

lemma finished_steps:
  assumes "finished dx f x0 st"
  shows "answer f dx cl st = st" and "finished dx f x0 (Resume cl st)"
proof -
  obtain P w x where st: "st = (P, w, x)" by (rule prod_cases3)
  note i = finished_idle [OF assms [unfolded st]]
  show "answer f dx cl st = st" "finished dx f x0 (Resume cl st)"
    using i by (simp_all add: st answer_def Resume_def Let_def)
qed

text \<open>Every state a run reaches is fine, and a run that is answered often enough finishes.\<close>

lemma in_reach_waits:
  assumes "in_reach f dx cl st0 st" and "finished dx f x0 st0 \<or> (\<exists>n. waits dx f x0 n st0)"
  shows "finished dx f x0 st \<or> (\<exists>n. waits dx f x0 n st)"
  using assms
proof (induction rule: in_reach.induct)
  case start
  then show ?case .
next
  case (completes st)
  then show ?case using answer_waits finished_steps(1) by metis
next
  case (pause P w x)
  then show ?case using waits_paused finished_idle(1) unfolding Pause_def by blast
next
  case (resume st)
  obtain P w x where st: "st = (P, w, x)" by (rule prod_cases3)
  show ?case using resume Resume_waits finished_steps(2) unfolding st by blast
qed

lemma drive_finished: "finished dx f x0 st \<Longrightarrow> drive k f dx cl st = st"
  by (induction k) (simp_all add: finished_steps)

lemma drive_finishes:
  "waits dx f x0 n st \<Longrightarrow> 3 * (length img div SECTOR_SIZE - n) + stage st \<le> k \<Longrightarrow>
     finished dx f x0 (drive k f dx cl st)"
proof (induction k arbitrary: n st)
  case 0
  then show ?case using waits_bounds(3) [of dx f x0 n st] by simp
next
  case (Suc k)
  let ?st = "answer f dx cl st"
  let ?N = "length img div SECTOR_SIZE"
  consider "finished dx f x0 ?st" | n' where "n < n'" "waits dx f x0 n' ?st"
    | "waits dx f x0 n ?st" "stage ?st < stage st"
    using answer_waits [OF Suc.prems(1)] by (metis le_neq_implies_less)
  then show ?case
  proof cases
    case 1
    then show ?thesis by (simp add: drive_finished)
  next
    case 2
    have "n < ?N" by (rule waits_bounds(3) [OF Suc.prems(1)])
    moreover have "stage ?st \<le> 2" by (simp add: stage_def split: prod.split ireq.split)
    ultimately have "3 * (?N - n') + stage ?st \<le> k" using 2(1) Suc.prems(2) by linarith
    from Suc.IH [OF 2(2) this] show ?thesis by simp
  next
    case 3
    then show ?thesis using Suc.IH [of n ?st] Suc.prems(2) by simp
  qed
qed

text \<open>The start: the state in which the headers have been read and the client was told to begin.\<close>

lemma begin_waits:
  assumes "at_sector dx f x0 0 {} (P, w, x)" and "unfilled x" and "i_req x = NoReq" and "\<not> i_resumeShouldRead x"
  shows "finished dx f x0 (ReadSector cl (P, w, x)) \<or> (\<exists>n. waits dx f x0 n (ReadSector cl (P, w, x)))"
  using ReadSector_waits [OF assms(1)] assms by blast

end

end
