(* ===== verification/Crc32Props.thy ===== *)
theory Crc32Props
  imports Crc32
begin

section \<open>Correctness of the CRC-32 code\<close>

text \<open>
  The compiled tables are the ones \<open>make_crc_table\<close> generates, the word-at-a-time loop
  computes the shift-register checksum, checksums compose, and \<open>crc32_combine\<close> is right.
  Everything rests on the linearity of the register over exclusive-or.
\<close>

subsection \<open>Rows and tables\<close>

lemma length_crc_row [simp]: "length (crc_row k) = 256"
  by (simp add: crc_row_def)

lemma crc_row_nth: "n < 256 \<Longrightarrow> crc_row k ! n = (crc_shift8 ^^ Suc k) (of_nat n)"
  by (simp add: crc_row_def del: funpow.simps)

lemma unat_low8: "unat ((c :: u32) AND 0xFF) < 256"
proof -
  have "c AND 0xFF = take_bit 8 c" by (simp add: take_bit_eq_mask mask_eq_exp_minus_1)
  then show ?thesis
    using take_bit_nat_less_exp [of 8 "unat c"] by (simp add: unsigned_take_bit_eq)
qed

lemma crc_row_low: "crc_row k ! unat (c AND 0xFF) = (crc_shift8 ^^ Suc k) (c AND 0xFF)"
  using crc_row_nth [OF unat_low8, of k c] by (simp only: of_nat_unat ucast_id)

lemma table_next_shift8: "table_next (crc_row 0) c = crc_shift8 c"
  unfolding table_next_def crc_row_low using crc_bits_low [of c] by (simp add: crc_shift8_def)

lemma crc_row_map: "map (table_next (crc_row 0)) (crc_row k) = crc_row (Suc k)"
proof -
  have "crc_row (Suc k) = map crc_shift8 (crc_row k)" by (simp add: crc_row_def)
  then show ?thesis by (simp add: table_next_shift8)
qed

text \<open>The tables compiled into the program are those \<open>make_crc_table\<close> computes.\<close>

lemma make_crc_table_rows: "make_crc_table = [crc_row 0, crc_row 1, crc_row 2, crc_row 3]"
proof -
  have t0: "make_table_0 = crc_row 0"
    by (simp add: make_table_0_def crc_row_def crc_shift8_def)
  show ?thesis
    unfolding make_crc_table_def Let_def t0 crc_row_map numeral_2_eq_2 numeral_3_eq_3 One_nat_def
    by (rule refl)
qed

lemma crc_table_row: "k < 4 \<Longrightarrow> crc_table k = crc_row k"
proof -
  assume "k < 4"
  then have "k = 0 \<or> k = Suc 0 \<or> k = Suc (Suc 0) \<or> k = Suc (Suc (Suc 0))" by linarith
  then show ?thesis
    by (auto simp: crc_table_def crc_row_0 crc_row_1 crc_row_2 crc_row_3)
qed

subsection \<open>The byte and word steps\<close>

lemma DO1_byte: "DO1 c b = crc_byte c b"
proof -
  have b: "drop_bit 8 (ucast b :: u32) = 0"
    by (rule bit_word_eqI) (auto simp: bit_simps dest: bit_imp_le_length)
  have "DO1 c b = crc_shift8 ((c XOR ucast b) AND 0xFF) XOR drop_bit 8 c"
    unfolding DO1_def by (simp add: crc_table_row crc_row_low)
  also have "drop_bit 8 c = drop_bit 8 (c XOR ucast b)" by (simp add: drop_bit_xor b)
  finally show ?thesis
    using crc_bits_low [of "c XOR ucast b"] by (simp add: crc_byte_def crc_shift8_def)
qed

lemma crc_shift8_low: "crc_shift8 c = crc_shift8 (c AND 0xFF) XOR drop_bit 8 c"
  unfolding crc_shift8_def by (rule crc_bits_low)

text \<open>Looking up the four bytes of a word follows them separately.\<close>

lemma crc_lookup: "k < 4 \<Longrightarrow> crc_table k ! unat (x AND 0xFF) = (crc_shift8 ^^ Suc k) (x AND 0xFF)"
  by (simp only: crc_table_row crc_row_low)

lemma drop_24_low: "drop_bit 24 x AND 0xFF = (drop_bit 24 x :: u32)"
proof -
  have m: "(0xFF :: u32) = mask 8" by (simp add: mask_eq_exp_minus_1)
  show ?thesis unfolding m
    by (rule bit_word_eqI) (auto simp: bit_simps dest: bit_imp_le_length)
qed

lemma crc_shift8_4:
  "crc_shift8 (crc_shift8 (crc_shift8 (crc_shift8 x))) =
     crc_table 3 ! unat (x AND 0xFF) XOR crc_table 2 ! unat (drop_bit 8 x AND 0xFF)
       XOR crc_table 1 ! unat (drop_bit 16 x AND 0xFF) XOR crc_table 0 ! unat (drop_bit 24 x)"
proof -
  let ?S = crc_shift8
  have t3: "crc_table 3 ! unat (x AND 0xFF) = ?S (?S (?S (?S (x AND 0xFF))))"
    by (subst crc_lookup) (simp_all add: numeral_3_eq_3)
  have t2: "crc_table 2 ! unat (drop_bit 8 x AND 0xFF) = ?S (?S (?S (drop_bit 8 x AND 0xFF)))"
    by (subst crc_lookup) (simp_all add: numeral_2_eq_2)
  have t1: "crc_table 1 ! unat (drop_bit 16 x AND 0xFF) = ?S (?S (drop_bit 16 x AND 0xFF))"
    by (subst crc_lookup) simp_all
  have t0: "crc_table 0 ! unat (drop_bit 24 x) = ?S (drop_bit 24 x)"
    using crc_lookup [of 0 "drop_bit 24 x"] by (simp add: drop_24_low)
  have "drop_bit 16 x = drop_bit 8 (drop_bit 8 x)" "drop_bit 24 x = drop_bit 8 (drop_bit 16 x)"
    by (simp_all add: drop_bit_drop_bit)
  then have s: "?S x = ?S (x AND 0xFF) XOR drop_bit 8 x"
    "?S (drop_bit 8 x) = ?S (drop_bit 8 x AND 0xFF) XOR drop_bit 16 x"
    "?S (drop_bit 16 x) = ?S (drop_bit 16 x AND 0xFF) XOR drop_bit 24 x"
    using crc_shift8_low by metis+
  show ?thesis
    unfolding t3 t2 t1 t0 s(1) crc_shift8_xor s(2) s(3)
    by (simp only: xor.assoc)
qed

lemma DOLIT4_shift: "DOLIT4 c w = crc_shift8 (crc_shift8 (crc_shift8 (crc_shift8 (c XOR w))))"
  by (simp only: DOLIT4_def Let_def crc_shift8_4)

lemma or_push: "(ucast (b :: u8) :: u32) OR push_bit 8 y = ucast b XOR push_bit 8 y"
proof (rule disjunctive_xor_eq_or [symmetric])
  show "(ucast b :: u32) AND push_bit 8 y = 0"
    by (rule bit_word_eqI) (auto simp: bit_simps dest: bit_imp_le_length)
qed

lemma rd32_horner: "rd32 (b0 # b1 # b2 # b3 # r) 0 =
   ucast b0 XOR push_bit 8 (ucast b1 XOR push_bit 8 (ucast b2 XOR push_bit 8 (ucast b3)))"
proof -
  have "rd32 (b0 # b1 # b2 # b3 # r) 0 =
      ucast b0 OR push_bit 8 (ucast b1 OR push_bit 8 (ucast b2 OR push_bit 8 (ucast b3)))"
    by (simp add: rd32_def push_bit_or or.assoc)
  then show ?thesis by (simp only: or_push)
qed

lemma crc_shift8_push: "drop_bit 24 y = 0 \<Longrightarrow> crc_shift8 (push_bit 8 y) = y"
proof -
  assume y: "drop_bit 24 (y :: u32) = 0"
  have "bit y n \<Longrightarrow> n < 24" for n
    using arg_cong [OF y, of "\<lambda>z. bit z (n - 24)"] by (cases "n < 24") (simp_all add: bit_drop_bit_eq)
  then have "drop_bit 8 (push_bit 8 y) = y"
    by (intro bit_word_eqI) (auto simp: bit_simps)
  moreover have "crc_shift8 (push_bit 8 y) = drop_bit 8 (push_bit 8 y)"
    unfolding crc_shift8_def by (rule crc_bits_shift) (simp add: take_bit_push_bit)
  ultimately show ?thesis by simp
qed

lemma crc_byte_word:
  "drop_bit 24 y = 0 \<Longrightarrow> crc_shift8 (c XOR (ucast b XOR push_bit 8 y)) = crc_byte c b XOR y"
  by (simp add: crc_byte_def crc_shift8_xor crc_shift8_push ac_simps flip: crc_shift8_def)

lemma DOLIT4_bytes:
  "DOLIT4 c (rd32 (b0 # b1 # b2 # b3 # r) 0) = crc_byte (crc_byte (crc_byte (crc_byte c b0) b1) b2) b3"
proof -
  have d3: "drop_bit 24 (ucast b3 :: u32) = 0"
    by (rule bit_word_eqI) (auto simp: bit_simps dest: bit_imp_le_length)
  have d2: "drop_bit 24 (ucast b2 XOR push_bit 8 (ucast b3) :: u32) = 0"
    by (rule bit_word_eqI) (auto simp: bit_simps dest: bit_imp_le_length)
  have d1: "drop_bit 24 (ucast b1 XOR push_bit 8 (ucast b2 XOR push_bit 8 (ucast b3)) :: u32) = 0"
    by (rule bit_word_eqI) (auto simp: bit_simps dest: bit_imp_le_length)
  have b3: "crc_shift8 (c' XOR ucast b3) = crc_byte c' b3" for c'
    by (simp add: crc_byte_def crc_shift8_def)
  show ?thesis
    unfolding DOLIT4_shift rd32_horner
    by (simp only: crc_byte_word [OF d1] crc_byte_word [OF d2] crc_byte_word [OF d3] b3)
qed

subsection \<open>The loops\<close>

lemma rd32_take4: "4 \<le> length buf \<Longrightarrow> DOLIT4 c (rd32 buf 0) = foldl crc_byte c (take 4 buf)"
proof -
  assume "4 \<le> length buf"
  then obtain b0 b1 b2 b3 r where b: "buf = b0 # b1 # b2 # b3 # r"
    by (auto simp: Suc_le_length_iff numeral_eq_Suc)
  show ?thesis unfolding b DOLIT4_bytes by (simp add: eval_nat_numeral)
qed

lemma foldl_take_drop: "foldl f (foldl f c (take n xs)) (drop n xs) = foldl f c xs"
  by (metis append_take_drop_id foldl_append)

lemma DOLIT32_bytes:
  "4 * n \<le> length buf \<Longrightarrow> DOLIT32 c buf n = (foldl crc_byte c (take (4 * n) buf), drop (4 * n) buf)"
proof (induction n arbitrary: c buf)
  case 0
  show ?case by simp
next
  case (Suc n)
  then have "DOLIT32 (foldl crc_byte c (take 4 buf)) (drop 4 buf) n =
      (foldl crc_byte (foldl crc_byte c (take 4 buf)) (take (4 * n) (drop 4 buf)), drop (4 * n) (drop 4 buf))"
    by (intro Suc.IH) simp
  moreover have "take (4 * Suc n) buf = take 4 buf @ take (4 * n) (drop 4 buf)"
    using take_add [of 4 "4 * n" buf] by simp
  ultimately show ?case
    using Suc.prems by (simp add: rd32_take4 add.commute)
qed

lemma crc_words_bytes: "crc_words c buf = (c', r) \<Longrightarrow> foldl crc_byte c' r = foldl crc_byte c buf"
proof (induction c buf arbitrary: c' r rule: crc_words.induct)
  case (1 c buf)
  consider "32 \<le> length buf" | "length buf < 32" "4 \<le> length buf" | "length buf < 4" by linarith
  then show ?case
  proof cases
    case 1
    then have d: "DOLIT32 c buf 8 = (foldl crc_byte c (take 32 buf), drop 32 buf)"
      using DOLIT32_bytes [of 8 buf c] by simp
    have "crc_words (foldl crc_byte c (take 32 buf)) (drop 32 buf) = (c', r)"
      using "1.prems" 1 by (simp add: crc_words.simps [of c buf] d)
    from "1.IH"(1) [OF 1 refl d [symmetric] this] show ?thesis by (simp add: foldl_take_drop)
  next
    case 2
    then have "crc_words (foldl crc_byte c (take 4 buf)) (drop 4 buf) = (c', r)"
      using "1.prems" by (simp add: crc_words.simps [of c buf] rd32_take4)
    with "1.IH"(2) 2 show ?thesis by (simp add: rd32_take4 foldl_take_drop)
  next
    case 3
    with "1.prems" show ?thesis by (simp add: crc_words.simps [of c buf])
  qed
qed

lemma crc_head_bytes: "crc_head addr c buf = (c', r) \<Longrightarrow> foldl crc_byte c' r = foldl crc_byte c buf"
  by (induction addr c buf rule: crc_head.induct) (auto simp: DO1_byte split: if_splits)

lemma foldl_DO1: "foldl DO1 c buf = foldl crc_byte c buf"
  by (induction buf arbitrary: c) (simp_all add: DO1_byte)

text \<open>Whatever the alignment, the optimised loop computes the specified checksum.\<close>

lemma crc32_little_spec: "crc32_little addr crc buf = crc32_spec crc buf"
proof -
  obtain c1 b1 where 1: "crc_head addr (NOT crc) buf = (c1, b1)" by (rule prod.exhaust)
  obtain c2 b2 where 2: "crc_words c1 b1 = (c2, b2)" by (rule prod.exhaust)
  show ?thesis
    using crc_head_bytes [OF 1] crc_words_bytes [OF 2]
    by (simp add: crc32_little_def crc32_spec_def 1 2 foldl_DO1)
qed

lemma crc32_bytes_spec: "crc32_bytes crc buf = crc32_spec crc buf"
proof -
  have "(0xFFFFFFFF :: u32) = - 1" by simp
  then have "(x :: u32) XOR 0xFFFFFFFF = NOT x" for x by (simp only: bit.xor_one_right)
  then show ?thesis by (simp add: crc32_bytes_def crc32_spec_def foldl_DO1)
qed

lemma crc32_spec_append: "crc32_spec crc (a @ b) = crc32_spec (crc32_spec crc a) b"
  by (simp add: crc32_spec_def)

subsection \<open>crc32_combine\<close>

text \<open>A list of 32 words is the matrix of a linear function when its columns are the images of the bits.\<close>

definition linear :: "(u32 \<Rightarrow> u32) \<Rightarrow> bool" where
  "linear f \<longleftrightarrow> (\<forall>a b. f (a XOR b) = f a XOR f b)"

definition matrix_of :: "(u32 \<Rightarrow> u32) \<Rightarrow> u32 list" where
  "matrix_of f = map (\<lambda>n. f (2 ^ n)) [0..<32]"

lemma linear_0: "linear f \<Longrightarrow> f 0 = 0"
  unfolding linear_def by (metis xor_self_eq)

lemma linear_comp: "linear f \<Longrightarrow> linear g \<Longrightarrow> linear (f \<circ> g)"
  by (simp add: linear_def)

lemma split_bits: "v = take_bit n v XOR push_bit n (drop_bit n (v :: u32))"
  by (rule bit_word_eqI) (auto simp: bit_simps)

lemma push_bit_split:
  "push_bit k (v :: u32) = (if odd v then 2 ^ k else 0) XOR push_bit (Suc k) (drop_bit 1 v)"
proof -
  have "take_bit 1 v = (if odd v then 1 else 0)"
    by (simp add: take_bit_eq_mod mod_2_eq_odd)
  then have "v = (if odd v then 1 else 0) XOR push_bit 1 (drop_bit 1 v)"
    using split_bits [of v 1] by (simp only:)
  then have "push_bit k v = push_bit k (if odd v then 1 else 0) XOR push_bit k (push_bit 1 (drop_bit 1 v))"
    by (metis push_bit_xor)
  then show ?thesis by (simp add: push_bit_push_bit)
qed

lemma gf2_loop:
  assumes "linear f"
  shows "k \<le> 32 \<Longrightarrow> unat vec < 2 ^ (32 - k) \<Longrightarrow>
    gf2_matrix_times_loop acc (map (\<lambda>n. f (2 ^ n)) [k..<32]) vec = acc XOR f (push_bit k vec)"
proof (induction acc "map (\<lambda>n. f (2 ^ n)) [k..<32]" vec arbitrary: k rule: gf2_matrix_times_loop.induct)
  case (1 acc vec)
  let ?m = "map (\<lambda>n. f (2 ^ n)) [k..<32]"
  show ?case
  proof (cases "vec = 0")
    case True
    then show ?thesis by (subst gf2_matrix_times_loop.simps) (simp add: linear_0 [OF assms])
  next
    case False
    then have "k < 32" using 1(2,3) by (cases "k = 32") (simp_all add: word_unat_eq_iff)
    then have m: "hd ?m = f (2 ^ k)" "tl ?m = map (\<lambda>n. f (2 ^ n)) [Suc k..<32]"
      by (simp_all add: upt_conv_Cons)
    have "32 - k = Suc (32 - Suc k)" using \<open>k < 32\<close> by simp
    then have "(2 :: nat) ^ (32 - k) = 2 * 2 ^ (32 - Suc k)" by (simp only: power_Suc)
    with 1(3) have "unat vec div 2 < 2 ^ (32 - Suc k)" by linarith
    moreover have "unat (drop_bit 1 vec) = unat vec div 2"
      by (subst unat_drop_bit_eq) (simp add: drop_bit_Suc)
    ultimately have "unat (drop_bit 1 vec) < 2 ^ (32 - Suc k)" by (simp only:)
    then have "gf2_matrix_times_loop (if vec AND 1 \<noteq> 0 then acc XOR hd ?m else acc) (tl ?m) (drop_bit 1 vec)
        = (if vec AND 1 \<noteq> 0 then acc XOR hd ?m else acc) XOR f (push_bit (Suc k) (drop_bit 1 vec))"
      using 1(1) [OF False m(2)] \<open>k < 32\<close> by (simp add: m(2))
    moreover have "f (push_bit k vec) = (if odd vec then f (2 ^ k) else 0) XOR f (push_bit (Suc k) (drop_bit 1 vec))"
      using assms linear_0 [OF assms] by (subst push_bit_split) (simp add: linear_def)
    ultimately show ?thesis
      using False by (simp add: gf2_matrix_times_loop.simps [of acc ?m vec] m and_one_eq mod_2_eq_odd xor.assoc)
  qed
qed

lemma gf2_times: "linear f \<Longrightarrow> gf2_matrix_times (matrix_of f) v = f v"
  using gf2_loop [of f 0 v 0] unat_less_32 [of v] by (simp add: gf2_matrix_times_def matrix_of_def)

lemma gf2_square: "linear f \<Longrightarrow> gf2_matrix_square (matrix_of f) = matrix_of (f \<circ> f)"
  by (simp add: gf2_matrix_square_def gf2_times) (simp add: matrix_of_def)

lemma linear_crc_bits: "linear (crc_bit ^^ n)"
  by (simp add: linear_def crc_bits_xor)

lemma crc_zero_bit_matrix: "crc_zero_bit = matrix_of (crc_bit ^^ 1)"
proof -
  have "crc_bit (2 ^ Suc n) = 2 ^ n" if "Suc n < 32" for n
    using that by (simp add: crc_bit_odd drop_bit_exp_eq del: power_Suc)
  then have "map (\<lambda>n. push_bit (n - 1) (1 :: u32)) [1..<32] = map (\<lambda>n. crc_bit (2 ^ n)) [1..<32]"
    by (intro map_cong refl) (metis One_nat_def Suc_pred atLeastLessThan_iff less_eq_Suc_le push_bit_of_1 set_upt)
  moreover have "[0..<32] = 0 # [1..<32]" by (simp add: upt_rec)
  ultimately show ?thesis
    by (simp add: crc_zero_bit_def matrix_of_def crc_bit_numeral)
qed

lemma combine_loop_power:
  assumes "0 < len2"
  shows "combine_loop crc1 len2 (matrix_of (crc_bit ^^ m)) = (crc_bit ^^ (2 * m * nat len2)) crc1"
  using assms
proof (induction crc1 len2 "matrix_of (crc_bit ^^ m)" arbitrary: m rule: combine_loop.induct)
  case (1 crc1 len2)
  let ?M = "matrix_of (crc_bit ^^ m)"
  have "(crc_bit ^^ m) \<circ> (crc_bit ^^ m) = crc_bit ^^ (2 * m)"
    by (simp add: mult_2 funpow_add)
  then have sq: "gf2_matrix_square ?M = matrix_of (crc_bit ^^ (2 * m))"
    by (simp only: gf2_square linear_crc_bits)
  let ?c = "if odd len2 then (crc_bit ^^ (2 * m)) crc1 else crc1"
  have c: "(if len2 AND 1 \<noteq> 0 then gf2_matrix_times (gf2_matrix_square ?M) crc1 else crc1) = ?c"
    by (simp add: sq gf2_times linear_crc_bits and_one_eq mod_2_eq_odd)
  have e: "combine_loop crc1 len2 ?M = (if drop_bit 1 len2 \<le> 0 then ?c
      else combine_loop ?c (drop_bit 1 len2) (matrix_of (crc_bit ^^ (2 * m))))"
    by (subst combine_loop.simps) (simp only: Let_def c, simp only: sq)
  show ?case
  proof (cases "drop_bit 1 len2 \<le> 0")
    case True
    then have "len2 = 1" using "1.prems" by (simp add: drop_bit_eq_div)
    then show ?thesis using e True by simp
  next
    case False
    then have "combine_loop ?c (drop_bit 1 len2) (matrix_of (crc_bit ^^ (2 * m))) =
        (crc_bit ^^ (2 * (2 * m) * nat (drop_bit 1 len2))) ?c"
    proof (intro "1.hyps" [OF sq [symmetric] _ refl False])
      show "?c = (if len2 AND 1 \<noteq> 0 then gf2_matrix_times (matrix_of (crc_bit ^^ (2 * m))) crc1 else crc1)"
        by (simp add: gf2_times linear_crc_bits and_one_eq mod_2_eq_odd)
      show "0 < drop_bit 1 len2" using False by simp
    qed
    moreover have "nat len2 = 2 * nat (drop_bit 1 len2) + (if odd len2 then 1 else 0)"
      using "1.prems" by (auto simp: drop_bit_eq_div elim!: oddE evenE)
    ultimately show ?thesis
      using False by (simp add: e funpow_add [symmetric, THEN fun_cong, unfolded comp_def] algebra_simps)
  qed
qed

text \<open>Feeding bytes is linear in the register and the bytes together.\<close>

lemma crc_bytes_xor:
  "foldl crc_byte (s XOR t) b = (crc_bit ^^ (8 * length b)) s XOR foldl crc_byte t b"
proof (induction b arbitrary: s t)
  case Nil
  show ?case by simp
next
  case (Cons x b)
  have "crc_byte (s XOR t) x = (crc_bit ^^ 8) s XOR crc_byte t x"
    by (simp add: crc_byte_def crc_bits_xor xor.assoc)
  then have "foldl crc_byte (s XOR t) (x # b) =
      (crc_bit ^^ (8 * length b)) ((crc_bit ^^ 8) s) XOR foldl crc_byte (crc_byte t x) b"
    using Cons.IH by simp
  moreover have "(crc_bit ^^ (8 * length b)) ((crc_bit ^^ 8) s) = (crc_bit ^^ (8 * length (x # b))) s"
    by (simp add: funpow_add [THEN fun_cong, unfolded comp_def, symmetric] add.commute)
  ultimately show ?case by simp
qed

lemma crc32_combine_spec:
  "crc32_combine (crc32_spec 0 a) (crc32_spec 0 b) (int (length b)) = crc32_spec 0 (a @ b)"
proof (cases "b = []")
  case True
  then show ?thesis by (simp add: crc32_combine_def)
next
  case False
  let ?A = "crc32_spec 0 a"
  have M: "gf2_matrix_square (gf2_matrix_square crc_zero_bit) = matrix_of (crc_bit ^^ 4)"
    by (simp only: crc_zero_bit_matrix gf2_square linear_crc_bits flip: funpow_add) (simp add: numeral_eq_Suc)
  have "NOT ?A = ?A XOR (NOT 0)"
    by (simp add: bit.xor_one_right)
  then have "foldl crc_byte (NOT ?A) b = (crc_bit ^^ (8 * length b)) ?A XOR foldl crc_byte (NOT 0) b"
    using crc_bytes_xor [of ?A "NOT 0" b] by (simp only:)
  then have "crc32_spec ?A b = (crc_bit ^^ (8 * length b)) ?A XOR crc32_spec 0 b"
    unfolding crc32_spec_def [of ?A b] crc32_spec_def [of 0 b] by (simp add: bit.xor_compl_right)
  moreover have "crc32_combine ?A (crc32_spec 0 b) (int (length b)) =
      (crc_bit ^^ (8 * length b)) ?A XOR crc32_spec 0 b"
    using False by (simp add: crc32_combine_def M combine_loop_power)
  ultimately show ?thesis by (simp add: crc32_spec_append)
qed

subsection \<open>Properties\<close>

text \<open>C25: \<open>crc32_combine\<close> of the checksums of two pieces and the length of the second is the
  checksum of the pieces together.\<close>

theorem crc32_combine_correct:
  "crc32_combine (crc32_spec 0 a) (crc32_spec 0 b) (int (length b)) = crc32_spec 0 (a @ b)"
  by (rule crc32_combine_spec)

text \<open>The four tables compiled into the program are the first four that \<open>make_crc_table\<close>
  computes at run time in the other build configuration.\<close>

lemma crc_tables_agree:
  assumes "k < 4"
  shows "crc_table k = make_crc_table ! k"
proof -
  have "k = 0 \<or> k = 1 \<or> k = 2 \<or> k = 3" using assms by linarith
  then show ?thesis using crc_table_row [OF assms] by (auto simp: make_crc_table_rows)
qed

end
