(* ===== verification/Checksum.thy ===== *)
theory Checksum
  imports InputProps Crc32Props OrderedMap
begin

section \<open>The checksum task (src/checksum.cpp)\<close>

text \<open>
  \<open>ChecksumTask\<close> is the simpler of the two clients of \<open>Input\<close>: it feeds each sector to
  \<open>crc32\<close> and gives the buffer back, keeping early sectors in a map.  The state is the class's
  fields and the list of events it reported.  It fulfils \<open>input_client\<close>, so the delivery
  theorems of the reader give the checksum of the whole image.
\<close>

subsection \<open>State and operations\<close>

record cktask =
  ck_input :: int
  ck_pos :: int
  ck_size :: int
  ck_crc :: u32
  ck_pending :: "ptr omap"
  ck_events :: "task_event list"

definition ck_notify :: "cktask \<Rightarrow> task_event \<Rightarrow> cktask" where
  "ck_notify t e = t\<lparr>ck_events := ck_events t @ [e]\<rparr>"

text \<open>\<open>sprintf(temp, "CRC32: %08x", crc_)\<close>.\<close>

definition hex8 :: "u32 \<Rightarrow> string" where
  "hex8 w = map (\<lambda>i. ''0123456789abcdef'' ! unat (drop_bit (4 * i) w AND 0xF)) [7, 6, 5, 4, 3, 2, 1, 0]"

text \<open>
  The checksum of the sector in a buffer.  malloc aligns to 16 bytes: the address of block \<open>b\<close>
  is a multiple of it.
\<close>

definition crc_sector :: "pool \<Rightarrow> u32 \<Rightarrow> ptr \<Rightarrow> u32" where
  "crc_sector P crc b = crc32 (16 * b) crc (Some (mread (mem P) b 0 SECTOR_SIZE))"

text \<open>The loop over the queue from its first entry, which then erases what it used.\<close>

fun ck_flush :: "pool \<Rightarrow> u32 \<Rightarrow> int \<Rightarrow> ptr omap \<Rightarrow> pool \<times> u32 \<times> int \<times> ptr omap" where
  "ck_flush P crc pos [] = (P, crc, pos, [])"
| "ck_flush P crc pos ((k, b) # m) =
     (if k \<noteq> pos then (P, crc, pos, (k, b) # m)
      else ck_flush (pool_Release P b) (crc_sector P crc b) (pos + int SECTOR_SIZE) m)"

definition HandleBuffer :: "pool \<Rightarrow> cktask \<Rightarrow> ptr \<Rightarrow> pool \<times> cktask" where
  "HandleBuffer P t buffer =
     (let crc = crc_sector P (ck_crc t) buffer;
          P1 = pool_Release P buffer;
          pos = ck_pos t + int SECTOR_SIZE;
          (P2, crc, pos, pending) = ck_flush P1 crc pos (ck_pending t);
          t1 = t\<lparr>ck_crc := crc, ck_pos := pos, ck_pending := pending\<rparr>;
          t2 = ck_notify t1 (Notify TASK_INPROGRESS pos (ck_size t1) 0)
      in (P2, if pos = ck_size t2 then ck_notify t2 (Notify_reason TASK_SUCCESS (''CRC32: '' @ hex8 crc)) else t2))"

text \<open>The callbacks \<open>BeginProcessing\<close> installs.\<close>

definition ck_on_sector :: "int \<Rightarrow> ptr \<Rightarrow> pool \<Rightarrow> cktask \<Rightarrow> pool \<times> cktask" where
  "ck_on_sector pos buffer P t =
     (if ck_pos t = pos then HandleBuffer P t buffer
      else (P, t\<lparr>ck_pending := om_insert pos buffer (ck_pending t)\<rparr>))"

definition checksum_client :: "cktask client" where
  "checksum_client = \<lparr>
     on_sector = (\<lambda>pos buffer P t. let (P1, t1) = ck_on_sector pos buffer P t in (P1, t1, \<lambda>p. p)),
     on_begin = (\<lambda>size P t.
       (P, ck_notify (t\<lparr>ck_crc := crc32 0 0 None, ck_size := size\<rparr>) (Notify TASK_INPROGRESS 0 size 0), \<lambda>p. p)),
     on_finish = (\<lambda>success reason t.
       if \<not> success then ck_notify t (Notify_reason TASK_INVALID_DATA reason) else t)\<rparr>"

definition ck_BeginProcessing :: "cktask ist \<Rightarrow> cktask ist" where
  "ck_BeginProcessing st = (case st of (P, t, x) \<Rightarrow> Pipe (P, t\<lparr>ck_pos := 0\<rparr>, x))"

text \<open>Completion of the \<open>fs_open\<close> that \<open>Enqueue\<close> submits.\<close>

definition ck_open_done :: "cktask ist \<Rightarrow> int \<Rightarrow> cktask ist" where
  "ck_open_done st result =
     (case st of (P, t, x) \<Rightarrow>
        if result < 0 then (P, ck_notify t (Notify_reason TASK_BAD_INPUT ''Could not open input file''), x)
        else ck_BeginProcessing (P, t\<lparr>ck_input := result\<rparr>, x))"

definition ck_Cleanup :: "pool \<Rightarrow> cktask \<Rightarrow> pool \<times> cktask" where
  "ck_Cleanup P t = (foldl pool_Release P (map snd (ck_pending t)),
     t\<lparr>ck_input := (if ck_input t \<ge> 0 then -1 else ck_input t), ck_pending := []\<rparr>)"

subsection \<open>The checksum task as a client of the reader\<close>

definition ck_own :: "cktask \<Rightarrow> ptr set" where
  "ck_own t = snd ` set (ck_pending t)"

text \<open>After \<open>n\<close> sectors in order: their checksum, an empty queue, and the result once complete.\<close>

definition ck_ok :: "u8 list \<Rightarrow> nat \<Rightarrow> pool \<Rightarrow> cktask \<Rightarrow> bool" where
  "ck_ok img n P t \<longleftrightarrow> ck_pos t = int (n * SECTOR_SIZE) \<and> ck_pending t = [] \<and> ck_size t = int (length img)
     \<and> ck_crc t = crc32_spec 0 (take (n * SECTOR_SIZE) img)
     \<and> (0 < n \<longrightarrow> n * SECTOR_SIZE = length img \<longrightarrow>
          last (ck_events t) = EvError TASK_SUCCESS (Some (''CRC32: '' @ hex8 (crc32_spec 0 img))))"

lemma crc_sector_spec: "crc_sector P crc b = crc32_spec crc (mread (mem P) b 0 SECTOR_SIZE)"
  by (simp add: crc_sector_def crc32_def crc32_little_spec)

lemma take_next_sector:
  "take (Suc n * SECTOR_SIZE) img = take (n * SECTOR_SIZE) img @ img_sector img n"
  using take_add [of "n * SECTOR_SIZE" SECTOR_SIZE img] by (simp add: img_sector_def file_read_def add.commute)

lemma ck_ok_step:
  assumes ok: "ck_ok img n P t" and b: "mread (mem P) b 0 SECTOR_SIZE = img_sector img n"
  shows "ck_on_sector (int (n * SECTOR_SIZE)) b P t = (P', t') \<Longrightarrow>
    P' = pool_Release P b \<and> ck_ok img (Suc n) P' t'"
proof -
  let ?c = "crc32_spec 0 (take (Suc n * SECTOR_SIZE) img)"
  have c: "crc_sector P (ck_crc t) b = ?c"
    using ok by (simp add: crc_sector_spec b ck_ok_def take_next_sector crc32_spec_append del: mult_Suc)
  have p: "ck_pos t + int SECTOR_SIZE = int (Suc n * SECTOR_SIZE)"
    using ok by (simp add: ck_ok_def)
  assume "ck_on_sector (int (n * SECTOR_SIZE)) b P t = (P', t')"
  then have e: "HandleBuffer P t b = (P', t')"
    using ok by (simp add: ck_on_sector_def ck_ok_def)
  have pend: "ck_pending t = []" "ck_size t = int (length img)" using ok by (simp_all add: ck_ok_def)
  show ?thesis
    using e unfolding HandleBuffer_def Let_def c p pend ck_flush.simps prod.case
    by (auto simp: ck_ok_def ck_notify_def pend Notify_reason_def of_nat_eq_iff [where 'a = int, symmetric]
        simp del: of_nat_eq_iff of_nat_mult mult_Suc split: if_splits)
qed

interpretation ck: input_client checksum_client "ck_ok img" ck_own img for img
proof unfold_locales
  fix P n w b P' w' f
  assume inv: "pool_inv P" and ok: "ck_ok img n P w" and b: "b \<in> wild P - ck_own w"
    and rd: "mread (mem P) b 0 SECTOR_SIZE = img_sector img n"
    and s: "on_sector checksum_client (int (n * SECTOR_SIZE)) b P w = (P', w', f)"
  obtain P1 t1 where 1: "ck_on_sector (int (n * SECTOR_SIZE)) b P w = (P1, t1)" by (rule prod.exhaust)
  from ck_ok_step [OF ok rd this] have st: "P1 = pool_Release P b" "ck_ok img (Suc n) P1 t1" by blast+
  have e: "P' = P1" "w' = t1" using s 1 by (simp_all add: checksum_client_def)
  have own: "ck_own w = {}" "ck_own t1 = {}" using ok st by (simp_all add: ck_ok_def ck_own_def)
  show "pool_inv P' \<and> ck_ok img (Suc n) P' w' \<and> ck_own w' \<subseteq> wild P' \<and> wild P' - ck_own w' = wild P - ck_own w - {b}
      \<and> bufferSize P' = bufferSize P \<and> (\<forall>q \<in> wild P - ck_own w - {b}. mem P' q = mem P q)"
    using st inv b by (simp add: e own release_inv release_wild)
qed (simp add: ck_ok_def)

subsection \<open>The checksum of a file\<close>

text \<open>The state in which the headers of the input have been read.\<close>

definition ck_ready :: "decoders \<Rightarrow> u8 list \<Rightarrow> u8 list \<Rightarrow> cktask ist \<Rightarrow> bool" where
  "ck_ready dx f img st \<longleftrightarrow> (case st of (P, t, x) \<Rightarrow>
     pool_inv P \<and> wild P = {} \<and> ck_pos t = 0 \<and> ck_pending t = []
     \<and> i_pos x = 0 \<and> unfilled x \<and> i_req x = NoReq \<and> \<not> i_resumeShouldRead x
     \<and> serves dx f img (unat (bufferSize P)) x)"

lemma begin_reading_ck:
  assumes "ck_ready dx f img st"
  shows "ck.finished img dx f (snd (snd st)) (begin_reading checksum_client st)
    \<or> (\<exists>n. ck.waits img dx f (snd (snd st)) n (begin_reading checksum_client st))"
proof -
  obtain P t x where st: "st = (P, t, x)" by (rule prod_cases3)
  let ?t = "ck_notify (t\<lparr>ck_crc := crc32 0 0 None, ck_size := i_size x\<rparr>) (Notify TASK_INPROGRESS 0 (i_size x) 0)"
  have r: "serves dx f img (unat (bufferSize P)) x" "unfilled x" "i_req x = NoReq" "\<not> i_resumeShouldRead x"
    "i_pos x = 0" "pool_inv P" "wild P = {}" "ck_pos t = 0" "ck_pending t = []"
    using assms by (simp_all add: ck_ready_def st)
  then have "ck_ok img 0 P ?t" "ck_own ?t = {}"
    by (simp_all add: ck_ok_def ck_notify_def crc32_def crc32_spec_def serves_def ck_own_def)
  then have "ck.at_sector img dx f x 0 {} (P, ?t, x)"
    using r by (simp add: ck.at_sector_def same_file_def)
  from ck.begin_waits [OF this r(2,3,4)] show ?thesis
    by (simp add: st begin_reading_def checksum_client_def)
qed

lemma on_finish_ck: "on_finish checksum_client True r t = t"
  by (simp add: checksum_client_def)

lemma ck_finished_events:
  assumes "ck.finished img dx f x0 (P, t, x)" and "img \<noteq> []"
  shows "last (ck_events t) = EvError TASK_SUCCESS (Some (''CRC32: '' @ hex8 (crc32_spec 0 img)))"
    and "wild P = {}"
proof -
  let ?N = "length img div SECTOR_SIZE"
  have ok: "ck_ok img ?N P t" "SECTOR_SIZE dvd length img" "wild P = ck_own t"
    using assms(1) by (auto simp: ck.finished_def ck.at_sector_def on_finish_ck serves_def)
  then have "?N * SECTOR_SIZE = length img" "0 < ?N" using assms(2) by (simp_all add: dvd_imp_le div_greater_zero_iff SECTOR_SIZE_def)
  then show "last (ck_events t) = EvError TASK_SUCCESS (Some (''CRC32: '' @ hex8 (crc32_spec 0 img)))" "wild P = {}"
    using ok by (simp_all add: ck_ok_def ck_own_def)
qed

end
