(* ===== verification/Delivery.thy ===== *)
theory Delivery
  imports RoundTrip Checksum
begin

section \<open>From the image to the file and back\<close>

text \<open>
  The theorems about \<open>Output\<close>'s file format, \<open>Input\<close>'s delivery and the checksum task together:
  a CSO or ZSO file laid out the way \<open>Output\<close> does, whose blocks decode to the blocks of an
  image, serves that image to the reader, and so does an ISO file.  For both the checksum task
  ends with the checksum of the image.
\<close>

subsection \<open>Files in the layout of the writer\<close>

text \<open>Block \<open>b\<close> of \<open>2 ^ k\<close> bytes holds the sectors of the image that fall into it.\<close>

definition holds_block :: "u8 list \<Rightarrow> nat \<Rightarrow> nat \<Rightarrow> u8 list \<Rightarrow> bool" where
  "holds_block img k b blk \<longleftrightarrow> length blk = 2 ^ k
     \<and> (\<forall>j < 2 ^ (k - 11). (b * 2 ^ (k - 11) + j) * SECTOR_SIZE < length img \<longrightarrow>
          file_read blk (j * SECTOR_SIZE) SECTOR_SIZE = img_sector img (b * 2 ^ (k - 11) + j))"

text \<open>The stored bytes of a block, with the padding up to the next one, give the block back.\<close>

definition block_stored :: "decoders \<Rightarrow> nat \<Rightarrow> u8 list \<Rightarrow> nat \<Rightarrow> nat \<Rightarrow> SectorFormat \<Rightarrow> u8 list \<Rightarrow> bool" where
  "block_stored dx cap img k b cf bytes \<longleftrightarrow>
     (case cf of
        SECTOR_FMT_ORIG \<Rightarrow> holds_block img k b bytes
      | SECTOR_FMT_DEFLATE \<Rightarrow> fst (d_inflateInit dx False) \<and>
          (case d_inflate dx False bytes cap of (ended, _, blk) \<Rightarrow> ended \<and> holds_block img k b blk)
      | SECTOR_FMT_LZ4 \<Rightarrow>
          (case d_lz4 dx bytes (2 ^ k) of (r, blk) \<Rightarrow> r = int (length blk) \<and> holds_block img k b blk))"

text \<open>
  The file \<open>f\<close> with index \<open>ix\<close>: block \<open>b\<close> is stored from \<open>d b\<close> to \<open>d (Suc b)\<close>, in format
  \<open>cf b\<close>.  A compressed block is smaller than the block (\<open>FinalizeBest\<close> sees to it).
\<close>

definition written_block ::
  "decoders \<Rightarrow> nat \<Rightarrow> CSOFormat \<Rightarrow> nat \<Rightarrow> nat \<Rightarrow> u8 list \<Rightarrow> u8 list \<Rightarrow> u32 list
    \<Rightarrow> (nat \<Rightarrow> int) \<Rightarrow> (nat \<Rightarrow> SectorFormat) \<Rightarrow> nat \<Rightarrow> bool" where
  "written_block dx cap fmt k sh img f ix d cf b \<longleftrightarrow>
     ix ! b = index_entry fmt sh (d b) (cf b) \<and> ix ! Suc b AND 0x7FFFFFFF = index_value sh (d (Suc b))
     \<and> 0 \<le> d b \<and> d b \<le> d (Suc b) \<and> d (Suc b) < 2 ^ (31 + sh) \<and> 2 ^ sh dvd d b \<and> 2 ^ sh dvd d (Suc b)
     \<and> d (Suc b) - d b \<le> 2 ^ k \<and> (cf b = SECTOR_FMT_ORIG) = (d (Suc b) - d b = 2 ^ k)
     \<and> format_allowed fmt (cf b) \<and> nat (d (Suc b)) \<le> length f
     \<and> block_stored dx cap img k b (cf b) (file_read f (nat (d b)) (nat (d (Suc b) - d b)))"

definition written_file ::
  "decoders \<Rightarrow> nat \<Rightarrow> CSOFormat \<Rightarrow> nat \<Rightarrow> nat \<Rightarrow> u8 list \<Rightarrow> u8 list \<Rightarrow> u32 list \<Rightarrow> bool" where
  "written_file dx cap fmt k sh img f ix \<longleftrightarrow>
     (\<exists>d cf. d 0 < int (length img)
        \<and> (\<forall>b. b * 2 ^ k < length img \<longrightarrow> written_block dx cap fmt k sh img f ix d cf b))"

subsection \<open>Such a file serves the image\<close>

lemma block_pow: "11 \<le> k \<Longrightarrow> 2 ^ (k - 11) * SECTOR_SIZE = 2 ^ k"
  using power_add [of "2 :: nat" "k - 11" 11] by (simp add: SECTOR_SIZE_def)

lemma sector_in_block:
  assumes "11 \<le> k"
  shows "n = n div 2 ^ (k - 11) * 2 ^ (k - 11) + n mod 2 ^ (k - 11)"
    and "n * SECTOR_SIZE = n div 2 ^ (k - 11) * 2 ^ k + n mod 2 ^ (k - 11) * SECTOR_SIZE"
    and "n mod 2 ^ (k - 11) * SECTOR_SIZE + SECTOR_SIZE \<le> 2 ^ k"
proof -
  let ?q = "(2 :: nat) ^ (k - 11)"
  show 1: "n = n div ?q * ?q + n mod ?q" by (rule div_mult_mod_eq [symmetric])
  have "n * SECTOR_SIZE = (n div ?q * ?q + n mod ?q) * SECTOR_SIZE" by (simp only: div_mult_mod_eq)
  then have "n * SECTOR_SIZE = n div ?q * ?q * SECTOR_SIZE + n mod ?q * SECTOR_SIZE" by (simp only: add_mult_distrib)
  then show "n * SECTOR_SIZE = n div ?q * 2 ^ k + n mod ?q * SECTOR_SIZE"
    using block_pow [OF assms] by (simp only: mult.assoc)
  have "Suc (n mod ?q) * SECTOR_SIZE \<le> ?q * SECTOR_SIZE"
    by (intro mult_le_mono1) (simp add: Suc_le_eq)
  then show "n mod ?q * SECTOR_SIZE + SECTOR_SIZE \<le> 2 ^ k" by (simp add: block_pow [OF assms])
qed

lemma holds_block_serves:
  assumes k: "11 \<le> k" "k < 32" and h: "holds_block img k (n div 2 ^ (k - 11)) blk"
    and l: "l_offset l = word_of_int (int (n mod 2 ^ (k - 11) * SECTOR_SIZE))"
    and x: "i_csoBlockSize x = 2 ^ k"
  shows "block_serves img x n l blk"
proof -
  let ?q = "(2 :: nat) ^ (k - 11)"
  let ?b = "n div ?q" and ?j = "n mod ?q"
  note s = sector_in_block [OF k(1), of n]
  have lt: "(2 :: nat) ^ k < 2 ^ 32" using k(2) by (intro power_strict_increasing) simp_all
  have "?j * SECTOR_SIZE < 2 ^ LENGTH(32)" using s(3) lt by simp
  then have o: "unat (l_offset l) = ?j * SECTOR_SIZE"
    unfolding l using unat_of_nat_small [of "?j * SECTOR_SIZE", where 'a = 32] by simp
  have len: "length blk = ?q * SECTOR_SIZE" using h block_pow [OF k(1)] by (simp add: holds_block_def)
  have u: "unat (i_csoBlockSize x) = 2 ^ k" unfolding x by (rule unat_2p) (use k in simp)
  have e: "n - ?j + i = ?b * ?q + i" for i using s(1) by (metis diff_add_inverse2)
  show ?thesis
    unfolding block_serves_def
  proof (intro exI conjI)
    show "length blk \<le> unat (i_csoBlockSize x)" using h u by (simp add: holds_block_def)
    show "\<forall>i < ?q. (n - ?j + i) * SECTOR_SIZE < length img \<longrightarrow>
        file_read blk (i * SECTOR_SIZE) SECTOR_SIZE = img_sector img (n - ?j + i)"
      unfolding e using h by (simp add: holds_block_def)
  qed (use o len in \<open>simp_all\<close>)
qed

lemma written_located:
  assumes o: "opened fmt k sh x" "fmt \<noteq> CSO_FMT_DAX" "11 \<le> k" "k \<le> 18" "sh \<le> 32"
    and w: "written_block dx cap fmt k sh img f (i_index x) d cf (n div 2 ^ (k - 11))"
    and b: "Suc (n div 2 ^ (k - 11)) < 2 ^ 32"
  shows "located x n = skip_offset
    \<lparr>l_pos = d (n div 2 ^ (k - 11)), l_offset = word_of_int (int (n mod 2 ^ (k - 11) * SECTOR_SIZE)),
     l_len = word_of_int (d (Suc (n div 2 ^ (k - 11))) - d (n div 2 ^ (k - 11))),
     l_deflate = (cf (n div 2 ^ (k - 11)) = SECTOR_FMT_DEFLATE), l_lz4 = (cf (n div 2 ^ (k - 11)) = SECTOR_FMT_LZ4)\<rparr>"
proof -
  let ?q = "(2 :: nat) ^ (k - 11)"
  let ?b = "n div ?q" and ?off = "int (n mod ?q * SECTOR_SIZE)"
  let ?x = "x\<lparr>i_pos := int (n * SECTOR_SIZE)\<rparr>"
  note s = sector_in_block [OF o(3), of n]
  have p: "i_pos ?x = int ?b * 2 ^ k + ?off" using s(2) by (metis (no_types) inp.select_convs(4) inp.surjective inp.update_convs(4) of_nat_add of_nat_mult of_nat_numeral of_nat_power)
  have off: "0 \<le> ?off" "?off < 2 ^ k"
  proof -
    have "n mod ?q * SECTOR_SIZE < 2 ^ k" using s(3) by (simp add: SECTOR_SIZE_def)
    then have "?off < int (2 ^ k)" by (simp only: of_nat_less_iff)
    then show "?off < 2 ^ k" by (simp only: of_nat_numeral of_nat_power)
  qed simp
  have dk: "d (Suc ?b) - d ?b \<le> 2 ^ k" using w by (simp add: written_block_def)
  moreover have "(2 :: int) ^ k < 2 ^ 32" using o(4) by (intro power_strict_increasing) simp_all
  ultimately have d32: "d (Suc ?b) - d ?b < 2 ^ 32" by linarith
  have W: "i_index x ! ?b = index_entry fmt sh (d ?b) (cf ?b)"
    "i_index x ! Suc ?b AND 0x7FFFFFFF = index_value sh (d (Suc ?b))"
    "0 \<le> d ?b" "d ?b \<le> d (Suc ?b)" "d (Suc ?b) < 2 ^ (31 + sh)" "2 ^ sh dvd d ?b" "2 ^ sh dvd d (Suc ?b)"
    "format_allowed fmt (cf ?b)" "(cf ?b = SECTOR_FMT_ORIG) = (d (Suc ?b) - d ?b = 2 ^ k)"
    using w unfolding written_block_def by blast+
  have op: "opened fmt k sh ?x" using o(1) by (simp add: opened_def)
  have ix: "i_index ?x = i_index x" by simp
  have "(cf ?b = SECTOR_FMT_ORIG) = (2 ^ k \<le> d (Suc ?b) - d ?b)"
    unfolding W(9) using dk by (simp only: order_antisym_conv eq_commute [of _ "2 ^ k"])
  then show ?thesis
    unfolding located_def
    by (intro cso_locate_written [OF op o(2) _ o(5) p off b W(1) [folded ix] W(2) [folded ix] W(3,4,5,6,7) d32 W(8)]) (use o(4) in simp)
qed


lemma file_read_part:
  "off + n \<le> m \<Longrightarrow> file_read (file_read f p m) off n = file_read f (p + off) n"
  by (simp add: file_read_def drop_take add.commute)

lemma skip_compressed: "l_deflate l \<or> l_lz4 l \<Longrightarrow> skip_offset l = l"
  by (auto simp: skip_offset_def)

lemma skip_plain:
  assumes "\<not> l_deflate l" "\<not> l_lz4 l" "l_offset l \<le> l_len l"
  shows "l_pos (skip_offset l) = l_pos l + uint (l_offset l)"
    and "unat (l_len (skip_offset l)) = unat (l_len l) - unat (l_offset l)"
    and "\<not> l_deflate (skip_offset l)" "\<not> l_lz4 (skip_offset l)"
  using assms by (auto simp: skip_offset_def unat_sub)

lemma compressed_block_serves:
  assumes h: "11 \<le> k" "k < 32" "i_csoBlockSize x = 2 ^ k" "i_type x \<noteq> DAX"
    and st: "block_stored dx cap img k (n div 2 ^ (k - 11)) c bytes" "c \<noteq> SECTOR_FMT_ORIG"
    and l: "l_deflate l = (c = SECTOR_FMT_DEFLATE)" "l_lz4 l = (c = SECTOR_FMT_LZ4)"
      "l_offset l = word_of_int (int (n mod 2 ^ (k - 11) * SECTOR_SIZE))"
  shows "\<exists>blk. decoded dx x cap l bytes = Some blk \<and> block_serves img x n l blk"
proof -
  have u: "unat (i_csoBlockSize x) = 2 ^ k" unfolding h(3) by (rule unat_2p) (use h(2) in simp)
  note sv = holds_block_serves [OF h(1,2) _ l(3) h(3)]
  show ?thesis
  proof (cases c)
    case SECTOR_FMT_DEFLATE
    obtain e m blk where i: "d_inflate dx False bytes cap = (e, m, blk)" by (rule prod_cases3)
    then have "e" "holds_block img k (n div 2 ^ (k - 11)) blk" "fst (d_inflateInit dx False)"
      using st by (simp_all add: block_stored_def SECTOR_FMT_DEFLATE)
    then show ?thesis
      using sv i h(4) l by (intro exI [of _ blk]) (simp add: decoded_def SECTOR_FMT_DEFLATE)
  next
    case SECTOR_FMT_LZ4
    obtain r blk where i: "d_lz4 dx bytes (2 ^ k) = (r, blk)" by (rule prod.exhaust)
    then have "r = int (length blk)" "holds_block img k (n div 2 ^ (k - 11)) blk"
      using st by (simp_all add: block_stored_def SECTOR_FMT_LZ4)
    then show ?thesis
      using sv i l u by (intro exI [of _ blk]) (simp add: decoded_def SECTOR_FMT_LZ4)
  qed (use st(2) in simp)
qed

lemma written_sector_serves:
  assumes o: "opened fmt k sh x" "fmt \<noteq> CSO_FMT_DAX" "11 \<le> k" "k \<le> 18" "sh \<le> 32"
    and cache: "2 ^ k \<le> i_cacheSize x" and n: "n * SECTOR_SIZE < length img"
    and w: "written_block dx cap fmt k sh img f (i_index x) d cf (n div 2 ^ (k - 11))"
    and b: "Suc (n div 2 ^ (k - 11)) < 2 ^ 32"
  shows "sector_serves dx f img cap x n"
proof -
  let ?q = "(2 :: nat) ^ (k - 11)"
  define b where "b = n div ?q"
  define off where "off = n mod ?q * SECTOR_SIZE"
  define len where "len = nat (d (Suc b) - d b)"
  define l where "l = \<lparr>l_pos = d b, l_offset = word_of_int (int off), l_len = word_of_int (d (Suc b) - d b),
     l_deflate = (cf b = SECTOR_FMT_DEFLATE), l_lz4 = (cf b = SECTOR_FMT_LZ4)\<rparr>"
  have loc: "located x n = skip_offset l"
    using written_located [OF o w assms(9)] by (simp only: b_def off_def l_def)
  have W: "0 \<le> d b" "d b \<le> d (Suc b)" "d (Suc b) - d b \<le> 2 ^ k" "(cf b = SECTOR_FMT_ORIG) = (d (Suc b) - d b = 2 ^ k)"
    "nat (d (Suc b)) \<le> length f" "block_stored dx cap img k b (cf b) (file_read f (nat (d b)) len)"
    using w unfolding written_block_def b_def [symmetric] len_def by blast+
  note s = sector_in_block [OF o(3), of n, folded b_def off_def]
  have k32: "(2 :: nat) ^ k < 2 ^ 32" using o(4) by (intro power_strict_increasing) simp_all
  have len: "len \<le> 2 ^ k" "nat (d b) + len \<le> length f" using W by (simp_all add: len_def nat_le_eq_zle)
  have ul: "unat (l_len l) = len"
  proof -
    have "l_len l = of_nat len" using W(2) by (simp add: l_def len_def)
    then show ?thesis using len(1) k32 unat_of_nat_small [of len, where 'a = 32] by simp
  qed
  have uo: "unat (l_offset l) = off"
  proof -
    have "l_offset l = of_nat off" by (simp add: l_def)
    then show ?thesis using s(3) k32 unat_of_nat_small [of off, where 'a = 32] by simp
  qed
  show ?thesis
  proof (cases "cf b = SECTOR_FMT_ORIG")
    case False
    then have c: "l_deflate l \<or> l_lz4 l" by (cases "cf b") (simp_all add: l_def)
    have x: "i_csoBlockSize x = 2 ^ k" "i_type x \<noteq> DAX"
      using o(1,2) by (cases fmt; simp add: opened_def)+
    have "\<exists>blk. decoded dx x cap l (file_read f (nat (d b)) len) = Some blk \<and> block_serves img x n l blk"
      by (rule compressed_block_serves [where n = n and k = k, folded b_def off_def, OF o(3) _ x W(6) False])
        (use o(4) in \<open>simp_all add: l_def\<close>)
    then show ?thesis
      using c len cache W(1) by (simp add: sector_serves_def loc skip_compressed [OF c] ul Let_def) (simp add: l_def)
  next
    case True
    have l1: "\<not> l_deflate l" "\<not> l_lz4 l" using True by (simp_all add: l_def)
    have "int len = 2 ^ k" using True W(4) by (simp add: len_def)
    then have l2: "len = 2 ^ k" by (metis of_nat_eq_iff of_nat_numeral of_nat_power)
    have le: "off \<le> len" using s(3) by (simp add: l2)
    then have "l_offset l \<le> l_len l" by (simp add: word_le_nat_alt ul uo)
    note p = skip_plain [OF l1 this]
    have "uint (l_offset l) = int off" by (simp only: uint_nat uo)
    moreover have "l_pos l = d b" by (simp only: l_def sector_loc.simps)
    ultimately have pos: "l_pos (skip_offset l) = d b + int off" by (simp only: p(1))
    have nat_pos: "nat (d b + int off) = nat (d b) + off" using W(1) by (simp add: nat_add_distrib)
    have "img_sector img n = file_read (file_read f (nat (d b)) len) off SECTOR_SIZE"
    proof -
      have "holds_block img k b (file_read f (nat (d b)) len)" using W(6) True by (simp add: block_stored_def)
      moreover have "n mod ?q < ?q" by simp
      moreover have "b * ?q + n mod ?q = n" by (simp only: b_def div_mult_mod_eq)
      ultimately show ?thesis unfolding holds_block_def off_def using n by metis
    qed
    also have "\<dots> = file_read f (nat (d b) + off) SECTOR_SIZE"
      by (rule file_read_part) (use s(3) l2 in simp)
    finally have sec: "img_sector img n = file_read f (nat (d b) + off) SECTOR_SIZE" .
    have "SECTOR_SIZE \<le> len - off" "len - off \<le> i_cacheSize x" "nat (d b) + off + (len - off) \<le> length f"
      using s(3) cache len le unfolding l2 by linarith+
    then show ?thesis
      using W(1) sec
      by (simp add: sector_serves_def loc Let_def pos nat_pos p(2,3,4) ul uo)
  qed
qed


lemma written_serves:
  assumes o: "opened fmt k sh x" "fmt \<noteq> CSO_FMT_DAX" "11 \<le> k" "k \<le> 18" "sh \<le> 32"
    and x: "i_size x = int (length img)" "2 ^ k \<le> cap" "2 ^ k \<le> i_cacheSize x"
    and img: "SECTOR_SIZE dvd length img" "length img \<le> m * 2 ^ k" "m < 2 ^ 32"
    and w: "written_file dx cap fmt k sh img f (i_index x)"
  shows "serves dx f img cap x"
proof -
  obtain d cf where d0: "d 0 < int (length img)"
    and wb: "\<And>b. b * 2 ^ k < length img \<Longrightarrow> written_block dx cap fmt k sh img f (i_index x) d cf b"
    using w by (auto simp: written_file_def)
  have blk: "n div 2 ^ (k - 11) * 2 ^ k < length img" "Suc (n div 2 ^ (k - 11)) < 2 ^ 32"
    if "n * SECTOR_SIZE < length img" for n
  proof -
    show "n div 2 ^ (k - 11) * 2 ^ k < length img" using sector_in_block(2) [OF o(3), of n] that by linarith
    then have "n div 2 ^ (k - 11) * 2 ^ k < m * 2 ^ k" using img(2) by (rule less_le_trans)
    then have "n div 2 ^ (k - 11) < m" by simp
    then show "Suc (n div 2 ^ (k - 11)) < 2 ^ 32" using img(3) by linarith
  qed
  have first: "l_pos (located x 0) < i_size x" if "img \<noteq> []"
  proof -
    have "0 * SECTOR_SIZE < length img" using that by simp
    note B = blk [OF this]
    show ?thesis
      unfolding written_located [OF o wb [OF B(1)] B(2)]
      using d0 x(1) by (simp add: skip_offset_def)
  qed
  have u: "unat (i_csoBlockSize x) = 2 ^ k"
  proof -
    have "i_csoBlockSize x = 2 ^ k" using o(1) by (simp add: opened_def)
    then show ?thesis using o(4) by (simp add: unat_2p)
  qed
  show ?thesis
    unfolding serves_def
  proof (intro conjI allI impI)
    show "i_type x \<noteq> UNKNOWN" using o(1) by (cases fmt) (simp_all add: opened_def)
    fix n assume n: "n * SECTOR_SIZE < length img"
    show "sector_serves dx f img cap x n"
      by (rule written_sector_serves [OF o x(3) n wb [OF blk(1) [OF n]] blk(2) [OF n]])
  qed (use x img first u in simp_all)
qed

text \<open>An ISO file serves itself.\<close>

lemma iso_serves:
  assumes "i_type x = ISO" "i_size x = int (length f)" "SECTOR_SIZE dvd length f"
    and "SECTOR_SIZE \<le> i_cacheSize x"
  shows "serves dx f f cap x"
proof -
  have l: "located x n = \<lparr>l_pos = int (n * SECTOR_SIZE), l_offset = 0, l_len = of_nat SECTOR_SIZE,
      l_deflate = False, l_lz4 = False\<rparr>" for n
    using assms(1) by (simp add: located_def locate_def plain_loc_def)
  have u: "unat (of_nat SECTOR_SIZE :: u32) = SECTOR_SIZE" by (simp add: SECTOR_SIZE_def)
  have "n * SECTOR_SIZE + SECTOR_SIZE \<le> length f" if "n * SECTOR_SIZE < length f" for n
    using whole_sector [OF assms(3) that] by simp
  then show ?thesis
    using assms by (auto simp: serves_def sector_serves_def l u Let_def img_sector_def simp del: of_nat_mult)
qed

subsection \<open>The checksum task\<close>

lemma ck_drive:
  assumes r: "ck_ready dx f img st" and img: "img \<noteq> []"
    and k: "3 * (length img div SECTOR_SIZE) + 2 \<le> k"
  shows "\<exists>P t x. drive k f dx checksum_client (begin_reading checksum_client st) = (P, t, x) \<and> wild P = {}
    \<and> last (ck_events t) = EvError TASK_SUCCESS (Some (''CRC32: '' @ hex8 (crc32_spec 0 img)))"
proof -
  let ?st = "begin_reading checksum_client st" and ?x = "snd (snd st)"
  have fin: "ck.finished img dx f ?x (drive k f dx checksum_client ?st)"
    using begin_reading_ck [OF r]
  proof
    assume "ck.finished img dx f ?x ?st"
    then show ?thesis by (simp add: ck.drive_finished)
  next
    assume "\<exists>n. ck.waits img dx f ?x n ?st"
    then obtain n where n: "ck.waits img dx f ?x n ?st" by blast
    have "stage ?st \<le> 2" by (simp add: stage_def split: prod.split ireq.split)
    then have "3 * (length img div SECTOR_SIZE - n) + stage ?st \<le> k" using k by linarith
    then show ?thesis by (rule ck.drive_finishes [OF n])
  qed
  obtain P t x where e: "drive k f dx checksum_client ?st = (P, t, x)" by (rule prod_cases3)
  show ?thesis
    using ck_finished_events [OF fin [unfolded e] img] e by blast
qed

lemma ceiling_blocks: "S \<le> (S + 2 ^ k - 1) div 2 ^ k * (2 ^ k :: int)"
proof -
  have "(S + 2 ^ k - 1) mod 2 ^ k \<le> (2 ^ k :: int) - 1"
    using pos_mod_bound [of "2 ^ k :: int" "S + 2 ^ k - 1"] by simp
  moreover have "S + 2 ^ k - 1 = (S + 2 ^ k - 1) div 2 ^ k * 2 ^ k + (S + 2 ^ k - 1) mod 2 ^ k"
    by (rule div_mult_mod_eq [symmetric])
  ultimately show ?thesis by linarith
qed

lemma cache_size_ge: "n \<le> cache_size n"
proof (induction n rule: cache_size.induct)
  case (1 n)
  then show ?case by (subst cache_size.simps) auto
qed

text \<open>The task's steps up to the first read: the file is opened, the header and the index arrive.\<close>

definition ck_open_cso :: "(nat \<Rightarrow> u8 list) \<Rightarrow> nat \<Rightarrow> u8 list \<Rightarrow> cktask ist \<Rightarrow> int \<Rightarrow> cktask ist" where
  "ck_open_cso g n f st fd =
     (let st1 = header_done g checksum_client (ck_open_done st fd) 24 (file_read f 0 24)
      in cso_index_done checksum_client st1 (int (4 * Suc n)) (file_read f 24 (4 * Suc n)))"

definition ck_open_iso :: "(nat \<Rightarrow> u8 list) \<Rightarrow> u8 list \<Rightarrow> cktask ist \<Rightarrow> int \<Rightarrow> cktask ist" where
  "ck_open_iso g f st fd =
     (let st1 = header_done g checksum_client (ck_open_done st fd) 24 (file_read f 0 24)
      in stat_done g checksum_client st1 0 (int (length f)))"

lemma ck_opened:
  assumes "pool_inv P" "wild P = {}" "0 \<le> fd"
  obtains hb P1 where "ck_open_done (P, t, x) fd
      = (P1, t\<lparr>ck_input := fd, ck_pos := 0\<rparr>, x\<lparr>i_pos := 0, i_req := ReqHeader hb\<rparr>)"
    "pool_inv P1" "wild P1 = {hb}"
proof -
  obtain P1 hb where a: "Alloc P = (P1, hb)" by (rule prod.exhaust)
  show thesis
    by (rule that [of P1 hb])
      (use assms alloc_inv [OF assms(1)] alloc_wild [OF assms(1)] a in
        \<open>simp_all add: ck_open_done_def ck_BeginProcessing_def Pipe_def DetectFormat_def\<close>)
qed

lemma ck_open_cso_reads:
  assumes wr: "cso_writer fmt k sh S n o'" and f: "take (length (cso_prefix o')) f = cso_prefix o'"
    and w: "\<forall>cap \<ge> 2 ^ Suc k. written_file dx cap fmt k sh img f (o_index o')" and img: "S = int (length img)"
    and g: "\<And>n. length (g n) = n" and P: "pool_inv P" "wild P = {}" and fd: "0 \<le> fd"
    and t: "ck_pending t = []" and x: "\<not> i_resumeShouldRead x"
  shows "\<exists>st. ck_open_cso g n f (P, t, x) fd = begin_reading checksum_client st \<and> ck_ready dx f img st"
proof -
  obtain hb P1 where op: "ck_open_done (P, t, x) fd
      = (P1, t\<lparr>ck_input := fd, ck_pos := 0\<rparr>, x\<lparr>i_pos := 0, i_req := ReqHeader hb\<rparr>)"
    and P1: "pool_inv P1" "wild P1 = {hb}"
    by (rule ck_opened [OF P fd])
  let ?t = "t\<lparr>ck_input := fd, ck_pos := 0\<rparr>" and ?x = "x\<lparr>i_pos := 0, i_req := ReqHeader hb\<rparr>"
  have len: "length (cso_prefix o') = 24 + 4 * Suc n"
    using length_cso_header_bytes [OF cso_header_wf_written, of o'] wr
    by (simp add: cso_prefix_def cso_writer_def sizeof_CSOHeader_def length_concat o_def sum_list_triv)
  have fr: "file_read f 0 24 = take 24 (cso_prefix o')" "file_read f 24 (4 * Suc n) = drop 24 (cso_prefix o')"
    proof -
    obtain r where r: "f = cso_prefix o' @ r" using f by (metis append_take_drop_id)
    show "file_read f 0 24 = take 24 (cso_prefix o')" "file_read f 24 (4 * Suc n) = drop 24 (cso_prefix o')"
      unfolding r file_read_def using len by simp_all
  qed
  have hb: "i_req ?x = ReqHeader hb" by simp
  from wr have C: "fmt \<noteq> CSO_FMT_DAX" "11 \<le> k" "k \<le> 18" "sh \<le> 32" "S < 2 ^ 48" "2048 dvd S"
    "int n = (S + 2 ^ k - 1) div 2 ^ k" "n < 2 ^ 30 - 1" by (simp_all add: cso_writer_def)
  obtain P' x' where h: "header_done g checksum_client (P1, ?t, ?x) 24 (take 24 (cso_prefix o')) = (P', ?t, x')"
    and ix: "cso_index_done checksum_client (P', ?t, x') (int (4 * Suc n)) (drop 24 (cso_prefix o'))
       = begin_reading checksum_client (P', ?t, x'\<lparr>i_req := NoReq, i_index := o_index o'\<rparr>)"
    and x': "opened fmt k sh x'" "i_size x' = S" "i_pos x' = i_pos ?x"
    and P': "pool_inv P'" "wild P' = {}" "2 ^ Suc k \<le> unat (bufferSize P')"
    and c: "i_cachePos x' = S" "i_cacheSize x' = cache_size (2 ^ k)" "length (i_cache x') = cache_size (2 ^ k)"
      "i_resumeShouldRead x' = i_resumeShouldRead ?x"
    by (rule cso_open_written [where cl = checksum_client, OF wr g P1(1) P1(2) hb])
  let ?y = "x'\<lparr>i_req := NoReq, i_index := o_index o'\<rparr>"
  have "serves dx f img (unat (bufferSize P')) ?y"
  proof (rule written_serves)
    show "opened fmt k sh ?y" using x'(1) by (simp add: opened_def)
    show "written_file dx (unat (bufferSize P')) fmt k sh img f (i_index ?y)" using w P'(3) by simp
    show "2 ^ k \<le> i_cacheSize ?y" using c(2) cache_size_ge [of "2 ^ k"] by simp
    show "SECTOR_SIZE dvd length img"
      using C(6) img by (simp add: SECTOR_SIZE_def) presburger
    have "S \<le> int n * 2 ^ k"
      using ceiling_blocks [of S k] C(7) by simp
    then have "int (length img) \<le> int (n * 2 ^ k)" by (simp add: img)
    then show "length img \<le> n * 2 ^ k" by (simp only: of_nat_le_iff)
  qed (use C x' P' img in auto)
  then have "ck_ready dx f img (P', ?t, ?y)"
    using P' x' c t x by (simp add: ck_ready_def unfilled_def)
  then show ?thesis
    using ix by (intro exI [of _ "(P', ?t, ?y)"]) (simp only: ck_open_cso_def Let_def op fr h)
qed


lemma ck_open_iso_reads:
  assumes m: "take 4 f \<noteq> ZSO_MAGIC" "take 4 f \<noteq> CSO_MAGIC" "take 4 f \<noteq> DAX_MAGIC"
    and f: "SECTOR_SIZE dvd length f" "f \<noteq> []"
    and g: "\<And>n. length (g n) = n" and P: "pool_inv P" "wild P = {}" and fd: "0 \<le> fd"
    and t: "ck_pending t = []" and x: "\<not> i_resumeShouldRead x"
  shows "\<exists>st. ck_open_iso g f (P, t, x) fd = begin_reading checksum_client st \<and> ck_ready dx f f st"
proof -
  obtain hb P1 where op: "ck_open_done (P, t, x) fd
      = (P1, t\<lparr>ck_input := fd, ck_pos := 0\<rparr>, x\<lparr>i_pos := 0, i_req := ReqHeader hb\<rparr>)"
    and P1: "pool_inv P1" "wild P1 = {hb}"
    by (rule ck_opened [OF P fd])
  let ?t = "t\<lparr>ck_input := fd, ck_pos := 0\<rparr>" and ?x = "x\<lparr>i_pos := 0, i_req := ReqHeader hb\<rparr>"
  let ?hb = "file_read f 0 24" and ?P = "pool_Release (put P1 hb 0 (file_read f 0 24)) hb"
  have "SECTOR_SIZE \<le> length f" using f by (simp add: dvd_imp_le)
  then have len: "length ?hb = 24" by (simp add: file_read_def SECTOR_SIZE_def)
  have r: "mread (mwrite (mem P1) hb 0 ?hb) hb 0 24 = ?hb"
    using mread_same [of "mem P1" hb 0 ?hb] by (simp only: len)
  have mg: "take 4 ?hb = take 4 f" by (simp add: file_read_def)
  have h: "header_done g checksum_client (P1, ?t, ?x) 24 ?hb
      = (?P, ?t, ?x\<lparr>i_type := ISO, i_req := ReqStat\<rparr>)"
    using m by (simp add: header_done_def Let_def r mg release_header_def)
  let ?y = "SetupCache g (?x\<lparr>i_type := ISO, i_req := NoReq, i_size := int (length f)\<rparr>) (of_nat SECTOR_SIZE)"
  have c: "SECTOR_SIZE \<le> cache_size (unat (of_nat SECTOR_SIZE :: u32))"
    using cache_size_ge [of SECTOR_SIZE] by (simp add: SECTOR_SIZE_def)
  have "ck_ready dx f f (?P, ?t, ?y)"
    using iso_serves [of ?y f] f c P1 t x g
    by (simp add: ck_ready_def SetupCache_def Let_def unfilled_def release_inv release_wild)
  moreover have "int (length f) mod int SECTOR_SIZE = 0"
    using f(1) by (simp only: of_nat_mod [symmetric]) (simp add: mod_eq_0_iff_dvd)
  ultimately show ?thesis
    by (intro exI [of _ "(?P, ?t, ?y)"]) (simp add: ck_open_iso_def op h stat_done_def)
qed

subsection \<open>Properties\<close>

text \<open>C7: The checksum of a file \<open>Output\<close> laid out is the checksum of the image.  For a CSO v1, v2 or
  ZSO file that starts with the header and index of the writer and whose blocks decode to the
  blocks of the image, the checksum task opens the file, reads all of it and ends with the success
  message that carries the CRC-32 of the image, within three completions per sector; every
  buffer is back in the pool.\<close>

theorem checksum_of_written_file:
  assumes "cso_writer fmt k sh S n o'" and "take (length (cso_prefix o')) f = cso_prefix o'"
    and "\<forall>cap \<ge> 2 ^ Suc k. written_file dx cap fmt k sh img f (o_index o')"
    and "S = int (length img)" and "img \<noteq> []" and "\<forall>n. length (g n) = n"
    and "pool_inv P" "wild P = {}" "0 \<le> fd" "ck_pending t = []" "\<not> i_resumeShouldRead x"
    and "3 * (length img div SECTOR_SIZE) + 2 \<le> N"
  shows "\<exists>P' t' x'. drive N f dx checksum_client (ck_open_cso g n f (P, t, x) fd) = (P', t', x') \<and> wild P' = {}
    \<and> last (ck_events t') = EvError TASK_SUCCESS (Some (''CRC32: '' @ hex8 (crc32_spec 0 img)))"
proof -
  have g: "\<And>n. length (g n) = n" using assms(6) by blast
  obtain st where "ck_open_cso g n f (P, t, x) fd = begin_reading checksum_client st" "ck_ready dx f img st"
    using ck_open_cso_reads [OF assms(1-4) g assms(7-11)] by blast
  with ck_drive [OF this(2) assms(5,12)] show ?thesis by simp
qed

text \<open>C21: The checksum of an ISO file (no known magic, a whole number of sectors) is the CRC-32 of
  its bytes: the task opens the file, reads all of it and ends with the success message.\<close>

theorem checksum_of_iso_file:
  assumes "take 4 f \<noteq> ZSO_MAGIC" "take 4 f \<noteq> CSO_MAGIC" "take 4 f \<noteq> DAX_MAGIC"
    and "SECTOR_SIZE dvd length f" "f \<noteq> []" "\<forall>n. length (g n) = n"
    and "pool_inv P" "wild P = {}" "0 \<le> fd" "ck_pending t = []" "\<not> i_resumeShouldRead x"
    and "3 * (length f div SECTOR_SIZE) + 2 \<le> N"
  shows "\<exists>P' t' x'. drive N f dx checksum_client (ck_open_iso g f (P, t, x) fd) = (P', t', x') \<and> wild P' = {}
    \<and> last (ck_events t') = EvError TASK_SUCCESS (Some (''CRC32: '' @ hex8 (crc32_spec 0 f)))"
proof -
  have g: "\<And>n. length (g n) = n" using assms(6) by blast
  obtain st where "ck_open_iso g f (P, t, x) fd = begin_reading checksum_client st" "ck_ready dx f f st"
    using ck_open_iso_reads [OF assms(1-5) g assms(7-11)] by blast
  with ck_drive [OF this(2) assms(5,12)] show ?thesis by simp
qed

text \<open>A task, a reader and a file of one sector; \<open>no_decoders\<close> decode nothing.\<close>

definition sample_task :: cktask where
  "sample_task = \<lparr>ck_input = -1, ck_pos = 0, ck_size = 0, ck_crc = 0, ck_pending = [], ck_events = []\<rparr>"

definition sample_input :: inp where
  "sample_input = Input_new \<lparr>i_type = UNKNOWN, i_paused = False, i_resumeShouldRead = False, i_pos = 0, i_size = 0,
     i_cache = [], i_cachePos = 0, i_cacheSize = 0, i_csoIndexShift = 0, i_csoBlockShift = 0, i_csoBlockSize = 0,
     i_index = [], i_daxSize = [], i_daxIsNC = [], i_req = NoReq\<rparr>"

definition no_decoders :: decoders where
  "no_decoders = \<lparr>d_inflateInit = (\<lambda>_. (True, None)), d_inflate = (\<lambda>_ _ _. (False, None, [])), d_lz4 = (\<lambda>_ _. (-1, []))\<rparr>"

definition sample_image :: "u8 list" where
  "sample_image = replicate 2048 7"

lemma sample_magic: "take 4 sample_image = [7, 7, 7, 7]"
  by (simp add: sample_image_def numeral_eq_Suc)

lemma checksum_of_iso_file_witness:
  "\<exists>P' t' x'. drive 5 sample_image no_decoders checksum_client
       (ck_open_iso (\<lambda>n. replicate n 0) sample_image (BufferPool_init (\<lambda>_ _. 0), sample_task, sample_input) 3) = (P', t', x')
     \<and> last (ck_events t') = EvError TASK_SUCCESS (Some (''CRC32: '' @ hex8 (crc32_spec 0 sample_image)))"
proof -
  have "\<exists>P' t' x'. drive 5 sample_image no_decoders checksum_client
       (ck_open_iso (\<lambda>n. replicate n 0) sample_image (BufferPool_init (\<lambda>_ _. 0), sample_task, sample_input) 3) = (P', t', x')
     \<and> wild P' = {}
     \<and> last (ck_events t') = EvError TASK_SUCCESS (Some (''CRC32: '' @ hex8 (crc32_spec 0 sample_image)))"
    by (rule checksum_of_iso_file)
      (simp_all add: sample_magic ZSO_MAGIC_def CSO_MAGIC_def DAX_MAGIC_def pool_inv_init wild_init sample_task_def
        sample_input_def Input_new_def, simp_all add: sample_image_def SECTOR_SIZE_def)
  then show ?thesis by blast
qed

text \<open>
  A CSO v1 file of two blocks of 2048 bytes: the first is stored as it is, the second deflated
  to three bytes, for a decoder that knows only that block.
\<close>

definition sample_decoders :: decoders where
  "sample_decoders = \<lparr>d_inflateInit = (\<lambda>_. (True, None)), d_inflate = (\<lambda>_ _ _. (True, None, replicate 2048 9)),
     d_lz4 = (\<lambda>_ _. (-1, []))\<rparr>"

definition sample_out :: out where
  "sample_out = SetFile \<lparr>o_flags = 0, o_state = 0, o_fmt = CSO_FMT_CSO1, o_origMaxCostPercent = (\<lambda>_. 0),
     o_lz4MaxCostPercent = (\<lambda>_. 0), o_file = False, o_srcSize = -1, o_srcPos = 0, o_dstPos = 0, o_index = [],
     o_indexShift = 0, o_indexAlign = 0, o_blockSize = 0, o_blockShift = 0, o_freeSectors = [0..<QUEUE_SIZE],
     o_pending = [], o_partial = Map.empty, o_sec = (\<lambda>_. sample_sector), o_reqs = [], o_disk = [], o_todo = [],
     o_calls = []\<rparr> True 4096 (2 ^ 11) CSO_FMT_CSO1\<lparr>o_index := [0x80000024, 2084, 2087]\<rparr>"

definition sample_blocks :: "u8 list" where
  "sample_blocks = replicate 2048 7 @ replicate 2048 9"

definition sample_file :: "u8 list" where
  "sample_file = cso_prefix sample_out @ replicate 2048 7 @ [1, 2, 3]"

lemma sample_writer: "cso_writer CSO_FMT_CSO1 11 0 4096 2 sample_out"
proof -
  have "find_shift 4132 i = 0" for i
    using find_shift_least [of 4132 i] power_increasing [of 30 "30 + find_shift 4132 i" "2 :: int"] by fastforce
  then show ?thesis
    by (simp add: sample_out_def cso_writer_def SetFile_def Let_def set_state_def DstFirstSectorPos_def
        has_flag_def flag_defs sizeof_CSOHeader_def drop_bit_eq_div shift_of_pow2 [of 11, simplified])
qed

lemma sample_written: "written_file sample_decoders cap CSO_FMT_CSO1 11 0 sample_blocks sample_file (o_index sample_out)"
proof -
  let ?d = "\<lambda>b. if b = 0 then 36 else if b = 1 then 2084 else 2087 :: int"
  let ?cf = "\<lambda>b :: nat. if b = 0 then SECTOR_FMT_ORIG else SECTOR_FMT_DEFLATE"
  have len: "length (cso_prefix sample_out) = 36"
    using length_cso_header_bytes [OF cso_header_wf_written, of sample_out]
    by (simp add: cso_prefix_def sizeof_CSOHeader_def sample_out_def)
  have ix: "o_index sample_out = [0x80000024, 2084, 2087]" by (simp add: sample_out_def)
  have b: "b = 0 \<or> b = 1" if "b * 2 ^ 11 < length sample_blocks" for b
    using that by (auto simp: sample_blocks_def)
  have w0: "written_block sample_decoders cap CSO_FMT_CSO1 11 0 sample_blocks sample_file (o_index sample_out) ?d ?cf 0"
    by (simp add: written_block_def ix index_entry_def index_value_def block_stored_def holds_block_def
        sample_file_def sample_blocks_def len file_read_def img_sector_def SECTOR_SIZE_def)
  have w1: "written_block sample_decoders cap CSO_FMT_CSO1 11 0 sample_blocks sample_file (o_index sample_out) ?d ?cf 1"
    by (simp add: written_block_def ix index_entry_def index_value_def block_stored_def holds_block_def
        sample_file_def sample_blocks_def len file_read_def img_sector_def SECTOR_SIZE_def sample_decoders_def)
  have "written_block sample_decoders cap CSO_FMT_CSO1 11 0 sample_blocks sample_file (o_index sample_out) ?d ?cf b"
    if "b * 2 ^ 11 < length sample_blocks" for b
    using b [OF that]
  proof
    show "written_block sample_decoders cap CSO_FMT_CSO1 11 0 sample_blocks sample_file (o_index sample_out) ?d ?cf b"
      if "b = 0" unfolding that by (rule w0)
    show "written_block sample_decoders cap CSO_FMT_CSO1 11 0 sample_blocks sample_file (o_index sample_out) ?d ?cf b"
      if "b = 1" unfolding that by (rule w1)
  qed
  then show ?thesis
    unfolding written_file_def by (intro exI [of _ ?d] exI [of _ ?cf]) (simp add: sample_blocks_def)
qed

lemma checksum_of_written_file_witness:
  "\<exists>P' t' x'. drive 8 sample_file sample_decoders checksum_client
       (ck_open_cso (\<lambda>n. replicate n 0) 2 sample_file (BufferPool_init (\<lambda>_ _. 0), sample_task, sample_input) 3) = (P', t', x')
     \<and> last (ck_events t') = EvError TASK_SUCCESS (Some (''CRC32: '' @ hex8 (crc32_spec 0 sample_blocks)))"
proof -
  have "\<exists>P' t' x'. drive 8 sample_file sample_decoders checksum_client
       (ck_open_cso (\<lambda>n. replicate n 0) 2 sample_file (BufferPool_init (\<lambda>_ _. 0), sample_task, sample_input) 3) = (P', t', x')
     \<and> wild P' = {}
     \<and> last (ck_events t') = EvError TASK_SUCCESS (Some (''CRC32: '' @ hex8 (crc32_spec 0 sample_blocks)))"
  proof (rule checksum_of_written_file [OF sample_writer])
    show "\<forall>cap \<ge> 2 ^ Suc 11. written_file sample_decoders cap CSO_FMT_CSO1 11 0 sample_blocks sample_file (o_index sample_out)"
      using sample_written by blast
  qed (simp_all add: sample_file_def sample_blocks_def pool_inv_init wild_init sample_task_def
        sample_input_def Input_new_def SECTOR_SIZE_def)
  then show ?thesis by blast
qed

lemma written_header_opens_witness:
  "\<exists>P' x'. header_done (\<lambda>n. replicate n 0) checksum_client (sample_pool, sample_task, sample_input\<lparr>i_req := ReqHeader 0\<rparr>)
       24 (take 24 (cso_prefix sample_out)) = (P', sample_task, x')
     \<and> i_req x' = ReqCsoIndex 12 \<and> opened CSO_FMT_CSO1 11 0 x' \<and> i_size x' = 4096"
proof -
  have P: "pool_inv sample_pool" "wild sample_pool = {0}"
    using alloc_inv [OF pool_inv_init] alloc_wild [OF pool_inv_init]
    by (simp_all add: sample_pool_def wild_init) (simp add: Alloc_def BufferPool_init_def c_malloc_def)
  have g: "\<forall>n. length (replicate n (0 :: u8)) = n" by simp
  have x: "i_req (sample_input\<lparr>i_req := ReqHeader 0\<rparr>) = ReqHeader 0" by simp
  from written_header_opens [OF sample_writer g P x, of checksum_client sample_task] show ?thesis by auto
qed

end
