(* ===== verification/CompressionTask.thy ===== *)
theory CompressionTask
  imports OutputProps InputDetect
begin

section \<open>The compression task (src/compress.cpp)\<close>

text \<open>
  \<open>CompressionTask\<close> connects an \<open>Input\<close> with an \<open>Output\<close>: it validates the options, opens the
  files, passes every sector on, pauses the reader while the writer's queue is full and resumes
  it on progress.  The \<open>Output\<close> is part of the client state \<open>ct\<close> of the reader.

  The writer's calls of its callbacks are recorded in \<open>o_calls\<close>; \<open>ct_callbacks\<close> carries them
  out, in order, as soon as the operation that made them has handed over: inside a sector
  callback of the reader \<open>Resume\<close> only clears the flag (no read is waiting then), so the effect on
  the reader is a function of \<open>paused_\<close>.  Outside, \<open>ct_callback\<close> carries out one call on the
  whole state.
\<close>

subsection \<open>State\<close>

record ct =
  ct_task_block_size :: u32
  ct_flags :: u32
  ct_input :: int
  ct_output :: int
  ct_blockSize :: u32
  ct_size :: int
  ct_out :: out
  ct_events :: "task_event list"

definition SMALL_BLOCK_SIZE :: u32 where "SMALL_BLOCK_SIZE = 2048"
definition LARGE_BLOCK_SIZE :: u32 where "LARGE_BLOCK_SIZE = 16384"
definition LARGE_BLOCK_SIZE_THRESH :: int where "LARGE_BLOCK_SIZE_THRESH = 0x80000000"
definition MAX_TASK_BLOCK_SIZE :: u32 where "MAX_TASK_BLOCK_SIZE = 0x40000"

definition ct_notify :: "ct \<Rightarrow> task_event \<Rightarrow> ct" where
  "ct_notify t e = t\<lparr>ct_events := ct_events t @ [e]\<rparr>"

definition CompressionTask_new :: "codecs \<Rightarrow> out \<Rightarrow> Task \<Rightarrow> ct" where
  "CompressionTask_new cx o0 task =
     \<lparr>ct_task_block_size = task_block_size task, ct_flags = task_flags task, ct_input = -1,
      ct_output = -1, ct_blockSize = 0, ct_size = 0, ct_out = Output_new cx o0 task, ct_events = []\<rparr>"

subsection \<open>Enqueue\<close>

text \<open>The choice of the block size: an error, or the size.\<close>

definition choose_block_size :: "u32 \<Rightarrow> u32 \<Rightarrow> string + u32" where
  "choose_block_size block_size flags =
     (if block_size = DEFAULT_BLOCK_SIZE then
        Inr (if has_flag flags TASKFLAG_FMT_DAX then of_nat DAX_FRAME_SIZE else SMALL_BLOCK_SIZE)
      else if block_size > MAX_TASK_BLOCK_SIZE then Inl ''Block size too large''
      else if block_size < of_nat SECTOR_SIZE then Inl ''Block size too small, must be at least 2048''
      else if block_size AND (block_size - 1) \<noteq> 0 then Inl ''Block size must be a power of two''
      else Inr block_size)"

text \<open>The flag says whether the input's \<open>fs_open\<close> was submitted.\<close>

definition ct_Enqueue :: "pool \<Rightarrow> ct \<Rightarrow> pool \<times> ct \<times> bool" where
  "ct_Enqueue P t =
     (case choose_block_size (ct_task_block_size t) (ct_flags t) of
        Inl e \<Rightarrow> (P, ct_notify t (Notify_reason TASK_INVALID_OPTION e), False)
      | Inr bs \<Rightarrow>
          let t1 = t\<lparr>ct_blockSize := bs\<rparr>;
              (P1, ok) = SetBufferSize P (bs * 2)
          in if \<not> ok then
               (P1, ct_notify t1 (Notify_reason TASK_INVALID_OPTION ''Unable to update buffer size to match block size''), False)
             else (P1, t1, True))"

definition ct_BeginProcessing :: "ct ist \<Rightarrow> ct ist" where
  "ct_BeginProcessing st = Pipe st"

text \<open>The flag says whether the output's \<open>fs_open\<close> was submitted.\<close>

definition ct_input_open_done :: "ct ist \<Rightarrow> int \<Rightarrow> ct ist \<times> bool" where
  "ct_input_open_done st result =
     (case st of (P, t, x) \<Rightarrow>
        if result < 0 then
          ((P, ct_notify t (Notify_reason TASK_BAD_INPUT ''Could not open input file''), x), False)
        else
          let t1 = t\<lparr>ct_input := result\<rparr>
          in if has_flag (ct_flags t1) TASKFLAG_MEASURE then (ct_BeginProcessing (P, t1, x), False)
             else ((P, t1, x), True))"

definition ct_output_open_done :: "ct ist \<Rightarrow> int \<Rightarrow> ct ist" where
  "ct_output_open_done st result =
     (case st of (P, t, x) \<Rightarrow>
        if result < 0 then
          (P, ct_notify t (Notify_reason TASK_BAD_OUTPUT ''Could not open output file''), x)
        else ct_BeginProcessing (P, t\<lparr>ct_output := result\<rparr>, x))"

definition ct_Cleanup :: "ct \<Rightarrow> ct" where
  "ct_Cleanup t = t\<lparr>ct_input := (if ct_input t \<ge> 0 then -1 else ct_input t),
     ct_output := (if ct_output t \<ge> 0 then -1 else ct_output t)\<rparr>"

subsection \<open>The writer's callbacks\<close>

text \<open>What a call does besides resuming the reader, and whether it pauses it.\<close>

fun ct_report :: "ct \<Rightarrow> out_call \<Rightarrow> ct" where
  "ct_report t (CFinish True reason) =
     ct_notify t (Notify TASK_SUCCESS (ct_size t) (ct_size t) (o_dstPos (ct_out t)))"
| "ct_report t (CFinish False reason) = ct_notify t (Notify_reason TASK_CANNOT_WRITE reason)"
| "ct_report t (CProgress pos total_size written) = ct_notify t (Notify TASK_INPROGRESS pos total_size written)"
| "ct_report t CException = t"

fun ct_pauses :: "out_call \<Rightarrow> bool \<Rightarrow> bool" where
  "ct_pauses (CFinish ok reason) p = (\<not> ok \<or> p)"
| "ct_pauses (CProgress pos total_size written) p = False"
| "ct_pauses CException p = p"

definition pop_call :: "ct \<Rightarrow> ct" where
  "pop_call t = t\<lparr>ct_out := (ct_out t)\<lparr>o_calls := tl (o_calls (ct_out t))\<rparr>\<rparr>"

text \<open>After \<open>progress_\<close> returns, its caller continues.\<close>

definition ct_continue :: "(nat \<Rightarrow> u16) \<Rightarrow> pool \<Rightarrow> ct \<Rightarrow> out_call \<Rightarrow> pool \<times> ct" where
  "ct_continue junk P t c =
     (case c of
        CProgress _ _ _ \<Rightarrow> (let (P1, o1) = progress_return junk P (ct_out t) in (P1, t\<lparr>ct_out := o1\<rparr>))
      | _ \<Rightarrow> (P, t))"


text \<open>Continuing shrinks the writer's queue or takes the frame.\<close>

lemma call_queue [simp]: "o_pending (call o' c) = o_pending o'" "o_todo (call o' c) = o_todo o'"
  by (simp_all add: call_def)

lemma set_state_queue [simp]: "o_pending (set_state o' f) = o_pending o'" "o_todo (set_state o' f) = o_todo o'"
  by (simp_all add: set_state_def)

lemma submit_write_queue [simp]:
  "o_pending (submit_write o' w) = o_pending o'" "o_todo (submit_write o' w) = o_todo o'"
  by (simp_all add: submit_write_def)

lemma CheckFinish_queue [simp]: "o_pending (CheckFinish o') = o_pending o'" "o_todo (CheckFinish o') = o_todo o'"
  by (simp_all add: CheckFinish_def)

lemma dax_sizes_queue:
  "o_pending (fst (dax_sizes o' junk i n)) = o_pending o' \<and> o_todo (fst (dax_sizes o' junk i n)) = o_todo o'"
proof (induction n arbitrary: o' i)
  case (Suc n)
  let ?o = "if o_index o' ! (i + 1) - o_index o' ! i < 0x10000 then o'
    else call o' (CFinish False ''Compressed sector larger than 16 bits'')"
  have "fst (dax_sizes o' junk i (Suc n)) = fst (dax_sizes ?o junk (Suc i) n)"
    by (simp add: Let_def split: prod.splits)
  with Suc [of ?o "Suc i"] show ?case by simp
qed simp

lemma Flush_queue [simp]: "o_pending (Flush junk o') = o_pending o'" "o_todo (Flush junk o') = o_todo o'"
  using dax_sizes_queue [of o' junk 0 "unat (out_sectors o')"]
  by (auto simp: Flush_def WriteCSOIndex_def WriteDAXIndex_def Let_def split: CSOFormat.splits prod.splits)

lemma write_bufs_queue:
  "o_pending (fst (write_bufs P o' is d bufs)) = o_pending o' \<and> o_todo (fst (write_bufs P o' is d bufs)) = o_todo o'"
proof (cases "all_allowed o' is")
  case True
  from write_bufs_spec [OF this, of P d bufs] show ?thesis by auto
next
  case False
  from write_bufs_refused [OF this, of P d bufs] show ?thesis by auto
qed

lemma release_sectors_queue:
  "o_pending (snd (release_sectors P o' is)) = o_pending o' \<and> o_todo (snd (release_sectors P o' is)) = o_todo o'"
  by (induction P o' "is" rule: release_sectors.induct) (simp_all add: Let_def split: prod.splits)

lemma HandleWrittenSectors_queue:
  "o_pending (snd (HandleWrittenSectors P o' ok is np tw)) = o_pending o'"
  using release_sectors_queue [of P o' "is"]
  by (auto simp: HandleWrittenSectors_def Let_def split: prod.splits)

lemma HandleReadySector_None:
  "HandleReadySector junk P o' None = (P, o')
    \<or> length (o_pending (snd (HandleReadySector junk P o' None))) < length (o_pending o')"
proof (cases "om_begin (o_pending o')")
  case None
  then show ?thesis by (simp add: HandleReadySector_def)
next
  case (Some e)
  obtain k i where e: "e = (k, i)" by (rule prod.exhaust)
  show ?thesis
  proof (cases "o_srcPos o' = Pos (o_sec o' i)")
    case False
    with Some e show ?thesis by (simp add: HandleReadySector_def)
  next
    case True
    let ?o1 = "o'\<lparr>o_pending := om_erase k (o_pending o')\<rparr>"
    obtain pending np secs where g: "gather (o_pending ?o1) (o_srcPos ?o1 + uint (o_blockSize ?o1))
        (uint (o_blockSize ?o1)) [i] = (pending, np, secs)" by (rule prod_cases3)
    obtain o3 d bufs ok where w: "write_bufs P (?o1\<lparr>o_pending := pending\<rparr>) secs (o_dstPos (?o1\<lparr>o_pending := pending\<rparr>)) []
        = (o3, d, bufs, ok)" by (rule prod_cases4)
    have "om_find k (o_pending o') = Some i"
      using Some e by (cases "o_pending o'") (auto simp: om_begin_def om_find_def)
    then have "length (o_pending ?o1) < length (o_pending o')" by (simp add: om_erase_length)
    moreover have "length pending \<le> length (o_pending ?o1)"
      using gather_length [of "o_pending ?o1" "o_srcPos ?o1 + uint (o_blockSize ?o1)" "uint (o_blockSize ?o1)" "[i]"] g by simp
    moreover have "o_pending o3 = pending"
      using write_bufs_queue [of P "?o1\<lparr>o_pending := pending\<rparr>" secs "o_dstPos (?o1\<lparr>o_pending := pending\<rparr>)" "[]"] w by simp
    moreover have "o_pending (snd (HandleReadySector junk P o' None)) = o_pending o3"
      using Some e True g w
      by (simp add: HandleReadySector_def Let_def HandleWrittenSectors_queue split: if_splits)
    ultimately show ?thesis by simp
  qed
qed

lemma HandleWrittenSectors_rest_queue:
  "length (o_pending (snd (HandleWrittenSectors_rest junk P o' np))) < length (o_pending o')
    \<or> o_pending (snd (HandleWrittenSectors_rest junk P o' np)) = o_pending o'
      \<and> o_todo (snd (HandleWrittenSectors_rest junk P o' np)) = o_todo o'"
  using HandleReadySector_None [of junk P o'] by (auto simp: HandleWrittenSectors_rest_def)

lemma ct_notify_out [simp]: "ct_out (ct_notify t e) = ct_out t"
  by (simp add: ct_notify_def)

lemma ct_report_out [simp]: "ct_out (ct_report t c) = ct_out t"
  by (cases "(t, c)" rule: ct_report.cases) simp_all

text \<open>The calls of one operation, inside a callback of the reader.\<close>

function ct_callbacks :: "(nat \<Rightarrow> u16) \<Rightarrow> pool \<Rightarrow> ct \<Rightarrow> bool \<Rightarrow> pool \<times> ct \<times> bool" where
  "ct_callbacks junk P t paused =
     (case o_calls (ct_out t) of
        [] \<Rightarrow> (P, t, paused)
      | CException # _ \<Rightarrow> (P, t, paused)
      | c # _ \<Rightarrow>
          let (P1, t1) = ct_continue junk P (ct_report (pop_call t) c) c
          in ct_callbacks junk P1 t1 (ct_pauses c paused))"
  by pat_completeness auto
termination
proof (relation "inv_image (less_than <*lex*> less_than <*lex*> less_than)
    (\<lambda>(junk, P, t, paused). (length (o_pending (ct_out t)), length (o_todo (ct_out t)), length (o_calls (ct_out t))))",
    goal_cases)
  case 1
  show ?case by (intro wf_inv_image wf_lex_prod wf_less_than)
next
  case (2 junk P t paused c cs ok reason r P1 t1)
  then show ?case by (simp add: ct_continue_def pop_call_def)
next
  case (3 junk P t paused c cs a b d r P1 t1)
  show ?case
  proof (cases "o_todo (ct_out t)")
    case Nil
    with 3 show ?thesis by (simp add: ct_continue_def pop_call_def progress_return_def Let_def)
  next
    case (Cons np rest)
    let ?o = "(ct_out t)\<lparr>o_calls := cs, o_todo := rest\<rparr>"
    have "ct_out t1 = snd (HandleWrittenSectors_rest junk P ?o np)"
      using 3 Cons by (simp add: ct_continue_def pop_call_def progress_return_def Let_def split: prod.splits)
    with HandleWrittenSectors_rest_queue [of junk P ?o np] Cons show ?thesis by auto
  qed
qed

declare ct_callbacks.simps [simp del]


subsection \<open>The callbacks installed by BeginProcessing\<close>

definition task_format :: "u32 \<Rightarrow> CSOFormat" where
  "task_format flags =
     (if has_flag flags TASKFLAG_FMT_CSO_2 then CSO_FMT_CSO2
      else if has_flag flags TASKFLAG_FMT_ZSO then CSO_FMT_ZSO
      else if has_flag flags TASKFLAG_FMT_DAX then CSO_FMT_DAX
      else CSO_FMT_CSO1)"

definition wants_large_block :: "ct \<Rightarrow> int \<Rightarrow> bool" where
  "wants_large_block t bytes \<longleftrightarrow> \<not> has_flag (ct_flags t) TASKFLAG_DECOMPRESS
     \<and> ct_task_block_size t = DEFAULT_BLOCK_SIZE \<and> bytes \<ge> LARGE_BLOCK_SIZE_THRESH"

text \<open>The third component is what the callback does to \<open>paused_\<close>.\<close>

definition ct_on_begin :: "(nat \<Rightarrow> u16) \<Rightarrow> int \<Rightarrow> pool \<Rightarrow> ct \<Rightarrow> pool \<times> ct \<times> (bool \<Rightarrow> bool)" where
  "ct_on_begin junk bytes P t =
     (let fmt = task_format (ct_flags t);
          (P1, t1, good) =
            (if wants_large_block t bytes then
               let t1 = t\<lparr>ct_blockSize := LARGE_BLOCK_SIZE\<rparr>;
                   (P1, good) = SetBufferSize P (ct_blockSize t1 * 2)
               in (P1, t1, good)
             else (P, t, True))
      in if \<not> good then
           (P1, ct_notify t1 (Notify_reason TASK_INVALID_OPTION ''Unable to update buffer size to match block size''), \<lambda>_. True)
         else
           let t2 = t1\<lparr>ct_out := SetFile (ct_out t1) (ct_output t1 \<ge> 0) bytes (ct_blockSize t1) fmt\<rparr>;
               (P3, t3, _) = ct_callbacks junk P1 t2 False
           in (P3, (ct_notify t3 (Notify TASK_INPROGRESS 0 bytes 0))\<lparr>ct_size := bytes\<rparr>,
               \<lambda>p. snd (snd (ct_callbacks junk P1 t2 p))))"

definition ct_on_sector :: "(nat \<Rightarrow> u16) \<Rightarrow> int \<Rightarrow> ptr \<Rightarrow> pool \<Rightarrow> ct \<Rightarrow> pool \<times> ct \<times> (bool \<Rightarrow> bool)" where
  "ct_on_sector junk pos sector P t =
     (let (P1, o1) = Enqueue junk P (ct_out t) pos sector;
          t1 = t\<lparr>ct_out := o1\<rparr>;
          (P2, t2, _) = ct_callbacks junk P1 t1 False
      in (P2, t2, \<lambda>p. if QueueFull (ct_out t2) then True else snd (snd (ct_callbacks junk P1 t1 p))))"

definition compression_client :: "(nat \<Rightarrow> u16) \<Rightarrow> ct client" where
  "compression_client junk = \<lparr>on_sector = ct_on_sector junk, on_begin = ct_on_begin junk,
     on_finish = (\<lambda>success reason t.
       if \<not> success then ct_notify t (Notify_reason TASK_INVALID_DATA reason) else t)\<rparr>"

subsection \<open>Events of the loop\<close>

text \<open>The first call of the writer outside the reader: \<open>Resume\<close> may read and enqueue at once.\<close>

definition ct_callback :: "(nat \<Rightarrow> u16) \<Rightarrow> ct client \<Rightarrow> ct ist \<Rightarrow> ct ist" where
  "ct_callback junk cl st =
     (case st of (P, t, x) \<Rightarrow>
        case o_calls (ct_out t) of
          [] \<Rightarrow> st
        | CException # _ \<Rightarrow> st
        | CFinish success reason # _ \<Rightarrow>
            (P, ct_report (pop_call t) (CFinish success reason), (if success then x else Pause x))
        | CProgress pos total_size written # _ \<Rightarrow>
            let (P1, t1, x1) = Resume cl (P, pop_call t, x);
                (P2, t2) = ct_continue junk P1 (ct_report t1 (CProgress pos total_size written))
                             (CProgress pos total_size written)
            in (P2, t2, x1))"

definition ct_work_done :: "codecs \<Rightarrow> (nat \<Rightarrow> u16) \<Rightarrow> ct ist \<Rightarrow> nat \<Rightarrow> int \<Rightarrow> ct ist" where
  "ct_work_done cx junk st i status =
     (case st of (P, t, x) \<Rightarrow>
        let (P1, o1) = work_done cx junk P (ct_out t) i status in (P1, t\<lparr>ct_out := o1\<rparr>, x))"

definition ct_write_done :: "ct ist \<Rightarrow> wreq \<Rightarrow> int \<Rightarrow> ct ist" where
  "ct_write_done st w result =
     (case st of (P, t, x) \<Rightarrow>
        let (P1, o1) = write_done P (ct_out t) w result in (P1, t\<lparr>ct_out := o1\<rparr>, x))"

text \<open>
  The runs of a task whose files are open: the completions of the reader's request, of the
  sectors' worker jobs and of the writes, in any order, each followed by the calls it made.
  \<open>cl\<close> is the reader's client, \<open>compression_client junk\<close> for the program.
  \<open>no_calls\<close> says that they have all been carried out.
\<close>

definition no_calls :: "ct ist \<Rightarrow> bool" where
  "no_calls st \<longleftrightarrow> (case st of (P, t, x) \<Rightarrow> o_calls (ct_out t) = [])"

inductive ct_step :: "codecs \<Rightarrow> decoders \<Rightarrow> (nat \<Rightarrow> u16) \<Rightarrow> ct client \<Rightarrow> (nat \<Rightarrow> u8 list) \<Rightarrow> ct ist \<Rightarrow> ct ist \<Rightarrow> bool"
  for cx dx junk cl g where
  callback: "\<not> no_calls st \<Longrightarrow> ct_step cx dx junk cl g st (ct_callback junk cl st)"
| header: "no_calls st \<Longrightarrow> ct_step cx dx junk cl g st (header_done g cl st result bytes)"
| cso_index: "no_calls st \<Longrightarrow> ct_step cx dx junk cl g st (cso_index_done cl st result bytes)"
| dax_index: "no_calls st \<Longrightarrow> dax_index_done g cl st result bytes = Some st' \<Longrightarrow>
    ct_step cx dx junk cl g st st'"
| measured: "no_calls st \<Longrightarrow> ct_step cx dx junk cl g st (stat_done g cl st result st_size)"
| sector_read: "no_calls st \<Longrightarrow> ct_step cx dx junk cl g st (read_done cl st result bytes)"
| decompressed: "no_calls st \<Longrightarrow> ct_step cx dx junk cl g st (decompress_done dx cl st status)"
| compressed: "no_calls (P, t, x) \<Longrightarrow> s_enqueued (o_sec (ct_out t) i) \<Longrightarrow>
    ct_step cx dx junk cl g (P, t, x) (ct_work_done cx junk (P, t, x) i status)"
| written: "no_calls (P, t, x) \<Longrightarrow> w \<in> set (o_reqs (ct_out t)) \<Longrightarrow>
    ct_step cx dx junk cl g (P, t, x) (ct_write_done (P, t, x) w result)"

inductive_cases ct_stepE: "ct_step cx dx junk cl g st st'"

end
