(* ===== verification/Cli.thy ===== *)
theory Cli
  imports Formats
begin

section \<open>The command line (src/cli/cli.cpp)\<close>

text \<open>
  Parsing and validation of the arguments, the tasks made of them, and the two callbacks that
  report a task's events on stderr and compute the exit status.  \<open>argv\<close> is the list of its
  strings; the null pointer behind the last one is the end of the list.  What is printed is a
  list of messages.  A percentage is represented, as in \<open>Task\<close>, by the function of the block
  size that the program computes from it, so \<open>atof\<close> is a parameter that yields such functions;
  the number of processors (\<open>uv_cpu_info\<close>) is a parameter too.  The code is modelled as built
  for POSIX with 7-zip's deflate.
\<close>

subsection \<open>Strings of C\<close>

definition tolower :: "char \<Rightarrow> char" where
  "tolower c = (if of_char c \<ge> (65 :: nat) \<and> of_char c \<le> (90 :: nat) then char_of (of_char c + 32 :: nat) else c)"

definition isspace :: "char \<Rightarrow> bool" where
  "isspace c \<longleftrightarrow> of_char c = (32 :: nat) \<or> (of_char c \<ge> (9 :: nat) \<and> of_char c \<le> (13 :: nat))"

definition isdigit :: "char \<Rightarrow> bool" where
  "isdigit c \<longleftrightarrow> of_char c \<ge> (48 :: nat) \<and> of_char c \<le> (57 :: nat)"

fun digits :: "int \<Rightarrow> string \<Rightarrow> int" where
  "digits n [] = n"
| "digits n (c # cs) = (if isdigit c then digits (10 * n + (of_char c - 48)) cs else n)"

text \<open>\<open>(int)strtol(s, NULL, 10)\<close> with a 64-bit \<open>long\<close>, which saturates.\<close>

definition atoi :: "string \<Rightarrow> int" where
  "atoi s =
     (let s = dropWhile isspace s;
          v = (case s of
                 c # cs \<Rightarrow> if c = CHR ''-'' then - digits 0 cs else if c = CHR ''+'' then digits 0 cs else digits 0 s
               | [] \<Rightarrow> 0);
          l = (if v > 2 ^ 63 - 1 then 2 ^ 63 - 1 else if v < - (2 ^ 63) then - (2 ^ 63) else v)
      in sint (word_of_int l :: u32))"

text \<open>POSIX \<open>basename\<close>.\<close>

definition posix_basename :: "string \<Rightarrow> string" where
  "posix_basename path =
     (if path = [] then ''.''
      else let r = dropWhile (\<lambda>c. c = CHR ''/'') (rev path)
           in if r = [] then ''/'' else rev (takeWhile (\<lambda>c. c \<noteq> CHR ''/'') r))"

function decimal :: "nat \<Rightarrow> string" where
  "decimal n = (if n < 10 then [char_of (48 + n)] else decimal (n div 10) @ [char_of (48 + n mod 10)])"
  by pat_completeness auto
termination by (relation "measure id") auto

declare decimal.simps [simp del]

definition decimal_int :: "int \<Rightarrow> string" where
  "decimal_int n = (if n < 0 then ''-'' @ decimal (nat (- n)) else decimal (nat n))"

subsection \<open>Output\<close>

datatype cli_msg = MsgVersion | MsgHelp string | MsgError string

definition newline :: string where "newline = [CHR 0x0A]"

definition show_version :: string where
  "show_version = ''maxcso v'' @ ''1.13.0'' @ newline"

definition show_help :: "string \<Rightarrow> string" where
  "show_help arg0 = show_version
     @ ''Usage: '' @ arg0 @ '' [--args] input.iso [-o output.cso]'' @ newline
     @ newline
     @ ''Multiple files may be specified.  Inputs can be iso or cso files.'' @ newline
     @ newline
     @ ''   --threads=N      Specify N threads for I/O and compression'' @ newline
     @ ''   --quiet          Suppress status output'' @ newline
     @ ''   --crc            Log CRC32 checksums, ignore output files and methods'' @ newline
     @ ''   --measure        Measure compressed size without saving output'' @ newline
     @ ''   --fast           Use only basic zlib or lz4 for fastest result'' @ newline
     @ ''   --decompress     Write out to raw ISO, decompressing as needed'' @ newline
     @ ''   --block=N        Specify a block size (default depends on iso size)'' @ newline
     @ ''                    Many readers only support the 2048 size'' @ newline
     @ ''   --format=VER     Specify cso version (options: cso1, cso2, zso, dax)'' @ newline
     @ ''                    These are experimental, default is cso1'' @ newline
     @ ''   --use-zlib       Enable trials with zlib for deflate compression'' @ newline
     @ ''   --use-zopfli     Enable trials with Zopfli for deflate compression'' @ newline
     @ ''   --use-7zdeflate  Enable trials with 7-zip'' @ [CHR 0x27] @ ''s deflate compression'' @ newline
     @ ''   --use-lz4        Enable trials with lz4hc for lz4 compression'' @ newline
     @ ''   --use-lz4brute   Enable bruteforce trials with lz4hc for lz4 compression'' @ newline
     @ ''   --use-libdeflate Enable trials with libdeflate compression'' @ newline
     @ ''   --only-METHOD    Only allow a certain compression method (zlib, etc. above)'' @ newline
     @ ''   --no-METHOD      Disable a certain compression method (zlib, etc. above)'' @ newline
     @ ''                    The default is to use zlib and 7zdeflate only'' @ newline
     @ ''   --lz4-cost=N     Allow lz4 to increase block size by N% at most (cso2 only)'' @ newline
     @ ''   --orig-cost=N    Allow uncompressed to increase block size by N% at most'' @ newline
     @ ''   --output-path=X  Output to path X/, use basename for default outputs'' @ newline"

text \<open>What a message prints to the error stream.\<close>

fun msg_text :: "cli_msg \<Rightarrow> string" where
  "msg_text MsgVersion = show_version"
| "msg_text (MsgHelp arg0) = show_help arg0"
| "msg_text (MsgError e) = newline @ ''ERROR: '' @ e @ newline"

subsection \<open>Arguments\<close>

record Arguments =
  a_inputs :: "string list"
  a_outputs :: "string list"
  a_output_path :: string
  a_threads :: int
  a_block_size :: u32
  a_flags_fmt :: u32
  a_flags_use :: u32
  a_flags_no :: u32
  a_flags_only :: u32
  a_flags_final :: u32
  a_orig_cost_percent :: "u32 \<Rightarrow> u32"
  a_lz4_cost_percent :: "u32 \<Rightarrow> u32"
  a_fast :: bool
  a_smallest :: bool
  a_quiet :: bool
  a_crc :: bool
  a_decompress :: bool
  a_measure :: bool

definition default_args :: Arguments where
  "default_args = \<lparr>a_inputs = [], a_outputs = [], a_output_path = [], a_threads = 0,
     a_block_size = DEFAULT_BLOCK_SIZE, a_flags_fmt = 0, a_flags_use = 0, a_flags_no = 0,
     a_flags_only = 0, a_flags_final = 0, a_orig_cost_percent = (\<lambda>_. 0), a_lz4_cost_percent = (\<lambda>_. 0),
     a_fast = False, a_smallest = False, a_quiet = False, a_crc = False, a_decompress = False,
     a_measure = False\<rparr>"

subsection \<open>Recognising one argument\<close>

text \<open>
  The result of \<open>has_arg_value\<close>: no match, or the value (\<open>None\<close> for the null pointer) and the
  arguments after it.
\<close>

definition has_arg_value :: "string \<Rightarrow> string \<Rightarrow> string list \<Rightarrow> (string option \<times> string list) option" where
  "has_arg_value arg a rest =
     (if take (length arg) a = arg then
        if length a = length arg then
          Some (case rest of [] \<Rightarrow> (None, []) | v # rest' \<Rightarrow> (Some v, rest'))
        else if a ! length arg = CHR ''='' then Some (Some (drop (length arg + 1) a), rest)
        else None
      else None)"

definition has_arg_method :: "string \<Rightarrow> string \<Rightarrow> u32 option" where
  "has_arg_method arg a =
     (if take (length arg) a = arg then
        let val = drop (length arg) a
        in if val = ''zlib'' then Some TASKFLAG_NO_ZLIB
           else if val = ''zopfli'' then Some TASKFLAG_NO_ZOPFLI
           else if val = ''7zdeflate'' \<or> val = ''7zip'' then Some TASKFLAG_NO_7ZIP
           else if val = ''lz4'' then Some (TASKFLAG_NO_LZ4_DEFAULT OR TASKFLAG_NO_LZ4_HC)
           else if val = ''lz4brute'' then Some TASKFLAG_NO_LZ4_HC_BRUTE
           else if val = ''libdeflate'' then Some TASKFLAG_NO_LIBDEFLATE
           else None
      else None)"

definition has_arg :: "string \<Rightarrow> string \<Rightarrow> bool" where
  "has_arg arg a \<longleftrightarrow> arg = a"

definition wildcard_to_inputs :: "string \<Rightarrow> string list \<Rightarrow> string list" where
  "wildcard_to_inputs arg files = files @ [arg]"


subsection \<open>parse_args\<close>

text \<open>
  What one turn of the loop does: go on with the arguments left, leave the loop at \<open>--\<close>,
  return from \<open>parse_args\<close>, or use the null pointer behind the last argument, which is undefined.
\<close>

datatype parse_step = Goes Arguments "string list" | Breaks | Returns int "cli_msg list" | Undefined

definition with_value :: "string option \<times> string list \<Rightarrow> (string \<Rightarrow> Arguments) \<Rightarrow> parse_step" where
  "with_value r f = (case r of (None, _) \<Rightarrow> Undefined | (Some v, rest) \<Rightarrow> Goes (f v) rest)"

definition set_format :: "string \<Rightarrow> Arguments \<Rightarrow> string \<times> string list \<Rightarrow> parse_step" where
  "set_format arg0 args r =
     (case r of (val, rest) \<Rightarrow>
        if val = ''cso1'' then Goes (args\<lparr>a_flags_fmt := 0\<rparr>) rest
        else if val = ''cso2'' then Goes (args\<lparr>a_flags_fmt := TASKFLAG_FMT_CSO_2\<rparr>) rest
        else if val = ''zso'' then Goes (args\<lparr>a_flags_fmt := TASKFLAG_FMT_ZSO\<rparr>) rest
        else if val = ''dax'' then Goes (args\<lparr>a_flags_fmt := TASKFLAG_FMT_DAX\<rparr>) rest
        else Returns 1 [MsgHelp arg0, MsgError (''Unknown format '' @ val @ '', expecting cso1, cso2, or zso.'')])"

definition set_output_path :: "Arguments \<Rightarrow> string \<Rightarrow> Arguments" where
  "set_output_path args val =
     args\<lparr>a_output_path := (if val \<noteq> [] \<and> last val \<noteq> CHR ''/'' then val @ ''/'' else val)\<rparr>"

text \<open>The \<open>else if\<close> chain, in groups: the first that recognises the argument decides.\<close>

definition parse_values :: "(string \<Rightarrow> u32 \<Rightarrow> u32) \<Rightarrow> string \<Rightarrow> Arguments \<Rightarrow> string \<Rightarrow> string list \<Rightarrow> parse_step option" where
  "parse_values atof arg0 args a rest =
     (case has_arg_value ''--block'' a rest of
        Some r \<Rightarrow> Some (with_value r (\<lambda>val. args\<lparr>a_block_size := word_of_int (atoi val)\<rparr>))
      | None \<Rightarrow> case has_arg_value ''--threads'' a rest of
        Some r \<Rightarrow> Some (with_value r (\<lambda>val. args\<lparr>a_threads := atoi val\<rparr>))
      | None \<Rightarrow> case has_arg_value ''--orig-cost'' a rest of
        Some r \<Rightarrow> Some (with_value r (\<lambda>val. args\<lparr>a_orig_cost_percent := atof val\<rparr>))
      | None \<Rightarrow> case has_arg_value ''--lz4-cost'' a rest of
        Some r \<Rightarrow> Some (with_value r (\<lambda>val. args\<lparr>a_lz4_cost_percent := atof val\<rparr>))
      | None \<Rightarrow> case has_arg_value ''--format'' a rest of
        Some (None, _) \<Rightarrow> Some Undefined
      | Some (Some val, rest') \<Rightarrow> Some (set_format arg0 args (val, rest'))
      | None \<Rightarrow> None)"

definition parse_switch :: "Arguments \<Rightarrow> string \<Rightarrow> Arguments option" where
  "parse_switch args a =
     (if has_arg ''--crc'' a then Some (args\<lparr>a_crc := True\<rparr>)
      else if has_arg ''--quiet'' a then Some (args\<lparr>a_quiet := True\<rparr>)
      else if has_arg ''--fast'' a then Some (args\<lparr>a_fast := True\<rparr>)
      else if has_arg ''--smallest'' a then Some (args\<lparr>a_smallest := True\<rparr>)
      else if has_arg ''--decompress'' a then Some (args\<lparr>a_decompress := True\<rparr>)
      else if has_arg ''--measure'' a then Some (args\<lparr>a_measure := True\<rparr>)
      else None)"

definition parse_method :: "Arguments \<Rightarrow> string \<Rightarrow> Arguments option" where
  "parse_method args a =
     (case has_arg_method ''--use-'' a of
        Some m \<Rightarrow> Some (args\<lparr>a_flags_use := a_flags_use args OR m\<rparr>)
      | None \<Rightarrow> case has_arg_method ''--no-'' a of
        Some m \<Rightarrow> Some (args\<lparr>a_flags_no := a_flags_no args OR m\<rparr>)
      | None \<Rightarrow> case has_arg_method ''--only-'' a of
        Some m \<Rightarrow> Some (args\<lparr>a_flags_only := a_flags_only args OR m\<rparr>)
      | None \<Rightarrow> None)"

definition parse_outputs :: "Arguments \<Rightarrow> string \<Rightarrow> string list \<Rightarrow> parse_step option" where
  "parse_outputs args a rest =
     (let out = (\<lambda>val. args\<lparr>a_outputs := a_outputs args @ [a_output_path args @ val]\<rparr>)
      in case has_arg_value ''--output-path'' a rest of
        Some r \<Rightarrow> Some (with_value r (set_output_path args))
      | None \<Rightarrow> case has_arg_value ''--out'' a rest of
        Some r \<Rightarrow> Some (with_value r out)
      | None \<Rightarrow> case has_arg_value ''-o'' a rest of
        Some r \<Rightarrow> Some (with_value r out)
      | None \<Rightarrow> None)"

definition parse_arg :: "(string \<Rightarrow> u32 \<Rightarrow> u32) \<Rightarrow> string \<Rightarrow> Arguments \<Rightarrow> string \<Rightarrow> string list \<Rightarrow> parse_step" where
  "parse_arg atof arg0 args a rest =
     (if has_arg ''--help'' a \<or> has_arg ''-h'' a then Returns 1 [MsgHelp arg0]
      else if has_arg ''--version'' a \<or> has_arg ''-v'' a then Returns 1 [MsgVersion]
      else case parse_values atof arg0 args a rest of
        Some s \<Rightarrow> s
      | None \<Rightarrow> case parse_switch args a of
        Some args' \<Rightarrow> Goes args' rest
      | None \<Rightarrow> case parse_method args a of
        Some args' \<Rightarrow> Goes args' rest
      | None \<Rightarrow> case parse_outputs args a rest of
        Some s \<Rightarrow> s
      | None \<Rightarrow>
        if has_arg ''--'' a then Breaks
        else Returns 1 [MsgHelp arg0, MsgError (''Unknown argument: '' @ a)])"

text \<open>The arguments, or the exit status with what was printed, or an undefined use.\<close>

datatype parse_result = PArgs Arguments | PExit int "cli_msg list" | PUndefined

lemma has_arg_value_rest:
  "has_arg_value arg a rest = Some (v, rest') \<Longrightarrow> length rest' \<le> length rest"
  by (auto simp: has_arg_value_def split: if_splits list.splits)

lemma with_value_rest:
  "has_arg_value arg a rest = Some r \<Longrightarrow> with_value r f = Goes args' rest' \<Longrightarrow> length rest' \<le> length rest"
  by (cases r) (auto simp: with_value_def dest: has_arg_value_rest split: option.splits)

lemma set_format_rest:
  "has_arg_value arg a rest = Some (Some val, r) \<Longrightarrow> set_format arg0 args (val, r) = Goes args' rest'
    \<Longrightarrow> length rest' \<le> length rest"
  by (auto simp: set_format_def dest: has_arg_value_rest split: if_splits)

lemma parse_values_rest:
  "parse_values atof arg0 args a rest = Some (Goes args' rest') \<Longrightarrow> length rest' \<le> length rest"
  by (auto simp: parse_values_def dest: with_value_rest set_format_rest split: option.splits)

lemma parse_outputs_rest:
  "parse_outputs args a rest = Some (Goes args' rest') \<Longrightarrow> length rest' \<le> length rest"
  by (auto simp: parse_outputs_def Let_def dest: with_value_rest split: option.splits)

lemma parse_arg_rest:
  "parse_arg atof arg0 args a rest = Goes args' rest' \<Longrightarrow> length rest' \<le> length rest"
  by (auto simp: parse_arg_def dest: parse_values_rest parse_outputs_rest split: if_splits option.splits)

text \<open>
  The loop, with the arguments from index \<open>i\<close> on.  At \<open>--\<close> the index still points to it.
\<close>

function parse_loop :: "(string \<Rightarrow> u32 \<Rightarrow> u32) \<Rightarrow> string \<Rightarrow> Arguments \<Rightarrow> string list \<Rightarrow> parse_result" where
  "parse_loop atof arg0 args [] = PArgs args"
| "parse_loop atof arg0 args (a # rest) =
     (if a \<noteq> [] \<and> hd a = CHR ''-'' then
        (case parse_arg atof arg0 args a rest of
           Goes args' rest' \<Rightarrow> parse_loop atof arg0 args' rest'
         | Breaks \<Rightarrow> PArgs (foldl (\<lambda>args a. args\<lparr>a_inputs := wildcard_to_inputs a (a_inputs args)\<rparr>) args (a # rest))
         | Returns r msgs \<Rightarrow> PExit r msgs
         | Undefined \<Rightarrow> PUndefined)
      else parse_loop atof arg0 (args\<lparr>a_inputs := wildcard_to_inputs a (a_inputs args)\<rparr>) rest)"
  by pat_completeness auto
termination
  by (relation "measure (\<lambda>(_, _, _, l). length l)") (auto dest: parse_arg_rest)

declare parse_loop.simps [simp del]

definition parse_args :: "(string \<Rightarrow> u32 \<Rightarrow> u32) \<Rightarrow> Arguments \<Rightarrow> string list \<Rightarrow> parse_result" where
  "parse_args atof args argv = parse_loop atof (hd argv) args (tl argv)"


subsection \<open>validate_args\<close>

definition get_basename :: "string \<Rightarrow> string" where
  "get_basename filename = posix_basename filename"

definition output_ext :: "Arguments \<Rightarrow> string" where
  "output_ext args =
     (if has_flag (a_flags_fmt args) TASKFLAG_FMT_DAX then ''.dax''
      else if has_flag (a_flags_fmt args) TASKFLAG_FMT_ZSO then ''.zso''
      else ''.cso'')"

text \<open>The output for one input, when one is chosen automatically.\<close>

definition auto_output :: "Arguments \<Rightarrow> string \<Rightarrow> string option" where
  "auto_output args input =
     (if length input \<le> 4 then None
      else
        let ext = map tolower (drop (length input - 4) input);
            inputRawExt = (ext = ''.iso'');
            inputCompressedExt = (ext = ''.cso'' \<or> ext = ''.zso'' \<or> ext = ''.dax'');
            without_ext = take (length input - 4) input;
            without_ext = (if a_output_path args \<noteq> [] then a_output_path args @ get_basename without_ext
                           else without_ext)
        in if \<not> a_decompress args \<and> (inputRawExt \<or> inputCompressedExt) \<and> ext \<noteq> output_ext args
           then Some (without_ext @ output_ext args)
           else if a_decompress args \<and> inputCompressedExt then Some (without_ext @ ''.iso'')
           else None)"

fun add_outputs :: "Arguments \<Rightarrow> string list \<Rightarrow> Arguments" where
  "add_outputs args [] = args"
| "add_outputs args (input # rest) =
     (case auto_output args input of
        None \<Rightarrow> add_outputs args rest
      | Some f \<Rightarrow> add_outputs (args\<lparr>a_outputs := a_outputs args @ [f]\<rparr>) rest)"

definition default_flags :: "u32 \<Rightarrow> u32" where
  "default_flags flags_fmt =
     (if has_flag flags_fmt TASKFLAG_FMT_CSO_2 then TASKFLAG_NO_ZOPFLI OR TASKFLAG_NO_LZ4_HC_BRUTE
      else if has_flag flags_fmt TASKFLAG_FMT_ZSO then
        TASKFLAG_NO_ZLIB OR TASKFLAG_NO_7ZIP OR TASKFLAG_NO_ZOPFLI OR TASKFLAG_NO_LZ4_HC_BRUTE OR TASKFLAG_NO_LIBDEFLATE
      else TASKFLAG_NO_ZOPFLI OR TASKFLAG_NO_LIBDEFLATE OR TASKFLAG_NO_LZ4)"

text \<open>\<open>flags_final\<close>: defaults, then use, no and only, then the switches and the format.\<close>

definition final_flags :: "Arguments \<Rightarrow> u32" where
  "final_flags args =
     (let f = default_flags (a_flags_fmt args);
          f = f AND NOT (a_flags_use args);
          f = f OR a_flags_no args;
          f = (if a_flags_only args \<noteq> 0 then (f OR TASKFLAG_NO_ALL) AND NOT (a_flags_only args) else f);
          f = (if a_fast args then f OR (TASKFLAG_NO_ZLIB_BRUTE OR TASKFLAG_NO_ZOPFLI OR TASKFLAG_NO_7ZIP
                 OR TASKFLAG_NO_LZ4_HC_BRUTE OR TASKFLAG_NO_LZ4_HC OR TASKFLAG_NO_LIBDEFLATE) else f);
          f = (if a_smallest args then f OR TASKFLAG_FORCE_ALL else f);
          f = (if a_decompress args then f OR TASKFLAG_DECOMPRESS else f);
          f = (if a_measure args then f OR TASKFLAG_MEASURE else f)
      in f OR a_flags_fmt args)"

definition deflate_flags :: u32 where
  "deflate_flags = TASKFLAG_NO_ZLIB OR TASKFLAG_NO_ZLIB_DEFAULT OR TASKFLAG_NO_ZLIB_BRUTE OR TASKFLAG_NO_ZOPFLI
     OR TASKFLAG_NO_7ZIP OR TASKFLAG_NO_LIBDEFLATE"

text \<open>The checks of the output files: the arguments with all outputs, or an error.\<close>

definition check_outputs :: "Arguments \<Rightarrow> string + Arguments" where
  "check_outputs args =
     (if length (a_inputs args) < length (a_outputs args) then Inl ''Too many output files.''
      else if a_crc args \<or> a_measure args then
        if a_outputs args \<noteq> [] then
          Inl (if a_crc args then ''Output files not used with --crc.'' else ''Output files not used with --measure.'')
        else Inr args
      else
        let args1 = add_outputs args (drop (length (a_outputs args)) (a_inputs args))
        in if length (a_inputs args1) \<noteq> length (a_outputs args1) then Inl ''Too few output files.'' else Inr args1)"

definition validate_args :: "int \<Rightarrow> string \<Rightarrow> Arguments \<Rightarrow> parse_result" where
  "validate_args cpus arg0 args =
     (let args = (if a_threads args = 0 then args\<lparr>a_threads := cpus\<rparr> else args);
          err = (\<lambda>m. PExit 1 [MsgHelp arg0, MsgError m])
      in case check_outputs args of
           Inl m \<Rightarrow> err m
         | Inr args \<Rightarrow>
             if a_inputs args = [] then err ''No input files.''
             else
               let args = args\<lparr>a_flags_final := final_flags args\<rparr>
               in if has_flag (a_flags_fmt args) TASKFLAG_FMT_DAX then
                    if a_block_size args \<noteq> DEFAULT_BLOCK_SIZE then err ''Block size must be default for DAX.''
                    else if a_flags_final args AND deflate_flags = deflate_flags
                    then err ''DAX must use some kind of DEFLATE.''
                    else PArgs args
                  else PArgs args)"

text \<open>The value given to \<open>UV_THREADPOOL_SIZE\<close>.\<close>

definition update_threadpool :: "Arguments \<Rightarrow> string" where
  "update_threadpool args = decimal_int (a_threads args)"

subsection \<open>Tasks\<close>

definition make_task :: "Arguments \<Rightarrow> nat \<Rightarrow> Task" where
  "make_task args i = \<lparr>task_input = a_inputs args ! i,
     task_output = (if \<not> a_crc args \<and> \<not> a_measure args then a_outputs args ! i else []),
     task_block_size = a_block_size args, task_flags = a_flags_final args,
     orig_max_cost_percent = a_orig_cost_percent args, lz4_max_cost_percent = a_lz4_cost_percent args\<rparr>"

definition make_tasks :: "Arguments \<Rightarrow> Task list" where
  "make_tasks args = map (make_task args) [0..<length (a_inputs args)]"

text \<open>\<open>main\<close> up to the run: the tasks and whether they are checksum tasks.\<close>

definition main_tasks :: "(string \<Rightarrow> u32 \<Rightarrow> u32) \<Rightarrow> int \<Rightarrow> string list \<Rightarrow> parse_result \<times> Task list" where
  "main_tasks atof cpus argv =
     (case parse_args atof default_args argv of
        PArgs args \<Rightarrow>
          (case validate_args cpus (hd argv) args of
             PArgs args' \<Rightarrow> (PArgs args', make_tasks args')
           | r \<Rightarrow> (r, []))
      | r \<Rightarrow> (r, []))"


subsection \<open>The callbacks of main\<close>

text \<open>
  The variables the two lambdas capture.  What \<open>sprintf\<close> makes of doubles is a parameter: the
  text of a progress line from the position, the total, the bytes written, and the bytes and
  nanoseconds since the entry of the history it replaces; and the percentage of the final line.
\<close>

record ui =
  u_formatting :: bool
  u_quiet :: bool
  u_result :: int
  u_next :: int
  u_history :: "(int \<times> int) list"
  u_historyPos :: nat
  u_printed :: "string list"

record sprintf_doubles =
  fp_progress :: "int \<Rightarrow> int \<Rightarrow> int \<Rightarrow> int \<Rightarrow> int \<Rightarrow> string"
  fp_ratio :: "int \<Rightarrow> int \<Rightarrow> string"

definition interval_ns :: int where "interval_ns = 50000000"
definition historyLen :: nat where "historyLen = 20"
definition ANSI_RESET_LINE :: string where
  "ANSI_RESET_LINE = [char_of (27 :: nat)] @ ''[2K'' @ [char_of (27 :: nat)] @ ''[0G''"

definition ui_new :: "bool \<Rightarrow> Arguments \<Rightarrow> int \<Rightarrow> ui" where
  "ui_new tty args now = \<lparr>u_formatting = tty \<and> \<not> a_quiet args, u_quiet = a_quiet args, u_result = 0,
     u_next = now, u_history = replicate historyLen (0, now), u_historyPos = 0, u_printed = []\<rparr>"

definition ui_print :: "ui \<Rightarrow> string \<Rightarrow> ui" where
  "ui_print u s = u\<lparr>u_printed := u_printed u @ [s]\<rparr>"

text \<open>The status text of a progress call, empty when it is too early for one.\<close>

definition ui_status :: "sprintf_doubles \<Rightarrow> int \<Rightarrow> ui \<Rightarrow> TaskStatus \<Rightarrow> int \<Rightarrow> int \<Rightarrow> int \<Rightarrow> ui \<times> string" where
  "ui_status fp now u status pos all_bytes written =
     (if status = TASK_INPROGRESS then
        if now \<ge> u_next u then
          let entry = u_history u ! u_historyPos u;
              diff = pos - fst entry;
              elapsed = now - snd entry;
              hp = u_historyPos u + 1
          in (u\<lparr>u_history := (u_history u)[u_historyPos u := (pos, now)], u_next := now + interval_ns,
                u_historyPos := (if hp \<ge> historyLen then 0 else hp)\<rparr>,
              fp_progress fp pos all_bytes written diff elapsed)
        else (u, [])
      else if status = TASK_SUCCESS then
        (u, decimal_int all_bytes @ '' -> '' @ decimal_int written @ '' bytes ('' @ fp_ratio fp written all_bytes
              @ ''%)'' @ [char_of (10 :: nat)])
      else (u, ''Something went wrong.'' @ [char_of (10 :: nat)]))"

definition ui_progress :: "sprintf_doubles \<Rightarrow> int \<Rightarrow> ui \<Rightarrow> Task \<Rightarrow> TaskStatus \<Rightarrow> int \<Rightarrow> int \<Rightarrow> int \<Rightarrow> ui" where
  "ui_progress fp now u task status pos all_bytes written =
     (if \<not> u_formatting u \<and> (status \<noteq> TASK_SUCCESS \<or> u_quiet u) then u
      else
        let (u1, statusInfo) = ui_status fp now u status pos all_bytes written;
            input = task_input task
        in if statusInfo = [] then u1
           else
             let line = (if length input > 38 \<and> u_formatting u1
                         then ''...'' @ drop (length input - 35) input @ '': '' @ statusInfo
                         else input @ '': '' @ statusInfo)
             in ui_print u1 (if u_formatting u1 then ANSI_RESET_LINE @ line else line))"

text \<open>A null reason is undefined in \<open>operator+\<close>.\<close>

definition ui_error :: "ui \<Rightarrow> Task \<Rightarrow> TaskStatus \<Rightarrow> string option \<Rightarrow> ui option" where
  "ui_error u task status reason =
     (let u1 = (if status \<noteq> TASK_SUCCESS then u\<lparr>u_result := 1\<rparr> else u)
      in if u_quiet u1 then Some u1
         else case reason of
                None \<Rightarrow> None
              | Some r \<Rightarrow> Some (ui_print u1
                  ((if u_formatting u1 then ANSI_RESET_LINE else [])
                   @ (if status = TASK_SUCCESS then [] else ''Error while processing '')
                   @ task_input task @ '': '' @ r @ [char_of (10 :: nat)])))"

definition ui_event :: "sprintf_doubles \<Rightarrow> int \<Rightarrow> ui \<Rightarrow> Task \<Rightarrow> task_event \<Rightarrow> ui option" where
  "ui_event fp now u task e =
     (case e of
        EvProgress status pos all_bytes written \<Rightarrow> Some (ui_progress fp now u task status pos all_bytes written)
      | EvError status reason \<Rightarrow> ui_error u task status reason)"

text \<open>The events of a run, each with the time of its report; \<open>main\<close> returns \<open>u_result\<close>.\<close>

fun ui_events :: "sprintf_doubles \<Rightarrow> ui \<Rightarrow> (int \<times> Task \<times> task_event) list \<Rightarrow> ui option" where
  "ui_events fp u [] = Some u"
| "ui_events fp u ((now, task, e) # es) =
     (case ui_event fp now u task e of None \<Rightarrow> None | Some u1 \<Rightarrow> ui_events fp u1 es)"

subsection \<open>What the callbacks and the validation guarantee\<close>

lemma ui_print_result [simp]: "u_result (ui_print u s) = u_result u" "u_quiet (ui_print u s) = u_quiet u"
  by (simp_all add: ui_print_def)

lemma ui_progress_result:
  "u_result (ui_progress fp now u task st pos n w) = u_result u \<and> u_quiet (ui_progress fp now u task st pos n w) = u_quiet u"
  by (simp add: ui_progress_def ui_status_def Let_def)

lemma ui_error_result:
  "ui_error u task st r = Some u' \<Longrightarrow> u_result u' = (if st = TASK_SUCCESS then u_result u else 1) \<and> u_quiet u' = u_quiet u"
  by (auto simp: ui_error_def Let_def split: option.splits if_splits)

lemma ui_error_defined: "u_quiet u \<or> r \<noteq> None \<Longrightarrow> \<exists>u'. ui_error u task st r = Some u'"
  by (auto simp: ui_error_def Let_def)

fun event_fails :: "task_event \<Rightarrow> bool" where
  "event_fails (EvError st r) = (st \<noteq> TASK_SUCCESS)"
| "event_fails (EvProgress st pos n w) = False"

fun event_reason :: "task_event \<Rightarrow> bool" where
  "event_reason (EvError st r) = (r \<noteq> None)"
| "event_reason (EvProgress st pos n w) = True"

definition failed :: "(int \<times> Task \<times> task_event) list \<Rightarrow> bool" where
  "failed es = list_ex (\<lambda>(now, task, e). event_fails e) es"

definition reasons_given :: "(int \<times> Task \<times> task_event) list \<Rightarrow> bool" where
  "reasons_given es = list_all (\<lambda>(now, task, e). event_reason e) es"

text \<open>C20: The exit status is 1 exactly when some task reported an error other than the success
  message, however many events come before or after it; as long as every report has a reason, or
  with --quiet, the callbacks are defined for every sequence of events.\<close>

theorem exit_status:
  assumes "u_quiet u \<or> reasons_given es"
  shows "\<exists>u'. ui_events fp u es = Some u' \<and> u_result u' = (if failed es then 1 else u_result u)"
  using assms
proof (induction es arbitrary: u)
  case Nil
  show ?case by (simp add: failed_def)
next
  case (Cons ev es)
  obtain now task e where ev: "ev = (now, task, e)" by (rule prod_cases3)
  show ?case
  proof (cases e)
    case (EvProgress st pos n w)
    let ?u = "ui_progress fp now u task st pos n w"
    from Cons.prems have "u_quiet ?u \<or> reasons_given es"
      by (auto simp: ui_progress_result reasons_given_def)
    from Cons.IH [OF this] EvProgress show ?thesis
      by (auto simp: ev ui_event_def ui_progress_result failed_def)
  next
    case (EvError st r)
    with Cons.prems ev have "u_quiet u \<or> r \<noteq> None" by (auto simp: reasons_given_def)
    from ui_error_defined [OF this] obtain u1 where u1: "ui_error u task st r = Some u1" by blast
    with Cons.prems have "u_quiet u1 \<or> reasons_given es"
      by (auto simp: reasons_given_def dest: ui_error_result)
    from Cons.IH [OF this] EvError u1 show ?thesis
      by (auto simp: ev ui_event_def failed_def dest: ui_error_result)
  qed
qed

definition sample_doubles :: sprintf_doubles where
  "sample_doubles = \<lparr>fp_progress = (\<lambda>_ _ _ _ _. ''50%''), fp_ratio = (\<lambda>_ _. ''100'')\<rparr>"

definition sample_cli_task :: Task where
  "sample_cli_task = \<lparr>task_input = ''a.iso'', task_output = ''a.cso'', task_block_size = DEFAULT_BLOCK_SIZE,
     task_flags = 0, orig_max_cost_percent = (\<lambda>_. 0), lz4_max_cost_percent = (\<lambda>_. 0)\<rparr>"

definition sample_events :: "(int \<times> Task \<times> task_event) list" where
  "sample_events = [(1, sample_cli_task, EvError TASK_CANNOT_WRITE (Some ''disk full'')),
     (2, sample_cli_task, EvProgress TASK_SUCCESS 10 10 8)]"

theorem exit_status_witness:
  "\<exists>u'. ui_events sample_doubles (ui_new False default_args 0) sample_events = Some u' \<and> u_result u' = 1"
  using exit_status [of "ui_new False default_args 0" sample_events sample_doubles]
  by (simp add: reasons_given_def failed_def sample_events_def)

lemma add_outputs_fields:
  "a_inputs (add_outputs args is) = a_inputs args \<and> a_crc (add_outputs args is) = a_crc args
    \<and> a_measure (add_outputs args is) = a_measure args \<and> a_flags_fmt (add_outputs args is) = a_flags_fmt args
    \<and> take (length (a_outputs args)) (a_outputs (add_outputs args is)) = a_outputs args
    \<and> length (a_outputs args) \<le> length (a_outputs (add_outputs args is))"
proof (induction args "is" rule: add_outputs.induct)
  case (2 args input rest)
  show ?case
  proof (cases "auto_output args input")
    case None
    with 2 show ?thesis by simp
  next
    case (Some f)
    let ?a = "args\<lparr>a_outputs := a_outputs args @ [f]\<rparr>"
    from 2(2) [OF Some] have "take (length (a_outputs ?a)) (a_outputs (add_outputs ?a rest)) = a_outputs ?a" by simp
    then have "take (length (a_outputs args)) (take (length (a_outputs ?a)) (a_outputs (add_outputs ?a rest)))
        = take (length (a_outputs args)) (a_outputs ?a)" by (rule arg_cong)
    then have "take (length (a_outputs args)) (a_outputs (add_outputs ?a rest)) = a_outputs args"
      by (simp add: min_def)
    with 2(2) [OF Some] Some show ?thesis by simp
  qed
qed simp

lemma check_outputs_ok:
  assumes "check_outputs args = Inr args'"
  shows "a_inputs args' = a_inputs args \<and> a_crc args' = a_crc args \<and> a_measure args' = a_measure args
    \<and> a_flags_fmt args' = a_flags_fmt args \<and> take (length (a_outputs args)) (a_outputs args') = a_outputs args
    \<and> (if a_crc args' \<or> a_measure args' then a_outputs args' = [] else length (a_outputs args') = length (a_inputs args'))"
proof (cases "a_crc args \<or> a_measure args")
  case True
  with assms have "args' = args \<and> a_outputs args = []" by (simp add: check_outputs_def split: if_splits)
  with True show ?thesis by simp
next
  case False
  let ?a = "add_outputs args (drop (length (a_outputs args)) (a_inputs args))"
  from False assms have "args' = ?a \<and> length (a_inputs ?a) = length (a_outputs ?a)"
    by (simp only: check_outputs_def Let_def sum.simps split: if_splits)
  with False add_outputs_fields [of args "drop (length (a_outputs args)) (a_inputs args)"] show ?thesis by presburger
qed

lemma validate_args_checked:
  assumes "validate_args cpus arg0 args = PArgs args'"
  obtains a1 where "check_outputs (if a_threads args = 0 then args\<lparr>a_threads := cpus\<rparr> else args) = Inr a1"
    and "args' = a1\<lparr>a_flags_final := final_flags a1\<rparr>" and "a_inputs a1 \<noteq> []"
    and "has_flag (a_flags_fmt a1) TASKFLAG_FMT_DAX \<Longrightarrow>
      a_block_size a1 = DEFAULT_BLOCK_SIZE \<and> final_flags a1 AND deflate_flags \<noteq> deflate_flags"
proof (cases "check_outputs (if a_threads args = 0 then args\<lparr>a_threads := cpus\<rparr> else args)")
  case (Inl m)
  with assms show thesis by (simp add: validate_args_def Let_def)
next
  case (Inr a1)
  show thesis
  proof (rule that [OF Inr])
    note * = assms [unfolded validate_args_def Let_def Inr sum.case]
    from * show "args' = a1\<lparr>a_flags_final := final_flags a1\<rparr>" by (auto split: if_splits)
    from * show "a_inputs a1 \<noteq> []" by (auto split: if_splits)
    assume "has_flag (a_flags_fmt a1) TASKFLAG_FMT_DAX"
    with * show "a_block_size a1 = DEFAULT_BLOCK_SIZE \<and> final_flags a1 AND deflate_flags \<noteq> deflate_flags"
      by (auto split: if_splits)
  qed
qed

text \<open>C19: Arguments that pass \<open>validate_args\<close> describe tasks that can run: there is an input; with
  --crc and --measure there is no output, otherwise exactly one for each input, beginning with
  those the user named; and DAX has the default block size and some deflate method left.  This is
  the behaviour of the code: outputs named along with --crc or --measure are refused, and the checks of
  DAX apply to --crc as well, whereas the help, README.md and maxcso.1 say that --crc ignores output
  files and methods.\<close>

theorem validate_args_contract:
  assumes "validate_args cpus arg0 args = PArgs args'"
  shows "a_inputs args' = a_inputs args \<and> a_inputs args' \<noteq> []
    \<and> (if a_crc args \<or> a_measure args then a_outputs args' = [] else length (a_outputs args') = length (a_inputs args'))
    \<and> take (length (a_outputs args)) (a_outputs args') = a_outputs args
    \<and> (has_flag (a_flags_fmt args) TASKFLAG_FMT_DAX \<longrightarrow>
        a_block_size args' = DEFAULT_BLOCK_SIZE \<and> a_flags_final args' AND deflate_flags \<noteq> deflate_flags)"
proof -
  obtain a1 where a1: "check_outputs (if a_threads args = 0 then args\<lparr>a_threads := cpus\<rparr> else args) = Inr a1"
    "args' = a1\<lparr>a_flags_final := final_flags a1\<rparr>" "a_inputs a1 \<noteq> []"
    "has_flag (a_flags_fmt a1) TASKFLAG_FMT_DAX \<Longrightarrow>
      a_block_size a1 = DEFAULT_BLOCK_SIZE \<and> final_flags a1 AND deflate_flags \<noteq> deflate_flags"
    by (rule validate_args_checked [OF assms]) blast
  from check_outputs_ok [OF a1(1)] a1(2-4) show ?thesis by (cases "a_threads args = 0") simp_all
qed


definition sample_args :: Arguments where
  "sample_args = default_args\<lparr>a_inputs := [''a.iso'', ''b.ISO''], a_flags_fmt := TASKFLAG_FMT_DAX\<rparr>"

lemma sample_names:
  "map tolower (drop 1 ''a.iso'') = ''.iso''" "map tolower (drop 1 ''b.ISO'') = ''.iso''"
  by code_simp+

lemma sample_args_valid: "\<exists>args'. validate_args 4 ''maxcso'' sample_args = PArgs args' \<and> a_outputs args' = [''a.dax'', ''b.dax'']"
  by (simp add: sample_args_def validate_args_def check_outputs_def auto_output_def output_ext_def sample_names [simplified]
      default_args_def final_flags_def default_flags_def deflate_flags_def has_flag_def flag_defs Let_def)

theorem validate_args_contract_witness:
  "\<exists>args'. validate_args 4 ''maxcso'' sample_args = PArgs args' \<and> length (a_outputs args') = 2
    \<and> a_block_size args' = DEFAULT_BLOCK_SIZE"
proof -
  obtain args' where a: "validate_args 4 ''maxcso'' sample_args = PArgs args'"
    using sample_args_valid by blast
  from validate_args_contract [OF this] have "length (a_outputs args') = 2 \<and> a_block_size args' = DEFAULT_BLOCK_SIZE"
    by (simp add: sample_args_def default_args_def has_flag_def flag_defs)
  with a show ?thesis by blast
qed

end
