(* ===== verification/UVHelper.thy ===== *)
theory UVHelper
  imports Prelude
begin

section \<open>Callbacks behind libuv requests (src/uv_helper.h)\<close>

text \<open>
  A libuv request carries one pointer of user data.  \<open>UVHelper\<close> keeps the C++ callback of each
  request in a static table and passes a ticket, the table's key, as that pointer.  The tables
  are maps; the mutex makes each operation atomic.  A work request has two callbacks; the first
  is moved out when the job starts, which leaves an empty function behind, the entry goes when
  the second is taken.  \<open>at\<close> of a missing key throws: \<open>None\<close>.
\<close>

record ('f, 'w, 'a) uvhelper =
  nextTicket :: int
  fs_funcs :: "int \<rightharpoonup> 'f"
  work_funcs :: "int \<rightharpoonup> 'w option \<times> 'a"

definition uvhelper_init :: "('f, 'w, 'a) uvhelper" where
  "uvhelper_init = \<lparr>nextTicket = 0, fs_funcs = Map.empty, work_funcs = Map.empty\<rparr>"

text \<open>\<open>unordered_map::emplace\<close> keeps an entry that is there.\<close>

definition emplace :: "int \<Rightarrow> 'v \<Rightarrow> (int \<rightharpoonup> 'v) \<Rightarrow> (int \<rightharpoonup> 'v)" where
  "emplace k v m = (case m k of None \<Rightarrow> m(k \<mapsto> v) | Some _ \<Rightarrow> m)"

definition Freeze :: "('f, 'w, 'a) uvhelper \<Rightarrow> 'f \<Rightarrow> ('f, 'w, 'a) uvhelper \<times> int" where
  "Freeze h cb =
     (let ticket = nextTicket h + 1
      in (h\<lparr>nextTicket := ticket, fs_funcs := emplace ticket cb (fs_funcs h)\<rparr>, ticket))"

definition ThawFS :: "('f, 'w, 'a) uvhelper \<Rightarrow> int \<Rightarrow> ('f, 'w, 'a) uvhelper \<times> 'f option" where
  "ThawFS h ticket =
     (case fs_funcs h ticket of
        None \<Rightarrow> (h, None)
      | Some f \<Rightarrow> (h\<lparr>fs_funcs := (fs_funcs h)(ticket := None)\<rparr>, Some f))"

definition Freeze_work :: "('f, 'w, 'a) uvhelper \<Rightarrow> 'w \<Rightarrow> 'a \<Rightarrow> ('f, 'w, 'a) uvhelper \<times> int" where
  "Freeze_work h cb after =
     (let ticket = nextTicket h + 1
      in (h\<lparr>nextTicket := ticket, work_funcs := emplace ticket (Some cb, after) (work_funcs h)\<rparr>, ticket))"

text \<open>The outer option is \<open>at\<close>, the inner one the function moved out, empty the second time.\<close>

definition ThawWork :: "('f, 'w, 'a) uvhelper \<Rightarrow> int \<Rightarrow> ('f, 'w, 'a) uvhelper \<times> 'w option option" where
  "ThawWork h ticket =
     (case work_funcs h ticket of
        None \<Rightarrow> (h, None)
      | Some (f, after) \<Rightarrow> (h\<lparr>work_funcs := (work_funcs h)(ticket \<mapsto> (None, after))\<rparr>, Some f))"

definition ThawAfterWork :: "('f, 'w, 'a) uvhelper \<Rightarrow> int \<Rightarrow> ('f, 'w, 'a) uvhelper \<times> 'a option" where
  "ThawAfterWork h ticket =
     (case work_funcs h ticket of
        None \<Rightarrow> (h, None)
      | Some (_, after) \<Rightarrow> (h\<lparr>work_funcs := (work_funcs h)(ticket := None)\<rparr>, Some after))"

subsection \<open>The users of the static mutex\<close>

text \<open>
  Constructors and destructors count the instances; the mutex exists from the first
  constructor to the last destructor.
\<close>

record mutex_state =
  mutexInit :: int
  mutexLive :: bool

definition UVHelper_new :: "mutex_state \<Rightarrow> mutex_state" where
  "UVHelper_new s = (let s1 = s\<lparr>mutexInit := mutexInit s + 1\<rparr>
     in if mutexInit s1 = 1 then s1\<lparr>mutexLive := True\<rparr> else s1)"

definition UVHelper_delete :: "mutex_state \<Rightarrow> mutex_state" where
  "UVHelper_delete s = (let s1 = s\<lparr>mutexInit := mutexInit s - 1\<rparr>
     in if mutexInit s1 = 0 then s1\<lparr>mutexLive := False\<rparr> else s1)"

subsection \<open>Requests and completions\<close>

datatype ('f, 'w, 'a) uv_op = OpFs 'f | OpFsDone int | OpWork 'w 'a | OpWorkRuns int | OpWorkDone int

text \<open>One operation on the tables; \<open>uv_steps\<close> runs a sequence.\<close>

fun uv_step :: "('f, 'w, 'a) uvhelper \<Rightarrow> ('f, 'w, 'a) uv_op \<Rightarrow> ('f, 'w, 'a) uvhelper" where
  "uv_step h (OpFs cb) = fst (Freeze h cb)"
| "uv_step h (OpFsDone t) = fst (ThawFS h t)"
| "uv_step h (OpWork cb after) = fst (Freeze_work h cb after)"
| "uv_step h (OpWorkRuns t) = fst (ThawWork h t)"
| "uv_step h (OpWorkDone t) = fst (ThawAfterWork h t)"

definition uv_steps :: "('f, 'w, 'a) uvhelper \<Rightarrow> ('f, 'w, 'a) uv_op list \<Rightarrow> ('f, 'w, 'a) uvhelper" where
  "uv_steps = foldl uv_step"

text \<open>No key is ahead of the counter.\<close>

definition uv_inv :: "('f, 'w, 'a) uvhelper \<Rightarrow> bool" where
  "uv_inv h \<longleftrightarrow> (\<forall>k > nextTicket h. fs_funcs h k = None \<and> work_funcs h k = None)"

lemmas uv_defs = Freeze_def ThawFS_def Freeze_work_def ThawWork_def ThawAfterWork_def emplace_def Let_def

lemma uv_inv_init: "uv_inv uvhelper_init"
  by (simp add: uv_inv_def uvhelper_init_def)

lemma uv_inv_step: "uv_inv h \<Longrightarrow> uv_inv (uv_step h op)"
  by (cases op) (auto simp: uv_inv_def uv_defs split: option.splits)

lemma uv_inv_steps: "uv_inv h \<Longrightarrow> uv_inv (uv_steps h ops)"
  unfolding uv_steps_def by (induction ops arbitrary: h) (simp_all add: uv_inv_step)

subsection \<open>The contract of a ticket table\<close>

text \<open>
  \<open>held t v h\<close>: ticket \<open>t\<close> stands for \<open>v\<close>.  It does from the moment it is issued until an
  operation that takes it, \<open>takes t\<close>, and every new ticket is fresh.
\<close>

locale ticket_table =
  fixes inv :: "'s \<Rightarrow> bool"
    and step :: "'s \<Rightarrow> 'op \<Rightarrow> 's"
    and issue :: "'s \<Rightarrow> 'v \<Rightarrow> 's \<times> 't"
    and redeem :: "'s \<Rightarrow> 't \<Rightarrow> 's \<times> 'r option"
    and view :: "'v \<Rightarrow> 'r"
    and held :: "'t \<Rightarrow> 'v \<Rightarrow> 's \<Rightarrow> bool"
    and takes :: "'t \<Rightarrow> 'op \<Rightarrow> bool"
  assumes inv_step: "inv h \<Longrightarrow> inv (step h op)"
    and inv_issue: "inv h \<Longrightarrow> inv (fst (issue h v))"
    and issue_held: "inv h \<Longrightarrow> issue h v = (h', t) \<Longrightarrow> held t v h'"
    and held_step: "inv h \<Longrightarrow> held t v h \<Longrightarrow> \<not> takes t op \<Longrightarrow> held t v (step h op)"
    and redeem_held: "held t v h \<Longrightarrow> snd (redeem h t) = Some (view v)"
    and redeem_once: "held t v h \<Longrightarrow> snd (redeem (fst (redeem h t)) t) \<noteq> Some (view v)"
begin

lemma held_steps:
  "inv h \<Longrightarrow> held t v h \<Longrightarrow> \<forall>op \<in> set ops. \<not> takes t op \<Longrightarrow> held t v (foldl step h ops)"
  by (induction ops arbitrary: h) (simp_all add: inv_step held_step)

lemma issued_held:
  assumes "inv h" and "issue h v = (h', t)" and "\<forall>op \<in> set ops. \<not> takes t op"
  shows "held t v (foldl step h' ops)"
proof (rule held_steps)
  show "inv h'" using inv_issue [of h v] assms by simp
qed (use issue_held assms in auto)

lemma redeem_after:
  assumes "inv h" and "issue h v = (h', t)" and "\<forall>op \<in> set ops. \<not> takes t op"
  shows "snd (redeem (foldl step h' ops) t) = Some (view v)"
    and "snd (redeem (fst (redeem (foldl step h' ops) t)) t) \<noteq> Some (view v)"
  using issued_held [OF assms] by (auto dest: redeem_held redeem_once)

end

interpretation fs: ticket_table "uv_inv :: ('f, 'w, 'a) uvhelper \<Rightarrow> bool" uv_step Freeze ThawFS id
  "\<lambda>t v h. fs_funcs h t = Some v" "\<lambda>t op. op = OpFsDone t"
proof unfold_locales
  fix h :: "('f, 'w, 'a) uvhelper" and t v and op :: "('f, 'w, 'a) uv_op"
  assume "uv_inv h" "fs_funcs h t = Some v" "\<not> op = OpFsDone t"
  then show "fs_funcs (uv_step h op) t = Some v"
    by (cases op) (auto simp: uv_defs split: option.splits)
qed (simp add: uv_inv_step, (auto simp: uv_inv_def uv_defs split: option.splits)+)

definition issue_work :: "('f, 'w, 'a) uvhelper \<Rightarrow> 'w \<times> 'a \<Rightarrow> ('f, 'w, 'a) uvhelper \<times> int" where
  "issue_work h v = Freeze_work h (fst v) (snd v)"

interpretation job: ticket_table "uv_inv :: ('f, 'w, 'a) uvhelper \<Rightarrow> bool" uv_step issue_work ThawWork "\<lambda>v. Some (fst v)"
  "\<lambda>t v h. work_funcs h t = Some (Some (fst v), snd v)" "\<lambda>t op. op = OpWorkRuns t \<or> op = OpWorkDone t"
proof unfold_locales
  fix h :: "('f, 'w, 'a) uvhelper" and t v and op :: "('f, 'w, 'a) uv_op"
  assume "uv_inv h" "work_funcs h t = Some (Some (fst v), snd v)" "\<not> (op = OpWorkRuns t \<or> op = OpWorkDone t)"
  then show "work_funcs (uv_step h op) t = Some (Some (fst v), snd v)"
    by (cases op) (auto simp: uv_defs split: option.splits)
qed (simp add: uv_inv_step, (auto simp: uv_inv_def issue_work_def uv_defs split: option.splits)+)

interpretation after: ticket_table "uv_inv :: ('f, 'w, 'a) uvhelper \<Rightarrow> bool" uv_step issue_work ThawAfterWork snd
  "\<lambda>t v h. \<exists>f. work_funcs h t = Some (f, snd v)" "\<lambda>t op. op = OpWorkDone t"
proof unfold_locales
  fix h :: "('f, 'w, 'a) uvhelper" and t v and op :: "('f, 'w, 'a) uv_op"
  assume "uv_inv h" "\<exists>f. work_funcs h t = Some (f, snd v)" "\<not> op = OpWorkDone t"
  then show "\<exists>f. work_funcs (uv_step h op) t = Some (f, snd v)"
    by (cases op) (auto simp: uv_defs split: option.splits)
qed (simp add: uv_inv_step, (auto simp: uv_inv_def issue_work_def uv_defs split: option.splits)+)

subsection \<open>The mutex\<close>

fun mutex_run :: "mutex_state \<Rightarrow> bool list \<Rightarrow> mutex_state" where
  "mutex_run s [] = s"
| "mutex_run s (b # bs) = mutex_run (if b then UVHelper_new s else UVHelper_delete s) bs"

text \<open>Whether no destructor runs without its constructor, from \<open>n\<close> instances on.\<close>

fun balanced :: "nat \<Rightarrow> bool list \<Rightarrow> bool" where
  "balanced n [] = True"
| "balanced n (True # bs) = balanced (Suc n) bs"
| "balanced n (False # bs) = (case n of 0 \<Rightarrow> False | Suc m \<Rightarrow> balanced m bs)"

lemma mutex_run_live:
  "balanced n bs \<Longrightarrow> mutexInit s = int n \<Longrightarrow> mutexLive s = (0 < n) \<Longrightarrow>
     mutexInit (mutex_run s bs) = int n + int (count_list bs True) - int (count_list bs False)
     \<and> mutexLive (mutex_run s bs) = (count_list bs False < n + count_list bs True)"
proof (induction n bs arbitrary: s rule: balanced.induct)
  case (2 n bs)
  from "2.IH" [of "UVHelper_new s"] "2.prems" show ?case by (simp add: UVHelper_new_def Let_def)
next
  case (3 n bs)
  then obtain m where m: "n = Suc m" "balanced m bs" by (cases n) auto
  from "3.IH" [OF m, of "UVHelper_delete s"] "3.prems" m(1) show ?case
    by (simp add: UVHelper_delete_def Let_def)
qed simp

subsection \<open>Properties\<close>

text \<open>C26: The callback of a libuv file request is found again: whatever other requests start, run or
  complete in between, taking the ticket returns exactly the callback it was issued for, and
  taking it a second time does not.\<close>

theorem fs_callback_kept:
  assumes "uv_inv h" and "Freeze h cb = (h', t)" and "\<forall>op \<in> set ops. op \<noteq> OpFsDone t"
  shows "snd (ThawFS (uv_steps h' ops) t) = Some cb \<and> snd (ThawFS (fst (ThawFS (uv_steps h' ops) t)) t) \<noteq> Some cb"
  using fs.redeem_after [OF assms(1,2)] assms(3) by (auto simp: uv_steps_def)

definition sample_helper :: "(nat, nat, nat) uvhelper" where
  "sample_helper = uv_steps uvhelper_init [OpFs 5, OpWork 6 7]"

lemma sample_helper_inv: "uv_inv sample_helper"
  unfolding sample_helper_def by (rule uv_inv_steps [OF uv_inv_init])

lemma fs_callback_kept_witness:
  "snd (ThawFS (uv_steps (fst (Freeze sample_helper 8)) [OpFsDone 1, OpFs 9, OpWorkDone 2]) 3) = Some 8"
proof -
  have f: "Freeze sample_helper 8 = (fst (Freeze sample_helper 8), 3)"
    by (simp add: sample_helper_def uv_steps_def uvhelper_init_def uv_defs)
  show ?thesis using fs_callback_kept [OF sample_helper_inv f] by simp
qed

text \<open>C27: The two callbacks of a work request are found again: the job's function is there for the
  first start of the job, and the completion's function is there at the completion whether or not
  the job started, whatever other requests do in between.\<close>

theorem work_callbacks_kept:
  assumes "uv_inv h" and "Freeze_work h cb after = (h', t)"
    and "\<forall>op \<in> set ops. op \<noteq> OpWorkRuns t \<and> op \<noteq> OpWorkDone t" and "\<forall>op \<in> set ops'. op \<noteq> OpWorkDone t"
  shows "snd (ThawWork (uv_steps h' ops) t) = Some (Some cb) \<and> snd (ThawAfterWork (uv_steps h' ops') t) = Some after"
proof -
  have i: "issue_work h (cb, after) = (h', t)" using assms(2) by (simp add: issue_work_def)
  show ?thesis
    using job.redeem_after(1) [OF assms(1) i, of ops] after.redeem_after(1) [OF assms(1) i, of ops'] assms(3,4)
    by (simp add: uv_steps_def)
qed

lemma work_callbacks_kept_witness:
  "snd (ThawWork (uv_steps (fst (Freeze_work sample_helper 8 9)) [OpFsDone 1]) 3) = Some (Some 8)
   \<and> snd (ThawAfterWork (uv_steps (fst (Freeze_work sample_helper 8 9)) [OpWorkRuns 3, OpFs 4]) 3) = Some 9"
proof -
  have f: "Freeze_work sample_helper 8 9 = (fst (Freeze_work sample_helper 8 9), 3)"
    by (simp add: sample_helper_def uv_steps_def uvhelper_init_def uv_defs)
  show ?thesis
    using work_callbacks_kept [OF sample_helper_inv f, of "[OpFsDone 1]" "[OpWorkRuns 3, OpFs 4]"] by simp
qed

text \<open>C40: For every order of constructors (\<open>True\<close>) and destructors in which no more instances are
  destroyed than were made, the static mutex exists exactly while fewer destructors than constructors
  have run, that is while an instance of \<open>UVHelper\<close> is alive, and the counter is the number of
  instances.\<close>

theorem mutex_lives_with_instances:
  assumes "balanced 0 bs"
  shows "mutexLive (mutex_run \<lparr>mutexInit = 0, mutexLive = False\<rparr> bs) = (count_list bs False < count_list bs True)
    \<and> mutexInit (mutex_run \<lparr>mutexInit = 0, mutexLive = False\<rparr> bs)
      = int (count_list bs True) - int (count_list bs False)"
  using mutex_run_live [OF assms, of "\<lparr>mutexInit = 0, mutexLive = False\<rparr>"] by simp

lemma mutex_lives_with_instances_witness:
  "mutexLive (mutex_run \<lparr>mutexInit = 0, mutexLive = False\<rparr> [True, True, False])
    \<and> \<not> mutexLive (mutex_run \<lparr>mutexInit = 0, mutexLive = False\<rparr> [True, True, False, False])"
  using mutex_lives_with_instances [of "[True, True, False]"] mutex_lives_with_instances [of "[True, True, False, False]"]
  by simp

end
