(* ===== verification/ZopfliHash.thy ===== *)
theory ZopfliHash
  imports Prelude
begin

section \<open>The hash chains of the match finder (src/zopfli: hash.c, hash.h)\<close>

text \<open>
  \<open>ZopfliHash\<close> holds two sets of chains, for the hash of three bytes and for the hash that also
  takes the run of equal bytes into account; both sets have the same four fields and are a
  \<open>hchain\<close> each.  The arrays are functions of their index; what \<open>malloc\<close> leaves in them is the
  value they had before.  \<open>unsigned short\<close> values are natural numbers; the invariant shows that
  they stay in range.  The build options of util.h are those of the repository: \<open>ZOPFLI_HASH_SAME\<close>
  and \<open>ZOPFLI_HASH_SAME_HASH\<close> are on.
\<close>

definition ZOPFLI_MAX_MATCH :: nat where "ZOPFLI_MAX_MATCH = 258"
definition ZOPFLI_MIN_MATCH :: nat where "ZOPFLI_MIN_MATCH = 3"
definition ZOPFLI_WINDOW_SIZE :: nat where "ZOPFLI_WINDOW_SIZE = 32768"
definition ZOPFLI_WINDOW_MASK :: nat where "ZOPFLI_WINDOW_MASK = ZOPFLI_WINDOW_SIZE - 1"
definition HASH_SHIFT :: nat where "HASH_SHIFT = 5"
definition HASH_MASK :: int where "HASH_MASK = 32767"

lemmas match_bounds = ZOPFLI_MAX_MATCH_def ZOPFLI_MIN_MATCH_def

record hchain =
  hc_head :: "int \<Rightarrow> int"
  hc_prev :: "nat \<Rightarrow> nat"
  hc_hashval :: "nat \<Rightarrow> int"
  hc_val :: int

record zhash =
  h_chain :: hchain
  h_chain2 :: hchain
  h_same :: "nat \<Rightarrow> nat"

subsection \<open>Operations\<close>

definition reset_chain :: "hchain \<Rightarrow> hchain" where
  "reset_chain c = c\<lparr>hc_val := 0, hc_head := (\<lambda>_. -1), hc_prev := (\<lambda>i. i)\<rparr>"

definition ZopfliResetHash :: "zhash \<Rightarrow> zhash" where
  "ZopfliResetHash h = h\<lparr>h_chain := reset_chain (h_chain h), h_same := (\<lambda>_. 0), h_chain2 := reset_chain (h_chain2 h)\<rparr>"

definition UpdateHashValue :: "zhash \<Rightarrow> u8 \<Rightarrow> zhash" where
  "UpdateHashValue h c =
     h\<lparr>h_chain := (h_chain h)\<lparr>hc_val := (push_bit HASH_SHIFT (hc_val (h_chain h)) XOR uint c) AND HASH_MASK\<rparr>\<rparr>"

text \<open>The entry of a position: its hash value, its predecessor, and the head of its chain.\<close>

definition chain_insert :: "nat \<Rightarrow> hchain \<Rightarrow> hchain" where
  "chain_insert hpos c =
     (let val = hc_val c;
          hashval = (hc_hashval c)(hpos := val)
      in c\<lparr>hc_hashval := hashval,
           hc_prev := (hc_prev c)(hpos :=
             (if hc_head c val \<noteq> -1 \<and> hashval (nat (hc_head c val)) = val then nat (hc_head c val) else hpos)),
           hc_head := (hc_head c)(val := int hpos)\<rparr>)"

text \<open>\<open>pos & ZOPFLI_WINDOW_MASK\<close>, and \<open>(pos - 1) & ZOPFLI_WINDOW_MASK\<close>, which wraps at 0.\<close>

definition wslot :: "nat \<Rightarrow> nat" where
  "wslot pos = pos AND ZOPFLI_WINDOW_MASK"

definition wslot_before :: "nat \<Rightarrow> nat" where
  "wslot_before pos = wslot (if pos = 0 then 2 ^ 64 - 1 else pos - 1)"

function same_loop :: "u8 list \<Rightarrow> nat \<Rightarrow> nat \<Rightarrow> nat \<Rightarrow> nat" where
  "same_loop a pos end amount =
     (if pos + amount + 1 < end \<and> a ! pos = a ! (pos + amount + 1) \<and> amount < 65535
      then same_loop a pos end (amount + 1) else amount)"
  by pat_completeness auto
termination by (relation "measure (\<lambda>(a, pos, end, amount). end - amount)") auto

declare same_loop.simps [simp del]

definition update_same :: "u8 list \<Rightarrow> nat \<Rightarrow> nat \<Rightarrow> zhash \<Rightarrow> zhash" where
  "update_same a pos end h =
     (let before = h_same h (wslot_before pos);
          amount = (if before > 1 then before - 1 else 0)
      in h\<lparr>h_same := (h_same h)(wslot pos := same_loop a pos end amount)\<rparr>)"

definition ZopfliUpdateHash :: "u8 list \<Rightarrow> nat \<Rightarrow> nat \<Rightarrow> zhash \<Rightarrow> zhash" where
  "ZopfliUpdateHash a pos end h =
     (let hpos = wslot pos;
          h = UpdateHashValue h (if pos + ZOPFLI_MIN_MATCH \<le> end then a ! (pos + ZOPFLI_MIN_MATCH - 1) else 0);
          h = h\<lparr>h_chain := chain_insert hpos (h_chain h)\<rparr>;
          h = update_same a pos end h;
          val2 = ((int (h_same h hpos) - int ZOPFLI_MIN_MATCH) AND 255) XOR hc_val (h_chain h)
      in h\<lparr>h_chain2 := chain_insert hpos ((h_chain2 h)\<lparr>hc_val := val2\<rparr>)\<rparr>)"

definition ZopfliWarmupHash :: "u8 list \<Rightarrow> nat \<Rightarrow> nat \<Rightarrow> zhash \<Rightarrow> zhash" where
  "ZopfliWarmupHash a pos end h =
     (let h = UpdateHashValue h (a ! pos)
      in if pos + 1 < end then UpdateHashValue h (a ! (pos + 1)) else h)"

text \<open>The loops that enter a range of positions.\<close>

fun update_range :: "u8 list \<Rightarrow> nat \<Rightarrow> nat \<Rightarrow> nat \<Rightarrow> zhash \<Rightarrow> zhash" where
  "update_range a pos end 0 h = h"
| "update_range a pos end (Suc n) h = update_range a (Suc pos) end n (ZopfliUpdateHash a pos end h)"

subsection \<open>Slots of the window\<close>

lemma wslot_mod: "wslot pos = pos mod 32768"
  using take_bit_eq_mask [of 15 pos] by (simp add: wslot_def ZOPFLI_WINDOW_MASK_def ZOPFLI_WINDOW_SIZE_def
      mask_eq_exp_minus_1 take_bit_eq_mod)

lemma wslot_less: "wslot pos < 32768"
  by (simp add: wslot_mod)

lemma wslot_eq_iff:
  assumes "x < y + 32768" "y < x + 32768"
  shows "wslot x = wslot y \<longleftrightarrow> x = y"
proof
  assume *: "wslot x = wslot y"
  show "x = y"
  proof (cases x y rule: linorder_cases)
    case less
    with * have "32768 dvd y - x" using mod_eq_dvd_iff_nat [of x y 32768] by (simp add: wslot_mod)
    with less assms show ?thesis by (auto dest: dvd_imp_le)
  next
    case greater
    with * have "32768 dvd x - y" using mod_eq_dvd_iff_nat [of y x 32768] by (simp add: wslot_mod)
    with greater assms show ?thesis by (auto dest: dvd_imp_le)
  qed
qed simp

lemma wslot_before_Suc: "wslot_before (Suc n) = wslot n"
  by (simp add: wslot_before_def)

text \<open>The latest position before \<open>n\<close> with the slot of \<open>y\<close>.\<close>

lemma wslot_recent:
  assumes "y < n"
  obtains y' where "y \<le> y'" "y' < n" "n \<le> y' + 32768" "wslot y' = wslot y"
proof
  let ?y = "y + 32768 * ((n - 1 - y) div 32768)"
  have e: "32768 * ((n - 1 - y) div 32768) + (n - 1 - y) mod 32768 = n - 1 - y" by simp
  have m: "(n - 1 - y) mod 32768 < 32768" by simp
  show "y \<le> ?y" by simp
  show "?y < n" using e assms by linarith
  show "n \<le> ?y + 32768" using e m assms by linarith
  show "wslot ?y = wslot y" by (simp add: wslot_mod)
qed

subsection \<open>The invariant of the chains\<close>

text \<open>
  The positions from \<open>ws\<close> up to, not including, \<open>n\<close> are entered.  The entries of the last 32768 of
  them are in place: the predecessor of a position is the position itself (there is none) or
  an earlier one less than a window before it, with the same hash value unless it has left the window.
\<close>

definition chain_link :: "nat \<Rightarrow> nat \<Rightarrow> hchain \<Rightarrow> nat \<Rightarrow> bool" where
  "chain_link ws n c x \<longleftrightarrow> hc_prev c (wslot x) = wslot x
     \<or> (\<exists>y. ws \<le> y \<and> y < x \<and> x < y + 32768 \<and> hc_prev c (wslot x) = wslot y
          \<and> (n \<le> y + 32768 \<longrightarrow> hc_hashval c (wslot y) = hc_hashval c (wslot x)))"

definition chain_ok :: "nat \<Rightarrow> nat \<Rightarrow> hchain \<Rightarrow> bool" where
  "chain_ok ws n c \<longleftrightarrow>
     (\<forall>v. hc_head c v = -1 \<or> (\<exists>y. ws \<le> y \<and> y < n \<and> hc_head c v = int (wslot y)))
     \<and> (\<forall>x. ws \<le> x \<longrightarrow> x < n \<longrightarrow> n \<le> x + 32768 \<longrightarrow> chain_link ws n c x)"

text \<open>The position entered last heads its chain.\<close>

definition chain_at :: "nat \<Rightarrow> hchain \<Rightarrow> bool" where
  "chain_at pos c \<longleftrightarrow> hc_head c (hc_val c) = int (wslot pos) \<and> hc_hashval c (wslot pos) = hc_val c
     \<and> 0 \<le> hc_val c \<and> hc_val c < 65536"

lemma chain_ok_reset: "chain_ok n n (reset_chain c)"
  by (simp add: chain_ok_def reset_chain_def)

lemma chain_ok_val [simp]: "chain_ok ws n (c\<lparr>hc_val := v\<rparr>) = chain_ok ws n c"
  by (simp add: chain_ok_def chain_link_def)

lemma chain_insert_slot:
  "hc_hashval (chain_insert i c) = (hc_hashval c)(i := hc_val c)"
  "hc_val (chain_insert i c) = hc_val c"
  "s \<noteq> i \<Longrightarrow> hc_prev (chain_insert i c) s = hc_prev c s"
  by (simp_all add: chain_insert_def Let_def)

lemma chain_link_new:
  assumes ok: "chain_ok ws n c" and "ws \<le> n"
  shows "chain_link ws (Suc n) (chain_insert (wslot n) c) n"
proof (cases "hc_head c (hc_val c) \<noteq> -1 \<and> ((hc_hashval c)(wslot n := hc_val c)) (nat (hc_head c (hc_val c))) = hc_val c")
  case False
  then have "hc_prev (chain_insert (wslot n) c) (wslot n) = wslot n"
    unfolding chain_insert_def Let_def by (subst if_not_P) simp_all
  then show ?thesis by (simp add: chain_link_def)
next
  case True
  with ok obtain y where y: "ws \<le> y" "y < n" "hc_head c (hc_val c) = int (wslot y)"
    by (auto simp: chain_ok_def)
  obtain z where z: "y \<le> z" "z < n" "n \<le> z + 32768" "wslot z = wslot y" by (rule wslot_recent [OF y(2)])
  from True y z have prev: "hc_prev (chain_insert (wslot n) c) (wslot n) = wslot z"
    unfolding chain_insert_def Let_def by (subst if_P) simp_all
  show ?thesis
  proof (cases "wslot z = wslot n")
    case True
    with prev show ?thesis by (simp add: chain_link_def)
  next
    case False
    then have "n \<noteq> z + 32768" by (auto simp: wslot_mod)
    moreover from True y z False have "hc_hashval c (wslot z) = hc_val c" by simp
    ultimately show ?thesis
      using prev y z False unfolding chain_link_def
      by (intro disjI2 exI [of _ z]) (simp add: chain_insert_slot)
  qed
qed

lemma chain_link_old:
  assumes "chain_link ws n c x" "ws \<le> x" "x < n" "Suc n \<le> x + 32768"
  shows "chain_link ws (Suc n) (chain_insert (wslot n) c) x"
proof -
  have x: "wslot x \<noteq> wslot n" using assms wslot_eq_iff [of x n] by auto
  from assms(1) consider "hc_prev c (wslot x) = wslot x"
    | y where "ws \<le> y" "y < x" "x < y + 32768" "hc_prev c (wslot x) = wslot y"
        "n \<le> y + 32768 \<longrightarrow> hc_hashval c (wslot y) = hc_hashval c (wslot x)"
    unfolding chain_link_def by blast
  then show ?thesis
  proof cases
    case 1
    with x show ?thesis by (simp add: chain_link_def chain_insert_slot)
  next
    case 2
    have "wslot y \<noteq> wslot n" if "Suc n \<le> y + 32768" using that 2 assms wslot_eq_iff [of y n] by auto
    with 2 x show ?thesis
      unfolding chain_link_def by (intro disjI2 exI [of _ y]) (simp add: chain_insert_slot)
  qed
qed

lemma chain_ok_insert:
  assumes ok: "chain_ok ws n c" and "ws \<le> n"
  shows "chain_ok ws (Suc n) (chain_insert (wslot n) c)"
proof -
  have "hc_head (chain_insert (wslot n) c) v = -1
      \<or> (\<exists>y. ws \<le> y \<and> y < Suc n \<and> hc_head (chain_insert (wslot n) c) v = int (wslot y))" for v
  proof (cases "v = hc_val c")
    case True
    with \<open>ws \<le> n\<close> show ?thesis by (auto simp: chain_insert_def Let_def)
  next
    case False
    then have "hc_head (chain_insert (wslot n) c) v = hc_head c v" by (simp add: chain_insert_def Let_def)
    with ok show ?thesis unfolding chain_ok_def by (metis less_SucI)
  qed
  moreover have "chain_link ws (Suc n) (chain_insert (wslot n) c) x"
    if "ws \<le> x" "x < Suc n" "Suc n \<le> x + 32768" for x
  proof (cases "x = n")
    case True
    with chain_link_new [OF ok \<open>ws \<le> n\<close>] show ?thesis by simp
  next
    case False
    with that ok have "chain_link ws n c x" by (auto simp: chain_ok_def)
    from chain_link_old [OF this] that False show ?thesis by simp
  qed
  ultimately show ?thesis by (simp add: chain_ok_def)
qed

lemma chain_at_insert: "0 \<le> hc_val c \<Longrightarrow> hc_val c < 65536 \<Longrightarrow> chain_at n (chain_insert (wslot n) c)"
  by (simp add: chain_at_def chain_insert_def Let_def)

subsection \<open>Runs of equal bytes\<close>

definition run :: "u8 list \<Rightarrow> nat \<Rightarrow> nat \<Rightarrow> nat \<Rightarrow> bool" where
  "run a end x m \<longleftrightarrow> x + m < end \<and> (\<forall>j \<le> m. a ! (x + j) = a ! x)"

definition same_ok :: "u8 list \<Rightarrow> nat \<Rightarrow> nat \<Rightarrow> nat \<Rightarrow> (nat \<Rightarrow> nat) \<Rightarrow> bool" where
  "same_ok a end ws n s \<longleftrightarrow> (n = ws \<longrightarrow> s = (\<lambda>_. 0))
     \<and> (\<forall>x. ws \<le> x \<longrightarrow> x < n \<longrightarrow> n \<le> x + 32768 \<longrightarrow> s (wslot x) \<le> 65535 \<and> run a end x (s (wslot x)))"

lemma run_loop:
  assumes "run a end x m" "m \<le> 65535"
  shows "run a end x (same_loop a x end m) \<and> same_loop a x end m \<le> 65535"
  using assms
proof (induction a x "end" m rule: same_loop.induct)
  case (1 a x "end" m)
  show ?case
  proof (cases "x + m + 1 < end \<and> a ! x = a ! (x + m + 1) \<and> m < 65535")
    case True
    with 1(2) have "run a end x (m + 1)" by (auto simp: run_def le_Suc_eq)
    have "same_loop a x end m = same_loop a x end (m + 1)" using True by (subst same_loop.simps) simp
    with 1(1) [OF True] True \<open>run a end x (m + 1)\<close> show ?thesis by simp
  next
    case False
    then have "same_loop a x end m = m" by (subst same_loop.simps) (rule if_not_P)
    with 1(2,3) show ?thesis by simp
  qed
qed

lemma run_next: "run a end x m \<Longrightarrow> run a end (Suc x) (m - 1)" if "1 < m"
proof -
  assume r: "run a end x m"
  have "a ! (Suc x + j) = a ! Suc x" if "j \<le> m - 1" for j
  proof -
    from that \<open>1 < m\<close> have "Suc j \<le> m" "1 \<le> m" by simp_all
    with r have "a ! (x + Suc j) = a ! x" "a ! (x + 1) = a ! x" unfolding run_def by blast+
    then show ?thesis by simp
  qed
  with r \<open>1 < m\<close> show ?thesis by (simp add: run_def)
qed

lemma same_ok_update:
  assumes ok: "same_ok a end ws n (h_same h)" and "ws \<le> n" "n < end"
  shows "same_ok a end ws (Suc n) (h_same (update_same a n end h))"
proof -
  let ?b = "h_same h (wslot_before n)"
  let ?m = "if ?b > 1 then ?b - 1 else 0"
  have m: "run a end n ?m \<and> ?m \<le> 65535"
  proof (cases "n = ws \<or> ?b \<le> 1")
    case True
    with ok have "?m = 0" by (auto simp: same_ok_def)
    with \<open>n < end\<close> show ?thesis by (simp add: run_def)
  next
    case False
    with \<open>ws \<le> n\<close> obtain x where n: "n = Suc x" "ws \<le> x" by (cases n) auto
    with ok have "run a end x ?b \<and> ?b \<le> 65535" by (auto simp: same_ok_def wslot_before_Suc)
    with False n run_next [of ?b a "end" x] show ?thesis by auto
  qed
  have new: "run a end n (same_loop a n end ?m) \<and> same_loop a n end ?m \<le> 65535"
    using run_loop m by blast
  have "h_same (update_same a n end h) (wslot x) \<le> 65535 \<and> run a end x (h_same (update_same a n end h) (wslot x))"
    if x: "ws \<le> x" "x < Suc n" "Suc n \<le> x + 32768" for x
  proof (cases "x = n")
    case True
    with new show ?thesis by (simp add: update_same_def Let_def)
  next
    case False
    with x wslot_eq_iff [of x n] have "wslot x \<noteq> wslot n" by auto
    with False x ok show ?thesis by (simp add: update_same_def Let_def same_ok_def)
  qed
  with \<open>ws \<le> n\<close> show ?thesis by (simp add: same_ok_def)
qed

subsection \<open>The invariant of the whole hash\<close>

text \<open>The positions from \<open>ws\<close> to \<open>n - 1\<close> are entered; \<open>hash_at\<close>: and \<open>pos\<close> was the last.\<close>

definition hash_ok :: "u8 list \<Rightarrow> nat \<Rightarrow> nat \<Rightarrow> nat \<Rightarrow> zhash \<Rightarrow> bool" where
  "hash_ok a end ws n h \<longleftrightarrow> chain_ok ws n (h_chain h) \<and> chain_ok ws n (h_chain2 h) \<and> same_ok a end ws n (h_same h)"

definition hash_at :: "u8 list \<Rightarrow> nat \<Rightarrow> nat \<Rightarrow> nat \<Rightarrow> zhash \<Rightarrow> bool" where
  "hash_at a end ws pos h \<longleftrightarrow> hash_ok a end ws (Suc pos) h \<and> ws \<le> pos \<and> pos < end
     \<and> chain_at pos (h_chain h) \<and> chain_at pos (h_chain2 h)"

lemma hash_ok_reset: "hash_ok a end n n (ZopfliResetHash h)"
  by (simp add: hash_ok_def ZopfliResetHash_def chain_ok_reset same_ok_def)

lemma UpdateHashValue_fields:
  "h_chain2 (UpdateHashValue h c) = h_chain2 h \<and> h_same (UpdateHashValue h c) = h_same h
    \<and> (\<exists>v. 0 \<le> v \<and> v < 32768 \<and> h_chain (UpdateHashValue h c) = (h_chain h)\<lparr>hc_val := v\<rparr>)"
proof -
  let ?v = "(push_bit HASH_SHIFT (hc_val (h_chain h)) XOR uint c) AND HASH_MASK"
  have "HASH_MASK = mask 15" by (simp add: HASH_MASK_def mask_eq_exp_minus_1)
  then have "?v = take_bit 15 (push_bit HASH_SHIFT (hc_val (h_chain h)) XOR uint c)"
    by (simp add: take_bit_eq_mask)
  then have "0 \<le> ?v" "?v < 32768" by (simp_all add: take_bit_eq_mod)
  then show ?thesis by (intro conjI exI [of _ ?v]) (simp_all add: UpdateHashValue_def)
qed

lemma hash_ok_warmup: "hash_ok a end ws n h \<Longrightarrow> hash_ok a end ws n (ZopfliWarmupHash a pos end' h)"
  using UpdateHashValue_fields [of h "a ! pos"]
    UpdateHashValue_fields [of "UpdateHashValue h (a ! pos)" "a ! (pos + 1)"]
  by (auto simp: hash_ok_def ZopfliWarmupHash_def Let_def)

lemma hash_update:
  assumes ok: "hash_ok a end ws n h" and "ws \<le> n" "n < end"
  shows "hash_at a end ws n (ZopfliUpdateHash a n end h)"
proof -
  let ?h1 = "UpdateHashValue h (if n + ZOPFLI_MIN_MATCH \<le> end then a ! (n + ZOPFLI_MIN_MATCH - 1) else 0)"
  let ?c = "chain_insert (wslot n) (h_chain ?h1)"
  let ?h2 = "update_same a n end (?h1\<lparr>h_chain := ?c\<rparr>)"
  let ?w = "(int (h_same ?h2 (wslot n)) - int ZOPFLI_MIN_MATCH) AND 255"
  let ?v = "?w XOR hc_val ?c"
  obtain v where v: "0 \<le> v" "v < 32768" "h_chain ?h1 = (h_chain h)\<lparr>hc_val := v\<rparr>"
    "h_chain2 ?h1 = h_chain2 h" "h_same ?h1 = h_same h"
    using UpdateHashValue_fields by blast
  have c: "chain_ok ws (Suc n) ?c \<and> chain_at n ?c"
    using ok v \<open>ws \<le> n\<close> by (simp add: hash_ok_def chain_ok_insert chain_at_insert)
  have "?w = take_bit 8 (int (h_same ?h2 (wslot n)) - int ZOPFLI_MIN_MATCH)"
    by (simp add: take_bit_eq_mask mask_eq_exp_minus_1)
  then have "0 \<le> ?w" "?w < 256" by (simp_all add: take_bit_eq_mod)
  then have "0 \<le> ?v \<and> ?v < 2 ^ 15"
    using v XOR_upper [of ?w 15 v] by (simp add: chain_insert_slot)
  then have val2: "0 \<le> ?v \<and> ?v < 65536" by simp
  have "ZopfliUpdateHash a n end h = ?h2\<lparr>h_chain2 := chain_insert (wslot n) ((h_chain2 h)\<lparr>hc_val := ?v\<rparr>)\<rparr>"
    using v by (simp add: ZopfliUpdateHash_def update_same_def Let_def)
  moreover have "same_ok a end ws (Suc n) (h_same ?h2)"
    using ok v assms(2,3) by (simp add: hash_ok_def same_ok_update)
  moreover have "h_chain ?h2 = ?c" by (simp add: update_same_def Let_def)
  ultimately show ?thesis
    using c val2 ok \<open>ws \<le> n\<close> \<open>n < end\<close>
    by (simp add: hash_at_def hash_ok_def chain_ok_insert chain_at_insert)
qed

lemma hash_at_ok: "hash_at a end ws pos h \<Longrightarrow> hash_ok a end ws (Suc pos) h"
  by (simp add: hash_at_def)

lemma update_range_ok:
  "hash_ok a end ws pos h \<Longrightarrow> ws \<le> pos \<Longrightarrow> pos + n \<le> end \<Longrightarrow> hash_ok a end ws (pos + n) (update_range a pos end n h)"
proof (induction n arbitrary: pos h)
  case (Suc n)
  from Suc.prems have "hash_ok a end ws (Suc pos) (ZopfliUpdateHash a pos end h)"
    by (intro hash_at_ok hash_update) simp_all
  with Suc.IH [of "Suc pos"] Suc.prems show ?case by simp
qed simp

end
