(* ===== verification/ZopfliCache.thy ===== *)
theory ZopfliCache
  imports ZopfliHash
begin

section \<open>The cache of longest matches (src/zopfli: cache.c, cache.h)\<close>

text \<open>
  For each position of a block, the longest match found there and, in 24 bytes, the distances
  found for its shorter lengths (\<open>sublen\<close>): up to eight triples of a length, minus 3, and the
  distance for all lengths from the previous triple's on.  The first byte of the last triple is
  the longest length stored.  The arrays are functions of their index, \<open>unsigned char\<close> values
  natural numbers below 256.  A failed assertion is \<open>None\<close>.
\<close>

definition ZOPFLI_CACHE_LENGTH :: nat where "ZOPFLI_CACHE_LENGTH = 8"

record lmcache =
  lmc_length :: "nat \<Rightarrow> nat"
  lmc_dist :: "nat \<Rightarrow> nat"
  lmc_sublen :: "nat \<Rightarrow> nat"

definition ZopfliInitCache :: "nat \<Rightarrow> lmcache \<Rightarrow> lmcache" where
  "ZopfliInitCache blocksize c = \<lparr>
     lmc_length = (\<lambda>i. if i < blocksize then 1 else lmc_length c i),
     lmc_dist = (\<lambda>i. if i < blocksize then 0 else lmc_dist c i),
     lmc_sublen = (\<lambda>i. if i < ZOPFLI_CACHE_LENGTH * blocksize * 3 then 0 else lmc_sublen c i)\<rparr>"

definition cache_base :: "nat \<Rightarrow> nat" where
  "cache_base pos = ZOPFLI_CACHE_LENGTH * pos * 3"

definition ZopfliMaxCachedSublen :: "lmcache \<Rightarrow> nat \<Rightarrow> nat" where
  "ZopfliMaxCachedSublen c pos =
     (let cache = \<lambda>k. lmc_sublen c (cache_base pos + k)
      in if cache 1 = 0 \<and> cache 2 = 0 then 0 else cache ((ZOPFLI_CACHE_LENGTH - 1) * 3) + 3)"

text \<open>Writing: the loop over the lengths, with the number of triples and the longest length.\<close>

definition put_triple :: "nat \<Rightarrow> nat \<Rightarrow> nat \<Rightarrow> (nat \<Rightarrow> nat) \<Rightarrow> nat \<Rightarrow> nat" where
  "put_triple i d at m = m(at := (i - 3) mod 256, at + 1 := d mod 256, at + 2 := d div 256 mod 256)"

function sublen_loop :: "(nat \<Rightarrow> nat) \<Rightarrow> nat \<Rightarrow> nat \<Rightarrow> nat \<Rightarrow> nat \<Rightarrow> nat \<Rightarrow> (nat \<Rightarrow> nat) \<Rightarrow> nat \<times> nat \<times> (nat \<Rightarrow> nat)" where
  "sublen_loop sublen base len i j bestlength m =
     (if i \<le> len then
        if i = len \<or> sublen i \<noteq> sublen (i + 1) then
          let m = put_triple i (sublen i) (base + j * 3) m
          in if j + 1 \<ge> ZOPFLI_CACHE_LENGTH then (j + 1, i, m)
             else sublen_loop sublen base len (i + 1) (j + 1) i m
        else sublen_loop sublen base len (i + 1) j bestlength m
      else (j, bestlength, m))"
  by pat_completeness auto
termination by (relation "measure (\<lambda>(sublen, base, len, i, j, bestlength, m). Suc len - i)") auto

declare sublen_loop.simps [simp del]

definition ZopfliSublenToCache :: "(nat \<Rightarrow> nat) \<Rightarrow> nat \<Rightarrow> nat \<Rightarrow> lmcache \<Rightarrow> lmcache option" where
  "ZopfliSublenToCache sublen pos len c =
     (if len < 3 then Some c
      else
        let base = cache_base pos;
            (j, bestlength, m) = sublen_loop sublen base len 3 0 0 (lmc_sublen c)
        in if (if j < ZOPFLI_CACHE_LENGTH then bestlength \<noteq> len else bestlength > len) then None
           else
             let m = (if j < ZOPFLI_CACHE_LENGTH then m(base + (ZOPFLI_CACHE_LENGTH - 1) * 3 := (bestlength - 3) mod 256) else m);
                 c = c\<lparr>lmc_sublen := m\<rparr>
             in if bestlength = ZopfliMaxCachedSublen c pos then Some c else None)"

text \<open>Reading: \<open>n\<close> triples are left, the next is \<open>j\<close>.\<close>

fun cache_loop :: "(nat \<Rightarrow> nat) \<Rightarrow> nat \<Rightarrow> nat \<Rightarrow> nat \<Rightarrow> nat \<Rightarrow> nat \<Rightarrow> (nat \<Rightarrow> nat) \<Rightarrow> nat \<Rightarrow> nat" where
  "cache_loop m base maxlength 0 j prevlength sublen = sublen"
| "cache_loop m base maxlength (Suc n) j prevlength sublen =
     (let len = m (base + j * 3) + 3;
          dist = m (base + j * 3 + 1) + 256 * m (base + j * 3 + 2);
          sublen = (\<lambda>i. if prevlength \<le> i \<and> i \<le> len then dist else sublen i)
      in if len = maxlength then sublen else cache_loop m base maxlength n (j + 1) (len + 1) sublen)"

definition ZopfliCacheToSublen :: "lmcache \<Rightarrow> nat \<Rightarrow> nat \<Rightarrow> (nat \<Rightarrow> nat) \<Rightarrow> nat \<Rightarrow> nat" where
  "ZopfliCacheToSublen c pos len sublen =
     (if len < 3 then sublen
      else cache_loop (lmc_sublen c) (cache_base pos) (ZopfliMaxCachedSublen c pos) ZOPFLI_CACHE_LENGTH 0 0 sublen)"

subsection \<open>Reading what was written\<close>

lemma put_triple_other: "x < at \<or> at + 2 < x \<Longrightarrow> put_triple i d at m x = m x"
  by (auto simp: put_triple_def)

lemma put_triple_read:
  assumes "3 \<le> i" "i \<le> 258" "d < 65536"
  shows "put_triple i d at m at + 3 = i" "put_triple i d at m (at + 1) + 256 * put_triple i d at m (at + 2) = d"
proof -
  show "put_triple i d at m at + 3 = i" using assms by (simp add: put_triple_def)
  have "d div 256 < 256" using assms(3) by (simp add: less_mult_imp_div_less)
  then show "put_triple i d at m (at + 1) + 256 * put_triple i d at m (at + 2) = d"
    by (simp add: put_triple_def)
qed

text \<open>
  The triples from \<open>j\<close> to \<open>j' - 1\<close> in \<open>m'\<close> give the distances back up to the length \<open>best'\<close>, if the
  reader is in the run of equal distances the length \<open>i\<close> belongs to.
\<close>

definition reads_back :: "(nat \<Rightarrow> nat) \<Rightarrow> nat \<Rightarrow> nat \<Rightarrow> nat \<Rightarrow> nat \<Rightarrow> nat \<Rightarrow> (nat \<Rightarrow> nat) \<Rightarrow> bool" where
  "reads_back sublen base i j j' best' m' \<longleftrightarrow>
     (\<forall>M sub prev k. prev \<le> i \<longrightarrow> (\<forall>k. 3 \<le> k \<longrightarrow> prev \<le> k \<longrightarrow> k < i \<longrightarrow> sublen k = sublen i) \<longrightarrow>
        (\<forall>x. base + j * 3 \<le> x \<longrightarrow> x < base + j' * 3 \<longrightarrow> M x = m' x) \<longrightarrow> 3 \<le> k \<longrightarrow>
        cache_loop M base best' (8 - j) j prev sub k = (if prev \<le> k \<and> k \<le> best' then sublen k else sub k))"

lemma reads_backD:
  assumes r: "reads_back sublen base i j j' best' m'" and "prev \<le> i"
    and "\<And>k. 3 \<le> k \<Longrightarrow> prev \<le> k \<Longrightarrow> k < i \<Longrightarrow> sublen k = sublen i"
    and "\<And>x. base + j * 3 \<le> x \<Longrightarrow> x < base + j' * 3 \<Longrightarrow> M x = m' x" and "3 \<le> k"
  shows "cache_loop M base best' (8 - j) j prev sub k = (if prev \<le> k \<and> k \<le> best' then sublen k else sub k)"
  by (rule r [unfolded reads_back_def, rule_format]) (use assms in blast)+

lemma reads_back_end:
  assumes m: "m' = put_triple i (sublen i) (base + j * 3) m" and "j < 8" "3 \<le> i" "i \<le> 258" "sublen i < 65536"
  shows "reads_back sublen base i j (j + 1) i m'"
  unfolding reads_back_def
proof (intro allI impI)
  fix M sub prev k
  assume prev: "prev \<le> i" "\<forall>k. 3 \<le> k \<longrightarrow> prev \<le> k \<longrightarrow> k < i \<longrightarrow> sublen k = sublen i"
    and M: "\<forall>x. base + j * 3 \<le> x \<longrightarrow> x < base + (j + 1) * 3 \<longrightarrow> M x = m' x" and "3 \<le> (k :: nat)"
  have "M (base + j * 3) + 3 = i" "M (base + j * 3 + 1) + 256 * M (base + j * 3 + 2) = sublen i"
    using M put_triple_read [of i "sublen i" "base + j * 3" m] assms by simp_all
  moreover from \<open>j < 8\<close> have "8 - j = Suc (7 - j)" by simp
  moreover have "sublen k = sublen i" if "prev \<le> k" "k \<le> i"
    using that prev(2) \<open>3 \<le> k\<close> by (cases "k = i") auto
  ultimately show "cache_loop M base i (8 - j) j prev sub k = (if prev \<le> k \<and> k \<le> i then sublen k else sub k)"
    by (simp add: Let_def)
qed

lemma reads_back_more:
  assumes m: "\<forall>x. base + j * 3 \<le> x \<longrightarrow> x < base + (j + 1) * 3 \<longrightarrow> m' x = put_triple i (sublen i) (base + j * 3) m x"
    and "j < 8" "3 \<le> i" "i \<le> 258" "sublen i < 65536" and rest: "reads_back sublen base (i + 1) (j + 1) j' best' m'"
    and "i < best'" "j + 1 \<le> j'"
  shows "reads_back sublen base i j j' best' m'"
  unfolding reads_back_def
proof (intro allI impI)
  fix M sub prev k
  assume prev: "prev \<le> i" "\<forall>k. 3 \<le> k \<longrightarrow> prev \<le> k \<longrightarrow> k < i \<longrightarrow> sublen k = sublen i"
    and M: "\<forall>x. base + j * 3 \<le> x \<longrightarrow> x < base + j' * 3 \<longrightarrow> M x = m' x" and "3 \<le> (k :: nat)"
  have "\<forall>x. base + j * 3 \<le> x \<longrightarrow> x < base + (j + 1) * 3 \<longrightarrow> M x = put_triple i (sublen i) (base + j * 3) m x"
    using M m \<open>j + 1 \<le> j'\<close> by auto
  then have t: "M (base + j * 3) + 3 = i" "M (base + j * 3 + 1) + 256 * M (base + j * 3 + 2) = sublen i"
    using put_triple_read [of i "sublen i" "base + j * 3" m] assms by simp_all
  let ?sub = "\<lambda>k. if prev \<le> k \<and> k \<le> i then sublen i else sub k"
  have "cache_loop M base best' (8 - (j + 1)) (j + 1) (i + 1) ?sub k
      = (if i + 1 \<le> k \<and> k \<le> best' then sublen k else ?sub k)"
    by (rule reads_backD [OF rest]) (use M \<open>3 \<le> k\<close> in simp_all)
  moreover from \<open>j < 8\<close> have "8 - j = Suc (8 - (j + 1))" by simp
  moreover have "sublen k = sublen i" if "prev \<le> k" "k \<le> i"
    using that prev(2) \<open>3 \<le> k\<close> by (cases "k = i") auto
  ultimately show "cache_loop M base best' (8 - j) j prev sub k = (if prev \<le> k \<and> k \<le> best' then sublen k else sub k)"
    using t \<open>i < best'\<close> prev(1) by (simp add: Let_def)
qed

lemma reads_back_run:
  assumes "reads_back sublen base (i + 1) j j' best' m'" "sublen i = sublen (i + 1)"
  shows "reads_back sublen base i j j' best' m'"
  unfolding reads_back_def
proof (intro allI impI)
  fix M sub prev k
  assume prev: "prev \<le> i" "\<forall>k. 3 \<le> k \<longrightarrow> prev \<le> k \<longrightarrow> k < i \<longrightarrow> sublen k = sublen i"
    and M: "\<forall>x. base + j * 3 \<le> x \<longrightarrow> x < base + j' * 3 \<longrightarrow> M x = m' x" and "3 \<le> (k :: nat)"
  have "sublen l = sublen (i + 1)" if "3 \<le> l" "prev \<le> l" "l < i + 1" for l
    using that prev(2) assms(2) by (cases "l = i") auto
  then show "cache_loop M base best' (8 - j) j prev sub k = (if prev \<le> k \<and> k \<le> best' then sublen k else sub k)"
    by (intro reads_backD [OF assms(1)]) (use prev(1) M \<open>3 \<le> k\<close> in simp_all)
qed

lemma sublen_loop_spec:
  assumes "sublen_loop sublen base len i j best m = (j', best', m')"
    and "3 \<le> i" "i \<le> len" "len \<le> 258" "j < 8" "\<forall>k. 3 \<le> k \<longrightarrow> k \<le> len \<longrightarrow> sublen k < 65536"
  shows "j < j' \<and> j' \<le> 8 \<and> i \<le> best' \<and> best' \<le> len \<and> (j' < 8 \<longrightarrow> best' = len)
    \<and> (j' = 8 \<longrightarrow> m' (base + 21) = best' - 3)
    \<and> (\<forall>x. x < base + j * 3 \<or> base + 24 \<le> x \<longrightarrow> m' x = m x)
    \<and> (\<exists>k. i \<le> k \<and> k \<le> len \<and> m' (base + j * 3 + 1) + 256 * m' (base + j * 3 + 2) = sublen k)
    \<and> reads_back sublen base i j j' best' m'"
  using assms
proof (induction sublen base len i j best m arbitrary: j' best' m' rule: sublen_loop.induct)
  case (1 sublen base len i j best m)
  note loop = "1.prems"(1) and i = "1.prems"(2,3) and len = "1.prems"(4) and j = "1.prems"(5) and dist = "1.prems"(6)
  let ?m = "put_triple i (sublen i) (base + j * 3) m"
  have i258: "i \<le> 258" "sublen i < 65536" using i len dist by auto
  have loop': "(if i = len \<or> sublen i \<noteq> sublen (i + 1) then
        if j + 1 \<ge> ZOPFLI_CACHE_LENGTH then (j + 1, i, ?m)
        else sublen_loop sublen base len (i + 1) (j + 1) i ?m
      else sublen_loop sublen base len (i + 1) j best m) = (j', best', m')"
    using loop i(2) by (subst (asm) sublen_loop.simps) (simp only: if_True Let_def)
  consider (run) "\<not> (i = len \<or> sublen i \<noteq> sublen (i + 1))"
    | (last) "i = len \<or> sublen i \<noteq> sublen (i + 1)" "j + 1 \<ge> ZOPFLI_CACHE_LENGTH \<or> i = len"
    | (more) "i = len \<or> sublen i \<noteq> sublen (i + 1)" "\<not> j + 1 \<ge> ZOPFLI_CACHE_LENGTH" "i < len"
    using i(2) by linarith
  then show ?case
  proof cases
    case run
    with loop' have rec: "sublen_loop sublen base len (i + 1) j best m = (j', best', m')" by simp
    from "1.IH"(2) [OF i(2) run rec] i len j dist run
    show ?thesis using reads_back_run [of sublen base i j j' best' m'] by (auto intro: Suc_leD)
  next
    case last
    have "sublen_loop sublen base len (i + 1) (j + 1) i ?m = (j + 1, i, ?m)" if "i = len"
      using that by (subst sublen_loop.simps) simp
    with last loop' have e: "j' = j + 1" "best' = i" "m' = ?m" by (auto split: if_splits)
    have "j = 7 \<Longrightarrow> ?m (base + 21) = i - 3" using i(1) i258(1) by (simp add: put_triple_def)
    with e last i j reads_back_end [where sublen = sublen and base = base and m = m and i = i and j = j, OF refl j i(1) i258]
      put_triple_read(2) [OF i(1) i258, of "base + j * 3" m] put_triple_other [of _ "base + j * 3" i "sublen i" m]
    show ?thesis by (auto simp: ZOPFLI_CACHE_LENGTH_def)
  next
    case more
    with loop' have rec: "sublen_loop sublen base len (i + 1) (j + 1) i ?m = (j', best', m')" by simp
    from more(2) have j8: "j + 1 < 8" by (simp add: ZOPFLI_CACHE_LENGTH_def)
    from "1.IH"(1) [OF i(2) more(1) refl more(2) rec] i more(3) len j8 dist
    have IH: "j + 1 < j'" "j' \<le> 8" "i + 1 \<le> best'" "best' \<le> len" "j' < 8 \<longrightarrow> best' = len"
      "j' = 8 \<longrightarrow> m' (base + 21) = best' - 3"
      "\<forall>x. x < base + (j + 1) * 3 \<or> base + 24 \<le> x \<longrightarrow> m' x = ?m x"
      "reads_back sublen base (i + 1) (j + 1) j' best' m'"
      by simp_all
    have "reads_back sublen base i j j' best' m'"
      by (rule reads_back_more [OF _ j i(1) i258 IH(8)]) (use IH in auto)
    moreover have "m' (base + j * 3 + 1) + 256 * m' (base + j * 3 + 2) = sublen i"
      using put_triple_read(2) [OF i(1) i258, of "base + j * 3" m] IH(7) by simp
    ultimately show ?thesis
      using IH i put_triple_other [of _ "base + j * 3" i "sublen i" m] j8 by auto
  qed
qed


text \<open>The distances for the lengths of a match of length \<open>len\<close> fit into the cache.\<close>

definition sublen_fits :: "(nat \<Rightarrow> nat) \<Rightarrow> nat \<Rightarrow> bool" where
  "sublen_fits sublen len \<longleftrightarrow> len \<le> 258 \<and> (\<forall>k. 3 \<le> k \<longrightarrow> k \<le> len \<longrightarrow> 0 < sublen k \<and> sublen k < 65536)"

lemma SublenToCache_spec:
  assumes "sublen_fits sublen len" "3 \<le> len"
  shows "\<exists>c'. ZopfliSublenToCache sublen pos len c = Some c' \<and> lmc_length c' = lmc_length c \<and> lmc_dist c' = lmc_dist c
    \<and> 3 \<le> ZopfliMaxCachedSublen c' pos \<and> ZopfliMaxCachedSublen c' pos \<le> len
    \<and> (\<forall>x. x < cache_base pos \<or> cache_base (Suc pos) \<le> x \<longrightarrow> lmc_sublen c' x = lmc_sublen c x)
    \<and> (\<forall>l sub k. 3 \<le> l \<longrightarrow> 3 \<le> k \<longrightarrow>
        ZopfliCacheToSublen c' pos l sub k = (if k \<le> ZopfliMaxCachedSublen c' pos then sublen k else sub k))"
proof -
  let ?b = "cache_base pos"
  obtain j best m where r: "sublen_loop sublen ?b len 3 0 0 (lmc_sublen c) = (j, best, m)" by (rule prod_cases3)
  have "len \<le> 258" "\<forall>k. 3 \<le> k \<longrightarrow> k \<le> len \<longrightarrow> sublen k < 65536" using assms by (auto simp: sublen_fits_def)
  note spec = sublen_loop_spec [OF r _ assms(2) this(1) _ this(2)]
  let ?m = "if j < 8 then m(?b + 21 := (best - 3) mod 256) else m"
  let ?c = "c\<lparr>lmc_sublen := ?m\<rparr>"
  have j: "0 < j" "j \<le> 8" "3 \<le> best" "best \<le> len" "j < 8 \<longrightarrow> best = len"
    using spec by simp_all
  have b21: "?m (?b + 21) + 3 = best" using spec j \<open>len \<le> 258\<close> by auto
  have low: "?m (?b + k) = m (?b + k)" if "k < 3 * j" for k
    using that j(2) by auto
  obtain l where l: "3 \<le> l" "l \<le> len" "m (?b + 1) + 256 * m (?b + 2) = sublen l" using spec by auto
  with assms have "\<not> (?m (?b + 1) = 0 \<and> ?m (?b + 2) = 0)"
    using low [of 1] low [of 2] j(1) by (auto simp: sublen_fits_def)
  then have max: "ZopfliMaxCachedSublen ?c pos = best"
    using b21 unfolding ZopfliMaxCachedSublen_def Let_def by (subst if_not_P) (simp_all add: ZOPFLI_CACHE_LENGTH_def)
  have "ZopfliSublenToCache sublen pos len c = Some ?c"
  proof (cases "j < 8")
    case True
    then have "best = len" using j by simp
    with True r assms(2) max show ?thesis by (simp add: ZopfliSublenToCache_def Let_def ZOPFLI_CACHE_LENGTH_def)
  next
    case False
    with r assms(2) j max show ?thesis by (simp add: ZopfliSublenToCache_def Let_def ZOPFLI_CACHE_LENGTH_def)
  qed
  moreover have "cache_base (Suc pos) = ?b + 24" by (simp add: cache_base_def ZOPFLI_CACHE_LENGTH_def)
  moreover have "cache_loop ?m ?b best (8 - 0) 0 0 sub k = (if 0 \<le> k \<and> k \<le> best then sublen k else sub k)"
    if "3 \<le> k" for sub k
    by (rule reads_backD [where i = 3 and j' = j and m' = m]) (use spec that low in \<open>auto simp: le_iff_add\<close>)
  ultimately show ?thesis
    using spec j max by (intro exI [of _ ?c]) (auto simp: ZopfliCacheToSublen_def ZOPFLI_CACHE_LENGTH_def)
qed


text \<open>C32: The distances of a match's shorter lengths survive the cache: storing them succeeds without a
  failed assertion, and reading them gives the same distances for every length up to the longest
  stored, although only the ends of runs of equal distances, and at most eight of them, are kept.\<close>

theorem cached_distances_roundtrip:
  assumes "sublen_fits sublen len" "3 \<le> len"
  shows "\<exists>c'. ZopfliSublenToCache sublen pos len c = Some c'
    \<and> 3 \<le> ZopfliMaxCachedSublen c' pos \<and> ZopfliMaxCachedSublen c' pos \<le> len
    \<and> map (ZopfliCacheToSublen c' pos len sub) [3..<Suc (ZopfliMaxCachedSublen c' pos)]
      = map sublen [3..<Suc (ZopfliMaxCachedSublen c' pos)]"
  using SublenToCache_spec [OF assms, of pos c] assms(2) by force

definition sample_lmcache :: lmcache where
  "sample_lmcache = \<lparr>lmc_length = (\<lambda>_. 7), lmc_dist = (\<lambda>_. 7), lmc_sublen = (\<lambda>_. 7)\<rparr>"

theorem cached_distances_roundtrip_witness:
  "\<exists>c'. ZopfliSublenToCache (\<lambda>k. if k \<le> 4 then 300 else 2) 1 6 sample_lmcache = Some c'
    \<and> 3 \<le> ZopfliMaxCachedSublen c' 1"
proof -
  have "sublen_fits (\<lambda>k. if k \<le> 4 then 300 else 2) 6" by (simp add: sublen_fits_def)
  from cached_distances_roundtrip [OF this, of 1 sample_lmcache "\<lambda>_. 0"] show ?thesis by auto
qed

end
