(* ===== verification/ZopfliMatch.thy ===== *)
theory ZopfliMatch
  imports ZopfliCache
begin

section \<open>Finding the longest match (src/zopfli: lz77.c)\<close>

text \<open>
  \<open>ZopfliFindLongestMatch\<close> with its cache.  Positions in the data stand for the pointers into it.
  The array \<open>sublen\<close> is \<open>None\<close> for the null pointer.  The result is \<open>None\<close> for a failed assertion or a
  read beyond the data; otherwise the block state, \<open>sublen\<close>, \<open>*distance\<close> and \<open>*length\<close>.
\<close>

definition ZOPFLI_MAX_CHAIN_HITS :: nat where "ZOPFLI_MAX_CHAIN_HITS = 8192"

record zblock =
  zb_lmc :: "lmcache option"
  zb_start :: nat
  zb_end :: nat

definition ZopfliInitBlockState :: "nat \<Rightarrow> nat \<Rightarrow> bool \<Rightarrow> lmcache \<Rightarrow> zblock" where
  "ZopfliInitBlockState blockstart blockend add_lmc garbage = \<lparr>
     zb_lmc = (if add_lmc then Some (ZopfliInitCache (blockend - blockstart) garbage) else None),
     zb_start = blockstart, zb_end = blockend\<rparr>"

subsection \<open>Comparing bytes\<close>

text \<open>Eight bytes at once while there are more than eight up to the end, then one by one.\<close>

function match8 :: "u8 list \<Rightarrow> nat \<Rightarrow> nat \<Rightarrow> int \<Rightarrow> nat" where
  "match8 a scan mat safe_end =
     (if int scan < safe_end \<and> take 8 (drop scan a) = take 8 (drop mat a)
      then match8 a (scan + 8) (mat + 8) safe_end else scan)"
  by pat_completeness auto
termination by (relation "measure (\<lambda>(a, scan, mat, safe_end). nat (safe_end - int scan))") auto

declare match8.simps [simp del]

function match1 :: "u8 list \<Rightarrow> nat \<Rightarrow> nat \<Rightarrow> nat \<Rightarrow> nat option" where
  "match1 a scan mat end =
     (if scan = end then Some scan
      else if scan \<ge> length a \<or> mat \<ge> length a then None
      else if a ! scan = a ! mat then match1 a (scan + 1) (mat + 1) end
      else Some scan)"
  by pat_completeness auto
termination by (relation "measure (\<lambda>(a, scan, mat, end). length a - scan)") auto

declare match1.simps [simp del]

definition GetMatch :: "u8 list \<Rightarrow> nat \<Rightarrow> nat \<Rightarrow> nat \<Rightarrow> int \<Rightarrow> nat option" where
  "GetMatch a scan mat end safe_end =
     (let scan' = match8 a scan mat safe_end in match1 a scan' (mat + (scan' - scan)) end)"

subsection \<open>The cache\<close>

text \<open>The new limit, or the result from the cache.\<close>

datatype cache_answer = Miss nat | Hit "(nat \<Rightarrow> nat) option" nat nat

definition cache_available :: "lmcache \<Rightarrow> nat \<Rightarrow> bool" where
  "cache_available c lmcpos \<longleftrightarrow> lmc_length c lmcpos = 0 \<or> lmc_dist c lmcpos \<noteq> 0"

definition TryGetFromLongestMatchCache :: "zblock \<Rightarrow> nat \<Rightarrow> nat \<Rightarrow> (nat \<Rightarrow> nat) option \<Rightarrow> cache_answer option" where
  "TryGetFromLongestMatchCache s pos limit sublen =
     (case zb_lmc s of
        None \<Rightarrow> Some (Miss limit)
      | Some c \<Rightarrow>
          let lmcpos = pos - zb_start s;
              len = lmc_length c lmcpos;
              limit_ok = (cache_available c lmcpos \<and>
                (limit = ZOPFLI_MAX_MATCH \<or> len \<le> limit \<or> sublen \<noteq> None \<and> ZopfliMaxCachedSublen c lmcpos \<ge> limit))
          in if limit_ok then
               if sublen = None \<or> len \<le> ZopfliMaxCachedSublen c lmcpos then
                 let l = (if len > limit then limit else len)
                 in case sublen of
                      None \<Rightarrow> Some (Hit None (lmc_dist c lmcpos) l)
                    | Some sub \<Rightarrow>
                        let sub = ZopfliCacheToSublen c lmcpos l sub
                        in if limit = ZOPFLI_MAX_MATCH \<and> l \<ge> ZOPFLI_MIN_MATCH \<and> sub l \<noteq> lmc_dist c lmcpos then None
                           else Some (Hit (Some sub) (sub l) l)
               else Some (Miss len)
             else Some (Miss limit))"

definition StoreInLongestMatchCache ::
  "zblock \<Rightarrow> nat \<Rightarrow> nat \<Rightarrow> (nat \<Rightarrow> nat) option \<Rightarrow> nat \<Rightarrow> nat \<Rightarrow> zblock option" where
  "StoreInLongestMatchCache s pos limit sublen distance len =
     (case (zb_lmc s, sublen) of
        (Some c, Some sub) \<Rightarrow>
          let lmcpos = pos - zb_start s
          in if limit = ZOPFLI_MAX_MATCH \<and> \<not> cache_available c lmcpos then
               if \<not> (lmc_length c lmcpos = 1 \<and> lmc_dist c lmcpos = 0) then None
               else
                 let d = (if len < ZOPFLI_MIN_MATCH then 0 else distance);
                     l = (if len < ZOPFLI_MIN_MATCH then 0 else len);
                     c = c\<lparr>lmc_dist := (lmc_dist c)(lmcpos := d), lmc_length := (lmc_length c)(lmcpos := l)\<rparr>
                 in if l = 1 \<and> d = 0 then None
                    else map_option (\<lambda>c. s\<lparr>zb_lmc := Some c\<rparr>) (ZopfliSublenToCache sub lmcpos len c)
             else Some s
      | _ \<Rightarrow> Some s)"

subsection \<open>The walk along a chain\<close>

definition slot_dist :: "nat \<Rightarrow> nat \<Rightarrow> nat" where
  "slot_dist p pp = (if p < pp then pp - p else (ZOPFLI_WINDOW_SIZE - p) + pp)"

text \<open>What is known about the best match: its distance, its length, and \<open>sublen\<close>.\<close>

record best_match =
  bm_dist :: nat
  bm_length :: nat
  bm_sublen :: "(nat \<Rightarrow> nat) option"

text \<open>The length of the match at a distance, 0 where it cannot beat the best.\<close>

definition match_length :: "zhash \<Rightarrow> u8 list \<Rightarrow> nat \<Rightarrow> nat \<Rightarrow> nat \<Rightarrow> nat \<Rightarrow> nat \<Rightarrow> nat option" where
  "match_length h a pos data_size limit dist bestlength =
     (if \<not> (pos < data_size \<and> dist \<le> pos) then None
      else
        let mat = pos - dist
        in if pos + bestlength \<ge> data_size \<or> a ! (pos + bestlength) = a ! (mat + bestlength) then
             let same0 = h_same h (wslot pos);
                 same1 = h_same h (wslot mat);
                 same = (if same0 < same1 then same0 else same1);
                 skip = (if same0 > 2 \<and> a ! pos = a ! mat then (if same > limit then limit else same) else 0)
             in map_option (\<lambda>scan. scan - pos)
                  (GetMatch a (pos + skip) (mat + skip) (pos + limit) (int (pos + limit) - 8))
           else Some 0)"

definition improve :: "nat \<Rightarrow> nat \<Rightarrow> best_match \<Rightarrow> best_match" where
  "improve dist currentlength b =
     (if currentlength > bm_length b then
        \<lparr>bm_dist = dist, bm_length = currentlength,
         bm_sublen = map_option (\<lambda>sub j. if bm_length b + 1 \<le> j \<and> j \<le> currentlength then dist else sub j) (bm_sublen b)\<rparr>
      else b)"

text \<open>The loop: \<open>n\<close> is the chain counter, \<open>second\<close> whether the second hash is in use.\<close>

fun match_loop :: "zhash \<Rightarrow> u8 list \<Rightarrow> nat \<Rightarrow> nat \<Rightarrow> nat \<Rightarrow> bool \<Rightarrow> nat \<Rightarrow> nat \<Rightarrow> nat \<Rightarrow> best_match \<Rightarrow> nat \<Rightarrow> best_match option" where
  "match_loop h a pos data_size limit second p pp dist b 0 = Some b"
| "match_loop h a pos data_size limit second p pp dist b (Suc n) =
     (let c = (if second then h_chain2 h else h_chain h)
      in if \<not> dist < ZOPFLI_WINDOW_SIZE then Some b
         else if \<not> (p < ZOPFLI_WINDOW_SIZE \<and> p = hc_prev c pp \<and> hc_hashval c p = hc_val c) then None
         else case (if dist > 0 then match_length h a pos data_size limit dist (bm_length b) else Some 0) of
           None \<Rightarrow> None
         | Some currentlength \<Rightarrow>
             let b' = improve dist currentlength b
             in if currentlength > bm_length b \<and> currentlength \<ge> limit then Some b'
                else
                  let second' = (second \<or> bm_length b' \<ge> h_same h (wslot pos)
                                   \<and> hc_val (h_chain2 h) = hc_hashval (h_chain2 h) p);
                      p' = hc_prev (if second' then h_chain2 h else h_chain h) p
                  in if p' = p then Some b'
                     else match_loop h a pos data_size limit second' p' p (dist + slot_dist p' p) b' n)"

definition ZopfliFindLongestMatch ::
  "zblock \<Rightarrow> zhash \<Rightarrow> u8 list \<Rightarrow> nat \<Rightarrow> nat \<Rightarrow> nat \<Rightarrow> (nat \<Rightarrow> nat) option
    \<Rightarrow> (zblock \<times> (nat \<Rightarrow> nat) option \<times> nat \<times> nat) option" where
  "ZopfliFindLongestMatch s h a pos data_size limit sublen =
     (case TryGetFromLongestMatchCache s pos limit sublen of
        None \<Rightarrow> None
      | Some (Hit sublen distance len) \<Rightarrow> if pos + len \<le> data_size then Some (s, sublen, distance, len) else None
      | Some (Miss limit) \<Rightarrow>
          if \<not> (limit \<le> ZOPFLI_MAX_MATCH \<and> limit \<ge> ZOPFLI_MIN_MATCH \<and> pos < data_size) then None
          else if data_size - pos < ZOPFLI_MIN_MATCH then Some (s, sublen, 0, 0)
          else
            let limit = (if pos + limit > data_size then data_size - pos else limit);
                hval = hc_val (h_chain h);
                pp = unat (word_of_int (hc_head (h_chain h) hval) :: u16);
                p = hc_prev (h_chain h) pp
            in if \<not> (hval < 65536 \<and> pp = wslot pos) then None
               else
                 case match_loop h a pos data_size limit False p pp (slot_dist p pp)
                        \<lparr>bm_dist = 0, bm_length = 1, bm_sublen = sublen\<rparr> ZOPFLI_MAX_CHAIN_HITS of
                   None \<Rightarrow> None
                 | Some b \<Rightarrow>
                     case StoreInLongestMatchCache s pos limit (bm_sublen b) (bm_dist b) (bm_length b) of
                       None \<Rightarrow> None
                     | Some s' \<Rightarrow>
                         if bm_length b \<le> limit \<and> pos + bm_length b \<le> data_size
                         then Some (s', bm_sublen b, bm_dist b, bm_length b) else None)"


subsection \<open>Matches\<close>

definition match_at :: "u8 list \<Rightarrow> nat \<Rightarrow> nat \<Rightarrow> nat \<Rightarrow> nat \<Rightarrow> bool" where
  "match_at a n pos len dist \<longleftrightarrow> 0 < dist \<and> dist \<le> pos \<and> dist < 32768 \<and> pos + len \<le> n
     \<and> (\<forall>i < len. a ! (pos + i) = a ! (pos - dist + i))"

lemma match_at_end: "match_at a n pos len dist \<Longrightarrow> pos + len \<le> n"
  by (simp add: match_at_def)

lemma match_at_dist: "match_at a n pos len dist \<Longrightarrow> 0 < dist \<and> dist < 32768 \<and> dist \<le> pos"
  by (simp add: match_at_def)

lemma match_at_shorter: "match_at a n pos len dist \<Longrightarrow> l \<le> len \<Longrightarrow> match_at a n pos l dist"
  by (auto simp: match_at_def)

lemma match1_spec:
  assumes "scan \<le> end" "end \<le> length a" "mat \<le> scan"
  shows "\<exists>r. match1 a scan mat end = Some r \<and> scan \<le> r \<and> r \<le> end
    \<and> (\<forall>i < r - scan. a ! (scan + i) = a ! (mat + i))"
  using assms
proof (induction a scan mat "end" rule: match1.induct)
  case (1 a scan mat "end")
  show ?case
  proof (cases "scan < end \<and> a ! scan = a ! mat")
    case True
    with "1.prems" have e: "match1 a scan mat end = match1 a (scan + 1) (mat + 1) end"
      by (subst match1.simps) simp
    from True "1.prems" "1.IH" obtain r where r: "match1 a (scan + 1) (mat + 1) end = Some r" "scan + 1 \<le> r" "r \<le> end"
      "\<forall>i < r - (scan + 1). a ! (scan + 1 + i) = a ! (mat + 1 + i)" by fastforce
    have "a ! (scan + i) = a ! (mat + i)" if "i < r - scan" for i
      using that r(2,4) True by (cases i) auto
    with e r show ?thesis by auto
  next
    case False
    with "1.prems" have "match1 a scan mat end = Some scan" by (subst match1.simps) auto
    with "1.prems" show ?thesis by simp
  qed
qed

lemma take_drop_nth:
  assumes "take n (drop x a) = take n (drop y a)" "x + n \<le> length a" "y + n \<le> length a" "i < n"
  shows "a ! (x + i) = a ! (y + i)"
proof -
  from assms(1) have "take n (drop x a) ! i = take n (drop y a) ! i" by simp
  with assms(2-) show ?thesis by simp
qed

lemma match8_spec:
  assumes "scan \<le> end" "end \<le> length a" "mat \<le> scan" "safe_end = int end - 8"
  shows "scan \<le> match8 a scan mat safe_end \<and> match8 a scan mat safe_end \<le> end
    \<and> (\<forall>i < match8 a scan mat safe_end - scan. a ! (scan + i) = a ! (mat + i))"
  using assms
proof (induction a scan mat safe_end rule: match8.induct)
  case (1 a scan mat safe_end)
  show ?case
  proof (cases "int scan < safe_end \<and> take 8 (drop scan a) = take 8 (drop mat a)")
    case True
    let ?r = "match8 a (scan + 8) (mat + 8) safe_end"
    from True have e: "match8 a scan mat safe_end = ?r" by (subst match8.simps) simp
    from True "1.prems" "1.IH" have r: "scan + 8 \<le> ?r" "?r \<le> end"
      "\<forall>i < ?r - (scan + 8). a ! (scan + 8 + i) = a ! (mat + 8 + i)" by auto
    have "a ! (scan + i) = a ! (mat + i)" if "i < ?r - scan" for i
    proof (cases "i < 8")
      case True
      with \<open>int scan < safe_end \<and> _\<close> "1.prems" show ?thesis by (intro take_drop_nth [of 8]) auto
    next
      case False
      with that r(3) [rule_format, of "i - 8"] show ?thesis by simp
    qed
    with e r show ?thesis by auto
  next
    case False
    then have "match8 a scan mat safe_end = scan" by (subst match8.simps) (rule if_not_P)
    with "1.prems" show ?thesis by simp
  qed
qed

lemma GetMatch_spec:
  assumes "scan \<le> end" "end \<le> length a" "mat \<le> scan"
  shows "\<exists>r. GetMatch a scan mat end (int end - 8) = Some r \<and> scan \<le> r \<and> r \<le> end
    \<and> (\<forall>i < r - scan. a ! (scan + i) = a ! (mat + i))"
proof -
  let ?s = "match8 a scan mat (int end - 8)"
  from match8_spec [OF assms refl] have s: "scan \<le> ?s" "?s \<le> end"
    "\<forall>i < ?s - scan. a ! (scan + i) = a ! (mat + i)" by simp_all
  then have "mat + (?s - scan) \<le> ?s" using assms(3) by linarith
  from match1_spec [OF s(2) assms(2) this] obtain r where
    r: "match1 a ?s (mat + (?s - scan)) end = Some r" "?s \<le> r" "r \<le> end"
    "\<forall>i < r - ?s. a ! (?s + i) = a ! (mat + (?s - scan) + i)" by blast
  have "a ! (scan + i) = a ! (mat + i)" if "i < r - scan" for i
  proof (cases "i < ?s - scan")
    case False
    then have "?s + (i - (?s - scan)) = scan + i" "mat + (?s - scan) + (i - (?s - scan)) = mat + i"
      using s(1) by simp_all
    moreover have "i - (?s - scan) < r - ?s" using that False s(1) by linarith
    ultimately show ?thesis using r(4) by metis
  qed (use s in simp)
  with r s show ?thesis by (auto simp: GetMatch_def Let_def)
qed

lemma match_length_spec:
  assumes h: "hash_at a n ws pos h" and "n \<le> length a" "0 < dist" "ws + dist \<le> pos" "dist < 32768" "pos + limit \<le> n"
  shows "\<exists>l. match_length h a pos n limit dist best = Some l \<and> l \<le> limit \<and> match_at a n pos l dist"
proof -
  let ?mat = "pos - dist"
  let ?s0 = "h_same h (wslot pos)" and ?s1 = "h_same h (wslot ?mat)"
  let ?same = "if ?s0 < ?s1 then ?s0 else ?s1"
  let ?skip = "if ?s0 > 2 \<and> a ! pos = a ! ?mat then (if ?same > limit then limit else ?same) else 0"
  have pos: "pos < n" "ws \<le> pos" and same: "same_ok a n ws (Suc pos) (h_same h)"
    using h by (auto simp: hash_at_def hash_ok_def)
  have runs: "run a n pos ?s0" "run a n ?mat ?s1"
    using same pos assms by (auto simp: same_ok_def)
  have skip: "?skip \<le> limit" "a ! (pos + i) = a ! (?mat + i)" if "i < ?skip" for i
  proof -
    from that have "a ! pos = a ! ?mat" "i \<le> ?s0" "i \<le> ?s1" by (auto split: if_splits)
    with runs show "a ! (pos + i) = a ! (?mat + i)" by (simp add: run_def)
  qed simp
  have skip_le: "?skip \<le> limit" by simp
  obtain r where r: "GetMatch a (pos + ?skip) (?mat + ?skip) (pos + limit) (int (pos + limit) - 8) = Some r"
    "pos + ?skip \<le> r" "r \<le> pos + limit" "\<forall>i < r - (pos + ?skip). a ! (pos + ?skip + i) = a ! (?mat + ?skip + i)"
    using GetMatch_spec [of "pos + ?skip" "pos + limit" a "?mat + ?skip"] skip_le assms by auto
  have "a ! (pos + i) = a ! (?mat + i)" if "i < r - pos" for i
  proof (cases "i < ?skip")
    case False
    then obtain k where k: "i = ?skip + k" by (metis le_add_diff_inverse not_less)
    have "k < r - (pos + ?skip)" using k that by linarith
    with r(4) k show ?thesis by (simp only: add.assoc)
  qed (rule skip)
  then have m: "match_at a n pos (r - pos) dist" using assms r(3) by (auto simp: match_at_def)
  show ?thesis
  proof (cases "pos + best \<ge> n \<or> a ! (pos + best) = a ! (?mat + best)")
    case True
    with r(1) assms pos have "match_length h a pos n limit dist best = Some (r - pos)"
      by (simp only: match_length_def Let_def if_True option.map not_True_eq_False if_False) simp
    with m r(3) show ?thesis by auto
  next
    case False
    with assms pos show ?thesis by (auto simp: match_length_def match_at_def)
  qed
qed


subsection \<open>The loop\<close>

lemma slot_dist_positions:
  assumes "y < x" "x < y + 32768"
  shows "slot_dist (wslot y) (wslot x) = x - y"
proof -
  have "(y + (x - y)) mod 32768 = (y mod 32768 + (x - y)) mod 32768" by (simp add: mod_add_left_eq)
  with assms have x: "x mod 32768 = (y mod 32768 + (x - y)) mod 32768" by simp
  have "y mod 32768 < 32768" by simp
  show ?thesis
  proof (cases "y mod 32768 + (x - y) < 32768")
    case True
    with x have e: "x mod 32768 = y mod 32768 + (x - y)" by simp
    then have "y mod 32768 < x mod 32768" using assms by linarith
    then have "slot_dist (wslot y) (wslot x) = x mod 32768 - y mod 32768" by (simp only: slot_dist_def wslot_mod if_True)
    with e show ?thesis by linarith
  next
    case False
    then have "(y mod 32768 + (x - y)) mod 32768 = y mod 32768 + (x - y) - 32768"
      using assms \<open>y mod 32768 < 32768\<close> le_mod_geq [of 32768 "y mod 32768 + (x - y)"] by simp
    with x have e: "x mod 32768 = y mod 32768 + (x - y) - 32768" by simp
    then have "x mod 32768 \<le> y mod 32768" using assms by linarith
    then have "slot_dist (wslot y) (wslot x) = 32768 - y mod 32768 + x mod 32768"
      by (simp only: slot_dist_def wslot_mod ZOPFLI_WINDOW_SIZE_def not_less [symmetric] if_False)
    with e False \<open>y mod 32768 < 32768\<close> show ?thesis by linarith
  qed
qed

text \<open>
  The walk is at the position \<open>pos - dist\<close>, whose slot is \<open>p\<close>, coming from the slot \<open>pp\<close>; or it has left
  the window.
\<close>

definition at_entry :: "nat \<Rightarrow> nat \<Rightarrow> hchain \<Rightarrow> nat \<Rightarrow> nat \<Rightarrow> bool" where
  "at_entry ws pos c p dist \<longleftrightarrow> ws + dist \<le> pos \<and> dist < 32768 \<and> p = wslot (pos - dist)
     \<and> hc_hashval c p = hc_val c"

definition walking :: "nat \<Rightarrow> nat \<Rightarrow> hchain \<Rightarrow> nat \<Rightarrow> nat \<Rightarrow> nat \<Rightarrow> bool" where
  "walking ws pos c p pp dist \<longleftrightarrow> 32768 \<le> dist
     \<or> 0 < dist \<and> at_entry ws pos c p dist \<and> p = hc_prev c pp"

lemma at_entryD: "at_entry ws pos c p dist \<Longrightarrow> hc_hashval c p = hc_val c" "at_entry ws pos c p dist \<Longrightarrow> p < 32768"
  unfolding at_entry_def by (blast, metis wslot_less)

lemma walk_on:
  assumes ok: "chain_ok ws (Suc pos) c" and e: "at_entry ws pos c p dist" and "hc_prev c p \<noteq> p"
  shows "walking ws pos c (hc_prev c p) p (dist + slot_dist (hc_prev c p) p)"
proof -
  let ?x = "pos - dist"
  have x: "ws \<le> ?x" "?x < Suc pos" "Suc pos \<le> ?x + 32768" and p: "p = wslot ?x"
    using e by (auto simp: at_entry_def)
  with ok have "chain_link ws (Suc pos) c ?x" by (simp add: chain_ok_def)
  with p assms(3) obtain y where y: "ws \<le> y" "y < ?x" "?x < y + 32768" "hc_prev c p = wslot y"
    "Suc pos \<le> y + 32768 \<longrightarrow> hc_hashval c (wslot y) = hc_hashval c p"
    unfolding chain_link_def by auto
  have "slot_dist (hc_prev c p) p = ?x - y" using y p by (simp add: slot_dist_positions)
  then have d: "dist + slot_dist (hc_prev c p) p = pos - y" using y(2) by simp
  show ?thesis
  proof (cases "pos - y < 32768")
    case True
    then have "hc_hashval c (wslot y) = hc_hashval c p" using y(5) by simp
    also have "\<dots> = hc_val c" by (rule at_entryD [OF e])
    finally have "hc_hashval c (wslot y) = hc_val c" .
    moreover have "ws + (pos - y) \<le> pos" "pos - (pos - y) = y" using y by linarith+
    ultimately show ?thesis
      using d y True by (simp add: walking_def at_entry_def)
  next
    case False
    with d show ?thesis by (simp add: walking_def)
  qed
qed

text \<open>The best match so far, and the distances found for the shorter lengths.\<close>

definition best_ok :: "u8 list \<Rightarrow> nat \<Rightarrow> nat \<Rightarrow> nat \<Rightarrow> best_match \<Rightarrow> bool" where
  "best_ok a n pos limit b \<longleftrightarrow> 1 \<le> bm_length b \<and> bm_length b \<le> limit
     \<and> (bm_length b = 1 \<or> match_at a n pos (bm_length b) (bm_dist b))
     \<and> (\<forall>sub. bm_sublen b = Some sub \<longrightarrow>
          (\<forall>k. 2 \<le> k \<longrightarrow> k \<le> bm_length b \<longrightarrow> match_at a n pos k (sub k))
          \<and> (2 \<le> bm_length b \<longrightarrow> sub (bm_length b) = bm_dist b))"

lemma best_ok_improve:
  assumes "best_ok a n pos limit b" "match_at a n pos l dist" "l \<le> limit"
  shows "best_ok a n pos limit (improve dist l b)"
  using assms by (auto simp: best_ok_def improve_def intro: match_at_shorter)

lemma improve_sublen: "(bm_sublen (improve dist l b) = None) = (bm_sublen b = None)"
  by (simp add: improve_def)

lemma match_loop_spec:
  assumes h: "hash_at a n ws pos h" and "n \<le> length a" "pos + limit \<le> n" "best_ok a n pos limit b"
    and "walking ws pos (if second then h_chain2 h else h_chain h) p pp dist"
  shows "\<exists>b'. match_loop h a pos n limit second p pp dist b k = Some b' \<and> best_ok a n pos limit b'
    \<and> (bm_sublen b' = None) = (bm_sublen b = None)"
  using assms(4,5)
proof (induction k arbitrary: second p pp dist b)
  case (Suc k)
  let ?c = "\<lambda>second. if second then h_chain2 h else h_chain h"
  show ?case
  proof (cases "dist < 32768")
    case False
    with Suc.prems show ?thesis by (simp add: ZOPFLI_WINDOW_SIZE_def)
  next
    case True
    with Suc.prems(2) have e: "0 < dist" "at_entry ws pos (?c second) p dist" "p = hc_prev (?c second) pp"
      by (auto simp: walking_def)
    from at_entryD [OF e(2)] e(3) have asserts: "p < ZOPFLI_WINDOW_SIZE \<and> p = hc_prev (?c second) pp \<and> hc_hashval (?c second) p = hc_val (?c second)"
      unfolding ZOPFLI_WINDOW_SIZE_def by blast
    obtain l where l: "match_length h a pos n limit dist (bm_length b) = Some l" "l \<le> limit" "match_at a n pos l dist"
      using match_length_spec [OF h assms(2) e(1) _ True assms(3)] e(2) by (auto simp: at_entry_def)
    let ?b = "improve dist l b"
    let ?second = "second \<or> bm_length ?b \<ge> h_same h (wslot pos) \<and> hc_val (h_chain2 h) = hc_hashval (h_chain2 h) p"
    let ?p = "hc_prev (?c ?second) p"
    have b: "best_ok a n pos limit ?b" using Suc.prems(1) l by (intro best_ok_improve)
    have eq: "match_loop h a pos n limit second p pp dist b (Suc k) =
        (if bm_length b < l \<and> limit \<le> l then Some ?b
         else if ?p = p then Some ?b
         else match_loop h a pos n limit ?second ?p p (dist + slot_dist ?p p) ?b k)"
      using True by (simp only: match_loop.simps Let_def ZOPFLI_WINDOW_SIZE_def if_False if_True not_True_eq_False
          eqTrueI [OF asserts [unfolded ZOPFLI_WINDOW_SIZE_def]] eqTrueI [OF e(1)] l(1) option.case)
    have e2: "at_entry ws pos (?c ?second) p dist"
    proof -
      have "hc_hashval (?c ?second) p = hc_val (?c ?second)"
        using at_entryD(1) [OF e(2)] by (cases second) simp_all
      with e(2) show ?thesis unfolding at_entry_def by blast
    qed
    have ok: "chain_ok ws (Suc pos) (?c ?second)" using h by (simp add: hash_at_def hash_ok_def)
    show ?thesis
    proof (cases "bm_length b < l \<and> limit \<le> l \<or> ?p = p")
      case True
      with eq b improve_sublen [of dist l b] show ?thesis by auto
    next
      case False
      then have "?p \<noteq> p" by blast
      from Suc.IH [OF b walk_on [OF ok e2 this]] eq False improve_sublen [of dist l b] show ?thesis by auto
    qed
  qed
qed simp


subsection \<open>The cache holds matches\<close>

text \<open>
  An entry of the cache is empty, says that there is no match, or holds a match, with
  distances for the lengths up to the longest stored.
\<close>

definition entry_ok :: "u8 list \<Rightarrow> nat \<Rightarrow> lmcache \<Rightarrow> nat \<Rightarrow> nat \<Rightarrow> bool" where
  "entry_ok a n c l pos \<longleftrightarrow> lmc_length c l = 1 \<and> lmc_dist c l = 0 \<or> lmc_length c l = 0
     \<or> 3 \<le> lmc_length c l \<and> lmc_length c l \<le> 258 \<and> match_at a n pos (lmc_length c l) (lmc_dist c l)
       \<and> 3 \<le> ZopfliMaxCachedSublen c l \<and> ZopfliMaxCachedSublen c l \<le> lmc_length c l
       \<and> (\<forall>len sub k. 3 \<le> len \<longrightarrow> 3 \<le> k \<longrightarrow> k \<le> ZopfliMaxCachedSublen c l \<longrightarrow>
            match_at a n pos k (ZopfliCacheToSublen c l len sub k)
            \<and> (k = lmc_length c l \<longrightarrow> ZopfliCacheToSublen c l len sub k = lmc_dist c l))"

definition cache_ok :: "u8 list \<Rightarrow> nat \<Rightarrow> zblock \<Rightarrow> bool" where
  "cache_ok a n s \<longleftrightarrow> (\<forall>c. zb_lmc s = Some c \<longrightarrow>
     (\<forall>pos. zb_start s \<le> pos \<longrightarrow> pos < zb_end s \<longrightarrow> entry_ok a n c (pos - zb_start s) pos))"

lemma cache_ok_init: "cache_ok a n (ZopfliInitBlockState b e add_lmc garbage)"
  by (auto simp: cache_ok_def entry_ok_def ZopfliInitBlockState_def ZopfliInitCache_def)

lemma cache_loop_cong:
  assumes "\<And>x. base \<le> x \<Longrightarrow> x < base + 24 \<Longrightarrow> m' x = m x" "j + k \<le> 8"
  shows "cache_loop m' base maxl k j prev sub = cache_loop m base maxl k j prev sub"
  using assms(2)
proof (induction k arbitrary: j prev sub)
  case (Suc k)
  then have "m' (base + j * 3) = m (base + j * 3)" "m' (base + j * 3 + 1) = m (base + j * 3 + 1)"
    "m' (base + j * 3 + 2) = m (base + j * 3 + 2)" by (simp_all add: assms(1))
  with Suc show ?case by (simp add: Let_def)
qed simp

lemma entry_ok_cong:
  assumes "entry_ok a n c l pos" "lmc_length c' l = lmc_length c l" "lmc_dist c' l = lmc_dist c l"
    and m: "\<And>x. cache_base l \<le> x \<Longrightarrow> x < cache_base (Suc l) \<Longrightarrow> lmc_sublen c' x = lmc_sublen c x"
  shows "entry_ok a n c' l pos"
proof -
  have b: "cache_base (Suc l) = cache_base l + 24" by (simp add: cache_base_def ZOPFLI_CACHE_LENGTH_def)
  have "ZopfliMaxCachedSublen c' l = ZopfliMaxCachedSublen c l"
    using m b by (simp add: ZopfliMaxCachedSublen_def ZOPFLI_CACHE_LENGTH_def)
  moreover from this have "ZopfliCacheToSublen c' l = ZopfliCacheToSublen c l"
    using m b cache_loop_cong [of "cache_base l" "lmc_sublen c'" "lmc_sublen c" 0 8]
    by (intro ext) (simp add: ZopfliCacheToSublen_def ZOPFLI_CACHE_LENGTH_def)
  ultimately show ?thesis using assms(1-3) by (simp add: entry_ok_def)
qed

text \<open>What a search answers: a result that is a match when it has at least three bytes.\<close>

definition found :: "u8 list \<Rightarrow> nat \<Rightarrow> nat \<Rightarrow> nat \<Rightarrow> (nat \<Rightarrow> nat) option \<Rightarrow> nat \<Rightarrow> nat \<Rightarrow> bool" where
  "found a n pos limit sublen dist len \<longleftrightarrow> len \<le> limit \<and> pos + len \<le> n
     \<and> (3 \<le> len \<longrightarrow> match_at a n pos len dist)
     \<and> (\<forall>sub k. sublen = Some sub \<longrightarrow> 3 \<le> k \<longrightarrow> k \<le> len \<longrightarrow> match_at a n pos k (sub k))"

definition limit_ok :: "nat \<Rightarrow> (nat \<Rightarrow> nat) option \<Rightarrow> bool" where
  "limit_ok limit sublen \<longleftrightarrow> limit = 258 \<or> 3 \<le> limit \<and> limit \<le> 258 \<and> sublen = None"

lemma TryGet_spec:
  assumes "cache_ok a n s" "zb_start s \<le> pos" "pos < zb_end s" "pos < n" "limit_ok limit sublen"
  shows "(\<exists>l. TryGetFromLongestMatchCache s pos limit sublen = Some (Miss l) \<and> 3 \<le> l \<and> l \<le> limit)
    \<or> (\<exists>sub d l. TryGetFromLongestMatchCache s pos limit sublen = Some (Hit sub d l)
        \<and> (sub = None) = (sublen = None) \<and> found a n pos limit sub d l)"
proof (cases "zb_lmc s")
  case None
  with assms(5) show ?thesis by (auto simp: TryGetFromLongestMatchCache_def limit_ok_def)
next
  case (Some c)
  let ?p = "pos - zb_start s"
  let ?len = "lmc_length c ?p"
  let ?max = "ZopfliMaxCachedSublen c ?p"
  have e: "entry_ok a n c ?p pos" using assms Some by (auto simp: cache_ok_def)
  have miss: "TryGetFromLongestMatchCache s pos limit sublen = Some (Miss limit)"
    if "\<not> (cache_available c ?p \<and> (limit = 258 \<or> ?len \<le> limit \<or> sublen \<noteq> None \<and> ?max \<ge> limit))"
    by (simp only: TryGetFromLongestMatchCache_def Some option.case Let_def match_bounds that if_False)
  consider (miss) "\<not> (cache_available c ?p \<and> (limit = 258 \<or> ?len \<le> limit \<or> sublen \<noteq> None \<and> ?max \<ge> limit))"
    | (none) "cache_available c ?p" "?len = 0"
    | (some) "cache_available c ?p" "limit = 258 \<or> ?len \<le> limit \<or> sublen \<noteq> None \<and> ?max \<ge> limit" "0 < ?len"
    by blast
  then show ?thesis
  proof cases
    case miss
    with \<open>_ \<Longrightarrow> TryGetFromLongestMatchCache s pos limit sublen = Some (Miss limit)\<close> assms(5) show ?thesis
      by (auto simp: limit_ok_def)
  next
    case none
    with Some assms(4,5) show ?thesis
      by (auto simp: TryGetFromLongestMatchCache_def Let_def match_bounds found_def limit_ok_def
          ZopfliCacheToSublen_def split: option.splits)
  next
    case some
    then have len: "3 \<le> ?len" "?len \<le> 258" "match_at a n pos ?len (lmc_dist c ?p)" "3 \<le> ?max" "?max \<le> ?len"
      and sub: "\<And>l sub k. 3 \<le> l \<Longrightarrow> 3 \<le> k \<Longrightarrow> k \<le> ?max \<Longrightarrow> match_at a n pos k (ZopfliCacheToSublen c ?p l sub k)"
        "\<And>l sub. 3 \<le> l \<Longrightarrow> ?len \<le> ?max \<Longrightarrow> ZopfliCacheToSublen c ?p l sub ?len = lmc_dist c ?p"
      using e by (auto simp: entry_ok_def cache_available_def)
    show ?thesis
    proof (cases sublen)
      case None
      let ?l = "if ?len > limit then limit else ?len"
      have "TryGetFromLongestMatchCache s pos limit None = Some (Hit None (lmc_dist c ?p) ?l)"
        using Some some(1,2) None by (simp add: TryGetFromLongestMatchCache_def Let_def match_bounds)
      moreover have "match_at a n pos ?l (lmc_dist c ?p)" using len(3) by (rule match_at_shorter) simp
      ultimately show ?thesis using None by (auto simp: found_def match_at_def)
    next
      case (Some sub0)
      then have limit: "limit = 258" using assms(5) by (simp add: limit_ok_def)
      show ?thesis
      proof (cases "?len \<le> ?max")
        case False
        with Some limit some(1) len \<open>zb_lmc s = Some c\<close> show ?thesis
          by (auto simp: TryGetFromLongestMatchCache_def Let_def match_bounds)
      next
        case True
        let ?sub = "ZopfliCacheToSublen c ?p ?len sub0"
        have "TryGetFromLongestMatchCache s pos limit sublen = Some (Hit (Some ?sub) (lmc_dist c ?p) ?len)"
          using Some limit some(1) len True sub(2) [OF len(1) True] \<open>zb_lmc s = Some c\<close>
          by (simp add: TryGetFromLongestMatchCache_def Let_def match_bounds)
        moreover have "found a n pos limit (Some ?sub) (lmc_dist c ?p) ?len"
          using len limit True sub(1) [OF len(1)] match_at_end [OF len(3)] by (auto simp: found_def)
        ultimately show ?thesis using Some by blast
      qed
    qed
  qed
qed


lemma Store_spec:
  assumes c: "cache_ok a n s" and pos: "zb_start s \<le> pos" "pos < zb_end s"
    and f: "found a n pos limit sublen dist len" "len \<le> 258"
      "\<And>sub. sublen = Some sub \<Longrightarrow> 3 \<le> len \<Longrightarrow> sub len = dist"
  shows "\<exists>s'. StoreInLongestMatchCache s pos l sublen dist len = Some s' \<and> cache_ok a n s'
    \<and> zb_start s' = zb_start s \<and> zb_end s' = zb_end s"
proof (cases "zb_lmc s = None \<or> sublen = None")
  case True
  then have "StoreInLongestMatchCache s pos l sublen dist len = Some s"
    by (auto simp: StoreInLongestMatchCache_def split: option.split)
  with c show ?thesis by simp
next
  case False
  then obtain c0 sub where c0: "zb_lmc s = Some c0" and sub: "sublen = Some sub" by auto
  let ?p = "pos - zb_start s"
  show ?thesis
  proof (cases "l = 258 \<and> \<not> cache_available c0 ?p")
    case False
    then have "StoreInLongestMatchCache s pos l sublen dist len = Some s"
      by (simp only: StoreInLongestMatchCache_def Let_def match_bounds c0 sub option.case prod.case if_False)
    with c show ?thesis by simp
  next
    case True
    have "entry_ok a n c0 ?p pos" using c c0 pos by (simp add: cache_ok_def)
    with True have empty: "lmc_length c0 ?p = 1 \<and> lmc_dist c0 ?p = 0"
      by (auto simp: entry_ok_def cache_available_def dest: match_at_dist)
    let ?d = "if len < 3 then 0 else dist" and ?l = "if len < 3 then 0 else len"
    let ?c1 = "c0\<lparr>lmc_dist := (lmc_dist c0)(?p := ?d), lmc_length := (lmc_length c0)(?p := ?l)\<rparr>"
    have eq: "StoreInLongestMatchCache s pos l sublen dist len
        = map_option (\<lambda>c. s\<lparr>zb_lmc := Some c\<rparr>) (ZopfliSublenToCache sub ?p len ?c1)"
      using True empty c0 sub by (simp add: StoreInLongestMatchCache_def Let_def match_bounds)
    have "\<exists>c2. ZopfliSublenToCache sub ?p len ?c1 = Some c2 \<and> lmc_length c2 = lmc_length ?c1 \<and> lmc_dist c2 = lmc_dist ?c1
      \<and> (\<forall>x. x < cache_base ?p \<or> cache_base (Suc ?p) \<le> x \<longrightarrow> lmc_sublen c2 x = lmc_sublen c0 x)
      \<and> entry_ok a n c2 ?p pos"
    proof (cases "len < 3")
      case True
      then show ?thesis by (simp add: ZopfliSublenToCache_def entry_ok_def)
    next
      case False
      then have m: "match_at a n pos len dist" "\<And>k. 3 \<le> k \<Longrightarrow> k \<le> len \<Longrightarrow> match_at a n pos k (sub k)"
        using f(1) sub by (auto simp: found_def)
      have "0 < sub k \<and> sub k < 65536" if "3 \<le> k" "k \<le> len" for k
        using match_at_dist [OF m(2) [OF that]] by simp
      then have "sublen_fits sub len" using f(2) by (simp add: sublen_fits_def)
      from SublenToCache_spec [OF this, of ?p ?c1] False obtain c2 where c2:
        "ZopfliSublenToCache sub ?p len ?c1 = Some c2" "lmc_length c2 = lmc_length ?c1" "lmc_dist c2 = lmc_dist ?c1"
        "3 \<le> ZopfliMaxCachedSublen c2 ?p" "ZopfliMaxCachedSublen c2 ?p \<le> len"
        "\<forall>x. x < cache_base ?p \<or> cache_base (Suc ?p) \<le> x \<longrightarrow> lmc_sublen c2 x = lmc_sublen ?c1 x"
        "\<forall>l sub' k. 3 \<le> l \<longrightarrow> 3 \<le> k \<longrightarrow>
          ZopfliCacheToSublen c2 ?p l sub' k = (if k \<le> ZopfliMaxCachedSublen c2 ?p then sub k else sub' k)"
        by auto
      have "entry_ok a n c2 ?p pos"
        using c2 m False f(2) f(3) [OF sub] by (auto simp: entry_ok_def)
      with c2 show ?thesis by auto
    qed
    then obtain c2 where c2: "ZopfliSublenToCache sub ?p len ?c1 = Some c2"
      "lmc_length c2 = lmc_length ?c1" "lmc_dist c2 = lmc_dist ?c1"
      "\<And>x. x < cache_base ?p \<or> cache_base (Suc ?p) \<le> x \<Longrightarrow> lmc_sublen c2 x = lmc_sublen c0 x"
      "entry_ok a n c2 ?p pos" by blast
    have "entry_ok a n c2 (q - zb_start s) q" if q: "zb_start s \<le> q" "q < zb_end s" for q
    proof (cases "q = pos")
      case False
      let ?q = "q - zb_start s"
      have "?q \<noteq> ?p" using False q pos by linarith
      then have apart: "cache_base (Suc ?q) \<le> cache_base ?p \<or> cache_base (Suc ?p) \<le> cache_base ?q"
        by (simp add: cache_base_def ZOPFLI_CACHE_LENGTH_def) linarith
      have "entry_ok a n c0 ?q q" using c c0 q by (simp add: cache_ok_def)
      then show ?thesis
      proof (rule entry_ok_cong)
        show "lmc_length c2 ?q = lmc_length c0 ?q" "lmc_dist c2 ?q = lmc_dist c0 ?q"
          using c2(2,3) \<open>?q \<noteq> ?p\<close> by simp_all
        show "lmc_sublen c2 x = lmc_sublen c0 x" if "cache_base ?q \<le> x" "x < cache_base (Suc ?q)" for x
          by (rule c2(4)) (use that apart in linarith)
      qed
    qed (use c2(5) in simp)
    then have "cache_ok a n (s\<lparr>zb_lmc := Some c2\<rparr>)" by (simp add: cache_ok_def)
    with eq c2(1) show ?thesis by simp
  qed
qed

lemma found_best:
  assumes "best_ok a n pos limit b" "pos + limit \<le> n"
  shows "found a n pos limit (bm_sublen b) (bm_dist b) (bm_length b)"
  using assms by (auto simp: best_ok_def found_def)

lemma FindLongestMatch_spec:
  assumes h: "hash_at a n ws pos h" and "n \<le> length a"
    and c: "cache_ok a n s" "zb_start s \<le> pos" "pos < zb_end s" and limit: "limit_ok limit sublen"
  shows "\<exists>s' sub dist len. ZopfliFindLongestMatch s h a pos n limit sublen = Some (s', sub, dist, len)
    \<and> found a n pos limit sub dist len \<and> (sub = None) = (sublen = None)
    \<and> cache_ok a n s' \<and> zb_start s' = zb_start s \<and> zb_end s' = zb_end s"
proof -
  have "pos < n" using h by (simp add: hash_at_def)
  from TryGet_spec [OF c this limit] consider
      (hit) sub d l where "TryGetFromLongestMatchCache s pos limit sublen = Some (Hit sub d l)"
        "(sub = None) = (sublen = None)" "found a n pos limit sub d l"
    | (miss) l where "TryGetFromLongestMatchCache s pos limit sublen = Some (Miss l)" "3 \<le> l" "l \<le> limit" by blast
  then show ?thesis
  proof cases
    case hit
    then show ?thesis using c by (simp add: ZopfliFindLongestMatch_def found_def)
  next
    case miss
    have l258: "l \<le> 258" using miss(3) limit by (auto simp: limit_ok_def)
    show ?thesis
    proof (cases "n - pos < 3")
      case True
      with miss l258 \<open>pos < n\<close> c show ?thesis
        by (simp add: ZopfliFindLongestMatch_def match_bounds found_def)
    next
      case False
      let ?l = "if pos + l > n then n - pos else l"
      let ?b = "\<lparr>bm_dist = 0, bm_length = 1, bm_sublen = sublen\<rparr>"
      let ?pp = "unat (word_of_int (hc_head (h_chain h) (hc_val (h_chain h))) :: u16)"
      have l: "3 \<le> ?l" "?l \<le> 258" "?l \<le> limit" "pos + ?l \<le> n" using False miss l258 \<open>pos < n\<close> by auto
      have at: "chain_at pos (h_chain h)" "chain_ok ws (Suc pos) (h_chain h)" "ws \<le> pos"
        using h by (auto simp: hash_at_def hash_ok_def)
      have "wslot pos < 65536" using wslot_less [of pos] by simp
      then have "unat (of_nat (wslot pos) :: u16) = wslot pos" by (intro unat_of_nat_small) simp
      with at have pp: "?pp = wslot pos" "hc_val (h_chain h) < 65536" by (auto simp: chain_at_def)
      let ?p = "hc_prev (h_chain h) ?pp"
      have "walking ws pos (h_chain h) ?p ?pp (slot_dist ?p ?pp)"
      proof (cases "?p = ?pp")
        case True
        then show ?thesis by (simp add: walking_def slot_dist_def ZOPFLI_WINDOW_SIZE_def pp(1) wslot_less less_imp_le)
      next
        case False
        have "at_entry ws pos (h_chain h) ?pp 0" using at pp by (simp add: at_entry_def chain_at_def)
        from walk_on [OF at(2) this False] show ?thesis by simp
      qed
      then have w: "walking ws pos (if False then h_chain2 h else h_chain h) ?p ?pp (slot_dist ?p ?pp)" by simp
      have "best_ok a n pos ?l ?b" using l(1) by (simp add: best_ok_def)
      from match_loop_spec [OF h assms(2) l(4) this w, of ZOPFLI_MAX_CHAIN_HITS] obtain b where
        b: "match_loop h a pos n ?l False ?p ?pp (slot_dist ?p ?pp) ?b ZOPFLI_MAX_CHAIN_HITS = Some b"
        "best_ok a n pos ?l b" "(bm_sublen b = None) = (sublen = None)" by auto
      have f: "found a n pos ?l (bm_sublen b) (bm_dist b) (bm_length b)" using b(2) l(4) by (rule found_best)
      have "\<And>sub. bm_sublen b = Some sub \<Longrightarrow> 3 \<le> bm_length b \<Longrightarrow> sub (bm_length b) = bm_dist b"
        using b(2) by (simp add: best_ok_def)
      moreover have "bm_length b \<le> 258" using f l(2) by (simp add: found_def)
      ultimately obtain s' where s': "StoreInLongestMatchCache s pos ?l (bm_sublen b) (bm_dist b) (bm_length b) = Some s'"
        "cache_ok a n s'" "zb_start s' = zb_start s" "zb_end s' = zb_end s"
        using Store_spec [OF c f, of ?l] by blast
      have "ZopfliFindLongestMatch s h a pos n limit sublen = Some (s', bm_sublen b, bm_dist b, bm_length b)"
        using miss l258 False \<open>pos < n\<close> pp f b(1) s'(1)
        by (simp only: ZopfliFindLongestMatch_def Let_def match_bounds option.case cache_answer.case if_False found_def)
          simp
      moreover have "found a n pos limit (bm_sublen b) (bm_dist b) (bm_length b)"
        using f l(3) by (auto simp: found_def)
      ultimately show ?thesis using s' b(3) by simp
    qed
  qed
qed

end
