(* ===== verification/ZopfliBits.thy ===== *)
theory ZopfliBits
  imports Prelude
begin

section \<open>Writing bits (src/zopfli: deflate.c)\<close>

text \<open>
  The bit writer of Zopfli: the dynamic byte array \<open>out\<close> and the bit pointer \<open>bp\<close> into its
  last byte.  \<open>stream\<close> is the sequence of bits written so far, in the order of RFC 1951; the
  three functions append to it.  \<open>ZOPFLI_APPEND_DATA\<close> is appending to a list, its allocation
  succeeds.
\<close>

record bitw =
  bp :: nat
  obytes :: "u8 list"

definition ZOPFLI_APPEND_DATA :: "u8 \<Rightarrow> bitw \<Rightarrow> bitw" where
  "ZOPFLI_APPEND_DATA v w = w\<lparr>obytes := obytes w @ [v]\<rparr>"

text \<open>The last byte is \<open>(*out)[*outsize - 1]\<close>.\<close>

definition AddBit :: "u32 \<Rightarrow> bitw \<Rightarrow> bitw" where
  "AddBit b w =
     (let w = (if bp w = 0 then ZOPFLI_APPEND_DATA 0 w else w);
          l = length (obytes w) - 1
      in w\<lparr>obytes := (obytes w)[l := ucast ((ucast (obytes w ! l) :: u32) OR push_bit (bp w) b)],
           bp := (bp w + 1) mod 8\<rparr>)"

text \<open>The loops, from bit \<open>i\<close> on with \<open>n\<close> bits to go.\<close>

fun AddBits_loop :: "u32 \<Rightarrow> nat \<Rightarrow> nat \<Rightarrow> bitw \<Rightarrow> bitw" where
  "AddBits_loop symbol i 0 w = w"
| "AddBits_loop symbol i (Suc n) w = AddBits_loop symbol (Suc i) n (AddBit (drop_bit i symbol AND 1) w)"

definition AddBits :: "u32 \<Rightarrow> nat \<Rightarrow> bitw \<Rightarrow> bitw" where
  "AddBits symbol len w = AddBits_loop symbol 0 len w"

fun AddHuffmanBits_loop :: "u32 \<Rightarrow> nat \<Rightarrow> nat \<Rightarrow> nat \<Rightarrow> bitw \<Rightarrow> bitw" where
  "AddHuffmanBits_loop symbol len i 0 w = w"
| "AddHuffmanBits_loop symbol len i (Suc n) w =
     AddHuffmanBits_loop symbol len (Suc i) n (AddBit (drop_bit (len - i - 1) symbol AND 1) w)"

definition AddHuffmanBits :: "u32 \<Rightarrow> nat \<Rightarrow> bitw \<Rightarrow> bitw" where
  "AddHuffmanBits symbol len w = AddHuffmanBits_loop symbol len 0 len w"

subsection \<open>The stream of bits\<close>

definition byte_bits :: "u8 \<Rightarrow> bool list" where
  "byte_bits b = map (bit b) [0..<8]"

definition bytes_bits :: "u8 list \<Rightarrow> bool list" where
  "bytes_bits bs = concat (map byte_bits bs)"

text \<open>How many bits are written, and which.\<close>

definition nbits :: "bitw \<Rightarrow> nat" where
  "nbits w = (if bp w = 0 then 8 * length (obytes w) else 8 * (length (obytes w) - 1) + bp w)"

definition stream :: "bitw \<Rightarrow> bool list" where
  "stream w = take (nbits w) (bytes_bits (obytes w))"

text \<open>The bits of the last byte above \<open>bp\<close> are still zero.\<close>

definition bitw_ok :: "bitw \<Rightarrow> bool" where
  "bitw_ok w \<longleftrightarrow> bp w < 8 \<and> (bp w \<noteq> 0 \<longrightarrow> obytes w \<noteq> [] \<and> (\<forall>i. bp w \<le> i \<longrightarrow> \<not> bit (last (obytes w)) i))"

lemma length_byte_bits [simp]: "length (byte_bits b) = 8"
  by (simp add: byte_bits_def)

lemma length_bytes_bits [simp]: "length (bytes_bits bs) = 8 * length bs"
  by (simp add: bytes_bits_def length_concat o_def sum_list_triv)

lemma bytes_bits_append [simp]: "bytes_bits (a @ b) = bytes_bits a @ bytes_bits b"
  by (simp add: bytes_bits_def)

lemma bytes_bits_single: "bytes_bits [b] = byte_bits b"
  by (simp add: bytes_bits_def)

lemma length_stream: "bitw_ok w \<Longrightarrow> length (stream w) = nbits w"
  by (cases "obytes w" rule: rev_cases) (auto simp: stream_def nbits_def bitw_ok_def)

lemma byte_bits_upto:
  assumes "b < 8" and "\<forall>i. b \<le> i \<longrightarrow> i < 8 \<longrightarrow> \<not> bit x i"
  shows "byte_bits x = take b (byte_bits x) @ replicate (8 - b) False"
proof (rule nth_equalityI)
  fix i assume i: "i < length (byte_bits x)"
  show "byte_bits x ! i = (take b (byte_bits x) @ replicate (8 - b) False) ! i"
    using i assms by (cases "i < b") (auto simp: byte_bits_def nth_append)
qed (use assms(1) in simp)

lemma byte_bits_set:
  assumes "b < 8"
  shows "take (Suc b) (byte_bits (ucast ((ucast (x :: u8) :: u32) OR push_bit b (if v then 1 else 0))))
    = take b (byte_bits x) @ [bit x b \<or> v]"
  using assms
  by (intro nth_equalityI) (auto simp: byte_bits_def nth_append bit_simps less_Suc_eq)

lemma bit_set_above:
  assumes "b < 8" "b < i" "\<not> bit (x :: u8) i"
  shows "\<not> bit (ucast ((ucast x :: u32) OR push_bit b (if v then 1 else 0)) :: u8) i"
  using assms by (auto simp: bit_simps)

lemma AddBit_stream:
  assumes ok: "bitw_ok w"
  shows "stream (AddBit (if v then 1 else 0) w) = stream w @ [v] \<and> bitw_ok (AddBit (if v then 1 else 0) w)"
proof (cases "bp w = 0")
  case True
  let ?y = "ucast ((ucast (0 :: u8) :: u32) OR push_bit 0 (if v then 1 else 0)) :: u8"
  have e: "AddBit (if v then 1 else 0) w = w\<lparr>obytes := obytes w @ [?y], bp := 1\<rparr>"
    using True by (simp add: AddBit_def ZOPFLI_APPEND_DATA_def Let_def nth_append)
  have "take 1 (byte_bits ?y) = [v]"
    using byte_bits_set [of 0 0 v] by simp
  moreover have "\<not> bit ?y i" if "1 \<le> i" for i
    using bit_set_above [of 0 i 0 v] that by simp
  ultimately show ?thesis
    using True by (simp add: e stream_def nbits_def bytes_bits_single bitw_ok_def)
next
  case False
  then obtain bs x where o: "obytes w = bs @ [x]" and b: "bp w < 8" "\<forall>i. bp w \<le> i \<longrightarrow> \<not> bit x i"
    using ok by (cases "obytes w" rule: rev_cases) (auto simp: bitw_ok_def)
  define y where "y = (ucast ((ucast x :: u32) OR push_bit (bp w) (if v then 1 else 0)) :: u8)"
  have e: "AddBit (if v then 1 else 0) w = w\<lparr>obytes := bs @ [y], bp := (bp w + 1) mod 8\<rparr>"
    using False by (simp add: AddBit_def Let_def o list_update_append y_def)
  have yb: "take (Suc (bp w)) (byte_bits y) = take (bp w) (byte_bits x) @ [v]"
    using byte_bits_set [OF b(1), of x v] b by (simp add: y_def)
  have z: "\<not> bit y i" if "Suc (bp w) \<le> i" for i
    using bit_set_above [OF b(1), of i x v] b(2) that by (simp add: y_def)
  have s: "stream w = bytes_bits bs @ take (bp w) (byte_bits x)"
    using False by (simp add: stream_def nbits_def o bytes_bits_single)
  show ?thesis
  proof (cases "bp w = 7")
    case True
    with yb have "byte_bits y = take 7 (byte_bits x) @ [v]" by simp
    then show ?thesis
      using True by (simp add: e s) (simp add: stream_def nbits_def bytes_bits_single bitw_ok_def)
  next
    case 7: False
    then have "(bp w + 1) mod 8 = Suc (bp w)" using b(1) by simp
    then show ?thesis
      using yb z 7 b(1) by (simp add: e s) (simp add: stream_def nbits_def bytes_bits_single bitw_ok_def)
  qed
qed

lemma bit_as_word: "(drop_bit i (x :: u32) AND 1) = (if bit x i then 1 else 0)"
  by (simp add: and_one_eq bit_iff_odd_drop_bit mod_2_eq_odd)

lemma AddBits_loop_stream:
  "bitw_ok w \<Longrightarrow> stream (AddBits_loop x i n w) = stream w @ map (bit x) [i..<i + n] \<and> bitw_ok (AddBits_loop x i n w)"
proof (induction n arbitrary: i w)
  case (Suc n)
  from AddBit_stream [OF Suc.prems, of "bit x i"] Suc.IH [of "AddBit (if bit x i then 1 else 0) w" "Suc i"]
  show ?case by (simp add: bit_as_word upt_conv_Cons del: upt_Suc)
qed simp

lemma AddBits_stream:
  "bitw_ok w \<Longrightarrow> stream (AddBits x n w) = stream w @ map (bit x) [0..<n]"
  "bitw_ok w \<Longrightarrow> bitw_ok (AddBits x n w)"
  using AddBits_loop_stream [of w x 0 n] by (simp_all add: AddBits_def)

text \<open>The bits of a code word, most significant first.\<close>

definition code_bits :: "u32 \<Rightarrow> nat \<Rightarrow> bool list" where
  "code_bits x len = map (\<lambda>i. bit x (len - 1 - i)) [0..<len]"

lemma AddHuffmanBits_loop_stream:
  "bitw_ok w \<Longrightarrow> i + n = len \<Longrightarrow>
     stream (AddHuffmanBits_loop x len i n w) = stream w @ map (\<lambda>i. bit x (len - 1 - i)) [i..<len]
     \<and> bitw_ok (AddHuffmanBits_loop x len i n w)"
proof (induction n arbitrary: i w)
  case (Suc n)
  let ?w = "AddBit (if bit x (len - i - 1) then 1 else 0) w"
  have "len - i - 1 = len - 1 - i" "i < len" using Suc.prems by auto
  with AddBit_stream [OF Suc.prems(1), of "bit x (len - i - 1)"] Suc.IH [of ?w "Suc i"] Suc.prems(2)
  show ?case by (simp add: bit_as_word upt_conv_Cons)
qed simp

lemma AddHuffmanBits_stream:
  "bitw_ok w \<Longrightarrow> stream (AddHuffmanBits x len w) = stream w @ code_bits x len"
  "bitw_ok w \<Longrightarrow> bitw_ok (AddHuffmanBits x len w)"
  using AddHuffmanBits_loop_stream [of w 0 len len x] by (simp_all add: AddHuffmanBits_def code_bits_def)

lemma length_code_bits [simp]: "length (code_bits x len) = len"
  by (simp add: code_bits_def)

end
