(* ===== verification/ZopfliTree.thy ===== *)
theory ZopfliTree
  imports ZopfliBits
begin

section \<open>From code lengths to codes (src/zopfli: tree.c)\<close>

text \<open>
  \<open>ZopfliLengthsToSymbols\<close> assigns the canonical code of RFC 1951 to given code lengths.  The
  \<open>unsigned\<close> variables are reduced modulo 2^32 as in C; the \<open>size_t\<close> counters cannot overflow.
  A length above \<open>maxbits\<close> violates the assertion: \<open>None\<close>.  For lengths that satisfy Kraft's
  inequality the codes fit their lengths and none is a prefix of another.
\<close>

subsection \<open>The function\<close>

fun count_lengths :: "nat list \<Rightarrow> nat list \<Rightarrow> nat list" where
  "count_lengths bl_count [] = bl_count"
| "count_lengths bl_count (l # ls) = count_lengths (bl_count[l := bl_count ! l + 1]) ls"

text \<open>The loop over \<open>bits\<close>, with \<open>n\<close> turns left; \<open>next_code\<close> is filled from index \<open>bits\<close> on.\<close>

fun next_codes :: "nat list \<Rightarrow> nat \<Rightarrow> nat \<Rightarrow> nat \<Rightarrow> nat list \<Rightarrow> nat list" where
  "next_codes bl_count code bits 0 next_code = next_code"
| "next_codes bl_count code bits (Suc n) next_code =
     (let code = (2 * (code + bl_count ! (bits - 1))) mod 2 ^ 32
      in next_codes bl_count code (Suc bits) n (next_code[bits := code]))"

fun assign_codes :: "nat list \<Rightarrow> nat list \<Rightarrow> nat list" where
  "assign_codes next_code [] = []"
| "assign_codes next_code (len # ls) =
     (if len \<noteq> 0 then next_code ! len mod 2 ^ 32 # assign_codes (next_code[len := next_code ! len + 1]) ls
      else 0 # assign_codes next_code ls)"

definition ZopfliLengthsToSymbols :: "nat list \<Rightarrow> nat \<Rightarrow> nat list option" where
  "ZopfliLengthsToSymbols lengths maxbits =
     (if list_all (\<lambda>l. l \<le> maxbits) lengths then
        let bl_count = (count_lengths (replicate (maxbits + 1) 0) lengths)[0 := 0];
            next_code = next_codes bl_count 0 1 maxbits (replicate (maxbits + 1) 0)
        in Some (assign_codes next_code lengths)
      else None)"

subsection \<open>The canonical code\<close>

text \<open>How many symbols have length \<open>l\<close>; the first code of length \<open>l\<close>; the code of symbol \<open>i\<close>.\<close>

definition len_count :: "nat list \<Rightarrow> nat \<Rightarrow> nat" where
  "len_count ls l = length (filter (\<lambda>x. x = l) ls)"

fun first_code :: "nat list \<Rightarrow> nat \<Rightarrow> nat" where
  "first_code ls 0 = 0"
| "first_code ls (Suc l) = 2 * (first_code ls l + (if l = 0 then 0 else len_count ls l))"

definition canonical_code :: "nat list \<Rightarrow> nat \<Rightarrow> nat" where
  "canonical_code ls i = (if ls ! i = 0 then 0 else first_code ls (ls ! i) + len_count (take i ls) (ls ! i))"

text \<open>Kraft's inequality for codes of at most \<open>M\<close> bits.\<close>

definition kraft_sum :: "nat list \<Rightarrow> nat \<Rightarrow> nat" where
  "kraft_sum ls M = sum_list (map (\<lambda>l. if l = 0 then 0 else 2 ^ (M - l)) ls)"

definition kraft :: "nat list \<Rightarrow> nat \<Rightarrow> bool" where
  "kraft ls M \<longleftrightarrow> list_all (\<lambda>l. l \<le> M) ls \<and> kraft_sum ls M \<le> 2 ^ M"

lemma len_count_Nil [simp]: "len_count [] l = 0"
  by (simp add: len_count_def)

lemma len_count_Cons [simp]: "len_count (x # ls) l = (if x = l then Suc (len_count ls l) else len_count ls l)"
  by (simp add: len_count_def)

lemma len_count_append [simp]: "len_count (a @ b) l = len_count a l + len_count b l"
  by (simp add: len_count_def)

lemma len_count_take: "i < length ls \<Longrightarrow> ls ! i = l \<Longrightarrow> len_count (take i ls) l < len_count ls l"
proof -
  assume i: "i < length ls" "ls ! i = l"
  have "drop i ls = l # drop (Suc i) ls" using i Cons_nth_drop_Suc [of i ls] by simp
  then have "len_count (take i ls @ drop i ls) l = len_count (take i ls) l + Suc (len_count (drop (Suc i) ls) l)"
    by (simp only: len_count_append len_count_Cons if_True simp_thms)
  then show ?thesis by simp
qed

text \<open>The start of the codes of length \<open>l\<close> on the scale of \<open>M\<close> bits.\<close>

definition code_start :: "nat list \<Rightarrow> nat \<Rightarrow> nat \<Rightarrow> nat" where
  "code_start ls M l = (\<Sum>k = 1..<l. len_count ls k * 2 ^ (M - k))"

lemma first_code_start: "1 \<le> l \<Longrightarrow> l \<le> M \<Longrightarrow> first_code ls l * 2 ^ (M - l) = code_start ls M l"
proof (induction l)
  case (Suc l)
  show ?case
  proof (cases "l = 0")
    case False
    then have p: "(2::nat) ^ (M - l) = 2 * 2 ^ (M - Suc l)"
      using Suc.prems by (metis Suc_diff_Suc Suc_le_eq power_Suc)
    have "first_code ls (Suc l) * 2 ^ (M - Suc l) = first_code ls l * 2 ^ (M - l) + len_count ls l * 2 ^ (M - l)"
      using False by (simp add: p algebra_simps)
    with Suc False show ?thesis by (simp add: code_start_def)
  qed (simp add: code_start_def)
qed simp

lemma code_start_mono: "a \<le> b \<Longrightarrow> code_start ls M a \<le> code_start ls M b"
  unfolding code_start_def by (intro sum_mono2) auto

lemma code_start_Suc: "1 \<le> l \<Longrightarrow> code_start ls M (Suc l) = code_start ls M l + len_count ls l * 2 ^ (M - l)"
  by (simp add: code_start_def)

lemma kraft_sum_counts: "list_all (\<lambda>l. l \<le> M) ls \<Longrightarrow> kraft_sum ls M = code_start ls M (Suc M)"
proof (induction ls)
  case (Cons x ls)
  have "(\<Sum>k = 1..<Suc M. (if x = k then Suc (len_count ls k) else len_count ls k) * 2 ^ (M - k))
    = (\<Sum>k = 1..<Suc M. len_count ls k * 2 ^ (M - k) + (if k = x then 2 ^ (M - k) else 0))"
    by (intro sum.cong) auto
  also have "\<dots> = code_start ls M (Suc M) + (if x = 0 then 0 else 2 ^ (M - x))"
    using Cons.prems by (auto simp: sum.distrib code_start_def)
  finally have "code_start (x # ls) M (Suc M) = code_start ls M (Suc M) + (if x = 0 then 0 else 2 ^ (M - x))"
    by (simp add: code_start_def)
  with Cons show ?case by (simp add: kraft_sum_def)
qed (simp add: kraft_sum_def code_start_def)

subsection \<open>The codes are disjoint intervals\<close>

definition low :: "nat list \<Rightarrow> nat \<Rightarrow> nat \<Rightarrow> nat" where
  "low ls M i = canonical_code ls i * 2 ^ (M - ls ! i)"

lemma low_eq:
  assumes "ls ! i \<noteq> 0" "ls ! i \<le> M"
  shows "low ls M i = code_start ls M (ls ! i) + len_count (take i ls) (ls ! i) * 2 ^ (M - ls ! i)"
  using assms first_code_start [of "ls ! i" M ls] by (simp add: low_def canonical_code_def algebra_simps)

lemma low_bounds:
  assumes "i < length ls" "ls ! i \<noteq> 0" "ls ! i \<le> M"
  shows "code_start ls M (ls ! i) \<le> low ls M i"
    and "low ls M i + 2 ^ (M - ls ! i) \<le> code_start ls M (Suc (ls ! i))"
proof -
  have "Suc (len_count (take i ls) (ls ! i)) \<le> len_count ls (ls ! i)"
    using len_count_take [OF assms(1) refl] by simp
  then have "Suc (len_count (take i ls) (ls ! i)) * 2 ^ (M - ls ! i) \<le> len_count ls (ls ! i) * 2 ^ (M - ls ! i)"
    by (rule mult_le_mono1)
  moreover have "1 \<le> ls ! i" using assms(2) by simp
  ultimately show "code_start ls M (ls ! i) \<le> low ls M i"
    "low ls M i + 2 ^ (M - ls ! i) \<le> code_start ls M (Suc (ls ! i))"
    by (simp_all add: low_eq assms(2,3) code_start_Suc)
qed

lemma low_order:
  assumes "i < length ls" "j < length ls" "ls ! i \<noteq> 0" "ls ! j \<noteq> 0" "ls ! i \<le> M" "ls ! j \<le> M"
    and "ls ! i < ls ! j \<or> ls ! i = ls ! j \<and> i < j"
  shows "low ls M i + 2 ^ (M - ls ! i) \<le> low ls M j"
  using assms(7)
proof
  assume "ls ! i < ls ! j"
  then have "code_start ls M (Suc (ls ! i)) \<le> code_start ls M (ls ! j)" by (intro code_start_mono) simp
  with low_bounds [of i ls M] low_bounds [of j ls M] assms show ?thesis by simp
next
  assume e: "ls ! i = ls ! j \<and> i < j"
  have "len_count (take i (take j ls)) (ls ! i) < len_count (take j ls) (ls ! i)"
    using e assms by (intro len_count_take) auto
  then have "Suc (len_count (take i ls) (ls ! i)) \<le> len_count (take j ls) (ls ! i)"
    using e by (simp add: min_def)
  then have "Suc (len_count (take i ls) (ls ! i)) * 2 ^ (M - ls ! i) \<le> len_count (take j ls) (ls ! i) * 2 ^ (M - ls ! i)"
    by (rule mult_le_mono1)
  with e show ?thesis using assms by (simp add: low_eq)
qed

lemma canonical_fits:
  assumes "kraft ls M" "i < length ls"
  shows "canonical_code ls i < 2 ^ (ls ! i)"
proof (cases "ls ! i = 0")
  case False
  have m: "ls ! i \<le> M" using assms by (simp add: kraft_def list_all_length)
  have "code_start ls M (Suc (ls ! i)) \<le> 2 ^ M"
    using assms m code_start_mono [of "Suc (ls ! i)" "Suc M" ls M]
    by (auto simp: kraft_def kraft_sum_counts)
  with low_bounds(2) [OF assms(2) False m]
  have "(canonical_code ls i + 1) * 2 ^ (M - ls ! i) \<le> 2 ^ (ls ! i) * 2 ^ (M - ls ! i)"
    using m by (simp add: low_def flip: power_add)
  then have "canonical_code ls i + 1 \<le> 2 ^ (ls ! i)" unfolding mult_le_cancel2 by simp
  then show ?thesis by simp
qed (simp add: canonical_code_def)

lemma canonical_no_prefix:
  assumes "kraft ls M" "i < length ls" "j < length ls" "i \<noteq> j" "ls ! i \<noteq> 0" "ls ! i \<le> ls ! j"
  shows "canonical_code ls j div 2 ^ (ls ! j - ls ! i) \<noteq> canonical_code ls i"
proof
  let ?a = "ls ! i" and ?b = "ls ! j"
  assume e: "canonical_code ls j div 2 ^ (?b - ?a) = canonical_code ls i"
  have m: "?a \<le> M" "?b \<le> M" using assms by (simp_all add: kraft_def list_all_length)
  have p: "(2::nat) ^ (M - ?a) = 2 ^ (?b - ?a) * 2 ^ (M - ?b)"
    using assms(6) m by (simp flip: power_add)
  have "canonical_code ls i * 2 ^ (?b - ?a) \<le> canonical_code ls j"
    using e by (metis div_times_less_eq_dividend)
  then have lo: "low ls M i \<le> low ls M j"
    unfolding low_def p by (metis mult.assoc mult_le_mono1)
  have "canonical_code ls j < (canonical_code ls i + 1) * 2 ^ (?b - ?a)"
    using e by (metis Suc_eq_plus1 div_less_iff_less_mult lessI zero_less_numeral zero_less_power)
  then have "Suc (canonical_code ls j) * 2 ^ (M - ?b) \<le> (canonical_code ls i + 1) * 2 ^ (?b - ?a) * 2 ^ (M - ?b)"
    by (intro mult_le_mono1) simp
  then have hi: "low ls M j + 2 ^ (M - ?b) \<le> low ls M i + 2 ^ (M - ?a)"
    by (simp add: low_def p algebra_simps)
  have pos: "0 < (2::nat) ^ (M - ?b)" "0 < (2::nat) ^ (M - ?a)" by simp_all
  show False
  proof (cases "?a < ?b \<or> ?a = ?b \<and> i < j")
    case True
    with low_order [of i ls j M] assms m have "low ls M i + 2 ^ (M - ?a) \<le> low ls M j" by simp
    with hi pos show False by linarith
  next
    case False
    then have "?b = ?a" "j < i" using assms(4,6) by auto
    with low_order [of j ls i M] assms m have "low ls M j + 2 ^ (M - ?b) \<le> low ls M i" by simp
    with lo pos show False by linarith
  qed
qed


subsection \<open>The function computes the canonical code\<close>

lemma count_lengths_nth:
  "list_all (\<lambda>l. l < length bl) ls \<Longrightarrow> k < length bl \<Longrightarrow>
     length (count_lengths bl ls) = length bl \<and> count_lengths bl ls ! k = bl ! k + len_count ls k"
  by (induction bl ls rule: count_lengths.induct) (auto simp: nth_list_update)

lemma first_code_le:
  assumes "kraft ls M" "1 \<le> l" "l \<le> M"
  shows "first_code ls l \<le> 2 ^ l"
proof -
  have "first_code ls l * 2 ^ (M - l) \<le> 2 ^ M"
    using assms code_start_mono [of l "Suc M" ls M] by (auto simp: first_code_start kraft_def kraft_sum_counts)
  also have "(2::nat) ^ M = 2 ^ l * 2 ^ (M - l)" using assms by (simp flip: power_add)
  finally show ?thesis unfolding mult_le_cancel2 by simp
qed

lemma next_codes_nth:
  assumes k: "kraft ls M" "M < 32"
    and bl: "\<forall>j \<le> M. bl ! j = (if j = 0 then 0 else len_count ls j)"
  shows "1 \<le> bits \<Longrightarrow> bits + n = Suc M \<Longrightarrow> length nc = Suc M \<Longrightarrow> l \<le> M \<Longrightarrow>
    next_codes bl (first_code ls (bits - 1)) bits n nc ! l
      = (if bits \<le> l then first_code ls l else nc ! l)"
proof (induction n arbitrary: bits nc)
  case (Suc n)
  have "2 * (first_code ls (bits - 1) + bl ! (bits - 1)) = first_code ls bits"
    using Suc.prems bl by (cases bits) auto
  moreover have "first_code ls bits mod 2 ^ 32 = first_code ls bits"
  proof -
    have "first_code ls bits \<le> 2 ^ bits" using Suc.prems by (intro first_code_le [OF k(1)]) auto
    also have "(2::nat) ^ bits < 2 ^ 32" using Suc.prems k(2) by (intro power_strict_increasing) auto
    finally show ?thesis by simp
  qed
  ultimately have "next_codes bl (first_code ls (bits - 1)) bits (Suc n) nc
      = next_codes bl (first_code ls (Suc bits - 1)) (Suc bits) n (nc[bits := first_code ls bits])"
    by (simp add: Let_def)
  with Suc.IH [of "Suc bits" "nc[bits := first_code ls bits]"] Suc.prems show ?case
    by (cases "l = bits") (auto simp: nth_list_update)
qed simp

lemma next_codes_length [simp]: "length (next_codes bl code bits n nc) = length nc"
  by (induction n arbitrary: code bits nc) (simp_all add: Let_def)

lemma assign_codes_canonical:
  assumes k: "kraft ls M" "M < 32"
  shows "ls = pre @ suf \<Longrightarrow> length nc = Suc M \<Longrightarrow>
    (\<forall>l. 1 \<le> l \<and> l \<le> M \<longrightarrow> nc ! l = first_code ls l + len_count pre l) \<Longrightarrow>
    assign_codes nc suf = map (canonical_code ls) [length pre..<length ls]"
proof (induction suf arbitrary: pre nc)
  case (Cons x suf)
  have i: "length pre < length ls" "ls ! length pre = x" "take (length pre) ls = pre"
    using Cons.prems(1) by simp_all
  have x: "x \<le> M" using k(1) i by (auto simp: kraft_def list_all_length)
  let ?nc = "if x \<noteq> 0 then nc[x := nc ! x + 1] else nc"
  have "assign_codes ?nc suf = map (canonical_code ls) [length (pre @ [x])..<length ls]"
    using Cons.prems x by (intro Cons.IH) (auto simp: nth_list_update)
  moreover have "(if x \<noteq> 0 then nc ! x mod 2 ^ 32 else 0) = canonical_code ls (length pre)"
  proof (cases "x = 0")
    case False
    then have "nc ! x = canonical_code ls (length pre)"
      using Cons.prems(3) x i by (simp add: canonical_code_def)
    moreover have "canonical_code ls (length pre) < 2 ^ x"
      using canonical_fits [OF k(1) i(1)] i by simp
    moreover have "(2::nat) ^ x \<le> 2 ^ 32" using x k(2) by (intro power_increasing) auto
    ultimately show ?thesis using False by (simp del: power_increasing_iff)
  qed (use i in \<open>simp add: canonical_code_def\<close>)
  moreover have "[length pre..<length ls] = length pre # [Suc (length pre)..<length ls]"
    using i by (simp add: upt_conv_Cons)
  ultimately show ?case by (auto split: if_splits)
qed simp

lemma LengthsToSymbols_canonical:
  assumes "kraft ls M" and "M < 32"
  shows "ZopfliLengthsToSymbols ls M = Some (map (canonical_code ls) [0..<length ls])"
proof -
  let ?bl = "(count_lengths (replicate (M + 1) 0) ls)[0 := 0]"
  let ?nc = "next_codes ?bl 0 1 M (replicate (M + 1) 0)"
  have le: "list_all (\<lambda>l. l < Suc M) ls" "list_all (\<lambda>l. l \<le> M) ls"
    using assms(1) by (simp_all add: kraft_def less_Suc_eq_le)
  have bl: "\<forall>j \<le> M. ?bl ! j = (if j = 0 then 0 else len_count ls j)"
    using count_lengths_nth [of "replicate (M + 1) 0" ls] le(1)
    by (auto simp: nth_list_update less_Suc_eq_le simp del: replicate_Suc)
  have "\<forall>l. 1 \<le> l \<and> l \<le> M \<longrightarrow> ?nc ! l = first_code ls l + len_count [] l"
    using next_codes_nth [OF assms bl, of 1 M "replicate (M + 1) 0"] by simp
  then have "assign_codes ?nc ls = map (canonical_code ls) [0..<length ls]"
    using assign_codes_canonical [OF assms, of "[]" ls ?nc] by simp
  with le(2) show ?thesis by (simp add: ZopfliLengthsToSymbols_def Let_def)
qed

subsection \<open>Properties\<close>

text \<open>C33: For code lengths that satisfy Kraft's inequality \<open>ZopfliLengthsToSymbols\<close> makes a prefix
  code: every code fits into its length, and no code is the beginning of another one.\<close>

theorem symbols_prefix_code:
  assumes "kraft ls M" "M < 32"
  shows "\<exists>cs. ZopfliLengthsToSymbols ls M = Some cs \<and> length cs = length ls
    \<and> (\<forall>i < length ls. cs ! i < 2 ^ (ls ! i))
    \<and> (\<forall>i < length ls. \<forall>j < length ls. i \<noteq> j \<longrightarrow> ls ! i \<noteq> 0 \<longrightarrow> ls ! i \<le> ls ! j \<longrightarrow>
          cs ! j div 2 ^ (ls ! j - ls ! i) \<noteq> cs ! i)"
  using LengthsToSymbols_canonical [OF assms] canonical_fits [OF assms(1)] canonical_no_prefix [OF assms(1)]
  by (intro exI [of _ "map (canonical_code ls) [0..<length ls]"]) auto

lemma symbols_prefix_code_witness:
  "\<exists>cs. ZopfliLengthsToSymbols [2, 1, 0, 3, 3] 3 = Some cs \<and> length cs = 5 \<and> cs ! 3 < 8 \<and> cs ! 3 div 4 \<noteq> cs ! 1"
proof -
  have "kraft [2, 1, 0, 3, 3] 3" by (simp add: kraft_def kraft_sum_def)
  from symbols_prefix_code [OF this] obtain cs where
    c: "ZopfliLengthsToSymbols [2, 1, 0, 3, 3] 3 = Some cs" "length cs = 5"
    "\<forall>i < 5. cs ! i < 2 ^ ([2, 1, 0, 3, 3 :: nat] ! i)"
    "\<forall>i < 5. \<forall>j < 5. i \<noteq> j \<longrightarrow> [2, 1, 0, 3, 3 :: nat] ! i \<noteq> 0 \<longrightarrow> [2, 1, 0, 3, 3 :: nat] ! i \<le> [2, 1, 0, 3, 3 :: nat] ! j \<longrightarrow>
          cs ! j div 2 ^ ([2, 1, 0, 3, 3 :: nat] ! j - [2, 1, 0, 3, 3 :: nat] ! i) \<noteq> cs ! i" by auto
  have "cs ! 3 < 8" using c(3) [rule_format, of 3] by simp
  moreover have "cs ! 3 div 4 \<noteq> cs ! 1" using c(4) [rule_format, of 1 3] by simp
  ultimately show ?thesis using c(1,2) by blast
qed

end
