(* ===== verification/ZopfliKatajainen.thy ===== *)
theory ZopfliKatajainen
  imports Prelude
begin

section \<open>Length-limited code lengths (src/zopfli: katajainen.c)\<close>

text \<open>
  The boundary package-merge algorithm.  A \<open>Node\<close> is a record in the pool, a list of nodes in
  which a pointer is an index; \<open>pool->next\<close> is its length.  Each of the \<open>maxbits\<close> lists holds
  the two lookahead chains.  Weights are \<open>size_t\<close>; the sums of the program stay below 2^64, and
  the test that keeps 9 bits for the symbol is that of the code.  \<open>qsort\<close> is insertion by the
  code's comparator, which for the weights of the program is a strict total order, so that every
  sorting algorithm gives the same result.
\<close>

record pnode =
  n_weight :: nat
  n_tail :: "nat option"
  n_count :: nat

type_synonym pm_state = "(nat \<times> nat) list \<times> pnode list"

definition InitNode :: "nat \<Rightarrow> nat \<Rightarrow> nat option \<Rightarrow> pnode" where
  "InitNode weight count tail = \<lparr>n_weight = weight, n_tail = tail, n_count = count\<rparr>"

text \<open>The new node is the last of the pool; the two recursive calls follow.\<close>

fun BoundaryPM :: "pnode list \<Rightarrow> nat \<Rightarrow> nat \<Rightarrow> pm_state \<Rightarrow> pm_state" where
  "BoundaryPM leaves numsymbols 0 (pairs, pool) =
     (let lastcount = n_count (pool ! snd (pairs ! 0))
      in if lastcount \<ge> numsymbols then (pairs, pool)
         else
           (pairs[0 := (snd (pairs ! 0), length pool)],
            pool @ [InitNode (n_weight (leaves ! lastcount)) (lastcount + 1) None]))"
| "BoundaryPM leaves numsymbols (Suc i) (pairs, pool) =
     (let lastcount = n_count (pool ! snd (pairs ! Suc i));
          oldchain = snd (pairs ! Suc i);
          newchain = length pool;
          pairs1 = pairs[Suc i := (oldchain, newchain)];
          sum_weight = n_weight (pool ! fst (pairs1 ! i)) + n_weight (pool ! snd (pairs1 ! i))
      in if lastcount < numsymbols \<and> sum_weight > n_weight (leaves ! lastcount) then
           (pairs1, pool @ [InitNode (n_weight (leaves ! lastcount)) (lastcount + 1) (n_tail (pool ! oldchain))])
         else
           BoundaryPM leaves numsymbols i
             (BoundaryPM leaves numsymbols i
                (pairs1, pool @ [InitNode sum_weight lastcount (Some (snd (pairs1 ! i)))])))"

text \<open>
  The last step; \<open>index\<close> is at least 1.  A new chain gets no weight (the memory is not
  initialised, and the weight is not used).
\<close>

definition BoundaryPMFinal :: "nat \<Rightarrow> pnode list \<Rightarrow> nat \<Rightarrow> nat \<Rightarrow> pm_state \<Rightarrow> pm_state" where
  "BoundaryPMFinal junk leaves numsymbols index st =
     (case st of (pairs, pool) \<Rightarrow>
        let lastcount = n_count (pool ! snd (pairs ! index));
            sum_weight = n_weight (pool ! fst (pairs ! (index - 1))) + n_weight (pool ! snd (pairs ! (index - 1)))
        in if lastcount < numsymbols \<and> sum_weight > n_weight (leaves ! lastcount) then
             (pairs[index := (fst (pairs ! index), length pool)],
              pool @ [InitNode junk (lastcount + 1) (n_tail (pool ! snd (pairs ! index)))])
           else
             (let a = snd (pairs ! index)
              in (pairs, pool[a := (pool ! a)\<lparr>n_tail := Some (snd (pairs ! (index - 1)))\<rparr>])))"

definition InitLists :: "pnode list \<Rightarrow> nat \<Rightarrow> pm_state" where
  "InitLists leaves maxbits =
     (replicate maxbits (0, 1),
      [InitNode (n_weight (leaves ! 0)) 1 None, InitNode (n_weight (leaves ! 1)) 2 None])"

subsection \<open>Extracting the lengths\<close>

text \<open>
  The counts along the chain, from \<open>counts[15]\<close> down; writing below \<open>counts[0]\<close> is out of
  bounds (\<open>None\<close>).
\<close>

fun chain_counts :: "nat \<Rightarrow> pnode list \<Rightarrow> nat option \<Rightarrow> nat list option" where
  "chain_counts n pool None = Some []"
| "chain_counts 0 pool (Some a) = None"
| "chain_counts (Suc n) pool (Some a) =
     map_option (\<lambda>cs. n_count (pool ! a) # cs) (chain_counts n pool (n_tail (pool ! a)))"

text \<open>\<open>for (; val > c; val--) bitlengths[leaves[val - 1].count] = value\<close>\<close>

fun set_lengths :: "pnode list \<Rightarrow> nat \<Rightarrow> nat \<Rightarrow> nat \<Rightarrow> nat list \<Rightarrow> nat list" where
  "set_lengths leaves value c 0 bitlengths = bitlengths"
| "set_lengths leaves value c (Suc v) bitlengths =
     (if Suc v > c then set_lengths leaves value c v (bitlengths[n_count (leaves ! v) := value])
      else bitlengths)"

text \<open>
  The \<open>while\<close> loop: \<open>c # cs\<close> are the counts from \<open>counts[ptr]\<close> on down to \<open>counts[end]\<close>; below
  they are 0.
\<close>

fun extract_loop :: "pnode list \<Rightarrow> nat \<Rightarrow> nat \<Rightarrow> nat list \<Rightarrow> nat list \<Rightarrow> nat list" where
  "extract_loop leaves value val [] bitlengths = bitlengths"
| "extract_loop leaves value val (c # cs) bitlengths =
     (let next_count = (case cs of [] \<Rightarrow> 0 | c' # _ \<Rightarrow> c')
      in extract_loop leaves (value + 1) (min val next_count) cs
           (set_lengths leaves value next_count val bitlengths))"

definition ExtractBitLengths :: "pnode list \<Rightarrow> nat \<Rightarrow> pnode list \<Rightarrow> nat list \<Rightarrow> nat list option" where
  "ExtractBitLengths pool chain leaves bitlengths =
     map_option (\<lambda>cs. extract_loop leaves 1 (hd cs) cs bitlengths) (chain_counts 16 pool (Some chain))"

subsection \<open>The function\<close>

definition LeafComparator :: "pnode \<Rightarrow> pnode \<Rightarrow> int" where
  "LeafComparator a b = sint (word_of_int (int (n_weight a) - int (n_weight b)) :: u32)"

fun insert_leaf :: "pnode \<Rightarrow> pnode list \<Rightarrow> pnode list" where
  "insert_leaf x [] = [x]"
| "insert_leaf x (y # ys) = (if LeafComparator x y < 0 then x # y # ys else y # insert_leaf x ys)"

definition qsort_leaves :: "pnode list \<Rightarrow> pnode list" where
  "qsort_leaves xs = foldl (\<lambda>s x. insert_leaf x s) [] xs"

definition used_leaves :: "nat list \<Rightarrow> pnode list" where
  "used_leaves frequencies =
     map (\<lambda>i. InitNode (frequencies ! i) i None) (filter (\<lambda>i. frequencies ! i \<noteq> 0) [0..<length frequencies])"

definition sorted_leaves :: "pnode list \<Rightarrow> pnode list" where
  "sorted_leaves leaves =
     map (\<lambda>x. x\<lparr>n_weight := drop_bit 9 (n_weight x)\<rparr>)
       (qsort_leaves (map (\<lambda>x. x\<lparr>n_weight := push_bit 9 (n_weight x) OR n_count x\<rparr>) leaves))"

text \<open>\<open>Inl 1\<close> is the error return.\<close>

definition ZopfliLengthLimitedCodeLengths :: "nat \<Rightarrow> nat list \<Rightarrow> nat \<Rightarrow> nat + nat list option" where
  "ZopfliLengthLimitedCodeLengths junk frequencies maxbits =
     (let bitlengths = replicate (length frequencies) 0;
          leaves = used_leaves frequencies;
          numsymbols = length leaves
      in if 2 ^ maxbits < numsymbols then Inl 1
         else if numsymbols = 0 then Inr (Some bitlengths)
         else if numsymbols = 1 then Inr (Some (bitlengths[n_count (leaves ! 0) := 1]))
         else if numsymbols = 2 then
           (let b = bitlengths[n_count (leaves ! 0) := bitlengths ! n_count (leaves ! 0) + 1]
            in Inr (Some (b[n_count (leaves ! 1) := b ! n_count (leaves ! 1) + 1])))
         else if list_ex (\<lambda>x. n_weight x \<ge> 2 ^ (8 * 8 - 9)) leaves then Inl 1
         else
           let leaves = sorted_leaves leaves;
               maxbits = (if numsymbols - 1 < maxbits then numsymbols - 1 else maxbits);
               runs = 2 * numsymbols - 4;
               st = (BoundaryPM leaves numsymbols (maxbits - 1) ^^ (runs - 1)) (InitLists leaves maxbits);
               (pairs, pool) = BoundaryPMFinal junk leaves numsymbols (maxbits - 1) st
           in Inr (ExtractBitLengths pool (snd (pairs ! (maxbits - 1))) leaves bitlengths))"

text \<open>\<open>ZopfliCalculateBitLengths\<close> asserts that there is no error.\<close>

definition ZopfliCalculateBitLengths :: "nat \<Rightarrow> nat list \<Rightarrow> nat \<Rightarrow> nat list option" where
  "ZopfliCalculateBitLengths junk counts maxbits =
     (case ZopfliLengthLimitedCodeLengths junk counts maxbits of Inl _ \<Rightarrow> None | Inr r \<Rightarrow> r)"

end
