(* ===== verification/ZopfliSymbols.thy ===== *)
theory ZopfliSymbols
  imports Prelude
begin

section \<open>The symbols of deflate (src/zopfli: symbols.h)\<close>

text \<open>
  Zopfli's functions from match lengths and distances to deflate symbols, extra bits and their
  values.  For distances the source has two versions: one that counts leading zeros, which gcc
  and clang compile, and a chain of comparisons.  Both are modelled and proved equal.  The
  tables of RFC 1951 that a decoder uses are the specification.
\<close>

subsection \<open>Distances, with the compiler's count of leading zeros\<close>

text \<open>\<open>__builtin_clz\<close> of an \<open>unsigned\<close>; it is undefined for 0.\<close>

fun clz_from :: "nat \<Rightarrow> u32 \<Rightarrow> nat" where
  "clz_from i x = (if bit x i then 31 - i else if i = 0 then 32 else clz_from (i - 1) x)"

declare clz_from.simps [simp del]

definition clz :: "int \<Rightarrow> int" where
  "clz n = int (clz_from 31 (word_of_int n))"

definition ZopfliGetDistExtraBits :: "int \<Rightarrow> int" where
  "ZopfliGetDistExtraBits dist = (if dist < 5 then 0 else (31 XOR clz (dist - 1)) - 1)"

definition ZopfliGetDistExtraBitsValue :: "int \<Rightarrow> int" where
  "ZopfliGetDistExtraBitsValue dist =
     (if dist < 5 then 0
      else let l = nat (31 XOR clz (dist - 1))
           in (dist - (1 + push_bit l 1)) AND (push_bit (l - 1) 1 - 1))"

definition ZopfliGetDistSymbol :: "int \<Rightarrow> int" where
  "ZopfliGetDistSymbol dist =
     (if dist < 5 then dist - 1
      else let l = nat (31 XOR clz (dist - 1));
               r = drop_bit (l - 1) (dist - 1) AND 1
           in int l * 2 + r)"

subsection \<open>Distances, by comparison\<close>

definition DistExtraBits_cmp :: "int \<Rightarrow> int" where
  "DistExtraBits_cmp dist =
     (if dist < 5 then 0
      else if dist < 9 then 1
      else if dist < 17 then 2
      else if dist < 33 then 3
      else if dist < 65 then 4
      else if dist < 129 then 5
      else if dist < 257 then 6
      else if dist < 513 then 7
      else if dist < 1025 then 8
      else if dist < 2049 then 9
      else if dist < 4097 then 10
      else if dist < 8193 then 11
      else if dist < 16385 then 12
      else 13)"

definition DistExtraBitsValue_cmp :: "int \<Rightarrow> int" where
  "DistExtraBitsValue_cmp dist =
     (if dist < 5 then 0
      else if dist < 9 then (dist - 5) AND 1
      else if dist < 17 then (dist - 9) AND 3
      else if dist < 33 then (dist - 17) AND 7
      else if dist < 65 then (dist - 33) AND 15
      else if dist < 129 then (dist - 65) AND 31
      else if dist < 257 then (dist - 129) AND 63
      else if dist < 513 then (dist - 257) AND 127
      else if dist < 1025 then (dist - 513) AND 255
      else if dist < 2049 then (dist - 1025) AND 511
      else if dist < 4097 then (dist - 2049) AND 1023
      else if dist < 8193 then (dist - 4097) AND 2047
      else if dist < 16385 then (dist - 8193) AND 4095
      else (dist - 16385) AND 8191)"

definition DistSymbol_cmp :: "int \<Rightarrow> int" where
  "DistSymbol_cmp dist =
     (if dist < 193 then
        if dist < 13 then
          if dist < 5 then dist - 1
          else if dist < 7 then 4
          else if dist < 9 then 5
          else 6
        else
          if dist < 17 then 7
          else if dist < 25 then 8
          else if dist < 33 then 9
          else if dist < 49 then 10
          else if dist < 65 then 11
          else if dist < 97 then 12
          else if dist < 129 then 13
          else 14
      else
        if dist < 2049 then
          if dist < 257 then 15
          else if dist < 385 then 16
          else if dist < 513 then 17
          else if dist < 769 then 18
          else if dist < 1025 then 19
          else if dist < 1537 then 20
          else 21
        else
          if dist < 3073 then 22
          else if dist < 4097 then 23
          else if dist < 6145 then 24
          else if dist < 8193 then 25
          else if dist < 12289 then 26
          else if dist < 16385 then 27
          else if dist < 24577 then 28
          else 29)"

subsection \<open>Lengths\<close>

definition LengthExtraBits_table :: "int list" where
  "LengthExtraBits_table = [
     0, 0, 0, 0, 0, 0, 0, 0, 0, 0, 0, 1, 1, 1, 1, 1, 1, 1, 1, 2, 2, 2,
     2, 2, 2, 2, 2, 2, 2, 2, 2, 2, 2, 2, 2, 3, 3, 3, 3, 3, 3, 3, 3, 3,
     3, 3, 3, 3, 3, 3, 3, 3, 3, 3, 3, 3, 3, 3, 3, 3, 3, 3, 3, 3, 3, 3,
     3, 4, 4, 4, 4, 4, 4, 4, 4, 4, 4, 4, 4, 4, 4, 4, 4, 4, 4, 4, 4, 4,
     4, 4, 4, 4, 4, 4, 4, 4, 4, 4, 4, 4, 4, 4, 4, 4, 4, 4, 4, 4, 4, 4,
     4, 4, 4, 4, 4, 4, 4, 4, 4, 4, 4, 4, 4, 4, 4, 4, 4, 4, 4, 4, 4, 5,
     5, 5, 5, 5, 5, 5, 5, 5, 5, 5, 5, 5, 5, 5, 5, 5, 5, 5, 5, 5, 5, 5,
     5, 5, 5, 5, 5, 5, 5, 5, 5, 5, 5, 5, 5, 5, 5, 5, 5, 5, 5, 5, 5, 5,
     5, 5, 5, 5, 5, 5, 5, 5, 5, 5, 5, 5, 5, 5, 5, 5, 5, 5, 5, 5, 5, 5,
     5, 5, 5, 5, 5, 5, 5, 5, 5, 5, 5, 5, 5, 5, 5, 5, 5, 5, 5, 5, 5, 5,
     5, 5, 5, 5, 5, 5, 5, 5, 5, 5, 5, 5, 5, 5, 5, 5, 5, 5, 5, 5, 5, 5,
     5, 5, 5, 5, 5, 5, 5, 5, 5, 5, 5, 5, 5, 5, 5, 5, 0]"

definition ZopfliGetLengthExtraBits :: "int \<Rightarrow> int" where
  "ZopfliGetLengthExtraBits l = LengthExtraBits_table ! nat l"

definition LengthExtraBitsValue_table :: "int list" where
  "LengthExtraBitsValue_table = [
     0, 0, 0, 0, 0, 0, 0, 0, 0, 0, 0, 0, 1, 0, 1, 0, 1, 0, 1, 0, 1, 2,
     3, 0, 1, 2, 3, 0, 1, 2, 3, 0, 1, 2, 3, 0, 1, 2, 3, 4, 5, 6, 7, 0,
     1, 2, 3, 4, 5, 6, 7, 0, 1, 2, 3, 4, 5, 6, 7, 0, 1, 2, 3, 4, 5, 6,
     7, 0, 1, 2, 3, 4, 5, 6, 7, 8, 9, 10, 11, 12, 13, 14, 15, 0, 1, 2, 3, 4,
     5, 6, 7, 8, 9, 10, 11, 12, 13, 14, 15, 0, 1, 2, 3, 4, 5, 6, 7, 8, 9, 10,
     11, 12, 13, 14, 15, 0, 1, 2, 3, 4, 5, 6, 7, 8, 9, 10, 11, 12, 13, 14, 15, 0,
     1, 2, 3, 4, 5, 6, 7, 8, 9, 10, 11, 12, 13, 14, 15, 16, 17, 18, 19, 20, 21, 22,
     23, 24, 25, 26, 27, 28, 29, 30, 31, 0, 1, 2, 3, 4, 5, 6, 7, 8, 9, 10, 11, 12,
     13, 14, 15, 16, 17, 18, 19, 20, 21, 22, 23, 24, 25, 26, 27, 28, 29, 30, 31, 0, 1, 2,
     3, 4, 5, 6, 7, 8, 9, 10, 11, 12, 13, 14, 15, 16, 17, 18, 19, 20, 21, 22, 23, 24,
     25, 26, 27, 28, 29, 30, 31, 0, 1, 2, 3, 4, 5, 6, 7, 8, 9, 10, 11, 12, 13, 14,
     15, 16, 17, 18, 19, 20, 21, 22, 23, 24, 25, 26, 27, 28, 29, 30, 0]"

definition ZopfliGetLengthExtraBitsValue :: "int \<Rightarrow> int" where
  "ZopfliGetLengthExtraBitsValue l = LengthExtraBitsValue_table ! nat l"

definition LengthSymbol_table :: "int list" where
  "LengthSymbol_table = [
     0, 0, 0, 257, 258, 259, 260, 261, 262, 263, 264, 265, 265, 266, 266, 267, 267, 268, 268, 269, 269, 269,
     269, 270, 270, 270, 270, 271, 271, 271, 271, 272, 272, 272, 272, 273, 273, 273, 273, 273, 273, 273, 273, 274,
     274, 274, 274, 274, 274, 274, 274, 275, 275, 275, 275, 275, 275, 275, 275, 276, 276, 276, 276, 276, 276, 276,
     276, 277, 277, 277, 277, 277, 277, 277, 277, 277, 277, 277, 277, 277, 277, 277, 277, 278, 278, 278, 278, 278,
     278, 278, 278, 278, 278, 278, 278, 278, 278, 278, 278, 279, 279, 279, 279, 279, 279, 279, 279, 279, 279, 279,
     279, 279, 279, 279, 279, 280, 280, 280, 280, 280, 280, 280, 280, 280, 280, 280, 280, 280, 280, 280, 280, 281,
     281, 281, 281, 281, 281, 281, 281, 281, 281, 281, 281, 281, 281, 281, 281, 281, 281, 281, 281, 281, 281, 281,
     281, 281, 281, 281, 281, 281, 281, 281, 281, 282, 282, 282, 282, 282, 282, 282, 282, 282, 282, 282, 282, 282,
     282, 282, 282, 282, 282, 282, 282, 282, 282, 282, 282, 282, 282, 282, 282, 282, 282, 282, 282, 283, 283, 283,
     283, 283, 283, 283, 283, 283, 283, 283, 283, 283, 283, 283, 283, 283, 283, 283, 283, 283, 283, 283, 283, 283,
     283, 283, 283, 283, 283, 283, 283, 284, 284, 284, 284, 284, 284, 284, 284, 284, 284, 284, 284, 284, 284, 284,
     284, 284, 284, 284, 284, 284, 284, 284, 284, 284, 284, 284, 284, 284, 284, 284, 285]"

definition ZopfliGetLengthSymbol :: "int \<Rightarrow> int" where
  "ZopfliGetLengthSymbol l = LengthSymbol_table ! nat l"

definition LengthSymbolExtraBits_table :: "int list" where
  "LengthSymbolExtraBits_table = [
     0, 0, 0, 0, 0, 0, 0, 0, 1, 1, 1, 1, 2, 2, 2, 2, 3, 3, 3, 3, 4, 4,
     4, 4, 5, 5, 5, 5, 0]"

definition ZopfliGetLengthSymbolExtraBits :: "int \<Rightarrow> int" where
  "ZopfliGetLengthSymbolExtraBits s = LengthSymbolExtraBits_table ! nat (s - 257)"

definition DistSymbolExtraBits_table :: "int list" where
  "DistSymbolExtraBits_table = [
     0, 0, 0, 0, 1, 1, 2, 2, 3, 3, 4, 4, 5, 5, 6, 6, 7, 7, 8, 8, 9, 9,
     10, 10, 11, 11, 12, 12, 13, 13]"

definition ZopfliGetDistSymbolExtraBits :: "int \<Rightarrow> int" where
  "ZopfliGetDistSymbolExtraBits s = DistSymbolExtraBits_table ! nat s"

end
