(* ===== verification/ZopfliStore.thy ===== *)
theory ZopfliStore
  imports ZopfliSymbols
begin

section \<open>The LZ77 store (src/zopfli: lz77.c, lz77.h)\<close>

text \<open>
  The commands of an LZ77 run and, one counter per command, their cumulative histograms: the
  counters of a chunk of \<open>ZOPFLI_NUM_LL\<close> (for distances \<open>ZOPFLI_NUM_D\<close>) commands are the
  histogram at the end of the chunk.  The counters are \<open>size_t\<close>, 64-bit words.  Allocation is
  assumed to succeed.  The assertion of \<open>ZopfliStoreLitLenDist\<close> makes it \<open>None\<close>.
\<close>

definition ZOPFLI_NUM_LL :: nat where "ZOPFLI_NUM_LL = 288"
definition ZOPFLI_NUM_D :: nat where "ZOPFLI_NUM_D = 32"

record lz77_store =
  litlens :: "nat list"
  dists :: "nat list"
  lz_data :: "u8 list"
  lz_pos :: "nat list"
  ll_symbol :: "nat list"
  d_symbol :: "nat list"
  ll_counts :: "u64 list"
  d_counts :: "u64 list"

definition lz_size :: "lz77_store \<Rightarrow> nat" where
  "lz_size s = length (litlens s)"

definition ZopfliInitLZ77Store :: "u8 list \<Rightarrow> lz77_store" where
  "ZopfliInitLZ77Store input = \<lparr>litlens = [], dists = [], lz_data = input, lz_pos = [], ll_symbol = [],
     d_symbol = [], ll_counts = [], d_counts = []\<rparr>"

definition CeilDiv :: "nat \<Rightarrow> nat \<Rightarrow> nat" where
  "CeilDiv a b = (a + b - 1) div b"

definition ZopfliCopyLZ77Store :: "lz77_store \<Rightarrow> lz77_store" where
  "ZopfliCopyLZ77Store s =
     (let n = lz_size s
      in \<lparr>litlens = take n (litlens s), dists = take n (dists s), lz_data = lz_data s,
          lz_pos = take n (lz_pos s), ll_symbol = take n (ll_symbol s), d_symbol = take n (d_symbol s),
          ll_counts = take (ZOPFLI_NUM_LL * CeilDiv n ZOPFLI_NUM_LL) (ll_counts s),
          d_counts = take (ZOPFLI_NUM_D * CeilDiv n ZOPFLI_NUM_D) (d_counts s)\<rparr>)"

subsection \<open>Appending a command\<close>

text \<open>At the start of a chunk the counters of the last one are copied.\<close>

definition new_chunk :: "nat \<Rightarrow> nat \<Rightarrow> u64 list \<Rightarrow> u64 list" where
  "new_chunk N origsize counts =
     (if origsize mod N = 0 then
        take origsize counts @ map (\<lambda>i. if origsize = 0 then 0 else counts ! (origsize - N + i)) [0..<N]
      else counts)"

definition bump :: "nat \<Rightarrow> u64 list \<Rightarrow> u64 list" where
  "bump i counts = counts[i := counts ! i + 1]"

definition ZopfliStoreLitLenDist :: "nat \<Rightarrow> nat \<Rightarrow> nat \<Rightarrow> lz77_store \<Rightarrow> lz77_store option" where
  "ZopfliStoreLitLenDist len dist pos s =
     (let origsize = lz_size s;
          llstart = ZOPFLI_NUM_LL * (origsize div ZOPFLI_NUM_LL);
          dstart = ZOPFLI_NUM_D * (origsize div ZOPFLI_NUM_D);
          s1 = s\<lparr>ll_counts := new_chunk ZOPFLI_NUM_LL origsize (ll_counts s),
                 d_counts := new_chunk ZOPFLI_NUM_D origsize (d_counts s),
                 litlens := litlens s @ [len], dists := dists s @ [dist], lz_pos := lz_pos s @ [pos]\<rparr>
      in if \<not> len < 259 then None
         else if dist = 0 then
           Some (s1\<lparr>ll_symbol := ll_symbol s1 @ [len], d_symbol := d_symbol s1 @ [0],
                    ll_counts := bump (llstart + len) (ll_counts s1)\<rparr>)
         else
           let ls = nat (ZopfliGetLengthSymbol (int len));
               ds = nat (ZopfliGetDistSymbol (int dist))
           in Some (s1\<lparr>ll_symbol := ll_symbol s1 @ [ls], d_symbol := d_symbol s1 @ [ds],
                       ll_counts := bump (llstart + ls) (ll_counts s1),
                       d_counts := bump (dstart + ds) (d_counts s1)\<rparr>))"

fun append_commands :: "(nat \<times> nat \<times> nat) list \<Rightarrow> lz77_store \<Rightarrow> lz77_store option" where
  "append_commands [] target = Some target"
| "append_commands ((len, dist, pos) # cs) target =
     (case ZopfliStoreLitLenDist len dist pos target of
        None \<Rightarrow> None
      | Some target' \<Rightarrow> append_commands cs target')"

definition ZopfliAppendLZ77Store :: "lz77_store \<Rightarrow> lz77_store \<Rightarrow> lz77_store option" where
  "ZopfliAppendLZ77Store s target = append_commands (zip (litlens s) (zip (dists s) (lz_pos s))) target"

subsection \<open>Ranges and histograms\<close>

definition ZopfliLZ77GetByteRange :: "lz77_store \<Rightarrow> nat \<Rightarrow> nat \<Rightarrow> nat" where
  "ZopfliLZ77GetByteRange s lstart lend =
     (let l = lend - 1
      in if lstart = lend then 0
         else lz_pos s ! l + (if dists s ! l = 0 then 1 else litlens s ! l) - lz_pos s ! lstart)"

definition drop_one :: "nat \<Rightarrow> u64 list \<Rightarrow> u64 list" where
  "drop_one i counts = counts[i := counts ! i - 1]"

definition ZopfliLZ77GetHistogramAt :: "lz77_store \<Rightarrow> nat \<Rightarrow> u64 list \<times> u64 list" where
  "ZopfliLZ77GetHistogramAt s lpos =
     (let llpos = ZOPFLI_NUM_LL * (lpos div ZOPFLI_NUM_LL);
          dpos = ZOPFLI_NUM_D * (lpos div ZOPFLI_NUM_D);
          ll = map (\<lambda>i. ll_counts s ! (llpos + i)) [0..<ZOPFLI_NUM_LL];
          ll = foldl (\<lambda>c i. drop_one (ll_symbol s ! i) c) ll [lpos + 1..<min (llpos + ZOPFLI_NUM_LL) (lz_size s)];
          d = map (\<lambda>i. d_counts s ! (dpos + i)) [0..<ZOPFLI_NUM_D];
          d = foldl (\<lambda>c i. if dists s ! i \<noteq> 0 then drop_one (d_symbol s ! i) c else c) d
                [lpos + 1..<min (dpos + ZOPFLI_NUM_D) (lz_size s)]
      in (ll, d))"

definition ZopfliLZ77GetHistogram :: "lz77_store \<Rightarrow> nat \<Rightarrow> nat \<Rightarrow> u64 list \<times> u64 list" where
  "ZopfliLZ77GetHistogram s lstart lend =
     (if lstart + ZOPFLI_NUM_LL * 3 > lend then
        (foldl (\<lambda>c i. bump (ll_symbol s ! i) c) (replicate ZOPFLI_NUM_LL 0) [lstart..<lend],
         foldl (\<lambda>c i. if dists s ! i \<noteq> 0 then bump (d_symbol s ! i) c else c) (replicate ZOPFLI_NUM_D 0) [lstart..<lend])
      else
        let (ll, d) = ZopfliLZ77GetHistogramAt s (lend - 1)
        in if lstart > 0 then
             let (ll2, d2) = ZopfliLZ77GetHistogramAt s (lstart - 1)
             in (map2 (-) ll ll2, map2 (-) d d2)
           else (ll, d))"

end
