(* ===== verification/ZopfliDeflate.thy ===== *)
theory ZopfliDeflate
  imports ZopfliTree ZopfliKatajainen ZopfliStore
begin

section \<open>Deflate blocks (src/zopfli: deflate.c)\<close>

text \<open>
  The blocks of a deflate stream: stored blocks, and blocks of LZ77 commands with fixed or
  dynamic trees.  Lengths, counts and sizes are natural numbers (the values of the program are
  far below the widths of \<open>unsigned\<close> and \<open>size_t\<close>, and the sizes it holds in a \<open>double\<close> are
  integers below 2^53).  A failed assertion is \<open>None\<close>.  \<open>junk\<close> is the uninitialised weight of
  \<open>BoundaryPMFinal\<close>.
\<close>

subsection \<open>Stored blocks\<close>

text \<open>One turn of the loop; \<open>instart \<le> inend\<close> as in all calls.\<close>

definition stored_header :: "bool \<Rightarrow> nat \<Rightarrow> bitw \<Rightarrow> bitw" where
  "stored_header fin blocksize w =
     (let nlen = unat (NOT (of_nat blocksize :: u16));
          w = AddBit (if fin then 1 else 0) w;
          w = AddBit 0 w;
          w = AddBit 0 w;
          w = w\<lparr>bp := 0\<rparr>;
          w = ZOPFLI_APPEND_DATA (of_nat (blocksize mod 256)) w;
          w = ZOPFLI_APPEND_DATA (of_nat (blocksize div 256 mod 256)) w;
          w = ZOPFLI_APPEND_DATA (of_nat (nlen mod 256)) w
      in ZOPFLI_APPEND_DATA (of_nat (nlen div 256 mod 256)) w)"

function AddNonCompressedBlock :: "bool \<Rightarrow> u8 list \<Rightarrow> nat \<Rightarrow> nat \<Rightarrow> bitw \<Rightarrow> bitw" where
  "AddNonCompressedBlock final input pos inend w =
     (let blocksize = (if pos + 65535 > inend then inend - pos else 65535);
          currentfinal = (pos + blocksize \<ge> inend);
          w = stored_header (final \<and> currentfinal) blocksize w;
          w = foldl (\<lambda>w i. ZOPFLI_APPEND_DATA (input ! (pos + i)) w) w [0..<blocksize]
      in if currentfinal then w else AddNonCompressedBlock final input (pos + blocksize) inend w)"
  by pat_completeness auto
termination
  by (relation "measure (\<lambda>(_, _, pos, inend, _). inend - pos)") (auto split: if_splits)

declare AddNonCompressedBlock.simps [simp del]

subsection \<open>Code lengths\<close>

text \<open>The first 30 of the 32 distance lengths are looked at.\<close>

definition PatchDistanceCodesForBuggyDecoders :: "nat list \<Rightarrow> nat list" where
  "PatchDistanceCodesForBuggyDecoders d_lengths =
     (let num_dist_codes = length (filter (\<lambda>l. l \<noteq> 0) (take 30 d_lengths))
      in if num_dist_codes \<ge> 2 then d_lengths
         else if num_dist_codes = 0 then d_lengths[0 := 1, 1 := 1]
         else d_lengths[(if d_lengths ! 0 \<noteq> 0 then 1 else 0) := 1])"

definition GetFixedTree :: "nat list \<times> nat list" where
  "GetFixedTree = (replicate 144 8 @ replicate 112 9 @ replicate 24 7 @ replicate 8 8, replicate 32 5)"

subsection \<open>Encoding the trees\<close>

definition cl_order :: "nat list" where
  "cl_order = [16, 17, 18, 0, 8, 7, 9, 6, 10, 5, 11, 4, 12, 3, 13, 2, 14, 1, 15]"

text \<open>\<open>while (h > 0 && lengths[off + h - 1] == 0) h--\<close>\<close>

fun trim_zeros :: "nat list \<Rightarrow> nat \<Rightarrow> nat \<Rightarrow> nat" where
  "trim_zeros lengths off 0 = 0"
| "trim_zeros lengths off (Suc h) = (if lengths ! (off + h) = 0 then trim_zeros lengths off h else Suc h)"

text \<open>The run-length code so far (empty in the size-only mode) and the counts of its symbols.\<close>

type_synonym rle_state = "(nat \<times> nat) list \<times> nat list"

definition emit :: "bool \<Rightarrow> nat \<Rightarrow> nat \<Rightarrow> rle_state \<Rightarrow> rle_state" where
  "emit size_only s extra st = (case st of (rle, clcounts) \<Rightarrow>
     (if size_only then rle else rle @ [(s, extra)], clcounts[s := clcounts ! s + 1]))"

text \<open>
  The three \<open>while\<close> loops: as long as \<open>least\<close> copies are left, up to \<open>most\<close> of them are coded
  by symbol \<open>s\<close>.  The result has the copies left.
\<close>

function repeat_code :: "bool \<Rightarrow> nat \<Rightarrow> nat \<Rightarrow> nat \<Rightarrow> nat \<Rightarrow> rle_state \<Rightarrow> nat \<times> rle_state" where
  "repeat_code size_only s least most count st =
     (if count \<ge> least \<and> 0 < least \<and> 0 < most then
        let count2 = (if count > most then most else count)
        in repeat_code size_only s least most (count - count2) (emit size_only s (count2 - least) st)
      else (count, st))"
  by pat_completeness auto
termination by (relation "measure (\<lambda>(_, _, _, _, count, _). count)") auto

declare repeat_code.simps [simp del]

definition encode_run :: "bool \<Rightarrow> bool \<Rightarrow> bool \<Rightarrow> bool \<Rightarrow> nat \<Rightarrow> nat \<Rightarrow> rle_state \<Rightarrow> rle_state" where
  "encode_run size_only use_16 use_17 use_18 symbol count st =
     (let (count, st) =
        (if symbol = 0 \<and> count \<ge> 3 then
           let (count, st) = (if use_18 then repeat_code size_only 18 11 138 count st else (count, st))
           in if use_17 then repeat_code size_only 17 3 10 count st else (count, st)
         else (count, st));
          (count, st) =
        (if use_16 \<and> count \<ge> 4 then repeat_code size_only 16 3 6 (count - 1) (emit size_only symbol 0 st)
         else (count, st));
          (rle, clcounts) = st
      in (if size_only then rle else rle @ replicate count (symbol, 0),
          clcounts[symbol := clcounts ! symbol + count]))"

text \<open>The \<open>for\<close> loop over all lengths, from \<open>i\<close> on.\<close>

definition run_count :: "bool \<Rightarrow> bool \<Rightarrow> bool \<Rightarrow> nat \<Rightarrow> nat list \<Rightarrow> nat" where
  "run_count use_16 use_17 use_18 symbol ls =
     (if use_16 \<or> symbol = 0 \<and> (use_17 \<or> use_18) then 1 + length (takeWhile (\<lambda>l. l = symbol) ls) else 1)"

function encode_lengths :: "bool \<Rightarrow> bool \<Rightarrow> bool \<Rightarrow> bool \<Rightarrow> nat list \<Rightarrow> rle_state \<Rightarrow> rle_state" where
  "encode_lengths size_only use_16 use_17 use_18 [] st = st"
| "encode_lengths size_only use_16 use_17 use_18 (l # ls) st =
     (let symbol = l mod 256;
          count = run_count use_16 use_17 use_18 symbol ls
      in encode_lengths size_only use_16 use_17 use_18 (drop (count - 1) ls)
           (encode_run size_only use_16 use_17 use_18 symbol count st))"
  by pat_completeness auto
termination by (relation "measure (\<lambda>(_, _, _, _, ls, _). length ls)") (auto simp: Let_def)

declare encode_lengths.simps [simp del]

text \<open>\<open>lld_total\<close> lengths: the trimmed literal/length part, then the trimmed distance part.\<close>

definition tree_lengths :: "nat list \<Rightarrow> nat list \<Rightarrow> nat list" where
  "tree_lengths ll_lengths d_lengths =
     (let hlit = trim_zeros ll_lengths 257 29;
          hdist = trim_zeros d_lengths 1 29
      in take (hlit + 257) ll_lengths @ take (hdist + 1) d_lengths)"

definition write_rle :: "nat list \<Rightarrow> nat list \<Rightarrow> bitw \<Rightarrow> nat \<times> nat \<Rightarrow> bitw" where
  "write_rle clcl clsymbols w r =
     (case r of (s, extra) \<Rightarrow>
        let w = AddHuffmanBits (of_nat (clsymbols ! s)) (clcl ! s) w
        in if s = 16 then AddBits (of_nat extra) 2 w
           else if s = 17 then AddBits (of_nat extra) 3 w
           else if s = 18 then AddBits (of_nat extra) 7 w
           else w)"

text \<open>A writer for the encoding, or only its size.\<close>

definition EncodeTree ::
  "nat \<Rightarrow> nat list \<Rightarrow> nat list \<Rightarrow> bool \<Rightarrow> bool \<Rightarrow> bool \<Rightarrow> bitw option \<Rightarrow> (nat \<times> bitw option) option" where
  "EncodeTree junk ll_lengths d_lengths use_16 use_17 use_18 out =
     (let hlit = trim_zeros ll_lengths 257 29;
          hdist = trim_zeros d_lengths 1 29;
          (rle, clcounts) = encode_lengths (out = None) use_16 use_17 use_18
                              (tree_lengths ll_lengths d_lengths) ([], replicate 19 0)
      in case ZopfliCalculateBitLengths junk clcounts 7 of
           None \<Rightarrow> None
         | Some clcl \<Rightarrow>
             let hclen = trim_zeros (map (\<lambda>i. clcounts ! i) cl_order) 4 15;
                 result_size = 14 + (hclen + 4) * 3 + sum_list (map (\<lambda>i. clcl ! i * clcounts ! i) [0..<19])
                   + clcounts ! 16 * 2 + clcounts ! 17 * 3 + clcounts ! 18 * 7
             in (case out of
                   None \<Rightarrow> Some (result_size, None)
                 | Some w \<Rightarrow>
                     (case ZopfliLengthsToSymbols clcl 7 of
                        None \<Rightarrow> None
                      | Some clsymbols \<Rightarrow>
                          let w = AddBits (of_nat hlit) 5 w;
                              w = AddBits (of_nat hdist) 5 w;
                              w = AddBits (of_nat hclen) 4 w;
                              w = foldl (\<lambda>w i. AddBits (of_nat (clcl ! (cl_order ! i))) 3 w) w [0..<hclen + 4];
                              w = foldl (write_rle clcl clsymbols) w rle
                          in Some (result_size, Some w))))"

text \<open>The eight trials of \<open>AddDynamicTree\<close> and \<open>CalculateTreeSize\<close>, in order.\<close>

definition tree_size :: "nat \<Rightarrow> nat list \<Rightarrow> nat list \<Rightarrow> nat \<Rightarrow> nat option" where
  "tree_size junk ll_lengths d_lengths i =
     map_option fst (EncodeTree junk ll_lengths d_lengths (bit i 0) (bit i 1) (bit i 2) None)"

fun best_tree :: "nat \<Rightarrow> nat list \<Rightarrow> nat list \<Rightarrow> nat list \<Rightarrow> nat \<times> nat \<Rightarrow> (nat \<times> nat) option" where
  "best_tree junk ll_lengths d_lengths [] best = Some best"
| "best_tree junk ll_lengths d_lengths (i # is) (best, bestsize) =
     (case tree_size junk ll_lengths d_lengths i of
        None \<Rightarrow> None
      | Some sz \<Rightarrow> best_tree junk ll_lengths d_lengths is
          (if bestsize = 0 \<or> sz < bestsize then (i, sz) else (best, bestsize)))"

definition AddDynamicTree :: "nat \<Rightarrow> nat list \<Rightarrow> nat list \<Rightarrow> bitw \<Rightarrow> bitw option" where
  "AddDynamicTree junk ll_lengths d_lengths w =
     (case best_tree junk ll_lengths d_lengths [0..<8] (0, 0) of
        None \<Rightarrow> None
      | Some (best, _) \<Rightarrow>
          (case EncodeTree junk ll_lengths d_lengths (bit best 0) (bit best 1) (bit best 2) (Some w) of
             Some (_, Some w') \<Rightarrow> Some w'
           | _ \<Rightarrow> None))"

definition CalculateTreeSize :: "nat \<Rightarrow> nat list \<Rightarrow> nat list \<Rightarrow> nat option" where
  "CalculateTreeSize junk ll_lengths d_lengths =
     map_option snd (best_tree junk ll_lengths d_lengths [0..<8] (0, 0))"


subsection \<open>The data of a block\<close>

text \<open>One command; the flag of \<open>None\<close> is a failed assertion.\<close>

definition AddCommand ::
  "nat list \<Rightarrow> nat list \<Rightarrow> nat list \<Rightarrow> nat list \<Rightarrow> nat \<Rightarrow> nat \<Rightarrow> bitw \<Rightarrow> bitw option" where
  "AddCommand ll_symbols ll_lengths d_symbols d_lengths litlen dist w =
     (if dist = 0 then
        if litlen < 256 \<and> ll_lengths ! litlen > 0
        then Some (AddHuffmanBits (of_nat (ll_symbols ! litlen)) (ll_lengths ! litlen) w)
        else None
      else
        let lls = nat (ZopfliGetLengthSymbol (int litlen));
            ds = nat (ZopfliGetDistSymbol (int dist))
        in if litlen \<ge> 3 \<and> litlen \<le> 288 \<and> ll_lengths ! lls > 0 \<and> d_lengths ! ds > 0 then
             let w = AddHuffmanBits (of_nat (ll_symbols ! lls)) (ll_lengths ! lls) w;
                 w = AddBits (word_of_int (ZopfliGetLengthExtraBitsValue (int litlen)))
                       (nat (ZopfliGetLengthExtraBits (int litlen))) w;
                 w = AddHuffmanBits (of_nat (d_symbols ! ds)) (d_lengths ! ds) w
             in Some (AddBits (word_of_int (ZopfliGetDistExtraBitsValue (int dist)))
                        (nat (ZopfliGetDistExtraBits (int dist))) w)
           else None)"

text \<open>The loop, with the commands left and \<open>testlength\<close>.\<close>

fun AddLZ77Data_loop ::
  "nat list \<Rightarrow> nat list \<Rightarrow> nat list \<Rightarrow> nat list \<Rightarrow> (nat \<times> nat) list \<Rightarrow> nat \<Rightarrow> bitw \<Rightarrow> (nat \<times> bitw) option" where
  "AddLZ77Data_loop lls lll ds dl [] testlength w = Some (testlength, w)"
| "AddLZ77Data_loop lls lll ds dl ((litlen, dist) # cs) testlength w =
     (case AddCommand lls lll ds dl litlen dist w of
        None \<Rightarrow> None
      | Some w' \<Rightarrow> AddLZ77Data_loop lls lll ds dl cs (testlength + (if dist = 0 then 1 else litlen)) w')"

definition commands :: "lz77_store \<Rightarrow> nat \<Rightarrow> nat \<Rightarrow> (nat \<times> nat) list" where
  "commands s lstart lend = map (\<lambda>i. (litlens s ! i, dists s ! i)) [lstart..<lend]"

definition AddLZ77Data ::
  "lz77_store \<Rightarrow> nat \<Rightarrow> nat \<Rightarrow> nat \<Rightarrow> nat list \<Rightarrow> nat list \<Rightarrow> nat list \<Rightarrow> nat list \<Rightarrow> bitw \<Rightarrow> bitw option" where
  "AddLZ77Data s lstart lend expected_data_size ll_symbols ll_lengths d_symbols d_lengths w =
     (case AddLZ77Data_loop ll_symbols ll_lengths d_symbols d_lengths (commands s lstart lend) 0 w of
        None \<Rightarrow> None
      | Some (testlength, w') \<Rightarrow>
          if expected_data_size = 0 \<or> testlength = expected_data_size then Some w' else None)"

subsection \<open>Sizes\<close>

definition command_size :: "nat list \<Rightarrow> nat list \<Rightarrow> nat \<Rightarrow> nat \<Rightarrow> nat" where
  "command_size ll_lengths d_lengths litlen dist =
     (if dist = 0 then ll_lengths ! litlen
      else
        let lls = ZopfliGetLengthSymbol (int litlen);
            ds = ZopfliGetDistSymbol (int dist)
        in ll_lengths ! nat lls + d_lengths ! nat ds + nat (ZopfliGetLengthSymbolExtraBits lls)
             + nat (ZopfliGetDistSymbolExtraBits ds))"

text \<open>The assertions are \<open>i < lz77->size\<close> and \<open>litlens[i] < 259\<close>.\<close>

definition CalculateBlockSymbolSizeSmall :: "nat list \<Rightarrow> nat list \<Rightarrow> lz77_store \<Rightarrow> nat \<Rightarrow> nat \<Rightarrow> nat option" where
  "CalculateBlockSymbolSizeSmall ll_lengths d_lengths s lstart lend =
     (if list_all (\<lambda>i. i < lz_size s \<and> litlens s ! i < 259) [lstart..<lend] then
        Some (foldl (\<lambda>result i. result + command_size ll_lengths d_lengths (litlens s ! i) (dists s ! i)) 0 [lstart..<lend]
              + ll_lengths ! 256)
      else None)"

definition CalculateBlockSymbolSizeGivenCounts ::
  "u64 list \<Rightarrow> u64 list \<Rightarrow> nat list \<Rightarrow> nat list \<Rightarrow> lz77_store \<Rightarrow> nat \<Rightarrow> nat \<Rightarrow> nat option" where
  "CalculateBlockSymbolSizeGivenCounts ll_cnt d_cnt ll_lengths d_lengths s lstart lend =
     (if lstart + ZOPFLI_NUM_LL * 3 > lend then CalculateBlockSymbolSizeSmall ll_lengths d_lengths s lstart lend
      else
        let result = foldl (\<lambda>r i. r + ll_lengths ! i * unat (ll_cnt ! i)) 0 [0..<256];
            result = foldl (\<lambda>r i. r + ll_lengths ! i * unat (ll_cnt ! i)
                       + nat (ZopfliGetLengthSymbolExtraBits (int i)) * unat (ll_cnt ! i)) result [257..<286];
            result = foldl (\<lambda>r i. r + d_lengths ! i * unat (d_cnt ! i)
                       + nat (ZopfliGetDistSymbolExtraBits (int i)) * unat (d_cnt ! i)) result [0..<30]
        in Some (result + ll_lengths ! 256))"

definition CalculateBlockSymbolSize :: "nat list \<Rightarrow> nat list \<Rightarrow> lz77_store \<Rightarrow> nat \<Rightarrow> nat \<Rightarrow> nat option" where
  "CalculateBlockSymbolSize ll_lengths d_lengths s lstart lend =
     (if lstart + ZOPFLI_NUM_LL * 3 > lend then CalculateBlockSymbolSizeSmall ll_lengths d_lengths s lstart lend
      else case ZopfliLZ77GetHistogram s lstart lend of
             (ll_cnt, d_cnt) \<Rightarrow> CalculateBlockSymbolSizeGivenCounts ll_cnt d_cnt ll_lengths d_lengths s lstart lend)"

subsection \<open>Smoothing the counts\<close>

definition AbsDiff :: "nat \<Rightarrow> nat \<Rightarrow> nat" where
  "AbsDiff x y = (if x > y then x - y else y - x)"

text \<open>Step 1: the length without the trailing zeros.\<close>

fun trailing :: "nat \<Rightarrow> nat list \<Rightarrow> nat" where
  "trailing 0 counts = 0"
| "trailing (Suc n) counts = (if counts ! n \<noteq> 0 then Suc n else trailing n counts)"

text \<open>Step 2, from index \<open>i\<close> on with \<open>n\<close> turns left: \<open>good_for_rle[i - k - 1] = 1\<close> for a long run.\<close>

fun mark_run :: "nat \<Rightarrow> nat \<Rightarrow> bool list \<Rightarrow> bool list" where
  "mark_run i 0 good = good"
| "mark_run i (Suc k) good = mark_run i k (good[i - k - 1 := True])"

fun mark_good :: "nat \<Rightarrow> nat list \<Rightarrow> nat \<Rightarrow> nat \<Rightarrow> nat \<Rightarrow> nat \<Rightarrow> bool list \<Rightarrow> bool list" where
  "mark_good len counts i 0 symbol stride good = good"
| "mark_good len counts i (Suc n) symbol stride good =
     (if i = len \<or> counts ! i \<noteq> symbol then
        let good' = (if symbol = 0 \<and> stride \<ge> 5 \<or> symbol \<noteq> 0 \<and> stride \<ge> 7 then mark_run i stride good else good)
        in mark_good len counts (Suc i) n (if i \<noteq> len then counts ! i else symbol) 1 good'
      else mark_good len counts (Suc i) n symbol (stride + 1) good)"

text \<open>Step 3: a stride that ends is collapsed.\<close>

fun set_run :: "nat \<Rightarrow> nat \<Rightarrow> nat \<Rightarrow> nat list \<Rightarrow> nat list" where
  "set_run i 0 count counts = counts"
| "set_run i (Suc k) count counts = set_run i k count (counts[i - k - 1 := count])"

definition collapse :: "nat \<Rightarrow> nat \<Rightarrow> nat \<Rightarrow> nat list \<Rightarrow> nat list" where
  "collapse i stride sum_counts counts =
     (if stride \<ge> 4 \<or> stride \<ge> 3 \<and> sum_counts = 0 then
        let count = (sum_counts + stride div 2) div stride;
            count = (if count < 1 then 1 else count);
            count = (if sum_counts = 0 then 0 else count)
        in set_run i stride count counts
      else counts)"

fun collapse_loop :: "nat \<Rightarrow> bool list \<Rightarrow> nat \<Rightarrow> nat \<Rightarrow> nat \<Rightarrow> nat \<Rightarrow> nat \<Rightarrow> nat list \<Rightarrow> nat list" where
  "collapse_loop len good i 0 stride limit sum_counts counts = counts"
| "collapse_loop len good i (Suc n) stride limit sum_counts counts =
     (if i = len \<or> good ! i \<or> AbsDiff (counts ! i) limit \<ge> 4 then
        let counts' = collapse i stride sum_counts counts;
            limit' = (if i + 3 < len then (counts' ! i + counts' ! (i + 1) + counts' ! (i + 2) + counts' ! (i + 3) + 2) div 4
                      else if i < len then counts' ! i else 0)
        in collapse_loop len good (Suc i) n 1 limit' (if i \<noteq> len then counts' ! i else 0) counts'
      else collapse_loop len good (Suc i) n (stride + 1) limit
             (if i \<noteq> len then sum_counts + counts ! i else sum_counts) counts)"

definition OptimizeHuffmanForRle :: "nat \<Rightarrow> nat list \<Rightarrow> nat list" where
  "OptimizeHuffmanForRle len counts =
     (let len = trailing len counts
      in if len = 0 then counts
         else
           let good = mark_good len counts 0 (len + 1) (counts ! 0) 0 (replicate len False)
           in collapse_loop len good 0 (len + 1) 0 (counts ! 0) 0 counts)"


subsection \<open>Choosing the code lengths\<close>

text \<open>The sum of the tree size and the data size, with the lengths kept or replaced.\<close>

definition TryOptimizeHuffmanForRle ::
  "nat \<Rightarrow> lz77_store \<Rightarrow> nat \<Rightarrow> nat \<Rightarrow> u64 list \<Rightarrow> u64 list \<Rightarrow> nat list \<Rightarrow> nat list \<Rightarrow> (nat \<times> nat list \<times> nat list) option" where
  "TryOptimizeHuffmanForRle junk s lstart lend ll_cnt d_cnt ll_lengths d_lengths =
     (case (CalculateTreeSize junk ll_lengths d_lengths,
            CalculateBlockSymbolSizeGivenCounts ll_cnt d_cnt ll_lengths d_lengths s lstart lend) of
        (Some treesize, Some datasize) \<Rightarrow>
          (case (ZopfliCalculateBitLengths junk (OptimizeHuffmanForRle ZOPFLI_NUM_LL (map unat ll_cnt)) 15,
                 ZopfliCalculateBitLengths junk (OptimizeHuffmanForRle ZOPFLI_NUM_D (map unat d_cnt)) 15) of
             (Some ll_lengths2, Some d_lengths2) \<Rightarrow>
               let d_lengths2 = PatchDistanceCodesForBuggyDecoders d_lengths2
               in (case (CalculateTreeSize junk ll_lengths2 d_lengths2,
                         CalculateBlockSymbolSizeGivenCounts ll_cnt d_cnt ll_lengths2 d_lengths2 s lstart lend) of
                     (Some treesize2, Some datasize2) \<Rightarrow>
                       Some (if treesize2 + datasize2 < treesize + datasize
                             then (treesize2 + datasize2, ll_lengths2, d_lengths2)
                             else (treesize + datasize, ll_lengths, d_lengths))
                   | _ \<Rightarrow> None)
           | _ \<Rightarrow> None)
      | _ \<Rightarrow> None)"

definition GetDynamicLengths :: "nat \<Rightarrow> lz77_store \<Rightarrow> nat \<Rightarrow> nat \<Rightarrow> (nat \<times> nat list \<times> nat list) option" where
  "GetDynamicLengths junk s lstart lend =
     (case ZopfliLZ77GetHistogram s lstart lend of
        (ll_cnt, d_cnt) \<Rightarrow>
          let ll_cnt = ll_cnt[256 := 1]
          in (case (ZopfliCalculateBitLengths junk (map unat ll_cnt) 15,
                    ZopfliCalculateBitLengths junk (map unat d_cnt) 15) of
                (Some ll_lengths, Some d_lengths) \<Rightarrow>
                  TryOptimizeHuffmanForRle junk s lstart lend ll_cnt d_cnt ll_lengths
                    (PatchDistanceCodesForBuggyDecoders d_lengths)
              | _ \<Rightarrow> None))"

text \<open>In bits.  \<open>btype\<close> is 0, 1 or 2.\<close>

definition ZopfliCalculateBlockSize :: "nat \<Rightarrow> lz77_store \<Rightarrow> nat \<Rightarrow> nat \<Rightarrow> nat \<Rightarrow> nat option" where
  "ZopfliCalculateBlockSize junk s lstart lend btype =
     (if btype = 0 then
        let len = ZopfliLZ77GetByteRange s lstart lend;
            blocks = len div 65535 + (if len mod 65535 \<noteq> 0 then 1 else 0)
        in Some (blocks * 5 * 8 + len * 8)
      else if btype = 1 then
        map_option ((+) 3) (case GetFixedTree of (ll_lengths, d_lengths) \<Rightarrow>
          CalculateBlockSymbolSize ll_lengths d_lengths s lstart lend)
      else map_option (\<lambda>r. 3 + fst r) (GetDynamicLengths junk s lstart lend))"

definition ZopfliCalculateBlockSizeAutoType :: "nat \<Rightarrow> lz77_store \<Rightarrow> nat \<Rightarrow> nat \<Rightarrow> nat option" where
  "ZopfliCalculateBlockSizeAutoType junk s lstart lend =
     (case (ZopfliCalculateBlockSize junk s lstart lend 0,
            if lz_size s > 1000 then ZopfliCalculateBlockSize junk s lstart lend 0
            else ZopfliCalculateBlockSize junk s lstart lend 1,
            ZopfliCalculateBlockSize junk s lstart lend 2) of
        (Some uncompressedcost, Some fixedcost, Some dyncost) \<Rightarrow>
          Some (if uncompressedcost < fixedcost \<and> uncompressedcost < dyncost then uncompressedcost
                else if fixedcost < dyncost then fixedcost else dyncost)
      | _ \<Rightarrow> None)"

subsection \<open>A block\<close>

definition AddLZ77Block ::
  "nat \<Rightarrow> nat \<Rightarrow> bool \<Rightarrow> lz77_store \<Rightarrow> nat \<Rightarrow> nat \<Rightarrow> nat \<Rightarrow> bitw \<Rightarrow> bitw option" where
  "AddLZ77Block junk btype final s lstart lend expected_data_size w =
     (if btype = 0 then
        let len = ZopfliLZ77GetByteRange s lstart lend;
            pos = (if lstart = lend then 0 else lz_pos s ! lstart)
        in Some (AddNonCompressedBlock final (lz_data s) pos (pos + len) w)
      else
        let w = AddBit (if final then 1 else 0) w;
            w = AddBit (of_nat (btype mod 2)) w;
            w = AddBit (of_nat (btype div 2 mod 2)) w
        in case (if btype = 1 then (case GetFixedTree of (ll, d) \<Rightarrow> Some (ll, d, w))
                 else if btype = 2 then
                   (case GetDynamicLengths junk s lstart lend of
                      None \<Rightarrow> None
                    | Some (_, ll, d) \<Rightarrow> map_option (\<lambda>w. (ll, d, w)) (AddDynamicTree junk ll d w))
                 else None) of
             None \<Rightarrow> None
           | Some (ll_lengths, d_lengths, w) \<Rightarrow>
               (case (ZopfliLengthsToSymbols ll_lengths 15, ZopfliLengthsToSymbols d_lengths 15) of
                  (Some ll_symbols, Some d_symbols) \<Rightarrow>
                    map_option (AddHuffmanBits (of_nat (ll_symbols ! 256)) (ll_lengths ! 256))
                      (AddLZ77Data s lstart lend expected_data_size ll_symbols ll_lengths d_symbols d_lengths w)
                | _ \<Rightarrow> None))"

end
