(* ===== verification/ZopfliCodes.thy ===== *)
theory ZopfliCodes
  imports ZopfliTree "HOL-Library.Sublist"
begin

section \<open>Decoding a canonical code\<close>

text \<open>
  A decoder for one symbol: the symbol whose code word is a prefix of the bits.  For lengths
  that satisfy Kraft's inequality at most one is, so the decoder inverts the encoder.
\<close>

definition code_word :: "nat list \<Rightarrow> nat \<Rightarrow> bool list" where
  "code_word ls i = code_bits (of_nat (canonical_code ls i)) (ls ! i)"

definition decode_symbol :: "nat list \<Rightarrow> bool list \<Rightarrow> (nat \<times> bool list) option" where
  "decode_symbol ls bits =
     map_option (\<lambda>i. (i, drop (ls ! i) bits))
       (find (\<lambda>i. ls ! i \<noteq> 0 \<and> take (ls ! i) bits = code_word ls i) [0..<length ls])"

lemma length_code_word [simp]: "length (code_word ls i) = ls ! i"
  by (simp add: code_word_def)

lemma code_bits_take:
  assumes "a \<le> b"
  shows "take a (code_bits x b) = code_bits (drop_bit (b - a) x) a"
  using assms by (intro nth_equalityI) (auto simp: code_bits_def bit_drop_bit_eq algebra_simps)

lemma code_bits_inj:
  assumes "code_bits (of_nat x) n = code_bits (of_nat y) n" "x < 2 ^ n" "y < 2 ^ n" "n < 32"
  shows "x = y"
proof -
  have "bit x i = bit y i" if "i < n" for i
  proof -
    have "code_bits (of_nat x) n ! (n - 1 - i) = code_bits (of_nat y) n ! (n - 1 - i)" using assms(1) by simp
    then show ?thesis using that assms(4) by (simp add: code_bits_def bit_of_nat_iff)
  qed
  then have "take_bit n x = take_bit n y" by (auto simp: bit_eq_iff bit_take_bit_iff)
  then show ?thesis using assms(2,3) by (simp add: take_bit_eq_mod)
qed

lemma drop_bit_of_nat_32:
  assumes "y < 2 ^ 32"
  shows "drop_bit n (of_nat y :: u32) = of_nat (y div 2 ^ n)"
proof -
  have "\<not> bit y k" if "32 \<le> k" for k
  proof -
    have "(2::nat) ^ 32 \<le> 2 ^ k" using that by (intro power_increasing) auto
    with assms have "y < 2 ^ k" by (rule less_le_trans)
    then show ?thesis by (simp add: bit_iff_odd)
  qed
  then show ?thesis
    by (intro bit_word_eqI) (auto simp: bit_drop_bit_eq bit_of_nat_iff simp flip: drop_bit_eq_div, meson not_le)
qed

lemma code_words_differ:
  assumes k: "kraft ls M" "M < 32" and i: "i < length ls" "j < length ls" "ls ! i \<noteq> 0" "ls ! i \<le> ls ! j"
    and t: "take (ls ! i) (code_word ls j) = code_word ls i"
  shows "i = j"
proof (rule ccontr)
  assume "i \<noteq> j"
  let ?a = "ls ! i" and ?b = "ls ! j" and ?x = "canonical_code ls i" and ?y = "canonical_code ls j"
  have M: "?a \<le> M" "?b \<le> M" using k(1) i by (auto simp: kraft_def list_all_length)
  have lt: "?x < 2 ^ ?a" "?y < 2 ^ ?b" using canonical_fits [OF k(1)] i by simp_all
  have "(2::nat) ^ ?b \<le> 2 ^ 31" using M k(2) by (intro power_increasing) auto
  with lt(2) have "?y < 2 ^ 31" by (rule less_le_trans)
  then have "?y < 2 ^ 32" by simp
  then have d: "drop_bit (?b - ?a) (of_nat ?y :: u32) = of_nat (?y div 2 ^ (?b - ?a))"
    by (rule drop_bit_of_nat_32)
  have "?y div 2 ^ (?b - ?a) < 2 ^ ?a"
    using lt(2) i(4) by (simp add: div_less_iff_less_mult flip: power_add)
  moreover have "code_bits (of_nat (?y div 2 ^ (?b - ?a))) ?a = code_bits (of_nat ?x) ?a"
    using t i(4) unfolding code_word_def by (simp add: code_bits_take d)
  ultimately have "?y div 2 ^ (?b - ?a) = ?x"
    using lt(1) M k(2) by (intro code_bits_inj [of _ ?a]) auto
  with canonical_no_prefix [OF k(1) i(1,2) \<open>i \<noteq> j\<close> i(3,4)] show False by simp
qed

lemma find_first: "P i \<Longrightarrow> (\<And>j. j < i \<Longrightarrow> \<not> P j) \<Longrightarrow> i < n \<Longrightarrow> find P [0..<n] = Some i"
  by (auto simp: find_Some_iff intro!: exI [of _ i])

lemma decode_symbol_code:
  assumes k: "kraft ls M" "M < 32" and i: "i < length ls" "ls ! i \<noteq> 0"
  shows "decode_symbol ls (code_word ls i @ rest) = Some (i, rest)"
proof -
  let ?P = "\<lambda>j. ls ! j \<noteq> 0 \<and> take (ls ! j) (code_word ls i @ rest) = code_word ls j"
  have u: "j = i" if "j < length ls" "?P j" for j
  proof (cases "ls ! j \<le> ls ! i")
    case True
    then have "take (ls ! j) (code_word ls i) = code_word ls j" using that(2) by simp
    then show ?thesis using code_words_differ [OF k that(1) i(1)] that True by simp
  next
    case False
    then have "take (ls ! i) (code_word ls j) = code_word ls i"
      using that(2) by (metis append_eq_conv_conj length_code_word min.absorb1 nat_le_linear take_take)
    then show ?thesis using code_words_differ [OF k i(1) that(1) i(2)] False by simp
  qed
  have "?P i" using i(2) by simp
  moreover have "\<not> ?P j" if "j < i" for j using u [of j] that i(1) by auto
  ultimately have "find ?P [0..<length ls] = Some i"
    using i(1) by (intro find_first) auto
  then show ?thesis by (simp add: decode_symbol_def)
qed

subsection \<open>Numbers\<close>

fun bits_value :: "bool list \<Rightarrow> nat" where
  "bits_value [] = 0"
| "bits_value (b # bs) = (if b then 1 else 0) + 2 * bits_value bs"

lemma bits_value_map: "bits_value (map (bit x) [0..<n]) = take_bit n (x :: nat)"
proof (induction n arbitrary: x)
  case (Suc n)
  have "map (bit x) [0..<Suc n] = bit x 0 # map (bit (x div 2)) [0..<n]"
    by (simp add: map_upt_Suc bit_Suc del: upt_Suc)
  with Suc [of "x div 2"] show ?case by (simp add: take_bit_Suc bit_0 odd_iff_mod_2_eq_one)
qed simp

text \<open>Reading an \<open>n\<close>-bit number.\<close>

definition read_bits :: "nat \<Rightarrow> bool list \<Rightarrow> (nat \<times> bool list) option" where
  "read_bits n bits = (if length bits < n then None else Some (bits_value (take n bits), drop n bits))"

lemma read_bits_word:
  assumes "unat (x :: u32) < 2 ^ n" "n \<le> 32"
  shows "read_bits n (map (bit x) [0..<n] @ rest) = Some (unat x, rest)"
proof -
  have "map (bit x) [0..<n] = map (bit (unat x)) [0..<n]"
    using assms(2) by (auto simp: bit_unsigned_iff)
  then have "bits_value (map (bit x) [0..<n]) = unat x"
    using assms(1) by (simp only: bits_value_map take_bit_eq_mod mod_less)
  then show ?thesis by (simp add: read_bits_def)
qed

subsection \<open>Properties\<close>

text \<open>C34: A symbol that is written with its code decodes to itself.  For code lengths that satisfy
  Kraft's inequality, \<open>AddHuffmanBits\<close> with the code of \<open>ZopfliLengthsToSymbols\<close> appends bits
  from which the reference decoder reads exactly the symbol, whatever follows.\<close>

theorem symbol_roundtrip:
  assumes "kraft ls M" "M < 32" "i < length ls" "ls ! i \<noteq> 0" "bitw_ok w"
    and "ZopfliLengthsToSymbols ls M = Some cs"
  shows "\<exists>bits. stream (AddHuffmanBits (of_nat (cs ! i)) (ls ! i) w) = stream w @ bits
    \<and> decode_symbol ls (bits @ rest) = Some (i, rest)"
proof -
  have "cs ! i = canonical_code ls i" using LengthsToSymbols_canonical [OF assms(1,2)] assms(3,6) by simp
  then show ?thesis
    using AddHuffmanBits_stream(1) [OF assms(5)] decode_symbol_code [OF assms(1-4)]
    by (intro exI [of _ "code_word ls i"]) (simp add: code_word_def)
qed

lemma symbol_roundtrip_witness:
  "\<exists>cs bits. ZopfliLengthsToSymbols [2, 1, 0, 3, 3] 3 = Some cs
     \<and> stream (AddHuffmanBits (of_nat (cs ! 3)) 3 \<lparr>bp = 0, obytes = []\<rparr>) = bits
     \<and> decode_symbol [2, 1, 0, 3, 3] (bits @ [True]) = Some (3, [True])"
proof -
  have k: "kraft [2, 1, 0, 3, 3] 3" by (simp add: kraft_def kraft_sum_def)
  have w: "bitw_ok \<lparr>bp = 0, obytes = []\<rparr>" by (simp add: bitw_ok_def)
  obtain cs where s: "ZopfliLengthsToSymbols [2, 1, 0, 3, 3] 3 = Some cs"
    using LengthsToSymbols_canonical [OF k] by simp
  from symbol_roundtrip [OF k _ _ _ w s, of 3 "[True]"] s show ?thesis by (simp add: stream_def nbits_def)
qed

end
