(* ===== verification/ZopfliSymbolsProps.thy ===== *)
theory ZopfliSymbolsProps
  imports ZopfliSymbols
begin

section \<open>The symbols are those of RFC 1951\<close>

text \<open>
  The base values of a decoder (RFC 1951, 3.2.5) recover every length from 3 to 258 and every
  distance from 1 to 32768 from its symbol and extra bits; the two versions of the distance
  functions agree.
\<close>

definition length_base :: "int list" where
  "length_base = [3, 4, 5, 6, 7, 8, 9, 10, 11, 13, 15, 17, 19, 23, 27, 31, 35, 43, 51, 59, 67, 83, 99,
     115, 131, 163, 195, 227, 258]"

definition dist_base :: "int list" where
  "dist_base = [1, 2, 3, 4, 5, 7, 9, 13, 17, 25, 33, 49, 65, 97, 129, 193, 257, 385, 513, 769, 1025,
     1537, 2049, 3073, 4097, 6145, 8193, 12289, 16385, 24577]"

subsection \<open>Lengths\<close>

definition length_triple :: "int \<Rightarrow> int \<Rightarrow> int \<Rightarrow> int \<Rightarrow> bool" where
  "length_triple l s e v \<longleftrightarrow> 257 \<le> s \<and> s \<le> 285 \<and> e = ZopfliGetLengthSymbolExtraBits s
     \<and> 0 \<le> v \<and> v < 2 ^ nat e \<and> length_base ! nat (s - 257) + v = l"

definition length_coded :: "int \<Rightarrow> bool" where
  "length_coded l \<longleftrightarrow> length_triple l (ZopfliGetLengthSymbol l) (ZopfliGetLengthExtraBits l)
     (ZopfliGetLengthExtraBitsValue l)"

text \<open>The tables are checked in one pass.\<close>

fun triples :: "int \<Rightarrow> int list \<Rightarrow> int list \<Rightarrow> int list \<Rightarrow> bool" where
  "triples l (s # ss) (e # es) (v # vs) = (length_triple l s e v \<and> triples (l + 1) ss es vs)"
| "triples l ss es vs = True"

lemma triples_nth:
  "triples l ss es vs \<Longrightarrow> n < length ss \<Longrightarrow> n < length es \<Longrightarrow> n < length vs \<Longrightarrow>
     length_triple (l + int n) (ss ! n) (es ! n) (vs ! n)"
proof (induction l ss es vs arbitrary: n rule: triples.induct)
  case (1 l s ss e es v vs)
  then show ?case by (cases n) (auto simp: algebra_simps)
qed simp_all

lemma length_tables:
  "triples 3 (take 256 (drop 3 LengthSymbol_table)) (take 256 (drop 3 LengthExtraBits_table))
     (take 256 (drop 3 LengthExtraBitsValue_table))"
  by code_simp

lemma length_table_sizes:
  "length LengthSymbol_table = 259" "length LengthExtraBits_table = 259" "length LengthExtraBitsValue_table = 259"
  by code_simp+

lemma length_coded:
  assumes "3 \<le> l" and "l \<le> 258"
  shows "length_coded l"
proof -
  have n: "nat (l - 3) < 256" "3 + int (nat (l - 3)) = l" "3 + nat (l - 3) = nat l"
    using assms by auto
  then show ?thesis
    using triples_nth [OF length_tables, of "nat (l - 3)"]
    by (simp add: length_coded_def ZopfliGetLengthSymbol_def ZopfliGetLengthExtraBits_def
        ZopfliGetLengthExtraBitsValue_def length_table_sizes)
qed

lemma list_all_upt: "list_all P [a..<b] \<Longrightarrow> a \<le> n \<Longrightarrow> n < b \<Longrightarrow> P n"
  by (simp add: list_all_iff)

subsection \<open>Distances\<close>

lemma clz_from_bit:
  "bit x l \<Longrightarrow> \<forall>j > l. \<not> bit x j \<Longrightarrow> l \<le> i \<Longrightarrow> clz_from i x = 31 - l"
proof (induction i)
  case 0
  then show ?case by (simp add: clz_from.simps [of 0])
next
  case (Suc i)
  show ?case
  proof (cases "l = Suc i")
    case True
    then show ?thesis using Suc.prems by (simp add: clz_from.simps [of "Suc i"])
  next
    case False
    then have "l \<le> i" "\<not> bit x (Suc i)" using Suc.prems by auto
    then show ?thesis using Suc.prems Suc.IH by (subst clz_from.simps) simp
  qed
qed

lemma clz_log:
  assumes "2 ^ l \<le> n" and "n < 2 ^ Suc l" and "l < 32"
  shows "clz n = 31 - int l"
proof -
  have pos: "0 \<le> n" using assms(1) by (smt (verit) zero_le_power)
  have "n div 2 ^ l = 1"
    using assms(1,2) by (auto simp: div_eq_dividend_iff intro: int_div_pos_eq [of _ _ _ "n - 2 ^ l"])
  then have l: "bit n l" by (simp add: bit_iff_odd)
  have "\<not> bit n j" if "l < j" for j
  proof -
    have "(2::int) ^ Suc l \<le> 2 ^ j" using that by (intro power_increasing) auto
    then have "n div 2 ^ j = 0" using assms(2) pos by (intro div_pos_pos_trivial) auto
    then show ?thesis by (simp add: bit_iff_odd)
  qed
  with l assms(3) show ?thesis
    by (simp add: clz_def clz_from_bit [of _ l] bit_simps)
qed

lemma xor_31: "l < 32 \<Longrightarrow> (31::int) XOR (31 - int l) = int l"
proof -
  assume "l < 32"
  moreover have "list_all (\<lambda>l. (31::int) XOR (31 - int l) = int l) [0..<32]" by code_simp
  ultimately show ?thesis by (simp add: list_all_iff)
qed

lemma dist_log:
  assumes "5 \<le> d" and "d \<le> 32768"
  obtains l where "2 \<le> l" "l < 15" "2 ^ l \<le> d - 1" "d - 1 < 2 ^ Suc l" "31 XOR clz (d - 1) = int l"
proof -
  define l where "l = floorlog 2 (nat (d - 1)) - 1"
  have "\<exists>l < 15. 2 ^ l \<le> d - 1 \<and> d - 1 < 2 ^ Suc l \<and> 2 \<le> l"
  proof (rule ccontr)
    assume n: "\<not> ?thesis"
    have "2 ^ k \<le> d - 1" if "2 \<le> k" "k \<le> 15" for k
      using that
    proof (induction k)
      case (Suc k)
      show ?case
      proof (cases "2 \<le> k")
        case True
        with Suc n have "\<not> d - 1 < 2 ^ Suc k" by auto
        then show ?thesis by simp
      next
        case False
        with Suc.prems have "Suc k = 2" by simp
        then show ?thesis using assms(1) by simp
      qed
    qed simp
    from this [of 15] assms(2) show False by simp
  qed
  then obtain l where l: "l < 15" "2 ^ l \<le> d - 1" "d - 1 < 2 ^ Suc l" "2 \<le> l" by blast
  then have "clz (d - 1) = 31 - int l" by (intro clz_log) auto
  then have "31 XOR clz (d - 1) = int l" using xor_31 [of l] l by simp
  with l that show thesis by blast
qed

lemma and_mask: "(d :: int) AND (push_bit k 1 - 1) = d mod 2 ^ k"
  by (simp add: push_bit_eq_mult flip: mask_eq_exp_minus_1 take_bit_eq_mask take_bit_eq_mod)

lemma dist_fields:
  assumes "2 \<le> l" "l < 15" "2 ^ l \<le> d - 1" "d - 1 < 2 ^ Suc l" "31 XOR clz (d - 1) = int l"
  shows "ZopfliGetDistExtraBits d = int l - 1"
    and "ZopfliGetDistExtraBitsValue d = (d - 1) mod 2 ^ (l - 1)"
    and "ZopfliGetDistSymbol d = 2 * int l + ((d - 1) div 2 ^ (l - 1) - 2)"
    and "(d - 1) div 2 ^ (l - 1) \<in> {2, 3}"
proof -
  have five: "\<not> d < 5"
    using assms(1,3) power_increasing [of 2 l "2::int"] by auto
  show "ZopfliGetDistExtraBits d = int l - 1" using five assms(5) by (simp add: ZopfliGetDistExtraBits_def)
  have sp: "(2::int) ^ l = 2 * 2 ^ (l - 1)" using assms(1) by (cases l) auto
  have "d - (1 + push_bit l 1) = d - 1 + 2 ^ (l - 1) * - 2" by (simp only: push_bit_eq_mult sp)
  then have "(d - (1 + push_bit l 1)) AND (push_bit (l - 1) 1 - 1) = (d - 1) mod 2 ^ (l - 1)"
    by (simp only: and_mask mod_mult_self2)
  then show "ZopfliGetDistExtraBitsValue d = (d - 1) mod 2 ^ (l - 1)"
    unfolding ZopfliGetDistExtraBitsValue_def assms(5) nat_int Let_def using five by simp
  have q: "2 \<le> (d - 1) div 2 ^ (l - 1)" "(d - 1) div 2 ^ (l - 1) < 4"
    using assms(3,4) zdiv_mono1 [of "2 * 2 ^ (l - 1)" "d - 1" "2 ^ (l - 1)"] div_less_pow2 [of "d - 1" 4 "l - 1"]
    by (simp_all add: sp)
  then show 3: "(d - 1) div 2 ^ (l - 1) \<in> {2, 3}" by auto
  then show "ZopfliGetDistSymbol d = 2 * int l + ((d - 1) div 2 ^ (l - 1) - 2)"
    using five assms(1,5) by (auto simp: ZopfliGetDistSymbol_def Let_def drop_bit_eq_div and_one_eq)
qed


text \<open>The decoder of RFC 1951 recovers the distance.\<close>

definition dist_coded :: "int \<Rightarrow> bool" where
  "dist_coded d \<longleftrightarrow> (let s = ZopfliGetDistSymbol d in
     0 \<le> s \<and> s < 30 \<and> ZopfliGetDistExtraBits d = ZopfliGetDistSymbolExtraBits s
     \<and> 0 \<le> ZopfliGetDistExtraBitsValue d
     \<and> ZopfliGetDistExtraBitsValue d < 2 ^ nat (ZopfliGetDistExtraBits d)
     \<and> dist_base ! nat s + ZopfliGetDistExtraBitsValue d = d)"

lemma dist_base_eq:
  "list_all (\<lambda>s. dist_base ! s = 1 + (2 + int s mod 2) * 2 ^ (s div 2 - 1)
     \<and> DistSymbolExtraBits_table ! s = int s div 2 - 1) [4..<30]"
  by code_simp

lemma dist_coded_small: "list_all dist_coded [1, 2, 3, 4]"
  by code_simp

lemma dist_coded:
  assumes "1 \<le> d" and "d \<le> 32768"
  shows "dist_coded d"
proof (cases "d < 5")
  case True
  with assms(1) have "d \<in> set [1, 2, 3, 4]" by auto
  with dist_coded_small show ?thesis unfolding list_all_iff by blast
next
  case False
  then obtain l where l: "2 \<le> l" "l < 15" "2 ^ l \<le> d - 1" "d - 1 < 2 ^ Suc l" "31 XOR clz (d - 1) = int l"
    using assms(2) dist_log [of d] by auto
  note f = dist_fields [OF l]
  define r where "r = nat ((d - 1) div 2 ^ (l - 1) - 2)"
  have r: "r < 2" "(d - 1) div 2 ^ (l - 1) = 2 + int r" using f(4) by (auto simp: r_def)
  define s where "s = 2 * l + r"
  have s: "ZopfliGetDistSymbol d = int s" using f(3) r by (simp add: s_def)
  have s_less: "4 \<le> s" "s < 30" using l r by (simp_all add: s_def)
  from list_all_upt [OF dist_base_eq this]
  have b: "dist_base ! s = 1 + (2 + int s mod 2) * 2 ^ (s div 2 - 1)"
    "DistSymbolExtraBits_table ! s = int s div 2 - 1" by blast+
  have sd: "s div 2 = l" "int s mod 2 = int r" "int s div 2 = int l"
    using r(1) by (auto simp: s_def less_2_cases_iff)
  have "dist_base ! s + (d - 1) mod 2 ^ (l - 1) = 1 + ((d - 1) div 2 ^ (l - 1) * 2 ^ (l - 1) + (d - 1) mod 2 ^ (l - 1))"
    by (simp only: b sd r)
  then have base: "dist_base ! s + (d - 1) mod 2 ^ (l - 1) = d" by (simp only: div_mult_mod_eq)
  have n: "nat (int l - 1) = l - 1" using l(1) by simp
  show ?thesis
    unfolding dist_coded_def Let_def s f(1,2) n ZopfliGetDistSymbolExtraBits_def nat_int b(2) sd(3)
    using base s_less by simp
qed

subsection \<open>The two versions agree\<close>

lemma log_cases:
  "2 \<le> l \<Longrightarrow> l < (15::nat) \<Longrightarrow> l = 2 \<or> l = 3 \<or> l = 4 \<or> l = 5 \<or> l = 6 \<or> l = 7 \<or> l = 8 \<or> l = 9
     \<or> l = 10 \<or> l = 11 \<or> l = 12 \<or> l = 13 \<or> l = 14"
  by presburger

lemma cmp_log:
  assumes "2 ^ l \<le> d - 1" "d - 1 < 2 ^ Suc l" "2 \<le> l" "l < 15"
  shows "DistExtraBits_cmp d = int l - 1"
    and "DistExtraBitsValue_cmp d = (d - (1 + 2 ^ l)) AND (2 ^ (l - 1) - 1)"
    and "DistSymbol_cmp d = 2 * int l + (if d < 3 * 2 ^ (l - 1) + 1 then 0 else 1)"
  using log_cases [OF assms(3,4)] assms(1,2)
  by (elim disjE; simp add: DistExtraBits_cmp_def DistExtraBitsValue_cmp_def DistSymbol_cmp_def)+

lemma dist_versions:
  assumes "d \<le> 32768"
  shows "ZopfliGetDistExtraBits d = DistExtraBits_cmp d"
    and "ZopfliGetDistExtraBitsValue d = DistExtraBitsValue_cmp d"
    and "ZopfliGetDistSymbol d = DistSymbol_cmp d"
proof -
  have "ZopfliGetDistExtraBits d = DistExtraBits_cmp d \<and> ZopfliGetDistExtraBitsValue d = DistExtraBitsValue_cmp d
    \<and> ZopfliGetDistSymbol d = DistSymbol_cmp d"
  proof (cases "d < 5")
    case True
    then show ?thesis
      by (simp add: ZopfliGetDistExtraBits_def DistExtraBits_cmp_def ZopfliGetDistExtraBitsValue_def
          DistExtraBitsValue_cmp_def ZopfliGetDistSymbol_def DistSymbol_cmp_def)
  next
    case False
    then obtain l where l: "2 \<le> l" "l < 15" "2 ^ l \<le> d - 1" "d - 1 < 2 ^ Suc l" "31 XOR clz (d - 1) = int l"
      using assms dist_log [of d] by auto
    note f = dist_fields [OF l] and c = cmp_log [OF l(3,4,1,2)]
    have sp: "(2::int) ^ l = 2 * 2 ^ (l - 1)" using l(1) by (cases l) auto
    have "d - (1 + 2 ^ l) = d - 1 + 2 ^ (l - 1) * - 2" by (simp only: sp)
    then have v: "DistExtraBitsValue_cmp d = (d - 1) mod 2 ^ (l - 1)"
      unfolding c(2) using and_mask [of "d - (1 + 2 ^ l)" "l - 1"]
      by (simp only: push_bit_eq_mult mult_1_left mod_mult_self2)
    have "(d - 1) div 2 ^ (l - 1) - 2 = (if d < 3 * 2 ^ (l - 1) + 1 then 0 else 1)"
    proof (cases "d < 3 * 2 ^ (l - 1) + 1")
      case True
      then have "(d - 1) div 2 ^ (l - 1) < 3" by (intro div_less_pow2) simp
      with f(4) True show ?thesis by auto
    next
      case False
      then have "3 * 2 ^ (l - 1) div 2 ^ (l - 1) \<le> (d - 1) div 2 ^ (l - 1)" by (intro zdiv_mono1) auto
      with f(4) False show ?thesis by auto
    qed
    with f c v show ?thesis by simp
  qed
  then show "ZopfliGetDistExtraBits d = DistExtraBits_cmp d" "ZopfliGetDistExtraBitsValue d = DistExtraBitsValue_cmp d"
    "ZopfliGetDistSymbol d = DistSymbol_cmp d" by blast+
qed

subsection \<open>Properties\<close>

text \<open>C38: Every match length deflate allows gets a length symbol whose base value and extra bits, as
  RFC 1951 defines them, add up to the length; the number of extra bits is the symbol's.\<close>

theorem length_symbol_decodes:
  assumes "3 \<le> l" "l \<le> 258"
  shows "257 \<le> ZopfliGetLengthSymbol l \<and> ZopfliGetLengthSymbol l \<le> 285
    \<and> ZopfliGetLengthExtraBits l = ZopfliGetLengthSymbolExtraBits (ZopfliGetLengthSymbol l)
    \<and> 0 \<le> ZopfliGetLengthExtraBitsValue l \<and> ZopfliGetLengthExtraBitsValue l < 2 ^ nat (ZopfliGetLengthExtraBits l)
    \<and> length_base ! nat (ZopfliGetLengthSymbol l - 257) + ZopfliGetLengthExtraBitsValue l = l"
  using length_coded [OF assms] unfolding length_coded_def length_triple_def by metis

lemma length_symbol_decodes_witness: "length_base ! nat (ZopfliGetLengthSymbol 100 - 257) + ZopfliGetLengthExtraBitsValue 100 = 100"
  using length_symbol_decodes [of 100] by simp

text \<open>C39: Every distance deflate allows gets a distance symbol whose base value and extra bits add up
  to the distance; the number of extra bits is the symbol's.\<close>

theorem dist_symbol_decodes:
  assumes "1 \<le> d" "d \<le> 32768"
  shows "0 \<le> ZopfliGetDistSymbol d \<and> ZopfliGetDistSymbol d < 30
    \<and> ZopfliGetDistExtraBits d = ZopfliGetDistSymbolExtraBits (ZopfliGetDistSymbol d)
    \<and> 0 \<le> ZopfliGetDistExtraBitsValue d \<and> ZopfliGetDistExtraBitsValue d < 2 ^ nat (ZopfliGetDistExtraBits d)
    \<and> dist_base ! nat (ZopfliGetDistSymbol d) + ZopfliGetDistExtraBitsValue d = d"
  using dist_coded [OF assms] unfolding dist_coded_def Let_def by blast

lemma dist_symbol_decodes_witness: "dist_base ! nat (ZopfliGetDistSymbol 20000) + ZopfliGetDistExtraBitsValue 20000 = 20000"
  using dist_symbol_decodes [of 20000] by simp

text \<open>The two versions of the distance functions, with the compiler's count of leading zeros and
  with comparisons, give the same symbols, numbers of extra bits and extra bits.\<close>

lemma dist_versions_agree:
  assumes "d \<le> 32768"
  shows "ZopfliGetDistSymbol d = DistSymbol_cmp d \<and> ZopfliGetDistExtraBits d = DistExtraBits_cmp d
    \<and> ZopfliGetDistExtraBitsValue d = DistExtraBitsValue_cmp d"
  using dist_versions [OF assms] by blast

end
