(* ===== verification/ZopfliStoreProps.thy ===== *)
theory ZopfliStoreProps
  imports ZopfliStore ZopfliSymbolsProps
begin

section \<open>The histograms of the store\<close>

text \<open>
  The cumulative counters give, for every range of commands, the same histogram as counting
  one by one.  Literal/length and distance counters have one invariant, \<open>cumulative\<close>, over the
  symbols of the commands (\<open>None\<close> where a command has none).
\<close>

definition hits :: "nat option list \<Rightarrow> nat \<Rightarrow> nat" where
  "hits xs k = length (filter (\<lambda>x. x = Some k) xs)"

lemma hits_Nil [simp]: "hits [] k = 0"
  by (simp add: hits_def)

lemma hits_append [simp]: "hits (a @ b) k = hits a k + hits b k"
  by (simp add: hits_def)

lemma hits_Cons [simp]: "hits (x # xs) k = (if x = Some k then Suc (hits xs k) else hits xs k)"
  by (simp add: hits_def)

definition histogram :: "nat \<Rightarrow> nat option list \<Rightarrow> u64 list" where
  "histogram N xs = map (\<lambda>k. of_nat (hits xs k)) [0..<N]"

definition cumulative :: "nat \<Rightarrow> nat option list \<Rightarrow> u64 list \<Rightarrow> bool" where
  "cumulative N xs counts \<longleftrightarrow> length counts = N * CeilDiv (length xs) N
     \<and> (\<forall>c k. N * c < length xs \<longrightarrow> k < N \<longrightarrow> counts ! (N * c + k) = of_nat (hits (take (N * Suc c) xs) k))"

lemma cumulative_Nil: "0 < N \<Longrightarrow> cumulative N [] []"
  by (simp add: cumulative_def CeilDiv_def)

lemma CeilDiv_0: "0 < N \<Longrightarrow> CeilDiv (N * q) N = q"
proof -
  assume N: "0 < N"
  have "N * q + N - 1 = (N - 1) + N * q" using N by simp
  then show ?thesis using N by (simp only: CeilDiv_def div_mult_self2) simp
qed

lemma CeilDiv_Suc: "0 < N \<Longrightarrow> r < N \<Longrightarrow> CeilDiv (Suc (N * q + r)) N = Suc q"
proof -
  assume N: "0 < N" "r < N"
  have "Suc (N * q + r) + N - 1 = N * q + r + N" by (simp only: add_Suc diff_Suc_1)
  also have "\<dots> = r + N * Suc q" by (simp only: mult_Suc_right add.commute add.left_commute)
  finally have "CeilDiv (Suc (N * q + r)) N = (r + N * Suc q) div N" by (simp only: CeilDiv_def)
  also have "\<dots> = Suc q + r div N" using N by (intro div_mult_self2) simp
  finally show ?thesis using N by simp
qed

lemma chunk_index:
  fixes c q k N :: nat
  assumes "c < q" and "k < N"
  shows "N * c + k < N * q"
proof -
  have "N * c + k < N * c + N" using assms(2) by simp
  also have "\<dots> = N * Suc c" by simp
  also have "\<dots> \<le> N * q" using assms(1) by (intro mult_le_mono2) simp
  finally show ?thesis .
qed

lemma new_chunk_cumulative:
  assumes c: "cumulative N xs counts" and N: "0 < N" and n: "length xs = N * q + r" "r < N"
  defines "c1 \<equiv> new_chunk N (length xs) counts"
  shows "length c1 = N * Suc q"
    and "c' < q \<Longrightarrow> k < N \<Longrightarrow> c1 ! (N * c' + k) = of_nat (hits (take (N * Suc c') xs) k)"
    and "k < N \<Longrightarrow> c1 ! (N * q + k) = of_nat (hits xs k)"
proof -
  have old: "counts ! (N * c' + k) = of_nat (hits (take (N * Suc c') xs) k)" if "N * c' < length xs" "k < N" for c' k
    using c that by (simp add: cumulative_def)
  have len: "length counts = N * CeilDiv (length xs) N" using c by (simp add: cumulative_def)
  have "length c1 = N * Suc q
    \<and> (\<forall>c' < q. \<forall>k < N. c1 ! (N * c' + k) = of_nat (hits (take (N * Suc c') xs) k))
    \<and> (\<forall>k < N. c1 ! (N * q + k) = of_nat (hits xs k))"
  proof (cases "r = 0")
    case True
    then have l: "length xs = N * q" "length counts = N * q" using n len CeilDiv_0 [OF N] by simp_all
    have e: "c1 = counts @ map (\<lambda>i. if N * q = 0 then 0 else counts ! (N * q - N + i)) [0..<N]"
      by (simp add: c1_def new_chunk_def l)
    have "(if N * q = 0 then 0 else counts ! (N * q - N + k)) = of_nat (hits xs k)" if k: "k < N" for k
    proof (cases q)
      case 0
      then show ?thesis using l by simp
    next
      case (Suc p)
      then show ?thesis using old [of p k] k N l by simp
    qed
    moreover have "counts ! (N * c' + k) = of_nat (hits (take (N * Suc c') xs) k)" "N * c' + k < N * q"
      if "c' < q" "k < N" for c' k
      using that old [of c' k] N l chunk_index [of c' q k N] by simp_all
    ultimately show ?thesis by (simp add: e l nth_append)
  next
    case False
    then have e: "c1 = counts" using n by (simp add: c1_def new_chunk_def)
    obtain r' where r': "r = Suc r'" using False by (cases r) auto
    then have "length counts = N * Suc q" using len n CeilDiv_Suc [OF N, of r' q] by simp
    moreover have "counts ! (N * c' + k) = of_nat (hits (take (N * Suc c') xs) k)" if "c' < q" "k < N" for c' k
    proof (rule old)
      have "N * c' < N * q" using that N by simp
      then show "N * c' < length xs" unfolding n(1) by (rule trans_less_add1)
    qed (rule that)
    moreover have "counts ! (N * q + k) = of_nat (hits xs k)" if "k < N" for k
      using old [of q k] that n False by simp
    ultimately show ?thesis by (simp add: e)
  qed
  then show "length c1 = N * Suc q"
    "c' < q \<Longrightarrow> k < N \<Longrightarrow> c1 ! (N * c' + k) = of_nat (hits (take (N * Suc c') xs) k)"
    "k < N \<Longrightarrow> c1 ! (N * q + k) = of_nat (hits xs k)" by blast+
qed

lemma cumulative_step:
  assumes c: "cumulative N xs counts" and N: "0 < N" and y: "\<forall>k. y = Some k \<longrightarrow> k < N"
  defines "c1 \<equiv> new_chunk N (length xs) counts"
  shows "cumulative N (xs @ [y])
    (case y of None \<Rightarrow> c1 | Some k \<Rightarrow> bump (N * (length xs div N) + k) c1)"
    (is "cumulative N _ ?c2")
proof -
  define q r where "q = length xs div N" and "r = length xs mod N"
  have n: "length xs = N * q + r" "r < N" using N by (simp_all add: q_def r_def)
  note o = new_chunk_cumulative [OF c N n, folded c1_def]
  have len: "length ?c2 = N * Suc q" using o(1) by (cases y) (simp_all add: bump_def)
  have lo: "?c2 ! (N * c' + k) = c1 ! (N * c' + k)" if "c' < q" "k < N" for c' k
    using chunk_index [OF that] by (cases y) (simp_all add: bump_def q_def)
  have hi: "?c2 ! (N * q + k) = of_nat (hits (xs @ [y]) k)" if "k < N" for k
    using o(1,3) that y by (cases y) (auto simp: bump_def nth_list_update simp flip: q_def)
  have "?c2 ! (N * c' + k) = of_nat (hits (take (N * Suc c') (xs @ [y])) k)" if ck: "N * c' < Suc (length xs)" "k < N" for c' k
  proof (cases "c' < q")
    case True
    then have "N * Suc c' \<le> N * q" by (intro mult_le_mono2) simp
    with True ck n lo o(2) show ?thesis by simp
  next
    case False
    have "N * c' < N * Suc q" using ck(1) n by simp
    then have "c' < Suc q" unfolding mult_less_cancel1 by simp
    then have "c' = q" using False by simp
    with n hi ck show ?thesis by simp
  qed
  with len n CeilDiv_Suc [OF N n(2), of q] show ?thesis by (simp add: cumulative_def)
qed


subsection \<open>The invariant of the store\<close>

definition ll_syms :: "lz77_store \<Rightarrow> nat option list" where
  "ll_syms s = map (\<lambda>i. Some (ll_symbol s ! i)) [0..<lz_size s]"

definition d_syms :: "lz77_store \<Rightarrow> nat option list" where
  "d_syms s = map (\<lambda>i. if dists s ! i \<noteq> 0 then Some (d_symbol s ! i) else None) [0..<lz_size s]"

text \<open>A command of deflate: a literal, or a length and a distance in range.\<close>

definition command_ok :: "nat \<Rightarrow> nat \<Rightarrow> bool" where
  "command_ok len dist \<longleftrightarrow> (if dist = 0 then len < 256 else 3 \<le> len \<and> len \<le> 258 \<and> dist \<le> 32768)"

definition symbols_of :: "nat \<Rightarrow> nat \<Rightarrow> nat \<times> nat" where
  "symbols_of len dist = (if dist = 0 then (len, 0)
     else (nat (ZopfliGetLengthSymbol (int len)), nat (ZopfliGetDistSymbol (int dist))))"

definition store_ok :: "lz77_store \<Rightarrow> bool" where
  "store_ok s \<longleftrightarrow> length (dists s) = lz_size s \<and> length (lz_pos s) = lz_size s
     \<and> length (ll_symbol s) = lz_size s \<and> length (d_symbol s) = lz_size s
     \<and> (\<forall>i < lz_size s. command_ok (litlens s ! i) (dists s ! i)
          \<and> symbols_of (litlens s ! i) (dists s ! i) = (ll_symbol s ! i, d_symbol s ! i))
     \<and> cumulative ZOPFLI_NUM_LL (ll_syms s) (ll_counts s)
     \<and> cumulative ZOPFLI_NUM_D (d_syms s) (d_counts s)"

lemma symbols_range:
  assumes "command_ok len dist"
  shows "fst (symbols_of len dist) < 286" and "snd (symbols_of len dist) < 30"
proof -
  have "fst (symbols_of len dist) < 286 \<and> snd (symbols_of len dist) < 30"
  proof (cases "dist = 0")
    case False
    then have "length_coded (int len)" "dist_coded (int dist)"
      using assms by (auto simp: command_ok_def intro!: length_coded dist_coded)
    then have "ZopfliGetLengthSymbol (int len) \<le> 285" "ZopfliGetDistSymbol (int dist) < 30"
      by (simp_all add: length_coded_def length_triple_def dist_coded_def Let_def)
    then show ?thesis using False by (simp add: symbols_of_def) arith
  qed (use assms in \<open>simp add: command_ok_def symbols_of_def\<close>)
  then show "fst (symbols_of len dist) < 286" "snd (symbols_of len dist) < 30" by blast+
qed

lemma store_ok_init: "store_ok (ZopfliInitLZ77Store input)"
  by (simp add: store_ok_def ZopfliInitLZ77Store_def lz_size_def ll_syms_def d_syms_def cumulative_Nil
      ZOPFLI_NUM_LL_def ZOPFLI_NUM_D_def)

lemma map_upt_snoc: "(\<And>i. i < n \<Longrightarrow> f i = g i) \<Longrightarrow> map f [0..<Suc n] = map g [0..<n] @ [f n]"
  by simp

lemma StoreLitLenDist_ok:
  assumes s: "store_ok s" and c: "command_ok len dist"
  obtains s' where "ZopfliStoreLitLenDist len dist pos s = Some s'" "store_ok s'"
    "litlens s' = litlens s @ [len]" "dists s' = dists s @ [dist]" "lz_pos s' = lz_pos s @ [pos]"
    "lz_data s' = lz_data s"
proof -
  define n where "n = lz_size s"
  obtain a b where ab: "symbols_of len dist = (a, b)" by (rule prod.exhaust)
  define s' where "s' = s\<lparr>litlens := litlens s @ [len], dists := dists s @ [dist], lz_pos := lz_pos s @ [pos],
    ll_symbol := ll_symbol s @ [a], d_symbol := d_symbol s @ [b],
    ll_counts := bump (ZOPFLI_NUM_LL * (n div ZOPFLI_NUM_LL) + a) (new_chunk ZOPFLI_NUM_LL n (ll_counts s)),
    d_counts := (if dist = 0 then new_chunk ZOPFLI_NUM_D n (d_counts s)
      else bump (ZOPFLI_NUM_D * (n div ZOPFLI_NUM_D) + b) (new_chunk ZOPFLI_NUM_D n (d_counts s)))\<rparr>"
  have "len < 259" using c by (auto simp: command_ok_def split: if_splits)
  then have e: "ZopfliStoreLitLenDist len dist pos s = Some s'"
    using ab by (auto simp: ZopfliStoreLitLenDist_def Let_def s'_def n_def symbols_of_def)
  have lens: "length (litlens s) = n" "length (dists s) = n" "length (ll_symbol s) = n" "length (d_symbol s) = n"
    "length (lz_pos s) = n"
    using s by (simp_all add: store_ok_def n_def lz_size_def)
  have sz: "lz_size s' = Suc n" using lens by (simp add: s'_def lz_size_def)
  have ll: "ll_syms s' = ll_syms s @ [Some a]"
    unfolding ll_syms_def sz n_def [symmetric] using lens by (subst map_upt_snoc) (auto simp: s'_def nth_append)
  have d: "d_syms s' = d_syms s @ [if dist = 0 then None else Some b]"
    unfolding d_syms_def sz n_def [symmetric] using lens
    by (subst map_upt_snoc [where g = "\<lambda>i. if dists s ! i \<noteq> 0 then Some (d_symbol s ! i) else None"])
       (auto simp: s'_def nth_append)
  have r: "a < ZOPFLI_NUM_LL" "b < ZOPFLI_NUM_D"
    using symbols_range [OF c] ab by (simp_all add: ZOPFLI_NUM_LL_def ZOPFLI_NUM_D_def)
  have n': "length (ll_syms s) = n" "length (d_syms s) = n" by (simp_all add: ll_syms_def d_syms_def n_def)
  have counts: "cumulative ZOPFLI_NUM_LL (ll_syms s) (ll_counts s)" "cumulative ZOPFLI_NUM_D (d_syms s) (d_counts s)"
    using s by (simp_all add: store_ok_def)
  have lc: "ll_counts s' = (case Some a of None \<Rightarrow> new_chunk ZOPFLI_NUM_LL n (ll_counts s)
      | Some k \<Rightarrow> bump (ZOPFLI_NUM_LL * (n div ZOPFLI_NUM_LL) + k) (new_chunk ZOPFLI_NUM_LL n (ll_counts s)))"
    "d_counts s' = (case if dist = 0 then None else Some b of None \<Rightarrow> new_chunk ZOPFLI_NUM_D n (d_counts s)
      | Some k \<Rightarrow> bump (ZOPFLI_NUM_D * (n div ZOPFLI_NUM_D) + k) (new_chunk ZOPFLI_NUM_D n (d_counts s)))"
    by (simp_all add: s'_def)
  have pos: "0 < ZOPFLI_NUM_LL" "0 < ZOPFLI_NUM_D" using r by auto
  have "cumulative ZOPFLI_NUM_LL (ll_syms s') (ll_counts s')"
    using cumulative_step [OF counts(1) pos(1), of "Some a"] r unfolding ll lc n' by simp
  moreover have "cumulative ZOPFLI_NUM_D (d_syms s') (d_counts s')"
    using cumulative_step [OF counts(2) pos(2), of "if dist = 0 then None else Some b"] r
    unfolding d lc n' by (simp split: if_splits)
  moreover have "command_ok (litlens s' ! i) (dists s' ! i)
      \<and> symbols_of (litlens s' ! i) (dists s' ! i) = (ll_symbol s' ! i, d_symbol s' ! i)" if "i < Suc n" for i
    using that s c ab lens by (cases "i = n") (auto simp: s'_def nth_append store_ok_def n_def [symmetric])
  ultimately have "store_ok s'" using lens sz by (simp add: store_ok_def) (simp add: s'_def)
  with e show thesis by (rule that) (simp_all add: s'_def)
qed

subsection \<open>Histograms\<close>

lemma fold_counts:
  assumes "\<forall>i \<in> set is. \<forall>k. f i = Some k \<longrightarrow> k < length c"
  shows "length (foldl (\<lambda>c i. case f i of None \<Rightarrow> c | Some k \<Rightarrow> bump k c) c is) = length c
    \<and> (\<forall>k < length c. foldl (\<lambda>c i. case f i of None \<Rightarrow> c | Some k \<Rightarrow> bump k c) c is ! k = c ! k + of_nat (hits (map f is) k))"
  using assms
proof (induction "is" arbitrary: c)
  case (Cons i "is")
  let ?c = "case f i of None \<Rightarrow> c | Some k \<Rightarrow> bump k c"
  have l: "length ?c = length c" by (simp add: bump_def split: option.split)
  have "?c ! k = c ! k + (if f i = Some k then 1 else 0)" if "k < length c" for k
    using that Cons.prems by (auto simp: bump_def nth_list_update split: option.split)
  with Cons.IH [of ?c] Cons.prems l show ?case by (cases "f i") (auto simp: algebra_simps)
qed simp

lemma fold_drops:
  assumes "\<forall>i \<in> set is. \<forall>k. f i = Some k \<longrightarrow> k < length c"
  shows "length (foldl (\<lambda>c i. case f i of None \<Rightarrow> c | Some k \<Rightarrow> drop_one k c) c is) = length c
    \<and> (\<forall>k < length c. foldl (\<lambda>c i. case f i of None \<Rightarrow> c | Some k \<Rightarrow> drop_one k c) c is ! k = c ! k - of_nat (hits (map f is) k))"
  using assms
proof (induction "is" arbitrary: c)
  case (Cons i "is")
  let ?c = "case f i of None \<Rightarrow> c | Some k \<Rightarrow> drop_one k c"
  have l: "length ?c = length c" by (simp add: drop_one_def split: option.split)
  have "?c ! k = c ! k - (if f i = Some k then 1 else 0)" if "k < length c" for k
    using that Cons.prems by (auto simp: drop_one_def nth_list_update split: option.split)
  with Cons.IH [of ?c] Cons.prems l show ?case by (cases "f i") (auto simp: algebra_simps drop_one_def nth_list_update)
qed simp


definition segment :: "nat \<Rightarrow> nat \<Rightarrow> 'a list \<Rightarrow> 'a list" where
  "segment a b xs = take (b - a) (drop a xs)"

lemma map_segment: "b \<le> n \<Longrightarrow> map f [a..<b] = segment a b (map f [0..<n])"
  by (cases "a \<le> b") (simp_all add: segment_def take_map drop_map take_upt)

lemma hits_take_segment:
  assumes "a \<le> b"
  shows "hits (take b xs) k = hits (take a xs) k + hits (segment a b xs) k"
proof -
  have "take b xs = take a xs @ segment a b xs"
    using take_add [of a "b - a" xs] assms by (simp add: segment_def)
  then show ?thesis by simp
qed

lemma length_histogram [simp]: "length (histogram N xs) = N"
  by (simp add: histogram_def)

lemma histogram_nth [simp]: "k < N \<Longrightarrow> histogram N xs ! k = of_nat (hits xs k)"
  by (simp add: histogram_def)

lemma fold_histogram:
  assumes "\<forall>i \<in> set is. \<forall>k. f i = Some k \<longrightarrow> k < N"
  shows "foldl (\<lambda>c i. case f i of None \<Rightarrow> c | Some k \<Rightarrow> bump k c) (replicate N 0) is = histogram N (map f is)"
  using fold_counts [of "is" f "replicate N 0"] assms by (intro nth_equalityI) auto

text \<open>Taking the commands after \<open>lpos\<close> off the counters of its chunk.\<close>

lemma fold_chunk:
  assumes c: "cumulative N xs counts" and N: "0 < N" and l: "lpos < length xs"
    and r: "\<forall>k. Some k \<in> set xs \<longrightarrow> k < N" and xs: "xs = map f [0..<length xs]"
  shows "foldl (\<lambda>c i. case f i of None \<Rightarrow> c | Some k \<Rightarrow> drop_one k c)
      (map (\<lambda>i. counts ! (N * (lpos div N) + i)) [0..<N]) [lpos + 1..<min (N * (lpos div N) + N) (length xs)]
    = histogram N (take (Suc lpos) xs)" (is "foldl ?f ?c ?is = _")
proof -
  define q where "q = lpos div N"
  define e where "e = min (N * q + N) (length xs)"
  have q: "N * q \<le> lpos" "lpos < N * q + N"
    using N by (simp_all add: q_def) (metis add.commute mod_less_divisor mult.commute mult_div_mod_eq nat_add_left_cancel_less)
  have lt: "Suc lpos \<le> e" using q l by (simp add: e_def)
  have f_in: "f i \<in> set xs" if "i \<in> set ?is" for i
    using that l by (subst xs) auto
  have "k < length ?c" if "i \<in> set ?is" "f i = Some k" for i k
    using f_in [OF that(1)] that(2) r by simp
  then have fd: "length (foldl ?f ?c ?is) = N" "k < N \<Longrightarrow> foldl ?f ?c ?is ! k = ?c ! k - of_nat (hits (map f ?is) k)" for k
    using fold_drops [of ?is f ?c] by simp_all
  have m: "map f ?is = segment (Suc lpos) e xs"
    unfolding q_def [symmetric] e_def [symmetric] using map_segment [of e "length xs" f "Suc lpos"] xs
    by (simp add: e_def)
  have "?c ! k = of_nat (hits (take e xs) k)" if "k < N" for k
  proof -
    have "take e xs = take (N * Suc q) xs" by (simp add: e_def min_def add.commute)
    with c that q l show ?thesis by (simp add: cumulative_def q_def [symmetric])
  qed
  then show ?thesis
    using fd hits_take_segment [OF lt, of xs] by (intro nth_equalityI) (simp_all add: m [unfolded Suc_eq_plus1 [symmetric]])
qed

lemma syms_range:
  assumes "store_ok s"
  shows "Some k \<in> set (ll_syms s) \<Longrightarrow> k < ZOPFLI_NUM_LL" and "Some k \<in> set (d_syms s) \<Longrightarrow> k < ZOPFLI_NUM_D"
proof -
  have r: "ll_symbol s ! i < 286" "d_symbol s ! i < 30" if "i < lz_size s" for i
    using that assms symbols_range [of "litlens s ! i" "dists s ! i"] by (auto simp: store_ok_def)
  show "Some k \<in> set (ll_syms s) \<Longrightarrow> k < ZOPFLI_NUM_LL" "Some k \<in> set (d_syms s) \<Longrightarrow> k < ZOPFLI_NUM_D"
    using r by (force simp: ll_syms_def d_syms_def ZOPFLI_NUM_LL_def ZOPFLI_NUM_D_def split: if_splits)+
qed

lemma fold_if:
  "foldl (\<lambda>c i. if b i then g (x i) c else c) c is
     = foldl (\<lambda>c i. case (if b i then Some (x i) else None) of None \<Rightarrow> c | Some k \<Rightarrow> g k c) c is"
  by (intro foldl_cong) auto

lemma fold_some: "foldl (\<lambda>c i. g (x i) c) c is = foldl (\<lambda>c i. case Some (x i) of None \<Rightarrow> c | Some k \<Rightarrow> g k c) c is"
  by simp

lemma HistogramAt_spec:
  assumes "store_ok s" and "lpos < lz_size s"
  shows "ZopfliLZ77GetHistogramAt s lpos
    = (histogram ZOPFLI_NUM_LL (take (Suc lpos) (ll_syms s)), histogram ZOPFLI_NUM_D (take (Suc lpos) (d_syms s)))"
proof -
  have n: "length (ll_syms s) = lz_size s" "length (d_syms s) = lz_size s" by (simp_all add: ll_syms_def d_syms_def)
  have c: "cumulative ZOPFLI_NUM_LL (ll_syms s) (ll_counts s)" "cumulative ZOPFLI_NUM_D (d_syms s) (d_counts s)"
    using assms by (simp_all add: store_ok_def)
  have p: "0 < ZOPFLI_NUM_LL" "0 < ZOPFLI_NUM_D" by (simp_all add: ZOPFLI_NUM_LL_def ZOPFLI_NUM_D_def)
  have m: "ll_syms s = map (\<lambda>i. Some (ll_symbol s ! i)) [0..<length (ll_syms s)]"
    "d_syms s = map (\<lambda>i. if dists s ! i \<noteq> 0 then Some (d_symbol s ! i) else None) [0..<length (d_syms s)]"
    by (simp_all add: n) (simp_all add: ll_syms_def d_syms_def)
  note f = fold_chunk [OF c(1) p(1) _ _ m(1), of lpos] fold_chunk [OF c(2) p(2) _ _ m(2), of lpos]
  show ?thesis
    using f syms_range [OF assms(1)] assms(2)
    unfolding ZopfliLZ77GetHistogramAt_def Let_def n
      fold_if [of "\<lambda>i. dists s ! i \<noteq> 0" drop_one "\<lambda>i. d_symbol s ! i"] fold_some [of drop_one "\<lambda>i. ll_symbol s ! i"]
    by blast
qed

lemma histogram_minus:
  assumes "a \<le> b"
  shows "map2 (-) (histogram N (take b xs)) (histogram N (take a xs)) = histogram N (segment a b xs)"
  using hits_take_segment [OF assms, of xs] by (intro nth_equalityI) simp_all

lemma GetHistogram_spec:
  assumes ok: "store_ok s" and r: "lstart \<le> lend" "lend \<le> lz_size s"
  shows "ZopfliLZ77GetHistogram s lstart lend
    = (histogram ZOPFLI_NUM_LL (segment lstart lend (ll_syms s)), histogram ZOPFLI_NUM_D (segment lstart lend (d_syms s)))"
proof (cases "lstart + ZOPFLI_NUM_LL * 3 > lend")
  case True
  have m: "map (\<lambda>i. Some (ll_symbol s ! i)) [lstart..<lend] = segment lstart lend (ll_syms s)"
    "map (\<lambda>i. if dists s ! i \<noteq> 0 then Some (d_symbol s ! i) else None) [lstart..<lend] = segment lstart lend (d_syms s)"
    unfolding ll_syms_def d_syms_def by (rule map_segment [OF r(2)])+
  have i: "Some (ll_symbol s ! i) \<in> set (ll_syms s)"
    "dists s ! i \<noteq> 0 \<Longrightarrow> Some (d_symbol s ! i) \<in> set (d_syms s)" if "i \<in> set [lstart..<lend]" for i
    using that r by (auto simp: ll_syms_def d_syms_def)
  have "foldl (\<lambda>c i. bump (ll_symbol s ! i) c) (replicate ZOPFLI_NUM_LL 0) [lstart..<lend]
      = histogram ZOPFLI_NUM_LL (segment lstart lend (ll_syms s))"
    unfolding fold_some [of bump "\<lambda>i. ll_symbol s ! i"] m(1) [symmetric]
    using i syms_range [OF ok] by (intro fold_histogram) auto
  moreover have "foldl (\<lambda>c i. if dists s ! i \<noteq> 0 then bump (d_symbol s ! i) c else c) (replicate ZOPFLI_NUM_D 0) [lstart..<lend]
      = histogram ZOPFLI_NUM_D (segment lstart lend (d_syms s))"
    unfolding fold_if [of "\<lambda>i. dists s ! i \<noteq> 0" bump] m(2) [symmetric]
    using i syms_range [OF ok] by (intro fold_histogram) (auto split: if_splits)
  ultimately show ?thesis using True by (simp add: ZopfliLZ77GetHistogram_def)
next
  case False
  then have l: "lstart < lend" "0 < lend" by (simp_all add: ZOPFLI_NUM_LL_def)
  note h = HistogramAt_spec [OF ok, of "lend - 1"] HistogramAt_spec [OF ok, of "lstart - 1"]
  show ?thesis
  proof (cases "0 < lstart")
    case True
    with False l h r histogram_minus [OF r(1)] show ?thesis by (simp add: ZopfliLZ77GetHistogram_def)
  next
    case 0: False
    have "segment 0 lend xs = take lend xs" for xs :: "nat option list" by (simp add: segment_def)
    with 0 False l h(1) r show ?thesis by (simp add: ZopfliLZ77GetHistogram_def)
  qed
qed

subsection \<open>Properties\<close>

text \<open>C35: Appending a command that deflate allows keeps the store consistent: its symbol arrays are
  those of the commands and its counters are the cumulative histograms at the chunk ends; the
  command is the last one, and the others stay.\<close>

theorem store_append_consistent:
  assumes "store_ok s" "command_ok len dist"
  shows "\<exists>s'. ZopfliStoreLitLenDist len dist pos s = Some s' \<and> store_ok s' \<and> litlens s' = litlens s @ [len]
    \<and> dists s' = dists s @ [dist] \<and> lz_pos s' = lz_pos s @ [pos] \<and> lz_data s' = lz_data s"
  by (rule StoreLitLenDist_ok [OF assms, of pos]) blast

lemma store_append_consistent_witness:
  "\<exists>s'. ZopfliStoreLitLenDist 258 32768 0 (ZopfliInitLZ77Store []) = Some s' \<and> store_ok s' \<and> litlens s' = [258]"
proof -
  have "command_ok 258 32768" by (simp add: command_ok_def)
  from store_append_consistent [OF store_ok_init this, of 0 "[]"] show ?thesis
    by (auto simp: ZopfliInitLZ77Store_def)
qed

text \<open>C36: The histogram Zopfli computes from its cumulative counters, by subtracting the rest of a
  chunk and the histogram before the range, is the histogram of the symbols in the range, for
  every range of a consistent store.\<close>

theorem histogram_of_range:
  assumes "store_ok s" "lstart \<le> lend" "lend \<le> lz_size s"
  shows "ZopfliLZ77GetHistogram s lstart lend
    = (histogram ZOPFLI_NUM_LL (segment lstart lend (ll_syms s)), histogram ZOPFLI_NUM_D (segment lstart lend (d_syms s)))"
  by (rule GetHistogram_spec [OF assms])

text \<open>A literal and a match.\<close>

definition sample_store :: lz77_store where
  "sample_store = the (append_commands [(97, 0, 0), (3, 1, 1)] (ZopfliInitLZ77Store [97, 97, 97, 97]))"

lemma sample_store_ok: "store_ok sample_store" "litlens sample_store = [97, 3]" "dists sample_store = [0, 1]"
  "lz_pos sample_store = [0, 1]" "lz_size sample_store = 2"
proof -
  let ?s0 = "ZopfliInitLZ77Store [97, 97, 97, 97]"
  have c: "command_ok 97 0" "command_ok 3 1" by (simp_all add: command_ok_def)
  obtain s1 where 1: "ZopfliStoreLitLenDist 97 0 0 ?s0 = Some s1" "store_ok s1" "litlens s1 = litlens ?s0 @ [97]"
    "dists s1 = dists ?s0 @ [0]" "lz_pos s1 = lz_pos ?s0 @ [0]"
    by (rule StoreLitLenDist_ok [OF store_ok_init c(1), of 0 "[97, 97, 97, 97]"])
  obtain s2 where 2: "ZopfliStoreLitLenDist 3 1 1 s1 = Some s2" "store_ok s2" "litlens s2 = litlens s1 @ [3]"
    "dists s2 = dists s1 @ [1]" "lz_pos s2 = lz_pos s1 @ [1]"
    by (rule StoreLitLenDist_ok [OF 1(2) c(2), of 1])
  have "sample_store = s2" by (simp add: sample_store_def 1(1) 2(1) del: One_nat_def)
  then show "store_ok sample_store" "litlens sample_store = [97, 3]" "dists sample_store = [0, 1]"
    "lz_pos sample_store = [0, 1]" "lz_size sample_store = 2"
    using 1 2 by (simp_all add: ZopfliInitLZ77Store_def lz_size_def)
qed

lemma histogram_of_range_witness:
  "ZopfliLZ77GetHistogram sample_store 0 2 = (histogram ZOPFLI_NUM_LL (ll_syms sample_store), histogram ZOPFLI_NUM_D (d_syms sample_store))"
  using histogram_of_range [OF sample_store_ok(1), of 0 2] sample_store_ok(5)
  by (simp add: segment_def ll_syms_def d_syms_def)

end
