(* ===== verification/ZopfliBlocks.thy ===== *)
theory ZopfliBlocks
  imports ZopfliDeflate ZopfliCodes ZopfliStoreProps
begin

section \<open>Blocks decode to their commands\<close>

text \<open>
  A reference decoder of the data of a block, after RFC 1951, 3.2.3: symbols by
  \<open>decode_symbol\<close>, extra bits, the base values of \<open>ZopfliSymbolsProps\<close>.  What \<open>AddLZ77Data\<close>
  writes decodes to the commands it was given, and its length is the size Zopfli computes.
\<close>

fun inflate_data :: "nat list \<Rightarrow> nat list \<Rightarrow> nat \<Rightarrow> bool list \<Rightarrow> ((nat \<times> nat) list \<times> bool list) option" where
  "inflate_data ll d 0 bits = None"
| "inflate_data ll d (Suc n) bits =
     (case decode_symbol ll bits of
        None \<Rightarrow> None
      | Some (s, b1) \<Rightarrow>
          if s < 256 then map_option (\<lambda>(cs, r). ((s, 0) # cs, r)) (inflate_data ll d n b1)
          else if s = 256 then Some ([], b1)
          else if s > 285 then None
          else (case read_bits (nat (ZopfliGetLengthSymbolExtraBits (int s))) b1 of
                  None \<Rightarrow> None
                | Some (e, b2) \<Rightarrow>
                    (case decode_symbol d b2 of
                       None \<Rightarrow> None
                     | Some (ds, b3) \<Rightarrow>
                         if ds \<ge> 30 then None
                         else (case read_bits (nat (ZopfliGetDistSymbolExtraBits (int ds))) b3 of
                                 None \<Rightarrow> None
                               | Some (de, b4) \<Rightarrow>
                                   map_option (\<lambda>(cs, r). ((nat (length_base ! (s - 257)) + e, nat (dist_base ! ds) + de) # cs, r))
                                     (inflate_data ll d n b4)))))"

text \<open>
  The fixed code of RFC 1951, 3.2.6, and the reader of a block that uses it: the final flag, the
  block type 01 (least significant bit first), the data.
\<close>

definition fixed_ll :: "nat list" where
  "fixed_ll = map (\<lambda>s. if s \<le> 143 then 8 else if s \<le> 255 then 9 else if s \<le> 279 then 7 else 8) [0..<288]"

definition fixed_d :: "nat list" where
  "fixed_d = replicate 32 5"

fun inflate_fixed :: "nat \<Rightarrow> bool list \<Rightarrow> (bool \<times> (nat \<times> nat) list \<times> bool list) option" where
  "inflate_fixed n (final # True # False # bits) = map_option (\<lambda>(cs, r). (final, cs, r)) (inflate_data fixed_ll fixed_d n bits)"
| "inflate_fixed n _ = None"

lemma fixed_ll_runs: "fixed_ll = replicate 144 8 @ replicate 112 9 @ replicate 24 7 @ replicate 8 8"
  by (rule nth_equalityI) (auto simp: fixed_ll_def nth_append)

lemma GetFixedTree_rfc: "GetFixedTree = (fixed_ll, fixed_d)"
  by (simp only: GetFixedTree_def fixed_ll_runs fixed_d_def)

text \<open>The table of codes in the RFC is the canonical code of these lengths.\<close>

lemma len_count_replicate [simp]: "len_count (replicate n x) l = (if x = l then n else 0)"
  by (simp add: len_count_def filter_replicate)

lemma first_code_numeral: "first_code ls (numeral m) = 2 * (first_code ls (pred_numeral m)
    + (if pred_numeral m = 0 then 0 else len_count ls (pred_numeral m)))"
  by (simp add: numeral_eq_Suc)

lemma fixed_counts:
  "len_count fixed_ll l = (if l = 8 then 152 else if l = 9 then 112 else if l = 7 then 24 else 0)"
  "len_count fixed_d l = (if l = 5 then 32 else 0)"
  unfolding fixed_ll_runs fixed_d_def len_count_append len_count_replicate by auto

lemma fixed_first_code: "first_code fixed_ll 7 = 0" "first_code fixed_ll 8 = 0b00110000" "first_code fixed_ll 9 = 0b110010000"
  "first_code fixed_d 5 = 0"
  by (simp_all add: first_code_numeral fixed_counts)

lemma fixed_code_table:
  "i < 144 \<Longrightarrow> canonical_code fixed_ll i = 0b00110000 + i"
  "144 \<le> i \<Longrightarrow> i < 256 \<Longrightarrow> canonical_code fixed_ll i = 0b110010000 + (i - 144)"
  "256 \<le> i \<Longrightarrow> i < 280 \<Longrightarrow> canonical_code fixed_ll i = i - 256"
  "280 \<le> i \<Longrightarrow> i < 288 \<Longrightarrow> canonical_code fixed_ll i = 0b11000000 + (i - 280)"
  "i < 32 \<Longrightarrow> canonical_code fixed_d i = i"
proof -
  have n: "fixed_ll ! i = (if i \<le> 143 then 8 else if i \<le> 255 then 9 else if i \<le> 279 then 7 else 8)" if "i < 288"
    using that by (simp add: fixed_ll_def)
  have t: "len_count (take i fixed_ll) l = (if l = 8 then min i 144 else 0) + (if l = 9 then min (i - 144) 112 else 0)
      + (if l = 7 then min (i - 256) 24 else 0) + (if l = 8 then min (i - 280) 8 else 0)" for l
    unfolding fixed_ll_runs by (simp add: take_append)
  show "i < 144 \<Longrightarrow> canonical_code fixed_ll i = 0b00110000 + i"
    "144 \<le> i \<Longrightarrow> i < 256 \<Longrightarrow> canonical_code fixed_ll i = 0b110010000 + (i - 144)"
    "256 \<le> i \<Longrightarrow> i < 280 \<Longrightarrow> canonical_code fixed_ll i = i - 256"
    "280 \<le> i \<Longrightarrow> i < 288 \<Longrightarrow> canonical_code fixed_ll i = 0b11000000 + (i - 280)"
    using n by (simp_all add: canonical_code_def t fixed_first_code)
  assume "i < 32"
  then have "fixed_d ! i = 5" "len_count (take i fixed_d) 5 = i" by (simp_all add: fixed_d_def)
  then show "canonical_code fixed_d i = i" by (simp add: canonical_code_def fixed_first_code)
qed

text \<open>The bits of a command, and when it has a code.\<close>

definition extra_bits :: "int \<Rightarrow> int \<Rightarrow> bool list" where
  "extra_bits v n = map (bit (word_of_int v :: u32)) [0..<nat n]"

definition encode_command :: "nat list \<Rightarrow> nat list \<Rightarrow> nat \<times> nat \<Rightarrow> bool list" where
  "encode_command ll d c = (case c of (len, dist) \<Rightarrow>
     if dist = 0 then code_word ll len
     else code_word ll (fst (symbols_of len dist))
       @ extra_bits (ZopfliGetLengthExtraBitsValue (int len)) (ZopfliGetLengthExtraBits (int len))
       @ code_word d (snd (symbols_of len dist))
       @ extra_bits (ZopfliGetDistExtraBitsValue (int dist)) (ZopfliGetDistExtraBits (int dist)))"

definition has_code :: "nat list \<Rightarrow> nat list \<Rightarrow> nat \<times> nat \<Rightarrow> bool" where
  "has_code ll d c \<longleftrightarrow> (case c of (len, dist) \<Rightarrow> command_ok len dist
     \<and> ll ! fst (symbols_of len dist) > 0 \<and> (dist \<noteq> 0 \<longrightarrow> d ! snd (symbols_of len dist) > 0))"

text \<open>Trees for which a block can be written and read.\<close>

definition trees_ok :: "nat list \<Rightarrow> nat list \<Rightarrow> bool" where
  "trees_ok ll d \<longleftrightarrow> kraft ll 15 \<and> kraft d 15 \<and> length ll = 288 \<and> length d = 32 \<and> ll ! 256 > 0"

definition codes :: "nat list \<Rightarrow> nat list" where
  "codes ls = map (canonical_code ls) [0..<length ls]"

lemma trees_symbols:
  "trees_ok ll d \<Longrightarrow> ZopfliLengthsToSymbols ll 15 = Some (codes ll) \<and> ZopfliLengthsToSymbols d 15 = Some (codes d)"
  by (simp add: trees_ok_def codes_def LengthsToSymbols_canonical)

lemma AddHuffmanBits_code:
  "bitw_ok w \<Longrightarrow> i < length ls \<Longrightarrow>
     stream (AddHuffmanBits (of_nat (codes ls ! i)) (ls ! i) w) = stream w @ code_word ls i
     \<and> bitw_ok (AddHuffmanBits (of_nat (codes ls ! i)) (ls ! i) w)"
  by (simp add: AddHuffmanBits_stream codes_def code_word_def)

lemma AddCommand_stream:
  assumes t: "trees_ok ll d" and w: "bitw_ok w" and c: "has_code ll d (len, dist)"
  obtains w' where "AddCommand (codes ll) ll (codes d) d len dist w = Some w'"
    "stream w' = stream w @ encode_command ll d (len, dist)" "bitw_ok w'"
proof -
  have ok: "command_ok len dist" using c by (simp add: has_code_def)
  note r = symbols_range [OF ok]
  show thesis
  proof (cases "dist = 0")
    case True
    then have len: "len < 256" "len < length ll" using ok t by (simp_all add: command_ok_def trees_ok_def)
    show ?thesis
      using AddHuffmanBits_code [OF w len(2)] c True len(1)
      by (intro that) (auto simp: AddCommand_def encode_command_def has_code_def symbols_of_def)
  next
    case False
    let ?a = "fst (symbols_of len dist)" and ?b = "snd (symbols_of len dist)"
    let ?w1 = "AddHuffmanBits (of_nat (codes ll ! ?a)) (ll ! ?a) w"
    let ?w2 = "AddBits (word_of_int (ZopfliGetLengthExtraBitsValue (int len))) (nat (ZopfliGetLengthExtraBits (int len))) ?w1"
    let ?w3 = "AddHuffmanBits (of_nat (codes d ! ?b)) (d ! ?b) ?w2"
    let ?w4 = "AddBits (word_of_int (ZopfliGetDistExtraBitsValue (int dist))) (nat (ZopfliGetDistExtraBits (int dist))) ?w3"
    have i: "?a < length ll" "?b < length d" using r t by (simp_all add: trees_ok_def)
    have 1: "stream ?w1 = stream w @ code_word ll ?a" "bitw_ok ?w1"
      using AddHuffmanBits_code [OF w i(1)] by blast+
    have 2: "stream ?w2 = stream ?w1 @ extra_bits (ZopfliGetLengthExtraBitsValue (int len)) (ZopfliGetLengthExtraBits (int len))"
      "bitw_ok ?w2"
      using AddBits_stream [OF 1(2)] by (simp_all add: extra_bits_def)
    have 3: "stream ?w3 = stream ?w2 @ code_word d ?b" "bitw_ok ?w3"
      using AddHuffmanBits_code [OF 2(2) i(2)] by blast+
    have 4: "stream ?w4 = stream ?w3 @ extra_bits (ZopfliGetDistExtraBitsValue (int dist)) (ZopfliGetDistExtraBits (int dist))"
      "bitw_ok ?w4"
      using AddBits_stream [OF 3(2)] by (simp_all add: extra_bits_def)
    have "AddCommand (codes ll) ll (codes d) d len dist w = Some ?w4"
      using False c ok by (simp add: AddCommand_def Let_def has_code_def symbols_of_def command_ok_def)
    moreover have "stream ?w4 = stream w @ encode_command ll d (len, dist)"
      using False by (simp only: 1 2 3 4 append_assoc encode_command_def prod.case if_False)
    ultimately show ?thesis using 4(2) by (rule that)
  qed
qed


subsection \<open>Decoding\<close>

lemma read_extra:
  assumes "0 \<le> v" "v < 2 ^ nat n" "n \<le> 32"
  shows "read_bits (nat n) (extra_bits v n @ rest) = Some (nat v, rest)"
proof -
  have "(2::int) ^ nat n \<le> 2 ^ 32" using assms(3) by (intro power_increasing) auto
  then have "uint (word_of_int v :: u32) = v" using assms(1,2) by (simp add: uint_word_of_int_eq take_bit_int_eq_self)
  then have "unat (word_of_int v :: u32) = nat v" by (metis nat_uint_eq)
  then show ?thesis
    using read_bits_word [of "word_of_int v" "nat n" rest] assms
    by (simp add: extra_bits_def nat_less_iff nat_le_iff)
qed

lemma length_symbol_fields:
  assumes "3 \<le> len" "len \<le> 258"
  defines "s \<equiv> nat (ZopfliGetLengthSymbol (int len))" and "v \<equiv> ZopfliGetLengthExtraBitsValue (int len)"
    and "n \<equiv> ZopfliGetLengthExtraBits (int len)"
  shows "257 \<le> s" "s \<le> 285" "ZopfliGetLengthSymbolExtraBits (int s) = n" "0 \<le> v" "v < 2 ^ nat n" "n \<le> 32"
    "nat (length_base ! (s - 257)) + nat v = len"
proof -
  have "length_coded (int len)" using assms(1,2) by (intro length_coded) auto
  then have c: "257 \<le> ZopfliGetLengthSymbol (int len)" "ZopfliGetLengthSymbol (int len) \<le> 285"
    "n = ZopfliGetLengthSymbolExtraBits (ZopfliGetLengthSymbol (int len))" "0 \<le> v" "v < 2 ^ nat n"
    "length_base ! nat (ZopfliGetLengthSymbol (int len) - 257) + v = int len"
    unfolding length_coded_def length_triple_def v_def n_def by blast+
  have s: "int s = ZopfliGetLengthSymbol (int len)" "s - 257 = nat (ZopfliGetLengthSymbol (int len) - 257)"
    using c(1) by (simp_all add: s_def)
  show "257 \<le> s" "s \<le> 285" "ZopfliGetLengthSymbolExtraBits (int s) = n" "0 \<le> v" "v < 2 ^ nat n"
    using c s by (simp_all add: s_def)
  have "list_all (\<lambda>i. LengthSymbolExtraBits_table ! i \<le> 32 \<and> 0 \<le> length_base ! i) [0..<29]" by code_simp
  from list_all_upt [OF this, of "nat (ZopfliGetLengthSymbol (int len) - 257)"] c
  have t: "LengthSymbolExtraBits_table ! nat (ZopfliGetLengthSymbol (int len) - 257) \<le> 32"
    "0 \<le> length_base ! nat (ZopfliGetLengthSymbol (int len) - 257)" by auto
  then show "n \<le> 32" using c(3) by (simp add: ZopfliGetLengthSymbolExtraBits_def)
  show "nat (length_base ! (s - 257)) + nat v = len" unfolding s(2) using c(4,6) t(2) by simp
qed

lemma dist_symbol_fields:
  assumes "1 \<le> dist" "dist \<le> 32768"
  defines "s \<equiv> nat (ZopfliGetDistSymbol (int dist))" and "v \<equiv> ZopfliGetDistExtraBitsValue (int dist)"
    and "n \<equiv> ZopfliGetDistExtraBits (int dist)"
  shows "s < 30" "ZopfliGetDistSymbolExtraBits (int s) = n" "0 \<le> v" "v < 2 ^ nat n" "n \<le> 32"
    "nat (dist_base ! s) + nat v = dist"
proof -
  have "dist_coded (int dist)" using assms(1,2) by (intro dist_coded) auto
  then have c: "0 \<le> ZopfliGetDistSymbol (int dist)" "ZopfliGetDistSymbol (int dist) < 30"
    "n = ZopfliGetDistSymbolExtraBits (ZopfliGetDistSymbol (int dist))" "0 \<le> v" "v < 2 ^ nat n"
    "dist_base ! s + v = int dist"
    unfolding dist_coded_def Let_def v_def n_def s_def by blast+
  have s: "int s = ZopfliGetDistSymbol (int dist)" using c(1) by (simp add: s_def)
  show lt: "s < 30" using c(2) s by linarith
  show "ZopfliGetDistSymbolExtraBits (int s) = n" "0 \<le> v" "v < 2 ^ nat n" using c s by simp_all
  have "list_all (\<lambda>i. DistSymbolExtraBits_table ! i \<le> 32 \<and> 0 \<le> dist_base ! i) [0..<30]" by code_simp
  from list_all_upt [OF this, of s] lt
  have t: "DistSymbolExtraBits_table ! s \<le> 32" "0 \<le> dist_base ! s" by auto
  show "n \<le> 32" unfolding c(3) s [symmetric] ZopfliGetDistSymbolExtraBits_def nat_int by (rule t(1))
  show "nat (dist_base ! s) + nat v = dist" using c(4,6) t(2) by simp
qed

lemma inflate_command:
  assumes t: "trees_ok ll d" and c: "has_code ll d (len, dist)"
  shows "inflate_data ll d (Suc n) (encode_command ll d (len, dist) @ rest)
    = map_option (\<lambda>(cs, r). ((len, dist) # cs, r)) (inflate_data ll d n rest)"
proof -
  have k: "kraft ll 15" "kraft d 15" "length ll = 288" "length d = 32" using t by (simp_all add: trees_ok_def)
  have m: "(15::nat) < 32" by simp
  have ok: "command_ok len dist" using c by (simp add: has_code_def)
  show ?thesis
  proof (cases "dist = 0")
    case True
    then have "decode_symbol ll (code_word ll len @ rest) = Some (len, rest)"
      using c ok k by (intro decode_symbol_code) (auto simp: has_code_def symbols_of_def command_ok_def)
    then show ?thesis using True ok by (simp add: encode_command_def command_ok_def)
  next
    case False
    then have b: "3 \<le> len" "len \<le> 258" "1 \<le> dist" "dist \<le> 32768" using ok by (auto simp: command_ok_def)
    define a e where "a = nat (ZopfliGetLengthSymbol (int len))" and "e = ZopfliGetLengthExtraBits (int len)"
    define a' e' where "a' = nat (ZopfliGetDistSymbol (int dist))" and "e' = ZopfliGetDistExtraBits (int dist)"
    note L = length_symbol_fields [OF b(1,2), folded a_def e_def] and D = dist_symbol_fields [OF b(3,4), folded a'_def e'_def]
    have s: "symbols_of len dist = (a, a')" using False by (simp add: symbols_of_def a_def a'_def)
    have "decode_symbol ll (code_word ll a @ r) = Some (a, r)" for r
      using c False k L(2) s by (intro decode_symbol_code [OF k(1) m]) (auto simp: has_code_def)
    moreover have "decode_symbol d (code_word d a' @ r) = Some (a', r)" for r
      using c False k D(1) s by (intro decode_symbol_code [OF k(2) m]) (auto simp: has_code_def)
    moreover have "\<not> a < 256" "a \<noteq> 256" "\<not> 285 < a" "\<not> 30 \<le> a'" using L(1,2) D(1) by linarith+
    ultimately show ?thesis
      using False
      by (simp add: encode_command_def s L(3,7) D(2,6) read_extra [OF L(4,5,6)] read_extra [OF D(3,4,5)]
          flip: e_def e'_def)
  qed
qed

lemma AddLZ77Data_loop_stream:
  assumes t: "trees_ok ll d"
  shows "bitw_ok w \<Longrightarrow> list_all (has_code ll d) cs \<Longrightarrow>
    \<exists>w'. AddLZ77Data_loop (codes ll) ll (codes d) d cs k w
        = Some (k + sum_list (map (\<lambda>(len, dist). if dist = 0 then 1 else len) cs), w')
      \<and> stream w' = stream w @ concat (map (encode_command ll d) cs) \<and> bitw_ok w'"
proof (induction cs arbitrary: w k)
  case (Cons c cs)
  obtain len dist where c: "c = (len, dist)" by (rule prod.exhaust)
  then have h: "has_code ll d (len, dist)" using Cons.prems(2) by simp
  obtain w1 where w1: "AddCommand (codes ll) ll (codes d) d len dist w = Some w1"
    "stream w1 = stream w @ encode_command ll d (len, dist)" "bitw_ok w1"
    using AddCommand_stream [OF t Cons.prems(1) h] by blast
  have "list_all (has_code ll d) cs" using Cons.prems(2) by simp
  from Cons.IH [OF w1(3) this, of "k + (if dist = 0 then 1 else len)"] w1 c
  show ?case by (auto simp: algebra_simps)
qed simp

lemma inflate_data_commands:
  assumes t: "trees_ok ll d"
  shows "list_all (has_code ll d) cs \<Longrightarrow>
    inflate_data ll d (Suc (length cs)) (concat (map (encode_command ll d) cs) @ code_word ll 256 @ rest) = Some (cs, rest)"
proof (induction cs)
  case Nil
  have "decode_symbol ll (code_word ll 256 @ rest) = Some (256, rest)"
    using t by (intro decode_symbol_code) (auto simp: trees_ok_def)
  then show ?case by simp
next
  case (Cons c cs)
  obtain len dist where c: "c = (len, dist)" by (rule prod.exhaust)
  have "inflate_data ll d (Suc (Suc (length cs)))
      (encode_command ll d (len, dist) @ concat (map (encode_command ll d) cs) @ code_word ll 256 @ rest)
    = map_option (\<lambda>(cs, r). ((len, dist) # cs, r))
        (inflate_data ll d (Suc (length cs)) (concat (map (encode_command ll d) cs) @ code_word ll 256 @ rest))"
    using inflate_command [OF t, of len dist "Suc (length cs)"] Cons.prems c by simp
  with Cons c show ?case by simp
qed


subsection \<open>Sizes\<close>

lemma foldl_sum: "foldl (\<lambda>r i. r + f i) (a :: nat) is = a + sum_list (map f is)"
  by (induction "is" arbitrary: a) simp_all

lemma length_encode_command:
  assumes "has_code ll d (len, dist)"
  shows "length (encode_command ll d (len, dist)) = command_size ll d len dist"
proof (cases "dist = 0")
  case False
  then have "command_ok len dist" using assms by (simp add: has_code_def)
  with False have b: "3 \<le> len" "len \<le> 258" "1 \<le> dist" "dist \<le> 32768" by (auto simp: command_ok_def)
  note L = length_symbol_fields [OF b(1,2)] and D = dist_symbol_fields [OF b(3,4)]
  have "0 \<le> ZopfliGetLengthSymbol (int len)" using L(1) by linarith
  moreover have "dist_coded (int dist)" using b by (intro dist_coded) auto
  ultimately have "ZopfliGetLengthExtraBits (int len) = ZopfliGetLengthSymbolExtraBits (ZopfliGetLengthSymbol (int len))"
    "ZopfliGetDistExtraBits (int dist) = ZopfliGetDistSymbolExtraBits (ZopfliGetDistSymbol (int dist))"
    using L(3) by (simp_all add: dist_coded_def Let_def)
  then show ?thesis
    using False by (simp add: encode_command_def command_size_def symbols_of_def extra_bits_def Let_def)
qed (simp add: encode_command_def command_size_def)

lemma commands_ok:
  assumes "store_ok s" "lend \<le> lz_size s"
  shows "list_all (\<lambda>(len, dist). command_ok len dist) (commands s lstart lend)"
  using assms by (auto simp: commands_def list_all_iff store_ok_def)

lemma SymbolSizeSmall:
  assumes "store_ok s" "lend \<le> lz_size s"
  shows "CalculateBlockSymbolSizeSmall ll d s lstart lend
    = Some (sum_list (map (\<lambda>(len, dist). command_size ll d len dist) (commands s lstart lend)) + ll ! 256)"
proof -
  have "list_all (\<lambda>i. i < lz_size s \<and> litlens s ! i < 259) [lstart..<lend]"
  proof -
    have "litlens s ! i < 259" if "i < lend" for i
    proof -
      have "command_ok (litlens s ! i) (dists s ! i)" using assms that by (simp add: store_ok_def)
      then show ?thesis by (simp add: command_ok_def split: if_splits)
    qed
    then show ?thesis using assms(2) by (auto simp: list_all_iff)
  qed
  then show ?thesis by (simp add: CalculateBlockSymbolSizeSmall_def foldl_sum commands_def o_def)
qed

text \<open>Counting by symbol.\<close>

lemma sum_by_symbol:
  assumes "finite K" and "\<forall>k. Some k \<in> set xs \<longrightarrow> k \<in> K"
  shows "sum_list (map (\<lambda>x. case x of None \<Rightarrow> 0 | Some k \<Rightarrow> G k) xs) = (\<Sum>k \<in> K. hits xs k * (G k :: nat))"
  using assms(2)
proof (induction xs)
  case (Cons x xs)
  show ?case
  proof (cases x)
    case (Some j)
    then have j: "j \<in> K" using Cons.prems by simp
    have "(\<Sum>k \<in> K. hits (x # xs) k * G k) = (\<Sum>k \<in> K. hits xs k * G k + (if j = k then G j else 0))"
      using Some by (intro sum.cong) auto
    also have "\<dots> = (\<Sum>k \<in> K. hits xs k * G k) + G j"
      using assms(1) j by (simp add: sum.distrib)
    finally show ?thesis using Cons Some by simp
  qed (use Cons in simp)
qed simp

definition ll_cost :: "nat list \<Rightarrow> nat \<Rightarrow> nat" where
  "ll_cost ll k = ll ! k + (if k < 257 then 0 else nat (ZopfliGetLengthSymbolExtraBits (int k)))"

definition d_cost :: "nat list \<Rightarrow> nat \<Rightarrow> nat" where
  "d_cost d k = d ! k + nat (ZopfliGetDistSymbolExtraBits (int k))"

lemma command_size_cost:
  assumes "command_ok len dist"
  shows "command_size ll d len dist = ll_cost ll (fst (symbols_of len dist))
    + (if dist = 0 then 0 else d_cost d (snd (symbols_of len dist)))"
    and "fst (symbols_of len dist) \<noteq> 256"
proof -
  have "command_size ll d len dist = ll_cost ll (fst (symbols_of len dist))
    + (if dist = 0 then 0 else d_cost d (snd (symbols_of len dist))) \<and> fst (symbols_of len dist) \<noteq> 256"
  proof (cases "dist = 0")
    case False
    with assms have b: "3 \<le> len" "len \<le> 258" "1 \<le> dist" "dist \<le> 32768" by (auto simp: command_ok_def)
    note L = length_symbol_fields [OF b(1,2)]
    have "dist_coded (int dist)" using b by (intro dist_coded) auto
    then have "0 \<le> ZopfliGetDistSymbol (int dist)" by (simp add: dist_coded_def Let_def)
    moreover have "0 \<le> ZopfliGetLengthSymbol (int len)" "\<not> nat (ZopfliGetLengthSymbol (int len)) < 257" using L(1) by linarith+
    ultimately show ?thesis
      using False L(1) by (simp add: command_size_def symbols_of_def ll_cost_def d_cost_def Let_def)
  qed (use assms in \<open>simp add: command_size_def symbols_of_def ll_cost_def command_ok_def\<close>)
  then show "command_size ll d len dist = ll_cost ll (fst (symbols_of len dist))
    + (if dist = 0 then 0 else d_cost d (snd (symbols_of len dist)))" "fst (symbols_of len dist) \<noteq> 256" by blast+
qed

lemma hits_le: "hits xs k \<le> length xs"
  by (simp add: hits_def)

lemma unat_histogram: "k < N \<Longrightarrow> length xs < 2 ^ 64 \<Longrightarrow> unat (histogram N xs ! k) = hits xs k"
  using hits_le [of xs k] by (simp add: unat_of_nat)

lemma sum_list_upt: "sum_list (map f [a..<b]) = (\<Sum>k = a..<b. f k)"
  by (simp add: interv_sum_list_conv_sum_set_nat)

lemma sum_of_symbols:
  assumes ok: "store_ok s" and r: "lstart \<le> lend" "lend \<le> lz_size s"
  shows "sum_list (map (\<lambda>(len, dist). command_size ll d len dist) (commands s lstart lend))
    = (\<Sum>k \<in> {0..<256} \<union> {257..<286}. hits (segment lstart lend (ll_syms s)) k * ll_cost ll k)
    + (\<Sum>k = 0..<30. hits (segment lstart lend (d_syms s)) k * d_cost d k)"
proof -
  have seg: "segment lstart lend (ll_syms s) = map (\<lambda>i. Some (ll_symbol s ! i)) [lstart..<lend]"
    "segment lstart lend (d_syms s) = map (\<lambda>i. if dists s ! i \<noteq> 0 then Some (d_symbol s ! i) else None) [lstart..<lend]"
    unfolding ll_syms_def d_syms_def by (simp_all only: map_segment [OF r(2)])
  have c: "command_ok (litlens s ! i) (dists s ! i)"
    "symbols_of (litlens s ! i) (dists s ! i) = (ll_symbol s ! i, d_symbol s ! i)" if "i < lend" for i
    using ok r that by (auto simp: store_ok_def)
  have "sum_list (map (\<lambda>(len, dist). command_size ll d len dist) (commands s lstart lend))
      = sum_list (map (\<lambda>i. ll_cost ll (ll_symbol s ! i) + (if dists s ! i = 0 then 0 else d_cost d (d_symbol s ! i))) [lstart..<lend])"
    unfolding commands_def map_map o_def prod.case
    using c command_size_cost(1) [OF c(1)] by (intro arg_cong [where f = sum_list] map_cong) auto
  also have "\<dots> = sum_list (map (\<lambda>x. case x of None \<Rightarrow> 0 | Some k \<Rightarrow> ll_cost ll k) (segment lstart lend (ll_syms s)))
      + sum_list (map (\<lambda>x. case x of None \<Rightarrow> 0 | Some k \<Rightarrow> d_cost d k) (segment lstart lend (d_syms s)))"
    unfolding seg sum_list_addf map_map o_def by (intro arg_cong2 [where f = "(+)"] arg_cong [where f = sum_list] map_cong) auto
  also have "sum_list (map (\<lambda>x. case x of None \<Rightarrow> 0 | Some k \<Rightarrow> ll_cost ll k) (segment lstart lend (ll_syms s)))
      = (\<Sum>k \<in> {0..<256} \<union> {257..<286}. hits (segment lstart lend (ll_syms s)) k * ll_cost ll k)"
  proof (rule sum_by_symbol)
    have "ll_symbol s ! i \<in> {0..<256} \<union> {257..<286}" if "i < lend" for i
      using c [OF that] symbols_range(1) [OF c(1) [OF that]] command_size_cost(2) [OF c(1) [OF that]] by auto
    then show "\<forall>k. Some k \<in> set (segment lstart lend (ll_syms s)) \<longrightarrow> k \<in> {0..<256} \<union> {257..<286}"
      unfolding seg by (simp add: image_iff) (metis atLeastLessThan_iff)
  qed simp
  also have "sum_list (map (\<lambda>x. case x of None \<Rightarrow> 0 | Some k \<Rightarrow> d_cost d k) (segment lstart lend (d_syms s)))
      = (\<Sum>k = 0..<30. hits (segment lstart lend (d_syms s)) k * d_cost d k)"
  proof (rule sum_by_symbol)
    have "d_symbol s ! i < 30" if "i < lend" for i
      using c [OF that] symbols_range(2) [OF c(1) [OF that]] by simp
    then show "\<forall>k. Some k \<in> set (segment lstart lend (d_syms s)) \<longrightarrow> k \<in> {0..<30}"
      unfolding seg by (auto split: if_splits)
  qed simp
  finally show ?thesis .
qed


lemma BlockSymbolSize_counts:
  assumes ok: "store_ok s" and r: "lstart \<le> lend" "lend \<le> lz_size s" and n: "lz_size s < 2 ^ 64"
  shows "CalculateBlockSymbolSize ll d s lstart lend = CalculateBlockSymbolSizeSmall ll d s lstart lend"
proof (cases "lstart + ZOPFLI_NUM_LL * 3 > lend")
  case True
  then show ?thesis by (simp add: CalculateBlockSymbolSize_def)
next
  case False
  let ?x = "segment lstart lend (ll_syms s)" and ?y = "segment lstart lend (d_syms s)"
  let ?h = "histogram ZOPFLI_NUM_LL ?x" and ?g = "histogram ZOPFLI_NUM_D ?y"
  have l: "length ?x < 2 ^ 64" "length ?y < 2 ^ 64"
    using r n by (simp_all add: segment_def ll_syms_def d_syms_def)
  have h: "unat (?h ! k) = hits ?x k" if "k < 288" for k
    using unat_histogram [OF _ l(1)] that by (simp add: ZOPFLI_NUM_LL_def)
  have g: "unat (?g ! k) = hits ?y k" if "k < 32" for k
    using unat_histogram [OF _ l(2)] that by (simp add: ZOPFLI_NUM_D_def)
  have 1: "(\<Sum>k = 0..<256. ll ! k * unat (?h ! k)) = (\<Sum>k = 0..<256. hits ?x k * ll_cost ll k)"
    by (intro sum.cong) (simp_all add: h ll_cost_def)
  have 2: "(\<Sum>k = 257..<286. ll ! k * unat (?h ! k) + nat (ZopfliGetLengthSymbolExtraBits (int k)) * unat (?h ! k))
    = (\<Sum>k = 257..<286. hits ?x k * ll_cost ll k)"
    by (intro sum.cong) (simp_all add: h ll_cost_def algebra_simps)
  have 3: "(\<Sum>k = 0..<30. d ! k * unat (?g ! k) + nat (ZopfliGetDistSymbolExtraBits (int k)) * unat (?g ! k))
    = (\<Sum>k = 0..<30. hits ?y k * d_cost d k)"
    by (intro sum.cong) (simp_all add: g d_cost_def algebra_simps)
  have u: "(\<Sum>k \<in> {0..<256} \<union> {257..<286}. hits ?x k * ll_cost ll k)
    = (\<Sum>k = 0..<256. hits ?x k * ll_cost ll k) + (\<Sum>k = 257..<286. hits ?x k * ll_cost ll k)"
    by (intro sum.union_disjoint) auto
  show ?thesis
    unfolding CalculateBlockSymbolSize_def CalculateBlockSymbolSizeGivenCounts_def GetHistogram_spec [OF ok r]
      SymbolSizeSmall [OF ok r(2)] sum_of_symbols [OF ok r] u prod.case Let_def foldl_sum add.assoc sum_list_upt
      add_0 [of "sum_list _"]
    using False by (simp only: if_False 1 2 3 add_0 sum_list_upt add.assoc)
qed

subsection \<open>Fixed blocks\<close>

lemma fixed_trees:
  assumes "GetFixedTree = (ll, d)"
  shows "trees_ok ll d"
proof -
  have "trees_ok (fst GetFixedTree) (snd GetFixedTree)"
    unfolding trees_ok_def kraft_def kraft_sum_def GetFixedTree_def
    by (simp add: map_replicate sum_list_replicate list_all_append nth_append list_all_iff)
  then show ?thesis unfolding assms fst_conv snd_conv .
qed

lemma fixed_lengths: "GetFixedTree = (ll, d) \<Longrightarrow> i < 286 \<Longrightarrow> ll ! i > 0" "GetFixedTree = (ll, d) \<Longrightarrow> i < 30 \<Longrightarrow> d ! i > 0"
  by (auto simp: GetFixedTree_def nth_append)

lemma fixed_has_code:
  assumes "GetFixedTree = (ll, d)" "command_ok len dist"
  shows "has_code ll d (len, dist)"
  using fixed_lengths [OF assms(1)] symbols_range [OF assms(2)] assms(2) by (simp add: has_code_def)

lemma encode_commands_size:
  assumes "list_all (has_code ll d) cs"
  shows "length (concat (map (encode_command ll d) cs)) = sum_list (map (\<lambda>(len, dist). command_size ll d len dist) cs)"
  using assms by (induction cs) (auto simp: length_encode_command)

lemma data_block:
  assumes t: "trees_ok ll d" and w: "bitw_ok w" and ok: "store_ok s" and r: "lstart \<le> lend" "lend \<le> lz_size s"
    and h: "list_all (has_code ll d) (commands s lstart lend)"
  obtains w' enc where "AddLZ77Data s lstart lend 0 (codes ll) ll (codes d) d w = Some w'"
    "stream (AddHuffmanBits (of_nat (codes ll ! 256)) (ll ! 256) w') = stream w @ enc"
    "bitw_ok (AddHuffmanBits (of_nat (codes ll ! 256)) (ll ! 256) w')"
    "CalculateBlockSymbolSizeSmall ll d s lstart lend = Some (length enc)"
    "\<forall>rest. inflate_data ll d (Suc (lend - lstart)) (enc @ rest) = Some (commands s lstart lend, rest)"
proof -
  let ?cs = "commands s lstart lend"
  let ?body = "concat (map (encode_command ll d) ?cs)"
  obtain w' where w': "AddLZ77Data_loop (codes ll) ll (codes d) d ?cs 0 w
      = Some (sum_list (map (\<lambda>(len, dist). if dist = 0 then 1 else len) ?cs), w')"
    "stream w' = stream w @ ?body" "bitw_ok w'"
    using AddLZ77Data_loop_stream [OF t w h, of 0] by auto
  have l: "256 < length ll" using t by (simp add: trees_ok_def)
  have n: "length ?cs = lend - lstart" by (simp add: commands_def)
  show thesis
  proof (rule that [of w' "?body @ code_word ll 256"])
    show "AddLZ77Data s lstart lend 0 (codes ll) ll (codes d) d w = Some w'"
      using w'(1) by (simp add: AddLZ77Data_def)
    show "stream (AddHuffmanBits (of_nat (codes ll ! 256)) (ll ! 256) w') = stream w @ ?body @ code_word ll 256"
      "bitw_ok (AddHuffmanBits (of_nat (codes ll ! 256)) (ll ! 256) w')"
      using AddHuffmanBits_code [OF w'(3) l] w'(2) by simp_all
    show "CalculateBlockSymbolSizeSmall ll d s lstart lend = Some (length (?body @ code_word ll 256))"
      by (simp add: SymbolSizeSmall [OF ok r(2)] encode_commands_size [OF h] del: length_concat)
    show "\<forall>rest. inflate_data ll d (Suc (lend - lstart)) ((?body @ code_word ll 256) @ rest) = Some (?cs, rest)"
      using inflate_data_commands [OF t h] n by simp
  qed
qed

lemma fixed_block:
  assumes w: "bitw_ok w" and ok: "store_ok s"
    and r: "lstart \<le> lend" "lend \<le> lz_size s" and n: "lz_size s < 2 ^ 64"
  shows "\<exists>w' enc. AddLZ77Block junk 1 final s lstart lend 0 w = Some w'
    \<and> bitw_ok w' \<and> stream w' = stream w @ enc
    \<and> ZopfliCalculateBlockSize junk s lstart lend 1 = Some (length enc)
    \<and> (\<forall>rest. inflate_fixed (Suc (lend - lstart)) (enc @ rest) = Some (final, commands s lstart lend, rest))"
proof -
  note ft = GetFixedTree_rfc and t = fixed_trees [OF GetFixedTree_rfc]
  let ?w1 = "AddBit (if final then 1 else 0) w"
  let ?w3 = "AddBit (if False then 1 else 0) (AddBit (if True then 1 else 0) ?w1)"
  have 1: "stream ?w1 = stream w @ [final]" "bitw_ok ?w1" using AddBit_stream [OF w] by blast+
  have 3: "stream ?w3 = stream w @ [final, True, False]" "bitw_ok ?w3"
    using AddBit_stream [OF 1(2), of True] AddBit_stream [of "AddBit (if True then 1 else 0) ?w1" False] 1(1) by simp_all
  have "list_all (has_code fixed_ll fixed_d) (commands s lstart lend)"
    using commands_ok [OF ok r(2), of lstart] fixed_has_code [OF ft] by (auto simp: list_all_iff)
  from data_block [OF t 3(2) ok r this]
  obtain w' enc where e: "AddLZ77Data s lstart lend 0 (codes fixed_ll) fixed_ll (codes fixed_d) fixed_d ?w3 = Some w'"
    "stream (AddHuffmanBits (of_nat (codes fixed_ll ! 256)) (fixed_ll ! 256) w') = stream ?w3 @ enc"
    "bitw_ok (AddHuffmanBits (of_nat (codes fixed_ll ! 256)) (fixed_ll ! 256) w')"
    "CalculateBlockSymbolSizeSmall fixed_ll fixed_d s lstart lend = Some (length enc)"
    "\<forall>rest. inflate_data fixed_ll fixed_d (Suc (lend - lstart)) (enc @ rest) = Some (commands s lstart lend, rest)" by blast
  have "AddLZ77Block junk 1 final s lstart lend 0 w = Some (AddHuffmanBits (of_nat (codes fixed_ll ! 256)) (fixed_ll ! 256) w')"
    using e(1) trees_symbols [OF t] by (simp add: AddLZ77Block_def ft Let_def)
  moreover have "ZopfliCalculateBlockSize junk s lstart lend 1 = Some (3 + length enc)"
    using e(4) by (simp add: ZopfliCalculateBlockSize_def ft BlockSymbolSize_counts [OF ok r n])
  moreover have "stream (AddHuffmanBits (of_nat (codes fixed_ll ! 256)) (fixed_ll ! 256) w') = stream w @ [final, True, False] @ enc"
    using e(2) 3(1) by simp
  ultimately show ?thesis
    using e(3,5) by (intro exI [of _ "AddHuffmanBits (of_nat (codes fixed_ll ! 256)) (fixed_ll ! 256) w'"]
        exI [of _ "[final, True, False] @ enc"]) simp
qed

subsection \<open>Properties\<close>

text \<open>C37: The size of a block's data computed from the histogram of its symbols is the size found by
  adding up the commands one by one, for every range of a consistent store.\<close>

theorem block_size_by_histogram:
  assumes "store_ok s" "lstart \<le> lend" "lend \<le> lz_size s" "lz_size s < 2 ^ 64"
  shows "CalculateBlockSymbolSize ll d s lstart lend = CalculateBlockSymbolSizeSmall ll d s lstart lend"
  by (rule BlockSymbolSize_counts [OF assms])

lemma block_size_by_histogram_witness:
  "CalculateBlockSymbolSize (fst GetFixedTree) (snd GetFixedTree) sample_store 0 2
    = CalculateBlockSymbolSizeSmall (fst GetFixedTree) (snd GetFixedTree) sample_store 0 2"
  by (rule block_size_by_histogram) (simp_all add: sample_store_ok)

text \<open>C28: A block with the fixed trees is written without a failed assertion and decodes to its
  commands: the reader of RFC 1951, with the fixed code of section 3.2.6, reads from the bits
  written the final flag, the block type and exactly the commands of the range, whatever follows;
  the size Zopfli computed for the block is the number of bits written.\<close>

theorem fixed_block_roundtrip:
  assumes "bitw_ok w" "store_ok s" "lstart \<le> lend" "lend \<le> lz_size s" "lz_size s < 2 ^ 64"
  shows "\<exists>w' enc. AddLZ77Block junk 1 final s lstart lend 0 w = Some w'
    \<and> bitw_ok w' \<and> stream w' = stream w @ enc
    \<and> ZopfliCalculateBlockSize junk s lstart lend 1 = Some (length enc)
    \<and> (\<forall>rest. inflate_fixed (Suc (lend - lstart)) (enc @ rest) = Some (final, commands s lstart lend, rest))"
  by (rule fixed_block [OF assms])

lemma fixed_block_roundtrip_witness:
  "\<exists>w'. AddLZ77Block 0 1 True sample_store 0 2 0 \<lparr>bp = 0, obytes = []\<rparr> = Some w'
    \<and> inflate_fixed 3 (stream w') = Some (True, [(97, 0), (3, 1)], [])"
proof -
  have w: "bitw_ok \<lparr>bp = 0, obytes = []\<rparr>" by (simp add: bitw_ok_def)
  have c: "commands sample_store 0 2 = [(97, 0), (3, 1)]"
    by (simp add: commands_def sample_store_ok upt_rec)
  obtain w' enc where e: "AddLZ77Block 0 1 True sample_store 0 2 0 \<lparr>bp = 0, obytes = []\<rparr> = Some w'"
    "stream w' = stream \<lparr>bp = 0, obytes = []\<rparr> @ enc"
    "\<forall>rest. inflate_fixed (Suc (2 - 0)) (enc @ rest) = Some (True, commands sample_store 0 2, rest)"
    using fixed_block_roundtrip [OF w sample_store_ok(1), of 0 2 0 True] sample_store_ok(5) by auto
  have "stream \<lparr>bp = 0, obytes = []\<rparr> = []" by (simp add: stream_def nbits_def)
  then have 1: "stream w' = enc" using e(2) by simp
  have n: "Suc (2 - 0) = 3" by simp
  have "inflate_fixed 3 (stream w') = Some (True, [(97, 0), (3, 1)], [])"
    using e(3) [unfolded n c, THEN spec [of _ "[]"]] unfolding 1 by (simp only: append_Nil2)
  with e(1) show ?thesis by blast
qed

end
