(* ===== verification/ZopfliExpand.thy ===== *)
theory ZopfliExpand
  imports ZopfliMatch ZopfliBlocks
begin

section \<open>Commands and the bytes they stand for\<close>

text \<open>
  The meaning of commands after RFC 1951: a literal is a byte, a length and a distance copy bytes
  of the output.  \<open>tiles\<close> says that commands, with their positions, cover a stretch of the data;
  such commands expand to that stretch, whatever part of the data before it is the dictionary.
\<close>

fun copy_back :: "nat \<Rightarrow> nat \<Rightarrow> u8 list \<Rightarrow> u8 list" where
  "copy_back dist 0 out = out"
| "copy_back dist (Suc n) out = copy_back dist n (out @ [out ! (length out - dist)])"

fun expand :: "(nat \<times> nat) list \<Rightarrow> u8 list \<Rightarrow> u8 list option" where
  "expand [] out = Some out"
| "expand ((len, dist) # cs) out =
     (if dist = 0 then expand cs (out @ [of_nat len])
      else if dist \<le> length out then expand cs (copy_back dist len out)
      else None)"

fun tiles :: "u8 list \<Rightarrow> nat \<Rightarrow> nat \<Rightarrow> (nat \<times> nat \<times> nat) list \<Rightarrow> nat \<Rightarrow> bool" where
  "tiles a n i [] j \<longleftrightarrow> i = j"
| "tiles a n i ((len, dist, p) # cs) j \<longleftrightarrow> p = i
     \<and> (if dist = 0 then i < n \<and> len = unat (a ! i) \<and> tiles a n (i + 1) cs j
        else 3 \<le> len \<and> len \<le> 258 \<and> match_at a n i len dist \<and> tiles a n (i + len) cs j)"

definition strip_pos :: "(nat \<times> nat \<times> nat) list \<Rightarrow> (nat \<times> nat) list" where
  "strip_pos cs = map (\<lambda>(len, dist, p). (len, dist)) cs"

lemma copy_back_match:
  assumes "match_at a n i len dist" "n \<le> length a"
  shows "copy_back dist len (take i a) = take (i + len) a"
  using assms
proof (induction len arbitrary: i)
  case (Suc len)
  then have i: "i < length a" "dist \<le> i" "0 < dist" "a ! i = a ! (i - dist)"
    by (auto simp: match_at_def)
  have "take i a @ [take i a ! (length (take i a) - dist)] = take (Suc i) a"
    using i by (simp add: take_Suc_conv_app_nth)
  moreover have "match_at a n (Suc i) len dist"
  proof -
    have "a ! (Suc i + j) = a ! (Suc i - dist + j)" if "j < len" for j
    proof -
      have "a ! (i + Suc j) = a ! (i - dist + Suc j)" using Suc.prems(1) that unfolding match_at_def by blast
      with i show ?thesis by (simp add: Suc_diff_le)
    qed
    with Suc.prems(1) show ?thesis by (simp add: match_at_def)
  qed
  ultimately show ?case using Suc.IH [of "Suc i"] Suc.prems(2) by simp
qed simp

lemma tiles_append: "tiles a n i (cs @ ds) j \<longleftrightarrow> (\<exists>k. tiles a n i cs k \<and> tiles a n k ds j)"
  by (induction a n i cs j rule: tiles.induct) auto

lemma tiles_le: "tiles a n i cs j \<Longrightarrow> i \<le> j"
  by (induction a n i cs j rule: tiles.induct) (auto split: if_splits)

lemma tiles_within: "tiles a n i cs j \<Longrightarrow> i \<le> n \<Longrightarrow> j \<le> n"
  by (induction a n i cs j rule: tiles.induct) (auto split: if_splits dest: match_at_end)

lemma tiles_expand:
  "tiles a n i cs j \<Longrightarrow> n \<le> length a \<Longrightarrow> i \<le> n \<Longrightarrow> expand (strip_pos cs) (take i a) = Some (take j a)"
proof (induction a n i cs j rule: tiles.induct)
  case (2 a n i len dist p cs j)
  show ?case
  proof (cases "dist = 0")
    case True
    with 2(3-) have "take i a @ [of_nat len] = take (i + 1) a" by (simp add: take_Suc_conv_app_nth)
    with True 2 show ?thesis by (simp add: strip_pos_def)
  next
    case False
    with 2(3-) have m: "match_at a n i len dist" by simp
    from copy_back_match [OF m 2(4)] False 2 match_at_dist [OF m] match_at_end [OF m] show ?thesis
      by (simp add: strip_pos_def)
  qed
qed (simp add: strip_pos_def)

lemma tiles_bytes: "tiles a n i cs j \<Longrightarrow> (\<Sum>(len, dist, p) \<leftarrow> cs. if dist = 0 then 1 else len) = j - i"
proof (induction a n i cs j rule: tiles.induct)
  case (2 a n i len dist p cs j)
  then show ?case using tiles_le [of a n _ cs j] by (auto split: if_splits dest!: tiles_le)
qed simp

lemma tiles_commands_ok: "tiles a n i cs j \<Longrightarrow> (len, dist, p) \<in> set cs \<Longrightarrow> command_ok len dist"
proof (induction a n i cs j rule: tiles.induct)
  case (2 a n i l d q cs j)
  have "unat (a ! i) < 256" using unsigned_less [of "a ! i"] by simp
  with 2 show ?case by (auto simp: command_ok_def split: if_splits dest: match_at_dist)
qed simp

subsection \<open>The commands of a store\<close>

definition store_triples :: "lz77_store \<Rightarrow> (nat \<times> nat \<times> nat) list" where
  "store_triples s = zip (litlens s) (zip (dists s) (lz_pos s))"

lemma triples_init [simp]: "store_triples (ZopfliInitLZ77Store input) = []"
  by (simp add: store_triples_def ZopfliInitLZ77Store_def)

lemma length_triples: "store_ok s \<Longrightarrow> length (store_triples s) = lz_size s"
  by (simp add: store_triples_def store_ok_def lz_size_def)

lemma triples_store:
  assumes "store_ok s" "command_ok len dist"
  obtains s' where "ZopfliStoreLitLenDist len dist pos s = Some s'" "store_ok s'"
    "store_triples s' = store_triples s @ [(len, dist, pos)]" "lz_data s' = lz_data s"
proof -
  obtain s' where s': "ZopfliStoreLitLenDist len dist pos s = Some s'" "store_ok s'"
    "litlens s' = litlens s @ [len]" "dists s' = dists s @ [dist]" "lz_pos s' = lz_pos s @ [pos]" "lz_data s' = lz_data s"
    by (rule StoreLitLenDist_ok [OF assms])
  show thesis
    by (rule that [OF s'(1,2)]) (use s' assms(1) in \<open>simp_all add: store_triples_def store_ok_def lz_size_def\<close>)
qed

lemma commands_triples:
  assumes "store_ok s" "lend \<le> lz_size s"
  shows "commands s lstart lend = strip_pos (drop lstart (take lend (store_triples s)))"
proof (rule nth_equalityI)
  show "length (commands s lstart lend) = length (strip_pos (drop lstart (take lend (store_triples s))))"
    using assms length_triples [OF assms(1)] by (simp add: commands_def strip_pos_def)
  fix k
  assume "k < length (commands s lstart lend)"
  then show "commands s lstart lend ! k = strip_pos (drop lstart (take lend (store_triples s))) ! k"
    using assms length_triples [OF assms(1)]
    by (simp add: commands_def strip_pos_def store_triples_def store_ok_def lz_size_def)
qed

end
