(* ===== verification/ZopfliGreedy.thy ===== *)
theory ZopfliGreedy
  imports ZopfliExpand
begin

section \<open>LZ77 with lazy matching (src/zopfli: lz77.c)\<close>

text \<open>
  \<open>ZopfliLZ77Greedy\<close>: one turn of its loop is \<open>greedy_step\<close>, which returns the state and the number
  of further positions it has entered into the hash, or \<open>None\<close> for a failed assertion.
  \<open>dummysublen\<close> and the distance of a search without result keep what memory held.
\<close>

definition GetLengthScore :: "int \<Rightarrow> int \<Rightarrow> int" where
  "GetLengthScore len distance = (if distance > 1024 then len - 1 else len)"

text \<open>The index is a \<open>size_t\<close>: with a distance beyond the start it wraps and is out of bounds (a failure).\<close>

definition ZopfliVerifyLenDist :: "u8 list \<Rightarrow> nat \<Rightarrow> nat \<Rightarrow> nat \<Rightarrow> nat \<Rightarrow> bool" where
  "ZopfliVerifyLenDist a datasize pos dist len \<longleftrightarrow> pos + len \<le> datasize
     \<and> list_all (\<lambda>i. dist \<le> pos + i \<and> a ! (pos + i - dist) = a ! (pos + i)) [0..<len]"

record greedy =
  g_block :: zblock
  g_hash :: zhash
  g_store :: lz77_store
  g_sublen :: "nat \<Rightarrow> nat"
  g_prev_length :: nat
  g_prev_match :: nat
  g_match_available :: bool

text \<open>\<open>n\<close> times: assert \<open>i < inend\<close>, go to the next position and enter it.\<close>

fun skip_positions :: "u8 list \<Rightarrow> nat \<Rightarrow> nat \<Rightarrow> nat \<Rightarrow> zhash \<Rightarrow> zhash option" where
  "skip_positions a i end 0 h = Some h"
| "skip_positions a i end (Suc n) h =
     (if i < end then skip_positions a (i + 1) end n (ZopfliUpdateHash a (i + 1) end h) else None)"

text \<open>The end of a turn that adds to the output at \<open>i\<close>.\<close>

definition greedy_add :: "u8 list \<Rightarrow> nat \<Rightarrow> nat \<Rightarrow> int \<Rightarrow> nat \<Rightarrow> nat \<Rightarrow> greedy \<Rightarrow> (greedy \<times> nat) option" where
  "greedy_add a i end lengthscore leng dist g =
     (let added = (if lengthscore \<ge> int ZOPFLI_MIN_MATCH then
                     if ZopfliVerifyLenDist a end i dist leng
                     then map_option (\<lambda>s. (s, leng)) (ZopfliStoreLitLenDist leng dist i (g_store g)) else None
                   else map_option (\<lambda>s. (s, 1)) (ZopfliStoreLitLenDist (unat (a ! i)) 0 i (g_store g)))
      in case added of
           None \<Rightarrow> None
         | Some (store, leng) \<Rightarrow>
             map_option (\<lambda>h. (g\<lparr>g_store := store, g_hash := h\<rparr>, leng - 1)) (skip_positions a i end (leng - 1) (g_hash g)))"

definition remember_match :: "nat \<Rightarrow> nat \<Rightarrow> greedy \<Rightarrow> greedy" where
  "remember_match leng dist g = g\<lparr>g_match_available := True, g_prev_length := leng, g_prev_match := dist\<rparr>"

definition greedy_step :: "u8 list \<Rightarrow> nat \<Rightarrow> nat \<Rightarrow> greedy \<Rightarrow> (greedy \<times> nat) option" where
  "greedy_step a i end g =
     (let h = ZopfliUpdateHash a i end (g_hash g)
      in case ZopfliFindLongestMatch (g_block g) h a i end ZOPFLI_MAX_MATCH (Some (g_sublen g)) of
           None \<Rightarrow> None
         | Some (s, sublen, dist, leng) \<Rightarrow>
             let g = g\<lparr>g_block := s, g_hash := h, g_sublen := (case sublen of None \<Rightarrow> g_sublen g | Some sub \<Rightarrow> sub)\<rparr>;
                 lengthscore = GetLengthScore (int leng) (int dist);
                 prevlengthscore = GetLengthScore (int (g_prev_length g)) (int (g_prev_match g))
             in if g_match_available g then
                  let g = g\<lparr>g_match_available := False\<rparr>
                  in if lengthscore > prevlengthscore + 1 then
                       (case ZopfliStoreLitLenDist (unat (a ! (i - 1))) 0 (i - 1) (g_store g) of
                          None \<Rightarrow> None
                        | Some store \<Rightarrow>
                            let g = g\<lparr>g_store := store\<rparr>
                            in if lengthscore \<ge> int ZOPFLI_MIN_MATCH \<and> leng < ZOPFLI_MAX_MATCH
                               then Some (remember_match leng dist g, 0)
                               else greedy_add a i end lengthscore leng dist g)
                     else
                       let leng = g_prev_length g; dist = g_prev_match g
                       in if ZopfliVerifyLenDist a end (i - 1) dist leng then
                            (case ZopfliStoreLitLenDist leng dist (i - 1) (g_store g) of
                               None \<Rightarrow> None
                             | Some store \<Rightarrow>
                                 map_option (\<lambda>h. (g\<lparr>g_store := store, g_hash := h\<rparr>, leng - 2))
                                   (skip_positions a i end (leng - 2) (g_hash g)))
                          else None
                else if lengthscore \<ge> int ZOPFLI_MIN_MATCH \<and> leng < ZOPFLI_MAX_MATCH
                then Some (remember_match leng dist g, 0)
                else greedy_add a i end lengthscore leng dist g)"

function greedy_loop :: "u8 list \<Rightarrow> nat \<Rightarrow> nat \<Rightarrow> greedy \<Rightarrow> greedy option" where
  "greedy_loop a i end g =
     (if i < end then
        (case greedy_step a i end g of
           None \<Rightarrow> None
         | Some (g', n) \<Rightarrow> greedy_loop a (i + n + 1) end g')
      else Some g)"
  by pat_completeness auto
termination by (relation "measure (\<lambda>(a, i, end, g). end - i)") auto

declare greedy_loop.simps [simp del]

definition start_hash :: "u8 list \<Rightarrow> nat \<Rightarrow> nat \<Rightarrow> zhash \<Rightarrow> zhash" where
  "start_hash a instart inend h =
     (let windowstart = (if instart > ZOPFLI_WINDOW_SIZE then instart - ZOPFLI_WINDOW_SIZE else 0);
          h = ZopfliWarmupHash a windowstart inend (ZopfliResetHash h)
      in update_range a windowstart inend (instart - windowstart) h)"

definition ZopfliLZ77Greedy ::
  "(nat \<Rightarrow> nat) \<Rightarrow> zblock \<Rightarrow> u8 list \<Rightarrow> nat \<Rightarrow> nat \<Rightarrow> lz77_store \<Rightarrow> zhash \<Rightarrow> (zblock \<times> lz77_store \<times> zhash) option" where
  "ZopfliLZ77Greedy dummysublen s a instart inend store h =
     (if instart = inend then Some (s, store, h)
      else
        map_option (\<lambda>g. (g_block g, g_store g, g_hash g))
          (greedy_loop a instart inend \<lparr>g_block = s, g_hash = start_hash a instart inend h, g_store = store,
             g_sublen = dummysublen, g_prev_length = 0, g_prev_match = 0, g_match_available = False\<rparr>))"

subsection \<open>The invariant of the loop\<close>

text \<open>
  Before the turn for \<open>i\<close>: the positions before \<open>i\<close> are in the hash, and the commands added to those
  of the store \<open>cs0\<close> cover the data from \<open>j\<close> up to \<open>i\<close>, or, if a match is pending, up to \<open>i - 1\<close>,
  where that match is.
\<close>

definition greedy_ok :: "u8 list \<Rightarrow> nat \<Rightarrow> nat \<Rightarrow> (nat \<times> nat \<times> nat) list \<Rightarrow> nat \<Rightarrow> nat \<Rightarrow> greedy \<Rightarrow> bool" where
  "greedy_ok a n ws cs0 j i g \<longleftrightarrow> ws \<le> i \<and> i \<le> n
     \<and> hash_ok a n ws i (g_hash g) \<and> cache_ok a n (g_block g) \<and> store_ok (g_store g)
     \<and> (\<exists>cs. store_triples (g_store g) = cs0 @ cs
          \<and> (if g_match_available g then j < i \<and> tiles a n j cs (i - 1)
               \<and> 3 \<le> g_prev_length g \<and> g_prev_length g \<le> 258
               \<and> match_at a n (i - 1) (g_prev_length g) (g_prev_match g)
             else tiles a n j cs i))"

lemma verify_match: "match_at a n i len dist \<Longrightarrow> ZopfliVerifyLenDist a n i dist len"
  by (auto simp: ZopfliVerifyLenDist_def match_at_def list_all_iff)

lemma skip_positions_ok:
  "hash_ok a n ws (Suc i) h \<Longrightarrow> ws \<le> i \<Longrightarrow> i + k < n \<Longrightarrow>
    \<exists>h'. skip_positions a i n k h = Some h' \<and> hash_ok a n ws (Suc (i + k)) h'"
proof (induction k arbitrary: i h)
  case (Suc k)
  then have "hash_ok a n ws (Suc (Suc i)) (ZopfliUpdateHash a (Suc i) n h)"
    by (intro hash_at_ok [OF hash_update]) simp_all
  with Suc.IH [of "Suc i"] Suc.prems show ?case by simp
qed simp

lemma score_match: "GetLengthScore (int l) d \<ge> int ZOPFLI_MIN_MATCH \<Longrightarrow> 3 \<le> l"
  by (auto simp: GetLengthScore_def match_bounds split: if_splits)

text \<open>Adding a command at \<open>p\<close> and entering the positions up to its end.\<close>

lemma add_command:
  assumes g: "store_ok (g_store g)" "store_triples (g_store g) = cs0 @ cs" "tiles a n j cs p"
    and c: "if dist = 0 then p < n \<and> len = unat (a ! p) \<and> l = 1
        else 3 \<le> len \<and> len \<le> 258 \<and> match_at a n p len dist \<and> l = len"
  obtains store cs' where "ZopfliStoreLitLenDist len dist p (g_store g) = Some store" "store_ok store"
    "store_triples store = cs0 @ cs'" "tiles a n j cs' (p + l)" "p + l \<le> n"
proof -
  have "tiles a n p [(len, dist, p)] (p + l)" using c by (auto split: if_splits)
  with g(3) have t: "tiles a n j (cs @ [(len, dist, p)]) (p + l)" unfolding tiles_append by blast
  then have "command_ok len dist" by (rule tiles_commands_ok) auto
  then obtain store where "ZopfliStoreLitLenDist len dist p (g_store g) = Some store" "store_ok store"
    "store_triples store = store_triples (g_store g) @ [(len, dist, p)]" by (rule triples_store [OF g(1)])
  moreover have "p + l \<le> n" using c by (auto split: if_splits dest: match_at_end)
  ultimately show thesis using t g(2) by (intro that) simp_all
qed

lemma greedy_add_ok:
  assumes "hash_ok a n ws (Suc i) (g_hash g)" "ws \<le> i" "i < n" "cache_ok a n (g_block g)"
    and g: "store_ok (g_store g)" "store_triples (g_store g) = cs0 @ cs" "tiles a n j cs i" "\<not> g_match_available g"
    and score: "score = GetLengthScore (int leng) (int dist)" and f: "3 \<le> leng \<Longrightarrow> match_at a n i leng dist" "leng \<le> 258"
  shows "\<exists>g' k. greedy_add a i n score leng dist g = Some (g', k) \<and> greedy_ok a n ws cs0 j (i + k + 1) g'
    \<and> zb_start (g_block g') = zb_start (g_block g) \<and> zb_end (g_block g') = zb_end (g_block g)"
proof -
  define m where "m = (score \<ge> int ZOPFLI_MIN_MATCH)"
  define len where "len = (if m then leng else unat (a ! i))"
  define d where "d = (if m then dist else 0)"
  define l where "l = (if m then leng else 1)"
  have m3: "3 \<le> leng" if m using that score score_match unfolding m_def by blast
  with f have match: "match_at a n i leng dist" if m using that by blast
  then have d0: "d = 0 \<longleftrightarrow> \<not> m" by (auto simp: d_def dest: match_at_dist)
  then have "if d = 0 then i < n \<and> len = unat (a ! i) \<and> l = 1
      else 3 \<le> len \<and> len \<le> 258 \<and> match_at a n i len d \<and> l = len"
    using match m3 f(2) \<open>i < n\<close> by (simp add: len_def l_def d_def)
  from add_command [OF g(1-3) this] obtain store cs' where
    s: "ZopfliStoreLitLenDist len d i (g_store g) = Some store" "store_ok store"
    "store_triples store = cs0 @ cs'" "tiles a n j cs' (i + l)" "i + l \<le> n" .
  have l: "1 \<le> l" using m3 by (cases m) (auto simp: l_def)
  then have "i + (l - 1) < n" using s(5) by linarith
  then obtain h' where h': "skip_positions a i n (l - 1) (g_hash g) = Some h'" "hash_ok a n ws (Suc (i + (l - 1))) h'"
    using skip_positions_ok [OF assms(1,2), of "l - 1"] by auto
  have "greedy_add a i n score leng dist g = Some (g\<lparr>g_store := store, g_hash := h'\<rparr>, l - 1)"
    using s(1) h'(1) match verify_match [of a n i leng dist]
    by (cases m) (simp_all add: greedy_add_def len_def d_def l_def m_def)
  moreover have "greedy_ok a n ws cs0 j (i + (l - 1) + 1) (g\<lparr>g_store := store, g_hash := h'\<rparr>)"
    using h'(2) s l assms(2,4) g(4) by (simp add: greedy_ok_def)
  ultimately show ?thesis by simp
qed

lemma greedy_step_ok:
  assumes ok: "greedy_ok a n ws cs0 j i g" and "i < n" "n \<le> length a"
    and b: "zb_start (g_block g) \<le> j" "n \<le> zb_end (g_block g)" "j \<le> i"
  shows "\<exists>g' k. greedy_step a i n g = Some (g', k) \<and> greedy_ok a n ws cs0 j (i + k + 1) g'
    \<and> zb_start (g_block g') = zb_start (g_block g) \<and> zb_end (g_block g') = zb_end (g_block g)"
proof -
  let ?h = "ZopfliUpdateHash a i n (g_hash g)"
  have g: "ws \<le> i" "hash_ok a n ws i (g_hash g)" "cache_ok a n (g_block g)" "store_ok (g_store g)"
    using ok by (simp_all add: greedy_ok_def)
  obtain cs where cs: "store_triples (g_store g) = cs0 @ cs"
    "if g_match_available g then j < i \<and> tiles a n j cs (i - 1) \<and> 3 \<le> g_prev_length g \<and> g_prev_length g \<le> 258
        \<and> match_at a n (i - 1) (g_prev_length g) (g_prev_match g)
      else tiles a n j cs i"
    using ok unfolding greedy_ok_def by blast
  have h: "hash_at a n ws i ?h" by (rule hash_update [OF g(2,1) \<open>i < n\<close>])
  then have h': "hash_ok a n ws (Suc i) ?h" by (rule hash_at_ok)
  have "limit_ok ZOPFLI_MAX_MATCH (Some (g_sublen g))" by (simp add: limit_ok_def match_bounds)
  from FindLongestMatch_spec [OF h assms(3) g(3) _ _ this] b \<open>i < n\<close> obtain s sub dist leng where
    find: "ZopfliFindLongestMatch (g_block g) ?h a i n ZOPFLI_MAX_MATCH (Some (g_sublen g)) = Some (s, sub, dist, leng)"
    and f: "found a n i ZOPFLI_MAX_MATCH sub dist leng" and s: "cache_ok a n s"
      "zb_start s = zb_start (g_block g)" "zb_end s = zb_end (g_block g)" by fastforce
  have leng: "leng \<le> 258" "3 \<le> leng \<Longrightarrow> match_at a n i leng dist" using f by (simp_all add: found_def match_bounds)
  define g0 where "g0 = g\<lparr>g_block := s, g_hash := ?h, g_sublen := (case sub of None \<Rightarrow> g_sublen g | Some sub \<Rightarrow> sub)\<rparr>"
  define g1 where "g1 = g0\<lparr>g_match_available := False\<rparr>"
  define score where "score = GetLengthScore (int leng) (int dist)"
  define prev where "prev = GetLengthScore (int (g_prev_length g)) (int (g_prev_match g))"
  have g1: "g_store g1 = g_store g" "g_hash g1 = ?h" "g_block g1 = s" "\<not> g_match_available g1"
    "g_prev_length g1 = g_prev_length g" "g_prev_match g1 = g_prev_match g"
    by (simp_all add: g1_def g0_def)
  let ?keep = "score \<ge> int ZOPFLI_MIN_MATCH \<and> leng < ZOPFLI_MAX_MATCH"
  \<comment> \<open>at the end of a turn, with the commands up to \<open>i\<close>\<close>
  have finish: "\<exists>g' k. (if ?keep then Some (remember_match leng dist g2, 0) else greedy_add a i n score leng dist g2) = Some (g', k)
      \<and> greedy_ok a n ws cs0 j (i + k + 1) g'
      \<and> zb_start (g_block g') = zb_start (g_block g) \<and> zb_end (g_block g') = zb_end (g_block g)"
    if "store_ok (g_store g2)" "store_triples (g_store g2) = cs0 @ cs2" "tiles a n j cs2 i" "\<not> g_match_available g2"
      "g_hash g2 = ?h" "g_block g2 = s" for g2 cs2
  proof (cases ?keep)
    case True
    then have "3 \<le> leng" using score_match unfolding score_def by blast
    with True that g(1) h' s leng \<open>i < n\<close> b show ?thesis
      by (auto simp: remember_match_def greedy_ok_def match_bounds)
  next
    case False
    from greedy_add_ok [OF _ g(1) \<open>i < n\<close> _ that(1-4) score_def leng(2,1)] h' s(1) that(5,6) s(2,3)
    show ?thesis by (simp only: False if_False)
  qed
  show ?thesis
  proof (cases "g_match_available g")
    case False
    have "greedy_step a i n g = (if ?keep then Some (remember_match leng dist g0, 0) else greedy_add a i n score leng dist g0)"
      using find False by (simp add: greedy_step_def Let_def score_def g0_def)
    with finish [of g0 cs] g1 g(4) cs False show ?thesis by (simp add: g0_def)
  next
    case True
    with cs(2) have p: "j < i" "tiles a n j cs (i - 1)" "3 \<le> g_prev_length g" "g_prev_length g \<le> 258"
      "match_at a n (i - 1) (g_prev_length g) (g_prev_match g)" by simp_all
    show ?thesis
    proof (cases "score > prev + 1")
      case better: True
      have "if (0 :: nat) = 0 then i - 1 < n \<and> unat (a ! (i - 1)) = unat (a ! (i - 1)) \<and> (1 :: nat) = 1
          else 3 \<le> unat (a ! (i - 1)) \<and> unat (a ! (i - 1)) \<le> 258 \<and> match_at a n (i - 1) (unat (a ! (i - 1))) 0 \<and> 1 = unat (a ! (i - 1))"
        using \<open>i < n\<close> by simp
      from add_command [OF g(4) cs(1) _ this] p obtain store cs' where
        st: "ZopfliStoreLitLenDist (unat (a ! (i - 1))) 0 (i - 1) (g_store g) = Some store" "store_ok store"
        "store_triples store = cs0 @ cs'" "tiles a n j cs' (i - 1 + 1)" by blast
      have "greedy_step a i n g = (if ?keep then Some (remember_match leng dist (g1\<lparr>g_store := store\<rparr>), 0)
          else greedy_add a i n score leng dist (g1\<lparr>g_store := store\<rparr>))"
        using find True better st(1) by (simp add: greedy_step_def Let_def score_def prev_def g1_def g0_def)
      with finish [of "g1\<lparr>g_store := store\<rparr>" cs'] g1 st p show ?thesis by simp
    next
      case False
      let ?l = "g_prev_length g" and ?d = "g_prev_match g"
      have "if ?d = 0 then i - 1 < n \<and> ?l = unat (a ! (i - 1)) \<and> ?l = 1
          else 3 \<le> ?l \<and> ?l \<le> 258 \<and> match_at a n (i - 1) ?l ?d \<and> ?l = ?l"
        using p by (auto dest: match_at_dist)
      from add_command [OF g(4) cs(1) _ this] p obtain store cs' where
        st: "ZopfliStoreLitLenDist ?l ?d (i - 1) (g_store g) = Some store" "store_ok store"
        "store_triples store = cs0 @ cs'" "tiles a n j cs' (i - 1 + ?l)" "i - 1 + ?l \<le> n" by blast
      have "i + (?l - 2) < n" using st(5) p by linarith
      then obtain h2 where h2: "skip_positions a i n (?l - 2) ?h = Some h2" "hash_ok a n ws (Suc (i + (?l - 2))) h2"
        using skip_positions_ok [OF h' g(1), of "?l - 2"] st(5) p by auto
      have "greedy_step a i n g = Some (g1\<lparr>g_store := store, g_hash := h2\<rparr>, ?l - 2)"
        using find True False st(1) h2(1) verify_match [of a n "i - 1" ?l ?d] p
        by (simp add: greedy_step_def Let_def score_def prev_def g1_def g0_def)
      moreover have "i - 1 + ?l = i + (?l - 2) + 1" using p by linarith
      ultimately show ?thesis using st h2(2) s g(1) by (auto simp: greedy_ok_def g1_def g0_def)
    qed
  qed
qed

lemma greedy_loop_ok:
  assumes "greedy_ok a n ws cs0 j i g" "n \<le> length a" "zb_start (g_block g) \<le> j" "n \<le> zb_end (g_block g)" "j \<le> i"
  shows "\<exists>g'. greedy_loop a i n g = Some g' \<and> greedy_ok a n ws cs0 j n g'
    \<and> zb_start (g_block g') = zb_start (g_block g) \<and> zb_end (g_block g') = zb_end (g_block g)"
  using assms
proof (induction a i n g rule: greedy_loop.induct)
  case (1 a i n g)
  show ?case
  proof (cases "i < n")
    case True
    from greedy_step_ok [OF "1.prems"(1) True "1.prems"(2-5)] obtain g' k where
      s: "greedy_step a i n g = Some (g', k)" "greedy_ok a n ws cs0 j (i + k + 1) g'"
      "zb_start (g_block g') = zb_start (g_block g)" "zb_end (g_block g') = zb_end (g_block g)" by blast
    from "1.IH" [OF True s(1) refl s(2)] "1.prems" s True show ?thesis
      by (subst greedy_loop.simps) simp
  next
    case False
    with "1.prems"(1) have "i = n" by (simp add: greedy_ok_def)
    with "1.prems"(1) show ?thesis by (subst greedy_loop.simps) simp
  qed
qed


lemma tiles_length: "tiles a n i cs j \<Longrightarrow> length cs \<le> j - i"
proof (induction a n i cs j rule: tiles.induct)
  case (2 a n i len dist p cs j)
  show ?case
  proof (cases "dist = 0")
    case True
    with 2 tiles_le [of a n "i + 1" cs j] show ?thesis by fastforce
  next
    case False
    with 2 tiles_le [of a n "i + len" cs j] show ?thesis by fastforce
  qed
qed simp

text \<open>The hash before the first turn.\<close>

lemma start_hash_ok:
  assumes "instart \<le> inend"
  shows "\<exists>ws \<le> instart. hash_ok a inend ws instart (start_hash a instart inend h)"
proof -
  let ?ws = "if instart > ZOPFLI_WINDOW_SIZE then instart - ZOPFLI_WINDOW_SIZE else 0"
  have "hash_ok a inend ?ws ?ws (ZopfliWarmupHash a ?ws inend (ZopfliResetHash h))"
    by (intro hash_ok_warmup hash_ok_reset)
  from update_range_ok [OF this, of "instart - ?ws"] assms
  have "hash_ok a inend ?ws instart (start_hash a instart inend h)" by (simp add: start_hash_def Let_def)
  then show ?thesis by (intro exI [of _ ?ws]) simp
qed

text \<open>The commands added by a run over \<open>[instart, inend)\<close>.\<close>

definition covers :: "u8 list \<Rightarrow> nat \<Rightarrow> nat \<Rightarrow> lz77_store \<Rightarrow> lz77_store \<Rightarrow> bool" where
  "covers a instart inend store store' \<longleftrightarrow> store_ok store'
     \<and> (\<exists>cs. store_triples store' = store_triples store @ cs \<and> tiles a inend instart cs inend)"

lemma Greedy_covers:
  assumes c: "cache_ok a inend s" "zb_start s \<le> instart" "inend \<le> zb_end s"
    and r: "instart \<le> inend" "inend \<le> length a" and st: "store_ok store"
  shows "\<exists>s' store' h'. ZopfliLZ77Greedy junk s a instart inend store h = Some (s', store', h')
    \<and> covers a instart inend store store'
    \<and> cache_ok a inend s' \<and> zb_start s' = zb_start s \<and> zb_end s' = zb_end s"
proof (cases "instart = inend")
  case True
  with c st show ?thesis by (simp add: ZopfliLZ77Greedy_def covers_def)
next
  case False
  obtain ws where ws: "ws \<le> instart" "hash_ok a inend ws instart (start_hash a instart inend h)"
    using start_hash_ok [OF r(1)] by blast
  let ?g = "\<lparr>g_block = s, g_hash = start_hash a instart inend h, g_store = store, g_sublen = junk,
    g_prev_length = 0, g_prev_match = 0, g_match_available = False\<rparr>"
  have "greedy_ok a inend ws (store_triples store) instart instart ?g"
    using ws c st r by (simp add: greedy_ok_def)
  from greedy_loop_ok [OF this r(2)] c(2,3) obtain g' where g':
    "greedy_loop a instart inend ?g = Some g'" "greedy_ok a inend ws (store_triples store) instart inend g'"
    "zb_start (g_block g') = zb_start s" "zb_end (g_block g') = zb_end s" by auto
  have "\<not> g_match_available g'"
  proof
    assume "g_match_available g'"
    with g'(2) have "3 \<le> g_prev_length g'" "instart < inend"
      "match_at a inend (inend - 1) (g_prev_length g') (g_prev_match g')" by (auto simp: greedy_ok_def)
    with match_at_end [OF this(3)] show False by simp
  qed
  with g'(2) have "covers a instart inend store (g_store g')" "cache_ok a inend (g_block g')"
    by (auto simp: greedy_ok_def covers_def)
  with False g' show ?thesis by (simp add: ZopfliLZ77Greedy_def)
qed

lemma covers_commands:
  assumes "covers a instart inend store store'" "store_ok store" "instart \<le> inend" "inend \<le> length a"
  shows "lz_size store \<le> lz_size store' \<and> lz_size store' \<le> lz_size store + (inend - instart)
    \<and> expand (commands store' (lz_size store) (lz_size store')) (take instart a) = Some (take inend a)"
proof -
  from assms(1) obtain cs where ok: "store_ok store'" and cs: "store_triples store' = store_triples store @ cs"
    and t: "tiles a inend instart cs inend" by (auto simp: covers_def)
  have n: "length (store_triples store) = lz_size store" "length (store_triples store') = lz_size store'"
    using length_triples assms(2) ok by simp_all
  with cs have "lz_size store' = lz_size store + length cs" by (metis length_append)
  moreover have "commands store' (lz_size store) (lz_size store') = strip_pos cs"
    unfolding commands_triples [OF ok order_refl] using cs n by simp
  ultimately show ?thesis using tiles_expand [OF t assms(4,3)] tiles_length [OF t] by simp
qed

subsection \<open>Properties\<close>

text \<open>C30: \<open>ZopfliLZ77Greedy\<close> is correct for every input: no assertion of it or of the match finder,
  the cache and the hash it uses fails, the loop ends, and the commands it adds to the store expand
  to exactly the bytes from \<open>instart\<close> to \<open>inend\<close>, with the bytes before as dictionary.\<close>

theorem greedy_commands_expand:
  assumes "instart \<le> inend" "inend \<le> length a" "store_ok store"
  shows "\<exists>s' store' h'. ZopfliLZ77Greedy junk (ZopfliInitBlockState instart inend add_lmc garbage) a instart inend store h
      = Some (s', store', h')
    \<and> store_ok store' \<and> lz_size store \<le> lz_size store'
    \<and> expand (commands store' (lz_size store) (lz_size store')) (take instart a) = Some (take inend a)"
proof -
  let ?s = "ZopfliInitBlockState instart inend add_lmc garbage"
  have s: "cache_ok a inend ?s" "zb_start ?s \<le> instart" "inend \<le> zb_end ?s"
    by (simp_all add: cache_ok_init) (simp_all add: ZopfliInitBlockState_def)
  from Greedy_covers [OF s assms, of junk h] obtain s' store' h' where
    *: "ZopfliLZ77Greedy junk ?s a instart inend store h = Some (s', store', h')" "covers a instart inend store store'"
    by blast
  with covers_commands [OF *(2) assms(3,1,2)] show ?thesis by (auto simp: covers_def)
qed

definition sample_hash :: zhash where
  "sample_hash = (let c = \<lparr>hc_head = (\<lambda>_. 7), hc_prev = (\<lambda>_. 7), hc_hashval = (\<lambda>_. 7), hc_val = 7\<rparr>
     in \<lparr>h_chain = c, h_chain2 = c, h_same = (\<lambda>_. 7)\<rparr>)"

theorem greedy_commands_expand_witness:
  "\<exists>s' store' h'. ZopfliLZ77Greedy (\<lambda>_. 7) (ZopfliInitBlockState 2 8 True sample_lmcache) [1, 2, 1, 2, 1, 2, 3, 3] 2 8
      (ZopfliInitLZ77Store [1, 2, 1, 2, 1, 2, 3, 3]) sample_hash = Some (s', store', h')
    \<and> expand (commands store' 0 (lz_size store')) [1, 2] = Some [1, 2, 1, 2, 1, 2, 3, 3]"
proof -
  have n: "lz_size (ZopfliInitLZ77Store [1, 2, 1, 2, 1, 2, 3, 3]) = 0" by (simp add: ZopfliInitLZ77Store_def lz_size_def)
  show ?thesis
    using greedy_commands_expand [of 2 8 "[1, 2, 1, 2, 1, 2, 3, 3]" "ZopfliInitLZ77Store [1, 2, 1, 2, 1, 2, 3, 3]"
        "\<lambda>_. 7" True sample_lmcache sample_hash]
    by (auto simp: store_ok_init n)
qed

text \<open>C31: Data compressed with \<open>ZopfliLZ77Greedy\<close> and written as one block with the fixed trees
  decodes to itself: the reader of RFC 1951, with its fixed code, reads the final flag and commands
  from the bits, and these expand to the data, whatever follows the block.\<close>

theorem greedy_fixed_block_decodes:
  assumes "bitw_ok w" "length a < 2 ^ 64"
  shows "\<exists>s' store h' w' enc.
    ZopfliLZ77Greedy junk (ZopfliInitBlockState 0 (length a) add_lmc garbage) a 0 (length a) (ZopfliInitLZ77Store a) h
      = Some (s', store, h')
    \<and> AddLZ77Block junk2 1 final store 0 (lz_size store) 0 w = Some w'
    \<and> stream w' = stream w @ enc
    \<and> (\<forall>rest. \<exists>cs. inflate_fixed (Suc (lz_size store)) (enc @ rest) = Some (final, cs, rest) \<and> expand cs [] = Some a)"
proof -
  let ?s = "ZopfliInitBlockState 0 (length a) add_lmc garbage"
  let ?store0 = "ZopfliInitLZ77Store a"
  have s: "cache_ok a (length a) ?s" "zb_start ?s \<le> 0" "length a \<le> zb_end ?s"
    by (simp_all add: cache_ok_init) (simp_all add: ZopfliInitBlockState_def)
  obtain s' store h' where
    *: "ZopfliLZ77Greedy junk ?s a 0 (length a) ?store0 h = Some (s', store, h')" "covers a 0 (length a) ?store0 store"
    using Greedy_covers [OF s _ order_refl store_ok_init [of a], of junk h] by blast
  have n0: "lz_size ?store0 = 0" by (simp add: ZopfliInitLZ77Store_def lz_size_def)
  from covers_commands [OF *(2) store_ok_init] n0
  have e: "lz_size store \<le> length a" "expand (commands store 0 (lz_size store)) [] = Some a" by simp_all
  have "lz_size store < 2 ^ 64" "store_ok store" using e(1) assms(2) *(2) by (simp_all add: covers_def)
  from fixed_block [OF assms(1) this(2) le0 order_refl this(1), of junk2 final] obtain w' enc where
    "AddLZ77Block junk2 1 final store 0 (lz_size store) 0 w = Some w'" "stream w' = stream w @ enc"
    "\<forall>rest. inflate_fixed (Suc (lz_size store)) (enc @ rest) = Some (final, commands store 0 (lz_size store), rest)" by auto
  with *(1) e(2) show ?thesis by blast
qed

theorem greedy_fixed_block_decodes_witness:
  "\<exists>s' store h' w' cs.
    ZopfliLZ77Greedy (\<lambda>_. 7) (ZopfliInitBlockState 0 6 True sample_lmcache) [1, 2, 1, 2, 1, 2] 0 6
      (ZopfliInitLZ77Store [1, 2, 1, 2, 1, 2]) sample_hash = Some (s', store, h')
    \<and> AddLZ77Block 0 1 True store 0 (lz_size store) 0 \<lparr>bp = 0, obytes = []\<rparr> = Some w'
    \<and> inflate_fixed (Suc (lz_size store)) (stream w') = Some (True, cs, []) \<and> expand cs [] = Some [1, 2, 1, 2, 1, 2]"
proof -
  let ?a = "[1, 2, 1, 2, 1, 2 :: u8]" and ?w = "\<lparr>bp = 0, obytes = []\<rparr>"
  have w: "bitw_ok ?w" "stream ?w = []" by (simp_all add: bitw_ok_def stream_def nbits_def)
  have l: "length ?a = 6" by simp
  have "length ?a < 2 ^ 64" by simp
  from greedy_fixed_block_decodes [OF w(1) this, where junk = "\<lambda>_. 7" and add_lmc = True and garbage = sample_lmcache
      and h = sample_hash and ?junk2.0 = 0 and final = True] obtain s' store h' w' enc where
    *: "ZopfliLZ77Greedy (\<lambda>_. 7) (ZopfliInitBlockState 0 6 True sample_lmcache) ?a 0 6 (ZopfliInitLZ77Store ?a) sample_hash
      = Some (s', store, h')" "AddLZ77Block 0 1 True store 0 (lz_size store) 0 ?w = Some w'" "stream w' = enc"
      "\<forall>rest. \<exists>cs. inflate_fixed (Suc (lz_size store)) (enc @ rest) = Some (True, cs, rest) \<and> expand cs [] = Some ?a"
    unfolding l w(2) append_Nil by blast
  from *(4) [THEN spec, of "[]"] obtain cs where
    "inflate_fixed (Suc (lz_size store)) (stream w') = Some (True, cs, [])" "expand cs [] = Some ?a"
    unfolding *(3) append_Nil2 by blast
  with *(1,2) show ?thesis by blast
qed

end
