(* ===== verification/ZopfliStored.thy ===== *)
theory ZopfliStored
  imports ZopfliDeflate
begin

section \<open>Stored blocks decode to their bytes\<close>

text \<open>
  A reader of stored blocks after RFC 1951, 3.2.4, at a bit position of a byte sequence: the
  header bits, then from the next byte boundary the length, its complement and the bytes.
  Reading what \<open>AddNonCompressedBlock\<close> wrote gives the input back, for inputs of any size.
\<close>

definition byte_pair :: "u8 list \<Rightarrow> nat \<Rightarrow> nat" where
  "byte_pair bytes i = unat (bytes ! i) + 256 * unat (bytes ! (i + 1))"

text \<open>The final flag, the bytes and the position after the block.\<close>

definition read_stored_block :: "u8 list \<Rightarrow> nat \<Rightarrow> (bool \<times> u8 list \<times> nat) option" where
  "read_stored_block bytes p =
     (let bits = bytes_bits bytes;
          b = (p + 3 + 7) div 8;
          len = byte_pair bytes b
      in if length bytes < b + 4 \<or> bits ! (p + 1) \<or> bits ! (p + 2) then None
         else if byte_pair bytes (b + 2) + len \<noteq> 65535 \<or> length bytes < b + 4 + len then None
         else Some (bits ! p, take len (drop (b + 4) bytes), b + 4 + len))"

fun read_stored :: "nat \<Rightarrow> u8 list \<Rightarrow> nat \<Rightarrow> (u8 list \<times> nat) option" where
  "read_stored 0 bytes p = None"
| "read_stored (Suc n) bytes p =
     (case read_stored_block bytes p of
        None \<Rightarrow> None
      | Some (final, d, e) \<Rightarrow>
          if final then Some (d, e) else map_option (\<lambda>(d', e'). (d @ d', e')) (read_stored n bytes (8 * e)))"

subsection \<open>One block\<close>

lemma length_obytes:
  assumes "bitw_ok w"
  shows "length (obytes w) = (nbits w + 7) div 8"
proof (cases "bp w = 0")
  case True
  then show ?thesis by (simp add: nbits_def)
next
  case False
  then obtain n where n: "length (obytes w) = Suc n" "bp w < 8"
    using assms by (cases "obytes w") (auto simp: bitw_ok_def)
  with False show ?thesis by (simp add: nbits_def)
qed

lemma AddBit_nbits:
  assumes "bitw_ok w"
  shows "nbits (AddBit (if v then 1 else 0) w) = nbits w + 1"
  using AddBit_stream [OF assms, of v] length_stream [OF assms] length_stream [of "AddBit (if v then 1 else 0) w"] by simp

lemma complement16: "n < 65536 \<Longrightarrow> unat (NOT (of_nat n :: u16)) = 65535 - n"
proof -
  assume n: "n < 65536"
  have "NOT (of_nat n :: u16) = of_nat 65535 - of_nat n"
    by (simp add: not_eq_complement)
  also have "\<dots> = of_nat (65535 - n)" using n of_nat_diff [of n 65535, where 'a = u16] by simp
  finally have "NOT (of_nat n :: u16) = of_nat (65535 - n)" .
  then show ?thesis by (simp add: unat_of_nat)
qed

lemma byte_pair_value: "n < 65536 \<Longrightarrow> unat (of_nat (n mod 256) :: u8) + 256 * unat (of_nat (n div 256 mod 256) :: u8) = n"
  by (simp add: unat_of_nat)

lemma append_data: "obytes (foldl (\<lambda>w i. ZOPFLI_APPEND_DATA (f i) w) w is) = obytes w @ map f is"
  "bp (foldl (\<lambda>w i. ZOPFLI_APPEND_DATA (f i) w) w is) = bp w"
  by (induction "is" arbitrary: w) (simp_all add: ZOPFLI_APPEND_DATA_def)

text \<open>The bytes of the output up to the boundary after the three header bits.\<close>

lemma stored_header_bytes:
  assumes ok: "bitw_ok w" and n: "n < 65536"
  obtains B where "obytes (stored_header fin n w) = B @ [of_nat (n mod 256), of_nat (n div 256 mod 256),
      of_nat ((65535 - n) mod 256), of_nat ((65535 - n) div 256 mod 256)]"
    "bp (stored_header fin n w) = 0" "length B = (nbits w + 3 + 7) div 8"
    "take (nbits w + 3) (bytes_bits B) = stream w @ [fin, False, False]"
proof -
  let ?w1 = "AddBit (if fin then 1 else 0) w"
  let ?w2 = "AddBit (if False then 1 else 0) ?w1"
  let ?w3 = "AddBit (if False then 1 else 0) ?w2"
  have 1: "stream ?w1 = stream w @ [fin]" "bitw_ok ?w1" using AddBit_stream [OF ok] by blast+
  have 2: "stream ?w2 = stream ?w1 @ [False]" "bitw_ok ?w2" using AddBit_stream [OF 1(2)] by blast+
  have 3: "stream ?w3 = stream ?w2 @ [False]" "bitw_ok ?w3" using AddBit_stream [OF 2(2)] by blast+
  have nb: "nbits ?w3 = nbits w + 3"
    using AddBit_nbits [OF ok] AddBit_nbits [OF 1(2), of False] AddBit_nbits [OF 2(2), of False] by simp
  show thesis
  proof (rule that [of "obytes ?w3"])
    show "length (obytes ?w3) = (nbits w + 3 + 7) div 8" using length_obytes [OF 3(2)] nb by simp
    show "take (nbits w + 3) (bytes_bits (obytes ?w3)) = stream w @ [fin, False, False]"
      using 1(1) 2(1) 3(1) nb by (simp add: stream_def)
  qed (simp_all add: stored_header_def Let_def ZOPFLI_APPEND_DATA_def complement16 [OF n])
qed

lemma read_written_block:
  assumes ok: "bitw_ok w" and n: "n < 65536" and d: "length data = n"
    and w1: "obytes w1 = obytes (stored_header fin n w) @ data"
  shows "read_stored_block (obytes w1 @ rest) (nbits w) = Some (fin, data, length (obytes w1))"
proof -
  let ?m = "65535 - n"
  obtain B where B: "obytes (stored_header fin n w) = B @ [of_nat (n mod 256), of_nat (n div 256 mod 256),
      of_nat (?m mod 256), of_nat (?m div 256 mod 256)]"
    "length B = (nbits w + 3 + 7) div 8" "take (nbits w + 3) (bytes_bits B) = stream w @ [fin, False, False]"
    using stored_header_bytes [OF ok n] by blast
  let ?h = "[of_nat (n mod 256), of_nat (n div 256 mod 256), of_nat (?m mod 256), of_nat (?m div 256 mod 256)] :: u8 list"
  let ?out = "obytes w1 @ rest" and ?b = "(nbits w + 3 + 7) div 8"
  have o: "?out = B @ ?h @ data @ rest" using B(1) w1 by simp
  have at: "bytes_bits ?out ! i = (stream w @ [fin, False, False]) ! i" if "i < nbits w + 3" for i
  proof -
    have "length (stream w @ [fin, False, False]) = nbits w + 3" using length_stream [OF ok] by simp
    then have "nbits w + 3 \<le> length (bytes_bits B)" using B(3) by (metis length_take min.cobounded2 min.absorb_iff2 nat_le_linear)
    then have "bytes_bits ?out ! i = take (nbits w + 3) (bytes_bits B) ! i"
      using that by (simp add: o nth_append)
    then show ?thesis using B(3) by simp
  qed
  have bits: "bytes_bits ?out ! nbits w = fin" "\<not> bytes_bits ?out ! (nbits w + 1)" "\<not> bytes_bits ?out ! (nbits w + 2)"
    using at [of "nbits w"] at [of "nbits w + 1"] at [of "nbits w + 2"] length_stream [OF ok] by (simp_all add: nth_append)
  define b where "b = ?b"
  have lB: "length B = b" using B(2) by (simp only: b_def)
  have lens: "byte_pair ?out b = n" "byte_pair ?out (b + 2) = ?m"
    using byte_pair_value [OF n] byte_pair_value [of ?m]
    by (simp_all add: byte_pair_def o nth_append lB)
  have t: "take n (drop (b + 4) ?out) = data" using d by (simp add: o lB)
  have h: "bytes_bits ?out ! nbits w = fin" using bits by simp
  have l: "length (obytes w1) = b + 4 + n" using B(1) w1 d by (simp add: lB)
  have "byte_pair ?out (b + 2) + byte_pair ?out b = 65535" using lens n by simp
  moreover have "b + 4 + n \<le> length ?out" using l by simp
  ultimately show ?thesis
    unfolding read_stored_block_def Let_def b_def [symmetric]
    by (simp only: lens(1) bits t l if_False if_True not_False_eq_True simp_thms) simp
qed

lemma stored_header_bp: "bp (stored_header fin n w) = 0"
  by (simp add: stored_header_def Let_def ZOPFLI_APPEND_DATA_def)

subsection \<open>All blocks\<close>

text \<open>What is written stays: the complete bytes of the output are never changed.\<close>

definition extends :: "u8 list \<Rightarrow> bitw \<Rightarrow> bool" where
  "extends bs w \<longleftrightarrow> length bs \<le> length (obytes w) \<and> take (length bs) (obytes w) = bs
     \<and> (bp w \<noteq> 0 \<longrightarrow> length bs < length (obytes w))"

lemma extends_AddBit: "extends bs w \<Longrightarrow> extends bs (AddBit v w)"
  by (auto simp: extends_def AddBit_def ZOPFLI_APPEND_DATA_def Let_def)

lemma extends_stored_header: "extends bs w \<Longrightarrow> extends bs (stored_header fin n w)"
  unfolding stored_header_def Let_def ZOPFLI_APPEND_DATA_def
  by (drule extends_AddBit [where v = "if fin then 1 else 0"], drule extends_AddBit [where v = 0],
      drule extends_AddBit [where v = 0]) (simp add: extends_def)

lemma extends_block:
  assumes "extends bs w"
  shows "extends bs (foldl (\<lambda>w i. ZOPFLI_APPEND_DATA (f i) w) (stored_header fin n w) is)"
  using extends_stored_header [OF assms, of fin n] by (auto simp: extends_def append_data)

lemma extends_AddNonCompressedBlock:
  "extends bs w \<Longrightarrow> extends bs (AddNonCompressedBlock final input pos inend w)"
proof (induction final input pos inend w rule: AddNonCompressedBlock.induct)
  case (1 final input pos inend w)
  then show ?case
    by (subst AddNonCompressedBlock.simps) (simp add: Let_def extends_block)
qed

lemma stored_blocks_read:
  assumes "bitw_ok w" "pos \<le> inend" "inend \<le> length input" "(inend - pos) div 65535 < n"
  shows "read_stored n (obytes (AddNonCompressedBlock True input pos inend w) @ rest) (nbits w)
    = Some (take (inend - pos) (drop pos input), length (obytes (AddNonCompressedBlock True input pos inend w)))"
  using assms
proof (induction n arbitrary: pos w)
  case (Suc n)
  define k where "k = (if pos + 65535 > inend then inend - pos else 65535)"
  define fin where "fin = (pos + k \<ge> inend)"
  define data where "data = take k (drop pos input)"
  define w1 where "w1 = foldl (\<lambda>w i. ZOPFLI_APPEND_DATA (input ! (pos + i)) w) (stored_header fin k w) [0..<k]"
  let ?out = "obytes (AddNonCompressedBlock True input pos inend w)"
  have k: "k < 65536" "pos + k \<le> inend" "k \<le> length input - pos" using Suc.prems by (auto simp: k_def)
  have d: "length data = k" "map (\<lambda>i. input ! (pos + i)) [0..<k] = data"
    using k Suc.prems by (auto simp: data_def intro: nth_equalityI)
  have w1: "obytes w1 = obytes (stored_header fin k w) @ data" "bp w1 = 0"
    using d(2) by (simp_all only: w1_def append_data stored_header_bp)
  have e: "AddNonCompressedBlock True input pos inend w
      = (if fin then w1 else AddNonCompressedBlock True input (pos + k) inend w1)"
    by (subst AddNonCompressedBlock.simps) (simp add: Let_def w1_def k_def fin_def)
  have "extends (obytes w1) w1" using w1(2) by (simp add: extends_def)
  then have "extends (obytes w1) (AddNonCompressedBlock True input pos inend w)"
    by (simp add: e extends_AddNonCompressedBlock)
  then have "take (length (obytes w1)) ?out = obytes w1" by (simp add: extends_def)
  then obtain r where r: "?out = obytes w1 @ r" by (metis append_take_drop_id)
  have one: "read_stored_block (?out @ rest) (nbits w) = Some (fin, data, length (obytes w1))"
    using read_written_block [OF Suc.prems(1) k(1) d(1) w1(1), of "r @ rest"] r by simp
  show ?case
  proof (cases fin)
    case True
    then have "k = inend - pos" using k(2) by (simp add: fin_def)
    then show ?thesis using one True by (simp add: e data_def)
  next
    case False
    then have k': "k = 65535" "pos + k < inend" by (auto simp: fin_def k_def split: if_splits)
    have "(inend - pos) div 65535 = Suc ((inend - (pos + k)) div 65535)"
    proof -
      have "inend - pos = (inend - (pos + k)) + 65535" using k' by simp
      then show ?thesis by simp
    qed
    then have m: "(inend - (pos + k)) div 65535 < n" using Suc.prems(4) by simp
    have nb: "nbits w1 = 8 * length (obytes w1)" "bitw_ok w1" using w1(2) by (simp_all add: nbits_def bitw_ok_def)
    have "data @ take (inend - (pos + k)) (drop (pos + k) input) = take (inend - pos) (drop pos input)"
    proof -
      have "inend - pos = k + (inend - (pos + k))" using k(2) by simp
      then show ?thesis by (simp only: take_add data_def drop_drop add.commute [of k pos])
    qed
    then show ?thesis
      using one False Suc.IH [OF nb(2) _ Suc.prems(3) m] k(2) nb(1) by (simp add: e)
  qed
qed simp

subsection \<open>Properties\<close>

text \<open>C29: Stored blocks decode to their bytes.  \<open>AddNonCompressedBlock\<close> splits the input into blocks
  of at most 65535 bytes; the reference reader, started at the bit position where writing began,
  reads back exactly the input, stops at the block marked final and ends at the end of the
  output, for inputs of any size, the empty one included.\<close>

theorem stored_blocks_roundtrip:
  assumes "bitw_ok w" "pos \<le> inend" "inend \<le> length input" "(inend - pos) div 65535 < n"
  shows "read_stored n (obytes (AddNonCompressedBlock True input pos inend w) @ rest) (nbits w)
    = Some (take (inend - pos) (drop pos input), length (obytes (AddNonCompressedBlock True input pos inend w)))"
  by (rule stored_blocks_read [OF assms])

lemma stored_blocks_roundtrip_witness:
  "read_stored 2 (obytes (AddNonCompressedBlock True (replicate 70000 5) 0 70000 \<lparr>bp = 3, obytes = [5]\<rparr>)) 3
    = Some (replicate 70000 5, length (obytes (AddNonCompressedBlock True (replicate 70000 5) 0 70000 \<lparr>bp = 3, obytes = [5]\<rparr>)))"
proof -
  have "\<not> bit (5 :: u8) i" if "3 \<le> i" for i
  proof (cases "i < 8")
    case True
    then have "i \<in> {3, 4, 5, 6, 7}" using that by auto
    then show ?thesis by auto
  qed (simp add: bit_eq_iff) 
  then have w: "bitw_ok \<lparr>bp = 3, obytes = [5]\<rparr>" by (simp add: bitw_ok_def)
  from stored_blocks_roundtrip [OF w, of 0 70000 "replicate 70000 5" 2 "[]"] show ?thesis
    by (simp add: nbits_def)
qed

end
