(* ===== verification/OutputRun.thy ===== *)
theory OutputRun
  imports Delivery
begin

section \<open>A run of the writer: the steps\<close>

text \<open>
  The reader hands the sectors of an image to \<open>Output\<close> one after the other; worker jobs, writes
  and the returns of \<open>progress_\<close> come in any order.  This theory states what a run is and follows
  one \<open>Sector\<close> object through it: collecting a block, compressing it, giving it back.
\<close>

subsection \<open>What stays fixed during a run\<close>

text \<open>The image, the flags, the format, the block size \<open>2 ^ r_k\<close> and the index shift.\<close>

record run_conf =
  r_img :: "u8 list"
  r_flags :: u32
  r_fmt :: CSOFormat
  r_k :: nat
  r_sh :: nat

definition per_block :: "run_conf \<Rightarrow> nat" where
  "per_block c = 2 ^ (r_k c - 11)"

definition blocks :: "run_conf \<Rightarrow> nat" where
  "blocks c = (length (r_img c) + 2 ^ r_k c - 1) div 2 ^ r_k c"

text \<open>The sectors past the image's end, which pad its last block, are zero.\<close>

definition sector_at :: "run_conf \<Rightarrow> nat \<Rightarrow> u8 list" where
  "sector_at c q = (if q * SECTOR_SIZE < length (r_img c) then img_sector (r_img c) q else replicate SECTOR_SIZE 0)"

definition block_img :: "run_conf \<Rightarrow> nat \<Rightarrow> u8 list" where
  "block_img c b = concat (map (\<lambda>j. sector_at c (b * per_block c + j)) [0..<per_block c])"

definition conf_ok :: "run_conf \<Rightarrow> bool" where
  "conf_ok c \<longleftrightarrow> 11 \<le> r_k c \<and> r_k c \<le> 18 \<and> r_sh c \<le> 11 \<and> r_fmt c \<noteq> CSO_FMT_DAX
     \<and> \<not> has_flag (r_flags c) TASKFLAG_FMT_DAX \<and> (has_flag (r_flags c) TASKFLAG_DECOMPRESS \<longrightarrow> r_sh c = 0)
     \<and> SECTOR_SIZE dvd length (r_img c) \<and> r_img c \<noteq> [] \<and> length (r_img c) < 2 ^ 48 \<and> blocks c < 2 ^ 30 - 1"

definition conf :: "run_conf \<Rightarrow> out \<Rightarrow> bool" where
  "conf c o' \<longleftrightarrow> o_file o' \<and> o_srcSize o' = int (length (r_img c)) \<and> o_flags o' = r_flags c
     \<and> o_fmt o' = r_fmt c \<and> o_blockSize o' = 2 ^ r_k c \<and> o_blockShift o' = r_k c
     \<and> o_indexShift o' = r_sh c \<and> o_indexAlign o' = 2 ^ r_sh c \<and> length (o_index o') = Suc (blocks c)"

text \<open>What never changes of a sector object.\<close>

definition static_ok :: "codecs \<Rightarrow> decoder \<Rightarrow> run_conf \<Rightarrow> sector \<Rightarrow> bool" where
  "static_ok cx dec c s \<longleftrightarrow> codecs_fit cx dec s \<and> s_flags s = r_flags c \<and> s_align s = 2 ^ r_sh c
     \<and> s_blockSize s = 2 ^ r_k c"

lemma static_cong:
  assumes "static_ok cx dec c s" and "s_flags s' = s_flags s" "s_zStreams s' = s_zStreams s"
    "s_align s' = s_align s" "s_blockSize s' = s_blockSize s"
  shows "static_ok cx dec c s'"
  using assms(1) unfolding static_ok_def codecs_fit_def assms(2-5) .

lemma per_block_pos [simp]: "0 < per_block c"
  by (simp add: per_block_def)

lemma per_block_size: "conf_ok c \<Longrightarrow> per_block c * SECTOR_SIZE = 2 ^ r_k c"
  by (simp add: conf_ok_def per_block_def block_pow)

lemma block_size_nat: "conf_ok c \<Longrightarrow> s_blockSize s = 2 ^ r_k c \<Longrightarrow> unat (s_blockSize s) = per_block c * SECTOR_SIZE"
  unfolding per_block_size by (simp add: conf_ok_def unat_2p)

lemma length_sector_at [simp]: "conf_ok c \<Longrightarrow> length (sector_at c q) = SECTOR_SIZE"
  by (simp add: sector_at_def conf_ok_def length_img_sector)

lemma length_block_img: "conf_ok c \<Longrightarrow> length (block_img c b) = 2 ^ r_k c"
  using per_block_size [of c] by (simp add: block_img_def length_concat o_def sum_list_triv)

lemma blocks_pos: "conf_ok c \<Longrightarrow> 0 < blocks c"
proof -
  assume "conf_ok c"
  then have "0 < length (r_img c)" by (simp add: conf_ok_def)
  then have "2 ^ r_k c \<le> length (r_img c) + 2 ^ r_k c - 1" by linarith
  then show ?thesis by (simp add: blocks_def div_greater_zero_iff)
qed

lemma nat_ceiling:
  assumes "0 < (m :: nat)"
  shows "b < (L + m - 1) div m \<longleftrightarrow> b * m < L"
proof -
  have "b < (L + m - 1) div m \<longleftrightarrow> Suc b \<le> (L + m - 1) div m" by (simp add: Suc_le_eq)
  also have "\<dots> \<longleftrightarrow> Suc b * m \<le> L + m - 1" using assms by (simp add: less_eq_div_iff_mult_less_eq)
  also have "\<dots> \<longleftrightarrow> b * m < L" using assms by auto
  finally show ?thesis .
qed

lemma blocks_iff: "b < blocks c \<longleftrightarrow> b * 2 ^ r_k c < length (r_img c)"
  unfolding blocks_def by (rule nat_ceiling) simp

lemma sector_block:
  assumes "conf_ok c" and "q * SECTOR_SIZE < length (r_img c)"
  shows "q < blocks c * per_block c"
proof (rule ccontr)
  assume "\<not> q < blocks c * per_block c"
  then have "blocks c * per_block c * SECTOR_SIZE \<le> q * SECTOR_SIZE" by (intro mult_le_mono1) simp
  then have "blocks c * 2 ^ r_k c < length (r_img c)"
    using assms(2) by (simp add: per_block_size [OF assms(1)] mult.assoc)
  then show False using blocks_iff [of "blocks c" c] by simp
qed

subsection \<open>The memory a sector operation may touch\<close>

text \<open>
  An operation on the sector \<open>s\<close> that consumes the buffers \<open>X\<close> of the caller: afterwards it
  holds its own buffers, everything else in use stays in use with its bytes.
\<close>

definition apart :: "sector \<Rightarrow> bool" where
  "apart s \<longleftrightarrow> set_option (s_buffer s) \<inter> set_option (s_best s) = {}"

definition mstep :: "pool \<Rightarrow> sector \<Rightarrow> ptr set \<Rightarrow> pool \<Rightarrow> sector \<Rightarrow> bool" where
  "mstep P s X P' s' \<longleftrightarrow> pool_inv P' \<and> bufferSize P' = bufferSize P \<and> held s' \<subseteq> wild P' \<and> apart s'
     \<and> wild P' - held s' = wild P - held s - X \<and> (\<forall>q \<in> wild P - held s - X. mem P' q = mem P q)"

lemma mstepD:
  assumes "mstep P s X P' s'"
  shows "pool_inv P'" "bufferSize P' = bufferSize P" "held s' \<subseteq> wild P'"
    "wild P' - held s' = wild P - held s - X" "\<And>q. q \<in> wild P - held s - X \<Longrightarrow> mem P' q = mem P q" "apart s'"
  using assms unfolding mstep_def by blast+

lemma mstep_trans:
  assumes "mstep P s X P1 s1" and "mstep P1 s1 Y P2 s2"
  shows "mstep P s (X \<union> Y) P2 s2"
proof -
  note a = mstepD [OF assms(1)] and b = mstepD [OF assms(2)]
  have e: "wild P - held s - (X \<union> Y) = wild P1 - held s1 - Y" unfolding a(4) by blast
  have "mem P2 q = mem P q" if "q \<in> wild P - held s - (X \<union> Y)" for q
  proof -
    have "q \<in> wild P1 - held s1 - Y" using that unfolding e .
    moreover have "q \<in> wild P - held s - X" using that by blast
    ultimately show ?thesis using a(5) b(5) by simp
  qed
  then show ?thesis using a(2) b by (simp add: mstep_def e)
qed

lemma mstep_held: "mstep P s X P' s' \<Longrightarrow> s_buffer s'' = s_buffer s' \<Longrightarrow> s_best s'' = s_best s' \<Longrightarrow> mstep P s X P' s''"
  by (simp add: mstep_def held_def apart_def)

lemma mstep_from: "mstep P s X P' s' \<Longrightarrow> s_buffer s0 = s_buffer s \<Longrightarrow> s_best s0 = s_best s \<Longrightarrow> mstep P s0 X P' s'"
  by (simp add: mstep_def held_def)

subsection \<open>Collecting the sectors of a block\<close>

definition fill_map :: "run_conf \<Rightarrow> nat \<Rightarrow> nat \<Rightarrow> nat \<Rightarrow> u8 list option" where
  "fill_map c b m = (\<lambda>j. if j < m then Some (sector_at c (b * per_block c + j)) else None)"

lemma dom_fill_map [simp]: "dom (fill_map c b m) = {..<m}"
  by (auto simp: fill_map_def split: if_splits)

lemma fill_map_Suc: "fill_map c b (Suc m) = (fill_map c b m)(m \<mapsto> sector_at c (b * per_block c + m))"
  by (auto simp: fill_map_def fun_eq_iff less_Suc_eq)

definition idle :: "sector \<Rightarrow> bool" where
  "idle s \<longleftrightarrow> \<not> s_busy s \<and> \<not> s_enqueued s \<and> s_readySize s = 0 \<and> s_buffer s = None \<and> s_best s = None"

text \<open>The first \<open>m\<close> sectors of block \<open>b\<close> are in; no sector has arrived in an idle object.\<close>

definition slot :: "run_conf \<Rightarrow> pool \<Rightarrow> sector \<Rightarrow> nat \<Rightarrow> nat \<Rightarrow> bool" where
  "slot c P s b m \<longleftrightarrow> s_best s = None \<and>
     (if m = 0 then idle s else filling P s (int (b * 2 ^ r_k c)) (per_block c) (fill_map c b m))"

text \<open>A stored form of the block: its format and its bytes.  A decompressed block is stored as it is.\<close>

definition stored_ok :: "decoder \<Rightarrow> run_conf \<Rightarrow> nat \<Rightarrow> SectorFormat \<times> u8 list \<Rightarrow> bool" where
  "stored_ok dec c b x \<longleftrightarrow>
     (if fst x = SECTOR_FMT_ORIG then snd x = block_img c b
      else ShouldCompress (r_flags c) \<and> (\<forall>pad. dec (fst x) (snd x @ pad) (block_img c b))
        \<and> (\<exists>z. z < 2 ^ r_k c \<and> length (snd x) \<le> z \<and> 2 ^ r_sh c dvd z))"

definition done_ok :: "decoder \<Rightarrow> run_conf \<Rightarrow> pool \<Rightarrow> sector \<Rightarrow> nat \<Rightarrow> SectorFormat \<times> u8 list \<Rightarrow> bool" where
  "done_ok dec c P s b x \<longleftrightarrow> s_pos s = int (b * 2 ^ r_k c) \<and> Format s = fst x
     \<and> length (snd x) < 2 ^ 32 \<and> BestSize s = of_nat (length (snd x)) \<and> BestBuffer s \<noteq> None
     \<and> mread (mem P) (the (BestBuffer s)) 0 (length (snd x)) = snd x \<and> stored_ok dec c b x"

definition job_ok :: "run_conf \<Rightarrow> pool \<Rightarrow> sector \<Rightarrow> nat \<Rightarrow> bool" where
  "job_ok c P s b \<longleftrightarrow> s_enqueued s \<and> s_pos s = int (b * 2 ^ r_k c) \<and> s_ready s = Some (of_nat b)
     \<and> s_buffer s \<noteq> None \<and> block_data P s = block_img c b
     \<and> s_best s = None \<and> s_bestFmt s = SECTOR_FMT_ORIG \<and> s_bestSize s = s_blockSize s"


lemma fill_full:
  assumes c: "conf_ok c" and s: "s_blockSize s = 2 ^ r_k c" "s_buffer s = Some x"
    and rd: "\<And>j. j < per_block c \<Longrightarrow> mread (mem P) x (j * SECTOR_SIZE) SECTOR_SIZE = sector_at c (b * per_block c + j)"
  shows "block_data P s = block_img c b"
proof -
  have "map (\<lambda>i. mread (mem P) x (i * SECTOR_SIZE) SECTOR_SIZE) [0..<per_block c]
      = map (\<lambda>j. sector_at c (b * per_block c + j)) [0..<per_block c]"
    by (rule map_cong) (simp_all add: rd)
  moreover have "block_data P s = mread (mem P) x 0 (per_block c * SECTOR_SIZE)"
    unfolding block_data_def block_size_nat [OF c s(1)] s(2) by simp
  ultimately show ?thesis
    unfolding mread_blocks block_img_def by (simp only:)
qed

text \<open>What \<open>Process\<close> leaves of a sector whose last part has arrived.\<close>

lemma done_orig:
  assumes "conf_ok c" and "block_data P s = block_img c b" and "s_buffer s \<noteq> None" "s_best s = None"
    and "s_bestFmt s = SECTOR_FMT_ORIG" "s_bestSize s = s_blockSize s" "s_blockSize s = 2 ^ r_k c"
    and "s_pos s = int (b * 2 ^ r_k c)"
  shows "done_ok dec c P s b (SECTOR_FMT_ORIG, block_img c b)"
proof -
  have l: "length (block_img c b) = 2 ^ r_k c" by (rule length_block_img [OF assms(1)])
  moreover have "(2 :: nat) ^ r_k c < 2 ^ 32"
    using assms(1) by (intro power_strict_increasing) (simp_all add: conf_ok_def)
  moreover have "mread (mem P) (the (s_buffer s)) 0 (2 ^ r_k c) = block_img c b"
  proof -
    have "unat (s_blockSize s) = 2 ^ r_k c"
      using block_size_nat [OF assms(1,7)] per_block_size [OF assms(1)] by simp
    then show ?thesis using assms(2) by (simp add: block_data_def)
  qed
  ultimately show ?thesis
    using assms by (simp add: done_ok_def stored_ok_def Format_def BestSize_def BestBuffer_def)
qed

definition ready_after :: "decoder \<Rightarrow> run_conf \<Rightarrow> pool \<Rightarrow> sector \<Rightarrow> nat \<Rightarrow> process_result \<Rightarrow> bool" where
  "ready_after dec c P s b res \<longleftrightarrow>
     (if s_compress s then res = PQueued \<and> job_ok c P s b
      else res = PReady (of_nat b) True [] \<and> \<not> s_enqueued s \<and> done_ok dec c P s b (SECTOR_FMT_ORIG, block_img c b))"

lemma Process_whole:
  assumes c: "conf_ok c" and n: "per_block c = 1" and st: "static_ok cx dec c s" and i: "idle s"
    and P: "pool_inv P" and q: "q \<in> wild P" "sector_bytes P q = sector_at c b"
    and pr: "Process P s (int (b * 2 ^ r_k c)) q (of_nat b) = (P', s', res)"
    and lt: "int (b * 2 ^ r_k c) < 2 ^ 63"
  shows "mstep P s {q} P' s' \<and> s_compress s' = s_compress s \<and> static_ok cx dec c s' \<and> ready_after dec c P' s' b res"
proof -
  have k: "2 ^ r_k c = SECTOR_SIZE" using per_block_size [OF c] n by simp
  have "r_k c = 11"
  proof -
    have "(2 :: nat) ^ r_k c = 2 ^ 11" using k by (simp add: SECTOR_SIZE_def)
    then show ?thesis by (simp only: power_inject_exp)
  qed
  then have z: "s_blockSize s = of_nat SECTOR_SIZE" using st by (simp add: static_ok_def SECTOR_SIZE_def)
  have bp: "block_pos (int (b * 2 ^ r_k c)) (s_blockSize s) = int (b * 2 ^ r_k c)"
  proof -
    have "block_pos (int (b * 2 ^ r_k c)) (2 ^ r_k c) = int (b * 2 ^ r_k c) - int (b * 2 ^ r_k c) mod 2 ^ r_k c"
      by (rule block_pos_eq) (use lt c in \<open>simp_all add: conf_ok_def\<close>)
    then show ?thesis using st by (simp add: static_ok_def)
  qed
  define s1 where "s1 = s\<lparr>s_busy := True, s_pos := int (b * 2 ^ r_k c), s_bestSize := s_blockSize s,
    s_bestFmt := SECTOR_FMT_ORIG, s_buffer := Some q, s_readySize := of_nat SECTOR_SIZE\<rparr>"
  have e: "Process P s (int (b * 2 ^ r_k c)) q (of_nat b) =
      (if s_compress s then (P, s1\<lparr>s_enqueued := True, s_ready := Some (of_nat b)\<rparr>, PQueued)
       else (P, s1, PReady (of_nat b) True []))"
    using i z bp by (simp add: Process_def idle_def s1_def Let_def)
  have h: "held s = {}" "held s1 = {q}" using i by (simp_all add: idle_def held_def s1_def)
  have d: "block_data P s1 = block_img c b"
    by (rule fill_full [OF c]) (use st q n in \<open>simp_all add: s1_def static_ok_def sector_bytes_def\<close>)
  have st1: "static_ok cx dec c s1" by (rule static_cong [OF st]) (simp_all add: s1_def)
  have dn: "done_ok dec c P s1 b (SECTOR_FMT_ORIG, block_img c b)"
    by (rule done_orig [OF c d]) (use i st in \<open>simp_all add: s1_def idle_def static_ok_def\<close>)
  have m: "mstep P s {q} P s1" using h P q i by (simp add: mstep_def apart_def s1_def idle_def)
  show ?thesis
  proof (cases "s_compress s")
    case True
    have "s' = s1\<lparr>s_enqueued := True, s_ready := Some (of_nat b)\<rparr>" "P' = P" "res = PQueued"
      using pr e True by auto
    then show ?thesis
      using True m static_cong [OF st1, of s'] d i
      by (auto simp: mstep_def held_def apart_def ready_after_def job_ok_def block_data_def s1_def idle_def)
  next
    case False
    have "s' = s1" "P' = P" "res = PReady (of_nat b) True []" using pr e False by auto
    then show ?thesis
      using False m st1 dn i by (auto simp: ready_after_def s1_def idle_def)
  qed
qed


text \<open>The block lies below \<open>2 ^ 63\<close>.\<close>

lemma block_below:
  assumes "conf_ok c" and "b < blocks c"
  shows "int (b * 2 ^ r_k c) + 2 ^ r_k c \<le> 2 ^ 63"
proof -
  have "b * 2 ^ r_k c < 2 ^ 48"
    using assms blocks_iff [of b c] by (simp add: conf_ok_def)
  then have "int (b * 2 ^ r_k c) < int (2 ^ 48)" by (simp only: of_nat_less_iff)
  moreover have "(2 :: int) ^ r_k c \<le> 2 ^ 18"
    using assms(1) by (intro power_increasing) (simp_all add: conf_ok_def)
  ultimately show ?thesis by simp
qed

lemma filling_fields:
  assumes "filling P s base n G"
  shows "s_busy s" "\<not> s_enqueued s" "s_pos s = base" "s_bestSize s = s_blockSize s" "s_bestFmt s = SECTOR_FMT_ORIG"
    "\<exists>b. s_buffer s = Some b \<and> b \<in> wild P"
  using assms unfolding filling_def by blast+

lemma slot_first:
  assumes c: "conf_ok c" and n: "1 < per_block c" and st: "static_ok cx dec c s" and i: "idle s"
    and P: "pool_inv P" "2 ^ r_k c \<le> unat (bufferSize P)"
    and q: "q \<in> wild P" "sector_bytes P q = sector_at c (b * per_block c)"
    and pr: "Process P s (int (b * 2 ^ r_k c)) q (of_nat b) = (P', s', res)"
    and b: "b < blocks c"
  shows "mstep P s {q} P' s' \<and> s_compress s' = s_compress s \<and> static_ok cx dec c s' \<and> res = PWait \<and> slot c P' s' b 1"
proof -
  let ?n = "per_block c" and ?base = "int (b * 2 ^ r_k c)"
  have z: "s_blockSize s = 2 ^ r_k c" using st by (simp add: static_ok_def)
  have idle: "\<not> s_busy s" "\<not> s_enqueued s" "s_readySize s = 0" using i by (simp_all add: idle_def)
  have k: "r_k c < 32" using c by (simp add: conf_ok_def)
  have sz: "?n * SECTOR_SIZE \<le> unat (bufferSize P)" using P(2) by (simp add: per_block_size [OF c])
  have bs: "0 \<le> ?base" "?base mod 2 ^ r_k c = 0" by simp_all
  have pr': "Process P s (?base + int (0 * SECTOR_SIZE)) q (of_nat b) = (P', s', res)" using pr by simp
  note f = Process_first [OF idle P(1) block_size_nat [OF c z] z k n sz bs block_below [OF c b] per_block_pos q(1) pr']
  have s': "s_flags s' = s_flags s" "s_zStreams s' = s_zStreams s" "s_align s' = s_align s"
    "s_blockSize s' = s_blockSize s" "s_compress s' = s_compress s" "s_best s' = s_best s"
    by (subst f(8), simp)+
  obtain x where x: "s_buffer s' = Some x" using filling_fields(6) [OF f(2)] by blast
  have h: "held s = {}" "held s' = {x}" using i s'(6) x by (simp_all add: held_def idle_def)
  have "wild P' = insert x (wild P - {q})" "x \<notin> wild P" using f(4,5) x by simp_all
  then have "mstep P s {q} P' s'"
    using f(3,6,7) h i s'(6) by (auto simp: mstep_def apart_def idle_def)
  moreover have "slot c P' s' b 1"
  proof -
    have "fill_map c b 1 = [0 \<mapsto> sector_bytes P q]"
      using fill_map_Suc [of c b 0] q(2) by (simp add: fill_map_def fun_eq_iff)
    then show ?thesis using f(2) i s'(6) by (simp add: slot_def idle_def)
  qed
  ultimately show ?thesis using f(1) static_cong [OF st s'(1-4)] s'(5) by blast
qed

lemma slot_next:
  assumes c: "conf_ok c" and st: "static_ok cx dec c s"
    and sl: "slot c P s b m" "0 < m" "m < per_block c" and P: "pool_inv P"
    and q: "q \<in> wild P - held s" "sector_bytes P q = sector_at c (b * per_block c + m)"
    and pr: "Process P s (int (b * 2 ^ r_k c) + int (m * SECTOR_SIZE)) q (of_nat b) = (P', s', res)"
  shows "mstep P s {q} P' s' \<and> s_compress s' = s_compress s \<and> static_ok cx dec c s'
    \<and> (if Suc m < per_block c then res = PWait \<and> slot c P' s' b (Suc m) else ready_after dec c P' s' b res)"
proof -
  let ?n = "per_block c" and ?base = "int (b * 2 ^ r_k c)" and ?G = "fill_map c b m"
  have fi: "filling P s ?base ?n ?G" and nb: "s_best s = None" using sl(1,2) by (simp_all add: slot_def)
  note F = filling_fields [OF fi]
  obtain x where x: "s_buffer s = Some x" "x \<in> wild P" using F(6) by blast
  have h: "held s = {x}" using x nb by (simp add: held_def)
  have g: "?G m = None" by (simp add: fill_map_def)
  have q1: "q \<in> wild P" "Some q \<noteq> s_buffer s" using q(1) h x by auto
  note nx = Process_next [OF fi P sl(3) g q1 pr]
  have card: "card (dom ?G) = m" by simp
  define s1 where "s1 = s\<lparr>s_readySize := of_nat (Suc m * SECTOR_SIZE)\<rparr>"
  have s': "s' = after_fill s1 (of_nat b) (Suc m) ?n" and res: "res = fill_result s (of_nat b) (Suc m) ?n"
    using nx(1,2) unfolding card s1_def by simp_all
  have f1: "s_flags s' = s_flags s" "s_zStreams s' = s_zStreams s" "s_align s' = s_align s"
    "s_blockSize s' = s_blockSize s" "s_compress s' = s_compress s" "s_best s' = s_best s" "s_buffer s' = s_buffer s"
    "s_pos s' = s_pos s" "s_bestSize s' = s_bestSize s" "s_bestFmt s' = s_bestFmt s"
    by (simp_all add: s' after_fill_def s1_def)
  have h': "held s' = {x}" using h f1 by (simp add: held_def)
  have w: "wild P' = wild P - {q}" by (rule nx(4))
  have "mem P' p = mem P p" if "p \<in> wild P - held s - {q}" for p
    by (rule nx(6)) (use that h x in auto)
  then have ms: "mstep P s {q} P' s'"
    using w nx(3,5) h h' x q1 f1 nb by (auto simp: mstep_def apart_def)
  have st': "static_ok cx dec c s'" by (rule static_cong [OF st f1(1-4)])
  have z: "s_blockSize s' = 2 ^ r_k c" using st' by (simp add: static_ok_def)
  show ?thesis
  proof (cases "Suc m < ?n")
    case True
    have w: "res = PWait" using True by (simp add: res fill_result_def)
    have "filling P' s' ?base ?n (?G(m \<mapsto> sector_bytes P q))"
      by (rule filling_next [OF fi P sl(3) g q1]) (use pr w in simp)
    then have "slot c P' s' b (Suc m)"
      using nb f1 q(2) by (simp add: slot_def fill_map_Suc)
    then show ?thesis using True ms st' f1 w by simp
  next
    case False
    then have n: "Suc m = ?n" using sl(3) by simp
    have "mread (mem P') x (j * SECTOR_SIZE) SECTOR_SIZE = sector_at c (b * ?n + j)" if "j < ?n" for j
    proof (rule nx(7) [OF x(1)])
      show "(?G(m \<mapsto> sector_bytes P q)) j = Some (sector_at c (b * ?n + j))"
        unfolding q(2) fill_map_Suc [symmetric] n using that by (simp add: fill_map_def)
    qed
    then have bd: "block_data P' s' = block_img c b"
      by (intro fill_full [OF c z, of x]) (use f1 x in auto)
    have dn: "done_ok dec c P' s' b (SECTOR_FMT_ORIG, block_img c b)"
      by (rule done_orig [OF c bd]) (use F f1 nb z x in simp_all)
    have "ready_after dec c P' s' b res"
      unfolding ready_after_def
      using False n dn bd F f1 nb x
      by (simp add: res fill_result_def job_ok_def) (simp add: s' after_fill_def s1_def)
    then show ?thesis using False ms st' f1 by simp
  qed
qed


text \<open>Any part of a block: the object waits for the rest, or the block is complete.\<close>

lemma slot_step:
  assumes c: "conf_ok c" and st: "static_ok cx dec c s"
    and sl: "slot c P s b m" "m < per_block c" and b: "b < blocks c"
    and P: "pool_inv P" "2 ^ r_k c \<le> unat (bufferSize P)"
    and q: "q \<in> wild P - held s" "sector_bytes P q = sector_at c (b * per_block c + m)"
    and pr: "Process P s (int (b * 2 ^ r_k c + m * SECTOR_SIZE)) q (of_nat b) = (P', s', res)"
  shows "mstep P s {q} P' s' \<and> s_compress s' = s_compress s \<and> static_ok cx dec c s'
    \<and> (if Suc m < per_block c then res = PWait \<and> slot c P' s' b (Suc m) else ready_after dec c P' s' b res)"
proof (cases "m = 0")
  case False
  have "0 < m" using False by simp
  from slot_next [OF c st sl(1) this sl(2) P(1) q] pr show ?thesis by simp
next
  case True
  then have i: "idle s" using sl(1) by (simp add: slot_def)
  have q': "q \<in> wild P" "sector_bytes P q = sector_at c (b * per_block c)" using q True by simp_all
  have pr': "Process P s (int (b * 2 ^ r_k c)) q (of_nat b) = (P', s', res)" using pr True by simp
  show ?thesis
  proof (cases "per_block c = 1")
    case n: True
    have "sector_bytes P q = sector_at c b" using q'(2) n by simp
    moreover have "int (b * 2 ^ r_k c) < 2 ^ 63"
      using block_below [OF c b] zero_less_power [of "2 :: int" "r_k c"] by linarith
    ultimately show ?thesis
      using Process_whole [OF c n st i P(1) q'(1) _ pr'] n True by simp
  next
    case False
    then have n: "1 < per_block c" using per_block_pos [of c] by linarith
    from slot_first [OF c n st i P q' pr' b] show ?thesis using n True by simp
  qed
qed

subsection \<open>The worker's job and the release\<close>

lemma trial_step_mstep:
  assumes t: "trial_step (P, s) (P', s')" and s: "s_best s = None" "s_buffer s \<noteq> None" "held s \<subseteq> wild P"
  shows "mstep P s {} P' s'"
proof -
  obtain x where x: "s_buffer s = Some x" using s(2) by blast
  have f: "s_buffer s' = Some x" using trial_step_fields(4) [OF t] x by simp
  have T: "pool_inv P'" "bufferSize P' = bufferSize P" "wild P' - best_ptrs s' = wild P"
    "best_ptrs s' \<subseteq> wild P'" "\<forall>q \<in> wild P. mem P' q = mem P q"
    using t s(1) by (simp_all add: trial_step_def best_ptrs_def)
  have h: "held s = {x}" "held s' = insert x (best_ptrs s')" using s(1) x f by (auto simp: held_def best_ptrs_def)
  have "x \<in> wild P" using s(3) h by simp
  then have "held s' \<subseteq> wild P'" "wild P' - held s' = wild P - held s" using T h by auto
  moreover have "x \<notin> best_ptrs s'" using t s(1) \<open>x \<in> wild P\<close> by (auto simp: trial_step_def best_ptrs_def)
  ultimately show ?thesis using T h f by (simp add: mstep_def apart_def best_ptrs_def)
qed

lemma FinalizeBest_none_or_small:
  assumes "FinalizeBest P s al = (P', s')" and "\<not> has_flag (s_flags s) TASKFLAG_FMT_DAX"
  shows "s_best s' = None \<or> AlignedBestSize s' al < s_blockSize s'"
  using FinalizeBest_smaller [OF assms] by blast

lemma aligned_size:
  assumes "AlignedBestSize s (2 ^ sh) < 2 ^ k" and "unat (s_bestSize s) \<le> 2 ^ 20" "sh \<le> 11" "k \<le> 18"
  shows "\<exists>z. z < 2 ^ k \<and> unat (s_bestSize s) \<le> z \<and> 2 ^ sh dvd z"
proof -
  let ?z = "AlignedBestSize s (2 ^ sh)" and ?m = "unat (s_bestSize s) mod 2 ^ sh"
  have sh: "unat ((2 :: u32) ^ sh) = 2 ^ sh" "unat ((2 :: u32) ^ k) = 2 ^ k"
    using assms(3,4) by (simp_all add: unat_2p)
  have off: "unat (s_bestSize s mod 2 ^ sh) = ?m" by (simp add: unat_mod sh)
  have e: "unat ?z = (if ?m \<noteq> 0 then unat (s_bestSize s) + 2 ^ sh - ?m else unat (s_bestSize s))"
  proof (cases "?m = 0")
    case True
    then have "s_bestSize s mod 2 ^ sh = 0" using off by (simp add: unat_eq_0)
    then show ?thesis using True by (simp add: AlignedBestSize_def)
  next
    case False
    then have n: "s_bestSize s mod 2 ^ sh \<noteq> 0" using off by (metis unat_0)
    have "(2 :: nat) ^ sh \<le> 2 ^ 11" using assms(3) by (intro power_increasing) simp_all
    then have "unat (s_bestSize s) + 2 ^ sh < 2 ^ LENGTH(32)" using assms(2) by simp
    then have a: "unat (s_bestSize s + 2 ^ sh) = unat (s_bestSize s) + 2 ^ sh"
      using unat_add_lem [of "s_bestSize s" "2 ^ sh"] sh by simp
    have le: "s_bestSize s mod 2 ^ sh \<le> s_bestSize s + 2 ^ sh"
      unfolding word_le_nat_alt a off by (meson mod_less_eq_dividend trans_le_add1)
    have "unat ?z = unat (s_bestSize s + 2 ^ sh) - unat (s_bestSize s mod 2 ^ sh)"
      using n unat_sub [OF le] by (simp add: AlignedBestSize_def)
    then show ?thesis using False by (simp only: a off if_True not_False_eq_True)
  qed
  have "unat ?z < 2 ^ k" using assms(1) by (simp add: word_less_nat_alt sh)
  moreover have "unat (s_bestSize s) \<le> unat ?z"
  proof -
    have "?m < 2 ^ sh" by simp
    then have "unat (s_bestSize s) \<le> unat (s_bestSize s) + 2 ^ sh - ?m" by linarith
    then show ?thesis unfolding e by (simp only: if_split order_refl simp_thms)
  qed
  moreover have "2 ^ sh dvd unat ?z"
  proof (cases "?m = 0")
    case True
    then show ?thesis by (simp add: e dvd_eq_mod_eq_0)
  next
    case False
    have "?m \<le> unat (s_bestSize s)" by simp
    then have "unat (s_bestSize s) + 2 ^ sh - ?m = (unat (s_bestSize s) - ?m) + 2 ^ sh" by simp
    then show ?thesis using False by (simp add: e minus_mod_eq_mult_div)
  qed
  ultimately show ?thesis by blast
qed

lemma job_done:
  assumes c: "conf_ok c" and sc: "ShouldCompress (r_flags c)" and st: "static_ok cx dec c s" and j: "job_ok c P s b"
    and P: "pool_inv P" "unat (bufferSize P) \<le> 2 ^ 20" "held s \<subseteq> wild P"
    and w: "sector_work cx P s = (P', s')"
  shows "mstep P s {} P' s' \<and> static_ok cx dec c s' \<and> s_ready s' = Some (of_nat b) \<and> (\<exists>x. done_ok dec c P' s' b x)"
proof -
  have J: "s_best s = None" "s_bestFmt s = SECTOR_FMT_ORIG" "s_bestSize s = s_blockSize s"
    "block_data P s = block_img c b" "s_pos s = int (b * 2 ^ r_k c)" "s_ready s = Some (of_nat b)"
    using j by (simp_all add: job_ok_def)
  obtain x where x: "s_buffer s = Some x" using j by (auto simp: job_ok_def)
  have xw: "x \<in> wild P" using P(3) x by (simp add: held_def)
  have S: "codecs_fit cx dec s" "s_align s = 2 ^ r_sh c" "s_blockSize s = 2 ^ r_k c" "s_flags s = r_flags c"
    using st by (simp_all add: static_ok_def)
  have pre: "trial_pre (P, s)" using P J by (simp add: trial_pre_def best_ptrs_def)
  have t: "trial_step (P, s) (P', s')"
    using sector_work_ok [OF pre, of cx dec] w by (simp add: step_ok_def)
  note f = trial_step_fields [OF t]
  have ms: "mstep P s {} P' s'" by (rule trial_step_mstep [OF t J(1) _ P(3)]) (simp add: x)
  note W = sector_work_best [OF P(1) x xw J(1-3) S(1) w]
  have D: "block_data P' s' = block_data P s" "Format s' \<noteq> SECTOR_FMT_ORIG \<longleftrightarrow> s_best s' \<noteq> None"
    "s_best s' = None \<Longrightarrow> BestSize s' = s_blockSize s"
    "s_best s' \<noteq> None \<Longrightarrow> dec (Format s') (mread (mem P') (the (BestBuffer s')) 0 (unat (BestSize s')) @ pad)
               (block_data P s)" for pad
    using W by (auto split: if_splits)
  have st': "static_ok cx dec c s'" by (rule static_cong [OF st f(1) f(11) f(2) f(3)])
  have "\<exists>x. done_ok dec c P' s' b x"
  proof (cases "s_best s' = None")
    case True
    have "done_ok dec c P' s' b (SECTOR_FMT_ORIG, block_img c b)"
      by (rule done_orig [OF c]) (use D True J f x S in \<open>simp_all add: Format_def BestSize_def\<close>)
    then show ?thesis ..
  next
    case False
    then obtain p where p: "s_best s' = Some p" by blast
    let ?bs = "mread (mem P') p 0 (unat (s_bestSize s'))"
    obtain P1 s1 where cp: "Compress cx P s = (P1, s1)" by (rule prod.exhaust)
    have t1: "step_ok (codecs_fit cx dec s) dec (P, s) (P1, s1)"
      using Compress_ok [OF pre, of cx dec] cp by simp
    have fb: "FinalizeBest P1 s1 (s_align s1) = (P', s')" using w cp by (simp add: sector_work_def)
    have fl: "s_flags s1 = s_flags s" using step_ok_fields [OF t1] by simp
    have al: "s_align s1 = 2 ^ r_sh c"
      using trial_step_fields(2) [of P s P1 s1] t1 S(2) by (simp add: step_ok_def)
    have "\<not> has_flag (s_flags s1) TASKFLAG_FMT_DAX" using c S(4) fl by (simp add: conf_ok_def)
    from FinalizeBest_none_or_small [OF fb this] False
    have small: "AlignedBestSize s' (2 ^ r_sh c) < 2 ^ r_k c" using al f(3) S(3) by simp
    have le: "unat (s_bestSize s') \<le> 2 ^ 20"
    proof -
      have "best_ok dec (P, s)" using x xw J by (simp add: best_ok_def best_ptrs_def)
      then have "best_ok dec (P', s')"
        using sector_work_ok [OF pre, of cx dec] w S(1) by (simp add: step_ok_def)
      then have "unat (s_bestSize s') \<le> unat (bufferSize P')" using p by (simp add: best_ok_def)
      then show ?thesis using f(12) P(2) by simp
    qed
    obtain z where z: "z < 2 ^ r_k c" "unat (s_bestSize s') \<le> z" "2 ^ r_sh c dvd z"
      using aligned_size [OF small le] c by (auto simp: conf_ok_def)
    have "done_ok dec c P' s' b (Format s', ?bs)"
      using D False p J f le z sc
      by (auto simp: done_ok_def stored_ok_def BestSize_def BestBuffer_def)
    then show ?thesis ..
  qed
  then show ?thesis using ms st' f J by simp
qed

lemma Release_idle:
  assumes P: "pool_inv P" and h: "held s \<subseteq> wild P" and d: "apart s"
    and st: "static_ok cx dec c s" and r: "sector_Release P s = (P', s')"
  shows "mstep P s {} P' s' \<and> idle s' \<and> s_compress s' \<and> static_ok cx dec c s'"
proof -
  define P1 where "P1 = (case s_best s of None \<Rightarrow> P | Some b \<Rightarrow> pool_Release P b)"
  have P': "P' = (case s_buffer s of None \<Rightarrow> P1 | Some b \<Rightarrow> pool_Release P1 b)"
    and s': "s' = s\<lparr>s_best := None, s_buffer := None, s_busy := False, s_enqueued := False,
               s_compress := True, s_readySize := 0\<rparr>"
    using r unfolding sector_Release_def P1_def Let_def prod.inject by blast+
  have 1: "pool_inv P1" "wild P1 = wild P - set_option (s_best s)" "mem P1 = mem P" "bufferSize P1 = bufferSize P"
    using P h by (auto simp: P1_def held_def release_wild intro: release_inv split: option.split)
  have 2: "pool_inv P'" "wild P' = wild P1 - set_option (s_buffer s)" "mem P' = mem P1" "bufferSize P' = bufferSize P1"
    using 1 h d by (auto simp: P' held_def apart_def release_wild intro!: release_inv split: option.split)
  have "held s' = {}" by (simp add: s' held_def)
  then have "mstep P s {} P' s'" using 1 2 by (auto simp: mstep_def held_def apart_def s')
  moreover have "static_ok cx dec c s'" by (rule static_cong [OF st]) (simp_all add: s')
  ultimately show ?thesis by (simp add: s' idle_def)
qed

end
