(* ===== verification/OutputLayout.thy ===== *)
theory OutputLayout
  imports OutputRun
begin

section \<open>A run of the writer: where the blocks go\<close>

text \<open>
  The bytes of the file as a function of what is stored for each block: \<open>body\<close> lays the blocks
  out one after the other from \<open>first_pos\<close> on.  The loop of \<open>HandleReadySector\<close> extends it by
  the blocks it writes together.
\<close>

definition first_pos :: "run_conf \<Rightarrow> int" where
  "first_pos c = fst (Align (2 ^ r_sh c) (DstFirstSectorPos (r_flags c) (of_nat (blocks c))))"

definition place_size :: "run_conf \<Rightarrow> int \<Rightarrow> nat \<Rightarrow> u32" where
  "place_size c d n =
     (if has_flag (r_flags c) TASKFLAG_DECOMPRESS \<and> d + int n > int (length (r_img c))
      then word_of_int (int (length (r_img c)) - d) else of_nat n)"

definition place_bytes :: "run_conf \<Rightarrow> int \<Rightarrow> u8 list \<Rightarrow> u8 list" where
  "place_bytes c d bs =
     (let z = place_size c d (length bs)
      in if z = 0 then [] else take (unat z) bs @ replicate (unat (snd (Align (2 ^ r_sh c) (d + uint z)))) 0)"

text \<open>\<open>C b\<close> is the stored form of block \<open>b\<close>.\<close>

type_synonym contents = "nat \<Rightarrow> SectorFormat \<times> u8 list"

fun body :: "run_conf \<Rightarrow> contents \<Rightarrow> nat \<Rightarrow> u8 list" where
  "body c C 0 = []"
| "body c C (Suc b) = body c C b @ place_bytes c (first_pos c + int (length (body c C b))) (snd (C b))"

definition pos_of :: "run_conf \<Rightarrow> contents \<Rightarrow> nat \<Rightarrow> int" where
  "pos_of c C b = first_pos c + int (length (body c C b))"

lemma body_Suc: "body c C (Suc b) = body c C b @ place_bytes c (pos_of c C b) (snd (C b))"
  by (simp add: pos_of_def)

lemma pos_of_Suc: "pos_of c C (Suc b) = pos_of c C b + int (length (place_bytes c (pos_of c C b) (snd (C b))))"
  by (simp add: pos_of_def)

lemma pos_of_0 [simp]: "pos_of c C 0 = first_pos c"
  by (simp add: pos_of_def)

lemma pos_of_mono: "pos_of c C a \<le> pos_of c C (a + b)"
  by (induction b) (simp_all add: pos_of_Suc)

lemma body_cong: "(\<And>b. b < n \<Longrightarrow> C b = C' b) \<Longrightarrow> body c C n = body c C' n"
  by (induction n) simp_all

lemma body_prefix: "\<exists>r. body c C (a + b) = body c C a @ r"
  by (induction b) auto

declare body.simps(2) [simp del]

subsection \<open>Positions are aligned\<close>

lemma DstFirst_nonneg: "0 \<le> DstFirstSectorPos flags n"
  by (simp add: DstFirstSectorPos_def)

lemma first_pos_aligned:
  assumes "conf_ok c"
  shows "2 ^ r_sh c dvd first_pos c" and "0 \<le> first_pos c"
    and "DstFirstSectorPos (r_flags c) (of_nat (blocks c)) \<le> first_pos c"
proof -
  have sh: "r_sh c < 32" using assms by (simp add: conf_ok_def)
  note al = Align_pow2 [OF sh DstFirst_nonneg [of "r_flags c" "of_nat (blocks c)"]]
  show "2 ^ r_sh c dvd first_pos c" unfolding first_pos_def by (rule al(1))
  show "DstFirstSectorPos (r_flags c) (of_nat (blocks c)) \<le> first_pos c"
    unfolding first_pos_def al(2) by simp
  then show "0 \<le> first_pos c" using DstFirst_nonneg [of "r_flags c" "of_nat (blocks c)"] by linarith
qed

lemma uint_place_size:
  assumes "n < 2 ^ 32" and "has_flag (r_flags c) TASKFLAG_DECOMPRESS \<Longrightarrow> d \<le> int (length (r_img c))"
  shows "uint (place_size c d n) = (if has_flag (r_flags c) TASKFLAG_DECOMPRESS
      then min (int n) (int (length (r_img c)) - d) else int n)"
proof -
  have n: "uint (of_nat n :: u32) = int n"
    using uint_of_int_small [of "int n", where 'a = 32] assms(1) by simp
  show ?thesis
  proof (cases "has_flag (r_flags c) TASKFLAG_DECOMPRESS \<and> d + int n > int (length (r_img c))")
    case True
    then have "0 \<le> int (length (r_img c)) - d" "int (length (r_img c)) - d < int n"
      using assms(2) by simp_all
    moreover have "int n < 2 ^ 32" using assms(1) by simp
    ultimately have "uint (word_of_int (int (length (r_img c)) - d) :: u32) = int (length (r_img c)) - d"
      by (intro uint_of_int_small) simp_all
    then show ?thesis using True by (simp add: place_size_def min_def)
  next
    case False
    then show ?thesis using n by (auto simp: place_size_def min_def)
  qed
qed

lemma unat_le_of_uint: "uint z \<le> int n \<Longrightarrow> unat z \<le> n"
  by (simp only: unat_eq_nat_uint nat_le_iff)

lemma length_place_bytes:
  assumes c: "conf_ok c" and n: "length bs < 2 ^ 32" and d: "0 \<le> d" "2 ^ r_sh c dvd d"
    and le: "has_flag (r_flags c) TASKFLAG_DECOMPRESS \<Longrightarrow> d \<le> int (length (r_img c))"
  shows "int (length (place_bytes c d bs))
      = (if place_size c d (length bs) = 0 then d else fst (Align (2 ^ r_sh c) (d + uint (place_size c d (length bs))))) - d"
    and "2 ^ r_sh c dvd d + int (length (place_bytes c d bs))"
proof -
  let ?z = "place_size c d (length bs)"
  have sh: "r_sh c < 32" using c by (simp add: conf_ok_def)
  have nn: "0 \<le> d + uint ?z" using d(1) by (simp add: add_nonneg_nonneg)
  note al = Align_pow2 [OF sh nn]
  have "uint ?z \<le> int (length bs)" using uint_place_size [OF n le] by (auto split: if_splits)
  then have "unat ?z \<le> length bs" by (rule unat_le_of_uint)
  then have l: "?z \<noteq> 0 \<Longrightarrow> int (length (place_bytes c d bs)) = uint ?z + uint (snd (Align (2 ^ r_sh c) (d + uint ?z)))"
    by (simp add: place_bytes_def Let_def)
  show 1: "int (length (place_bytes c d bs))
      = (if ?z = 0 then d else fst (Align (2 ^ r_sh c) (d + uint ?z))) - d"
    using l al(2) by (simp add: place_bytes_def Let_def)
  show "2 ^ r_sh c dvd d + int (length (place_bytes c d bs))"
    unfolding 1 using al(1) d(2) by simp
qed


definition short :: "contents \<Rightarrow> nat \<Rightarrow> bool" where
  "short C n \<longleftrightarrow> (\<forall>b < n. length (snd (C b)) < 2 ^ 32)"

lemma first_pos_decompress: "conf_ok c \<Longrightarrow> has_flag (r_flags c) TASKFLAG_DECOMPRESS \<Longrightarrow> first_pos c = 0"
  by (simp add: first_pos_def DstFirstSectorPos_def conf_ok_def Align_def)

lemma pos_of_ok:
  assumes c: "conf_ok c" and s: "short C n"
  shows "2 ^ r_sh c dvd pos_of c C n \<and> 0 \<le> pos_of c C n
    \<and> (has_flag (r_flags c) TASKFLAG_DECOMPRESS \<longrightarrow> pos_of c C n \<le> int (length (r_img c)))"
  using s
proof (induction n)
  case 0
  then show ?case using first_pos_aligned [OF c] first_pos_decompress [OF c] by simp
next
  case (Suc n)
  let ?d = "pos_of c C n" and ?bs = "snd (C n)"
  have s: "short C n" "length ?bs < 2 ^ 32" using Suc.prems by (simp_all add: short_def)
  have IH: "2 ^ r_sh c dvd ?d" "0 \<le> ?d" "has_flag (r_flags c) TASKFLAG_DECOMPRESS \<Longrightarrow> ?d \<le> int (length (r_img c))"
    using Suc.IH [OF s(1)] by simp_all
  note l = length_place_bytes [OF c s(2) IH(2,1,3)]
  have "pos_of c C (Suc n) \<le> int (length (r_img c))" if f: "has_flag (r_flags c) TASKFLAG_DECOMPRESS"
  proof -
    let ?z = "place_size c ?d (length ?bs)"
    have "r_sh c = 0" using c f by (simp add: conf_ok_def)
    then have "fst (Align (2 ^ r_sh c) x) = x" for x by (simp add: Align_def)
    then have "int (length (place_bytes c ?d ?bs)) \<le> uint ?z" using l(1) by simp
    also have "\<dots> \<le> int (length (r_img c)) - ?d" using uint_place_size [OF s(2) IH(3)] f by simp
    finally show ?thesis by (simp add: pos_of_Suc)
  qed
  then show ?case using IH l(2) by (simp add: pos_of_Suc)
qed

subsection \<open>One run of \<open>write_bufs\<close>\<close>

lemma place_block:
  assumes c: "conf_ok c" and o': "conf c o'" and dn: "done_ok dec c P (o_sec o' i) b x"
    and d: "0 \<le> d" "2 ^ r_sh c dvd d" "has_flag (r_flags c) TASKFLAG_DECOMPRESS \<Longrightarrow> d \<le> int (length (r_img c))"
  shows "block_bytes P o' i d = place_bytes c d (snd x)"
    and "next_pos o' i d = d + int (length (place_bytes c d (snd x)))"
    and "block_entry o' i d = index_entry (r_fmt c) (r_sh c) d (fst x)"
proof -
  have D: "Format (o_sec o' i) = fst x" "length (snd x) < 2 ^ 32" "BestSize (o_sec o' i) = of_nat (length (snd x))"
    "mread (mem P) (the (BestBuffer (o_sec o' i))) 0 (length (snd x)) = snd x"
    using dn by (simp_all add: done_ok_def)
  have O: "o_flags o' = r_flags c" "o_srcSize o' = int (length (r_img c))" "o_indexAlign o' = 2 ^ r_sh c"
    "o_fmt o' = r_fmt c" "o_indexShift o' = r_sh c"
    using o' by (simp_all add: conf_def)
  let ?z = "place_size c d (length (snd x))"
  have n: "uint (of_nat (length (snd x)) :: u32) = int (length (snd x))"
    using uint_of_int_small [of "int (length (snd x))", where 'a = 32] D(2) by simp
  have z: "stored_size o' i d = ?z"
    by (simp add: stored_size_def clip_size_def place_size_def O D(3) n)
  have "uint ?z \<le> int (length (snd x))" using uint_place_size [OF D(2) d(3)] by (auto split: if_splits)
  then have "unat ?z \<le> length (snd x)" by (rule unat_le_of_uint)
  then have t: "mread (mem P) (the (BestBuffer (o_sec o' i))) 0 (unat ?z) = take (unat ?z) (snd x)"
    using take_mread [of "unat ?z" "length (snd x)"] D(4) by metis
  show bb: "block_bytes P o' i d = place_bytes c d (snd x)"
    by (simp add: block_bytes_def place_bytes_def Let_def z t O)
  show "next_pos o' i d = d + int (length (place_bytes c d (snd x)))"
    unfolding bb [symmetric] by (rule next_pos_aligned(2) [OF O(3) _ d(1,2)]) (use c in \<open>simp add: conf_ok_def\<close>)
  show "block_entry o' i d = index_entry (r_fmt c) (r_sh c) d (fst x)"
    by (simp add: block_entry_def O D(1))
qed

lemma index_slot_block:
  assumes "b < 2 ^ 31"
  shows "index_slot (drop_bit k (int (b * 2 ^ k))) = b"
proof -
  have "drop_bit k (int (b * 2 ^ k)) = int b" by (simp add: drop_bit_eq_div)
  moreover have "sint (word_of_int (int b) :: u32) = int b"
    by (rule sint_word_of_int_small) (use assms in simp_all)
  ultimately show ?thesis by (simp add: index_slot_def)
qed

lemma layout_run:
  assumes c: "conf_ok c" and o': "conf c o'"
    and dn: "\<And>j. j < length is \<Longrightarrow> done_ok dec c P (o_sec o' (is ! j)) (v + j) (C (v + j))"
    and s: "short C v" and v: "v + length is \<le> blocks c" and ix: "length ix = Suc (blocks c)"
  shows "layout_end o' is (pos_of c C v) = pos_of c C (v + length is)
    \<and> body c C v @ layout_bytes P o' is (pos_of c C v) = body c C (v + length is)
    \<and> length (layout_index o' is (pos_of c C v) ix) = Suc (blocks c)
    \<and> (\<forall>b \<le> blocks c. layout_index o' is (pos_of c C v) ix ! b
        = (if v \<le> b \<and> b < v + length is then index_entry (r_fmt c) (r_sh c) (pos_of c C b) (fst (C b)) else ix ! b))
    \<and> short C (v + length is)"
  using dn s v ix
proof (induction "is" arbitrary: v ix)
  case Nil
  then show ?case by auto
next
  case (Cons i "is")
  let ?d = "pos_of c C v"
  have d0: "done_ok dec c P (o_sec o' i) v (C v)" using Cons.prems(1) [of 0] by simp
  have l: "length (snd (C v)) < 2 ^ 32" using d0 by (simp add: done_ok_def)
  have s: "short C (Suc v)" using Cons.prems(2) l by (auto simp: short_def less_Suc_eq)
  note p = pos_of_ok [OF c Cons.prems(2)]
  have nx: "next_pos o' i ?d = pos_of c C (Suc v)"
    and bb: "block_bytes P o' i ?d = place_bytes c ?d (snd (C v))"
    and be: "block_entry o' i ?d = index_entry (r_fmt c) (r_sh c) ?d (fst (C v))"
    using place_block [OF c o' d0] p by (simp_all add: pos_of_Suc)
  have vb: "v < 2 ^ 31" using Cons.prems(3) c by (simp add: conf_ok_def)
  have sl: "index_slot (drop_bit (o_blockShift o') (Pos (o_sec o' i))) = v"
    using d0 o' index_slot_block [OF vb, of "r_k c"] by (simp add: done_ok_def Pos_def conf_def del: of_nat_mult)
  let ?ix = "ix[v := index_entry (r_fmt c) (r_sh c) ?d (fst (C v))]"
  have "done_ok dec c P (o_sec o' (is ! j)) (Suc v + j) (C (Suc v + j))" if "j < length is" for j
    using Cons.prems(1) [of "Suc j"] that by simp
  from Cons.IH [OF this s] Cons.prems(3,4)
  have IH: "layout_end o' is (pos_of c C (Suc v)) = pos_of c C (Suc v + length is)"
    "body c C (Suc v) @ layout_bytes P o' is (pos_of c C (Suc v)) = body c C (Suc v + length is)"
    "length (layout_index o' is (pos_of c C (Suc v)) ?ix) = Suc (blocks c)"
    "\<forall>b \<le> blocks c. layout_index o' is (pos_of c C (Suc v)) ?ix ! b
        = (if Suc v \<le> b \<and> b < Suc v + length is then index_entry (r_fmt c) (r_sh c) (pos_of c C b) (fst (C b)) else ?ix ! b)"
    "short C (Suc v + length is)"
    by simp_all
  have "layout_index o' is (pos_of c C (Suc v)) ?ix ! b
      = (if v \<le> b \<and> b < v + length (i # is) then index_entry (r_fmt c) (r_sh c) (pos_of c C b) (fst (C b)) else ix ! b)"
    if "b \<le> blocks c" for b
    using IH(4) that Cons.prems(4) by (cases "b = v") auto
  then show ?case using IH by (simp add: nx bb be sl body_Suc)
qed

end
