(* ===== verification/OutputInv.thy ===== *)
theory OutputInv
  imports OutputLayout
begin

section \<open>A run of the writer: the invariant\<close>

text \<open>
  Each of the 32 \<open>Sector\<close> objects has a role; each block that has begun and is not yet written
  has exactly one object, unless an error left a hole, in which case the writer never reports
  success.  The ghost state records the roles, how many blocks are written (\<open>g_w\<close>) and
  handed to a write (\<open>g_v\<close>), and what is stored for them.
\<close>

datatype role = Free | Filling nat | Job nat | Hand nat | Ready nat | Writing nat | Lost | Out

fun role_block :: "role \<Rightarrow> nat option" where
  "role_block (Filling b) = Some b"
| "role_block (Job b) = Some b"
| "role_block (Hand b) = Some b"
| "role_block (Ready b) = Some b"
| "role_block (Writing b) = Some b"
| "role_block _ = None"

record ghost =
  g_role :: "nat \<Rightarrow> role"
  g_w :: nat
  g_v :: nat
  g_C :: contents

text \<open>\<open>p\<close> sectors are in, the padding of the last block included.\<close>

fun role_ok :: "decoder \<Rightarrow> run_conf \<Rightarrow> nat \<Rightarrow> pool \<Rightarrow> sector \<Rightarrow> role \<Rightarrow> bool" where
  "role_ok dec c p P s Free \<longleftrightarrow> idle s \<and> s_compress s"
| "role_ok dec c p P s (Filling b) \<longleftrightarrow> slot c P s b (p - b * per_block c) \<and> s_compress s = ShouldCompress (r_flags c)
     \<and> b * per_block c < p \<and> p < Suc b * per_block c"
| "role_ok dec c p P s (Job b) \<longleftrightarrow> job_ok c P s b \<and> ShouldCompress (r_flags c) \<and> Suc b * per_block c \<le> p"
| "role_ok dec c p P s (Hand b) \<longleftrightarrow> (\<exists>x. done_ok dec c P s b x) \<and> Suc b * per_block c \<le> p"
| "role_ok dec c p P s (Ready b) \<longleftrightarrow> (\<exists>x. done_ok dec c P s b x) \<and> Suc b * per_block c \<le> p"
| "role_ok dec c p P s (Writing b) \<longleftrightarrow> Suc b * per_block c \<le> p"
| "role_ok dec c p P s Lost \<longleftrightarrow> True"
| "role_ok dec c p P s Out \<longleftrightarrow> True"

definition sec_ok :: "codecs \<Rightarrow> decoder \<Rightarrow> run_conf \<Rightarrow> nat \<Rightarrow> pool \<Rightarrow> sector \<Rightarrow> role \<Rightarrow> bool" where
  "sec_ok cx dec c p P s r \<longleftrightarrow> held s \<subseteq> wild P \<and> apart s \<and> static_ok cx dec c s \<and> role_ok dec c p P s r"

definition pool_ok :: "run_conf \<Rightarrow> pool \<Rightarrow> bool" where
  "pool_ok c P \<longleftrightarrow> pool_inv P \<and> 2 ^ r_k c \<le> unat (bufferSize P) \<and> unat (bufferSize P) \<le> 2 ^ 20"

definition mem_inv :: "codecs \<Rightarrow> decoder \<Rightarrow> run_conf \<Rightarrow> nat \<Rightarrow> pool \<Rightarrow> out \<Rightarrow> (nat \<Rightarrow> role) \<Rightarrow> bool" where
  "mem_inv cx dec c p P o' role \<longleftrightarrow> pool_ok c P
     \<and> (\<forall>i < QUEUE_SIZE. sec_ok cx dec c p P (o_sec o' i) (role i))
     \<and> (\<forall>i < QUEUE_SIZE. \<forall>j < QUEUE_SIZE. i \<noteq> j \<longrightarrow> held (o_sec o' i) \<inter> held (o_sec o' j) = {})"

definition links :: "run_conf \<Rightarrow> nat \<Rightarrow> out \<Rightarrow> (nat \<Rightarrow> role) \<Rightarrow> bool" where
  "links c p o' role \<longleftrightarrow> distinct (o_freeSectors o') \<and> set (o_freeSectors o') = {i. role i = Free}
     \<and> om_inv (o_pending o')
     \<and> (\<forall>x i. om_find x (o_pending o') = Some i \<longleftrightarrow> (\<exists>b. role i = Ready b \<and> x = int (b * 2 ^ r_k c)))
     \<and> (\<forall>i b. role i = Filling b \<longrightarrow> o_partial o' (of_nat b) = Some i)
     \<and> (\<forall>x. o_partial o' x \<noteq> None \<longrightarrow> unat x * per_block c < p)
     \<and> (\<forall>i. QUEUE_SIZE \<le> i \<longleftrightarrow> role i = Out)
     \<and> (p mod per_block c \<noteq> 0 \<longrightarrow> (\<exists>i. role i = Filling (p div per_block c)))"

definition blocks_inv :: "run_conf \<Rightarrow> nat \<Rightarrow> (nat \<Rightarrow> role) \<Rightarrow> nat \<Rightarrow> nat \<Rightarrow> bool" where
  "blocks_inv c p role w v \<longleftrightarrow> w \<le> v \<and> v * per_block c \<le> p \<and> p \<le> blocks c * per_block c
     \<and> (\<forall>i j b. role_block (role i) = Some b \<longrightarrow> role_block (role j) = Some b \<longrightarrow> i = j)
     \<and> (\<forall>i b. role i = Writing b \<longrightarrow> w \<le> b \<and> b < v)
     \<and> (\<forall>i b. role_block (role i) = Some b \<longrightarrow> role i \<noteq> Writing b \<longrightarrow> v \<le> b)"

text \<open>A block that has begun, is not written, and that no object has any more.\<close>

definition hole :: "run_conf \<Rightarrow> nat \<Rightarrow> (nat \<Rightarrow> role) \<Rightarrow> nat \<Rightarrow> bool" where
  "hole c p role w \<longleftrightarrow> (\<exists>b \<ge> w. b * per_block c < p \<and> (\<forall>i. role_block (role i) \<noteq> Some b))"

fun is_data :: "wreq \<Rightarrow> bool" where
  "is_data (DataWrite secs np tw off bytes) = True"
| "is_data (IndexWrite n bytes) = False"

definition data_ok :: "run_conf \<Rightarrow> nat \<Rightarrow> ghost \<Rightarrow> wreq \<Rightarrow> bool" where
  "data_ok c p G q \<longleftrightarrow> (case q of
     IndexWrite n bytes \<Rightarrow> True
   | DataWrite secs np tw off bytes \<Rightarrow>
       g_w G < g_v G \<and> distinct secs \<and> set secs = {i. \<exists>b. g_role G i = Writing b} \<and> np = int (g_v G * 2 ^ r_k c)
       \<and> (\<forall>b. g_w G \<le> b \<and> b < g_v G \<longrightarrow> (\<exists>i. g_role G i = Writing b))
       \<and> (\<not> hole c p (g_role G) (g_w G) \<longrightarrow> off = pos_of c (g_C G) (g_w G) \<and> tw = int (length bytes)
            \<and> body c (g_C G) (g_w G) @ bytes = body c (g_C G) (g_v G)))"

definition reqs_inv :: "run_conf \<Rightarrow> nat \<Rightarrow> out \<Rightarrow> ghost \<Rightarrow> bool" where
  "reqs_inv c p o' G \<longleftrightarrow> length (filter is_data (o_reqs o')) \<le> 1 \<and> (\<forall>q \<in> set (o_reqs o'). data_ok c p G q)
     \<and> ((\<exists>i b. g_role G i = Writing b) \<longrightarrow> filter is_data (o_reqs o') \<noteq> [])"

definition layout_inv :: "decoder \<Rightarrow> run_conf \<Rightarrow> out \<Rightarrow> ghost \<Rightarrow> bool" where
  "layout_inv dec c o' G \<longleftrightarrow> short (g_C G) (g_v G) \<and> o_dstPos o' = pos_of c (g_C G) (g_w G)
     \<and> file_read (o_disk o') (nat (first_pos c)) (length (body c (g_C G) (g_w G))) = body c (g_C G) (g_w G)
     \<and> int (length (o_disk o')) \<le> pos_of c (g_C G) (g_w G) \<and> (\<forall>i. g_role G i \<noteq> Lost)
     \<and> (\<forall>b < g_v G. o_index o' ! b = index_entry (r_fmt c) (r_sh c) (pos_of c (g_C G) b) (fst (g_C G b))
          \<and> format_allowed (r_fmt c) (fst (g_C G b)) \<and> stored_ok dec c b (g_C G b))
     \<and> (g_v G = blocks c \<longrightarrow> o_index o' ! blocks c = index_value (r_sh c) (pos_of c (g_C G) (blocks c)))
     \<and> (has_flag (o_state o') STATE_INDEX_WRITTEN \<longrightarrow> \<not> has_flag (r_flags c) TASKFLAG_DECOMPRESS \<longrightarrow>
          take (length (cso_prefix o')) (o_disk o') = cso_prefix o')"

abbreviation rdy :: "out \<Rightarrow> bool" where "rdy o' \<equiv> has_flag (o_state o') STATE_INDEX_READY"
abbreviation ixw :: "out \<Rightarrow> bool" where "ixw o' \<equiv> has_flag (o_state o') STATE_INDEX_WRITTEN"
abbreviation dtw :: "out \<Rightarrow> bool" where "dtw o' \<equiv> has_flag (o_state o') STATE_DATA_WRITTEN"
abbreviation dec_mode :: "run_conf \<Rightarrow> bool" where "dec_mode c \<equiv> has_flag (r_flags c) TASKFLAG_DECOMPRESS"

definition index_reqs :: "out \<Rightarrow> wreq list" where
  "index_reqs o' = filter (\<lambda>q. \<not> is_data q) (o_reqs o')"

definition header_inv :: "run_conf \<Rightarrow> out \<Rightarrow> nat \<Rightarrow> bool" where
  "header_inv c o' v \<longleftrightarrow> (rdy o' \<longleftrightarrow> v = blocks c) \<and> (ixw o' \<longrightarrow> rdy o')
     \<and> (index_reqs o' = [] \<or> index_reqs o' = [IndexWrite (int (length (cso_prefix o'))) (cso_prefix o')]
          \<and> rdy o' \<and> \<not> ixw o' \<and> \<not> dec_mode c)"

fun is_error :: "out_call \<Rightarrow> bool" where
  "is_error (CFinish ok reason) \<longleftrightarrow> \<not> ok"
| "is_error (CProgress a b d) \<longleftrightarrow> False"
| "is_error CException \<longleftrightarrow> True"

fun is_success :: "out_call \<Rightarrow> bool" where
  "is_success (CFinish ok reason) \<longleftrightarrow> ok"
| "is_success _ \<longleftrightarrow> False"

definition index_lost :: "out \<Rightarrow> bool" where
  "index_lost o' \<longleftrightarrow> rdy o' \<and> \<not> ixw o' \<and> index_reqs o' = []"

definition finish_inv :: "run_conf \<Rightarrow> nat \<Rightarrow> out \<Rightarrow> ghost \<Rightarrow> bool" where
  "finish_inv c p o' G \<longleftrightarrow> o_srcPos o' = int (g_w G * 2 ^ r_k c) \<and> (\<forall>np \<in> set (o_todo o'). np \<le> o_srcPos o')
     \<and> length (filter (\<lambda>np. o_srcSize o' \<le> np) (o_todo o')) = (if g_w G = blocks c \<and> \<not> dtw o' then 1 else 0)
     \<and> (dtw o' \<longrightarrow> g_w G = blocks c)
     \<and> length (filter is_success (o_calls o')) = (if ixw o' \<and> dtw o' then 1 else 0)
     \<and> ((\<exists>e \<in> set (o_calls o'). is_error e) \<longleftrightarrow> hole c p (g_role G) (g_w G) \<or> index_lost o')
     \<and> (o_todo o' = [] \<longrightarrow> (\<forall>i. g_role G i \<noteq> Ready (g_w G)))"

definition oinv :: "codecs \<Rightarrow> decoder \<Rightarrow> run_conf \<Rightarrow> nat \<Rightarrow> pool \<Rightarrow> out \<Rightarrow> ghost \<Rightarrow> bool" where
  "oinv cx dec c p P o' G \<longleftrightarrow> conf_ok c \<and> conf c o' \<and> mem_inv cx dec c p P o' (g_role G) \<and> links c p o' (g_role G)
     \<and> blocks_inv c p (g_role G) (g_w G) (g_v G) \<and> reqs_inv c p o' G
     \<and> (\<not> hole c p (g_role G) (g_w G) \<longrightarrow> layout_inv dec c o' G) \<and> header_inv c o' (g_v G) \<and> finish_inv c p o' G"

lemma oinvD:
  assumes "oinv cx dec c p P o' G"
  shows "conf_ok c" "conf c o'" "mem_inv cx dec c p P o' (g_role G)" "links c p o' (g_role G)"
    "blocks_inv c p (g_role G) (g_w G) (g_v G)" "reqs_inv c p o' G"
    "\<not> hole c p (g_role G) (g_w G) \<Longrightarrow> layout_inv dec c o' G" "header_inv c o' (g_v G)" "finish_inv c p o' G"
  using assms unfolding oinv_def by blast+

lemma linksD:
  assumes "links c p o' role"
  shows "distinct (o_freeSectors o')" "set (o_freeSectors o') = {i. role i = Free}" "om_inv (o_pending o')"
    "\<And>x i. om_find x (o_pending o') = Some i \<longleftrightarrow> (\<exists>b. role i = Ready b \<and> x = int (b * 2 ^ r_k c))"
    "\<And>i b. role i = Filling b \<Longrightarrow> o_partial o' (of_nat b) = Some i"
    "\<And>x. o_partial o' x \<noteq> None \<Longrightarrow> unat x * per_block c < p"
    "\<And>i. QUEUE_SIZE \<le> i \<longleftrightarrow> role i = Out"
    "p mod per_block c \<noteq> 0 \<Longrightarrow> \<exists>i. role i = Filling (p div per_block c)"
  using assms unfolding links_def by blast+

lemma blocksD:
  assumes "blocks_inv c p role w v"
  shows "w \<le> v" "v * per_block c \<le> p" "p \<le> blocks c * per_block c"
    "\<And>i j b. role_block (role i) = Some b \<Longrightarrow> role_block (role j) = Some b \<Longrightarrow> i = j"
    "\<And>i b. role i = Writing b \<Longrightarrow> w \<le> b \<and> b < v"
    "\<And>i b. role_block (role i) = Some b \<Longrightarrow> role i \<noteq> Writing b \<Longrightarrow> v \<le> b"
  using assms unfolding blocks_inv_def by blast+

lemma memD:
  assumes "mem_inv cx dec c p P o' role"
  shows "pool_ok c P" "\<And>i. i < QUEUE_SIZE \<Longrightarrow> sec_ok cx dec c p P (o_sec o' i) (role i)"
    "\<And>i j. i < QUEUE_SIZE \<Longrightarrow> j < QUEUE_SIZE \<Longrightarrow> i \<noteq> j \<Longrightarrow> held (o_sec o' i) \<inter> held (o_sec o' j) = {}"
  using assms unfolding mem_inv_def by blast+

lemma role_used: "links c p o' role \<Longrightarrow> role_block (role i) = Some b \<Longrightarrow> i < QUEUE_SIZE"
  using linksD(7) [of c p o' role i] by (cases "role i") (auto simp: not_le [symmetric])


lemma data_reqD:
  assumes "reqs_inv c p o' G" and "DataWrite secs np tw off bytes \<in> set (o_reqs o')"
  shows "g_w G < g_v G" "distinct secs" "set secs = {i. \<exists>b. g_role G i = Writing b}" "np = int (g_v G * 2 ^ r_k c)"
    "\<And>b. g_w G \<le> b \<Longrightarrow> b < g_v G \<Longrightarrow> \<exists>i. g_role G i = Writing b"
    "\<not> hole c p (g_role G) (g_w G) \<Longrightarrow> off = pos_of c (g_C G) (g_w G) \<and> tw = int (length bytes)
       \<and> body c (g_C G) (g_w G) @ bytes = body c (g_C G) (g_v G)"
proof -
  have "data_ok c p G (DataWrite secs np tw off bytes)" using assms unfolding reqs_inv_def by blast
  then show "g_w G < g_v G" "distinct secs" "set secs = {i. \<exists>b. g_role G i = Writing b}" "np = int (g_v G * 2 ^ r_k c)"
    "\<And>b. g_w G \<le> b \<Longrightarrow> b < g_v G \<Longrightarrow> \<exists>i. g_role G i = Writing b"
    "\<not> hole c p (g_role G) (g_w G) \<Longrightarrow> off = pos_of c (g_C G) (g_w G) \<and> tw = int (length bytes)
       \<and> body c (g_C G) (g_w G) @ bytes = body c (g_C G) (g_v G)"
    unfolding data_ok_def wreq.case by blast+
qed

lemma no_data_reqs:
  assumes "reqs_inv c p o' G" and "g_v G = g_w G"
  shows "filter is_data (o_reqs o') = []"
proof -
  have "\<not> is_data q" if "q \<in> set (o_reqs o')" for q
    using data_reqD(1) [OF assms(1)] that assms(2) by (cases q) auto
  then show ?thesis by (simp add: filter_empty_conv)
qed

lemma reqs_inv_none:
  assumes "filter is_data (o_reqs o') = []" and "\<And>i b. g_role G i \<noteq> Writing b"
  shows "reqs_inv c p o' G"
proof -
  have "data_ok c p G q" if "q \<in> set (o_reqs o')" for q
    using assms(1) that by (cases q) (auto simp: data_ok_def filter_empty_conv)
  then show ?thesis using assms by (simp add: reqs_inv_def)
qed


text \<open>The queue changes and roles of finished blocks with it.\<close>

fun finished_role :: "role \<Rightarrow> bool" where
  "finished_role (Hand b) = True"
| "finished_role (Ready b) = True"
| "finished_role (Writing b) = True"
| "finished_role Lost = True"
| "finished_role _ = False"

lemma links_move:
  assumes l: "links c p o' role" and e: "o_freeSectors o'' = o_freeSectors o'" "o_partial o'' = o_partial o'"
    and r: "\<And>j. role' j = role j \<or> finished_role (role j) \<and> finished_role (role' j)"
    and q: "om_inv (o_pending o'')"
      "\<And>x i. om_find x (o_pending o'') = Some i \<longleftrightarrow> (\<exists>b. role' i = Ready b \<and> x = int (b * 2 ^ r_k c))"
  shows "links c p o'' role'"
proof -
  note L = linksD [OF l]
  have f: "role' j = Free \<longleftrightarrow> role j = Free" "role' j = Out \<longleftrightarrow> role j = Out" "role' j = Filling b \<longleftrightarrow> role j = Filling b" for j b
    using r [of j] by (cases "role j"; cases "role' j"; auto)+
  show ?thesis unfolding links_def e f using L(1,2,5-8) q by blast
qed

end
