(* ===== verification/OutputWrite.thy ===== *)
theory OutputWrite
  imports OutputInv
begin

section \<open>A run of the writer: blocks are handed to a write\<close>

subsection \<open>The code after the start of \<open>HandleReadySector\<close>\<close>

definition write_run :: "(nat \<Rightarrow> u16) \<Rightarrow> pool \<Rightarrow> out \<Rightarrow> nat \<Rightarrow> pool \<times> out" where
  "write_run junk P o1 i =
     (let (pending, nextPos, sectors) =
            gather (o_pending o1) (o_srcPos o1 + uint (o_blockSize o1)) (uint (o_blockSize o1)) [i];
          o2 = o1\<lparr>o_pending := pending\<rparr>;
          (o3, dstPos, bufs, ok) = write_bufs P o2 sectors (o_dstPos o2) []
      in if \<not> ok then (P, o3)
         else
           let o4 = (if nextPos \<ge> o_srcSize o3 then
                       let s = index_slot (drop_bit (o_blockShift o3) (SrcSizeAligned o3));
                           o' = o3\<lparr>o_index := (o_index o3)[s := word_of_int (drop_bit (o_indexShift o3) dstPos)]\<rparr>
                       in Flush junk (set_state o' STATE_INDEX_READY)
                     else o3);
               totalWrite = dstPos - o_dstPos o4
           in if \<not> o_file o4 then HandleWrittenSectors P o4 True sectors nextPos totalWrite
              else (P, submit_write o4 (DataWrite sectors nextPos totalWrite (o_dstPos o4) (concat bufs))))"

lemma HandleReadySector_Some:
  "HandleReadySector junk P o' (Some i) =
     (if o_srcPos o' \<noteq> Pos (o_sec o' i)
      then (P, o'\<lparr>o_pending := om_insert (Pos (o_sec o' i)) i (o_pending o')\<rparr>) else write_run junk P o' i)"
  by (simp add: HandleReadySector_def write_run_def)

lemma HandleReadySector_None_eq:
  "HandleReadySector junk P o' None =
     (case om_begin (o_pending o') of None \<Rightarrow> (P, o')
      | Some (k, i) \<Rightarrow> if o_srcPos o' \<noteq> Pos (o_sec o' i) then (P, o')
          else write_run junk P (o'\<lparr>o_pending := om_erase k (o_pending o')\<rparr>) i)"
  by (simp add: HandleReadySector_def write_run_def split: option.split prod.split)

subsection \<open>The state flags\<close>

lemma has_flag_OR: "has_flag (a OR b) f \<longleftrightarrow> has_flag a f \<or> has_flag b f"
  by (auto simp: has_flag_def bit_and_iff bit_or_iff bit_eq_iff)

lemma set_state_flags [simp]:
  "has_flag (o_state (set_state o' STATE_INDEX_READY)) f \<longleftrightarrow> has_flag (o_state o') f \<or> has_flag STATE_INDEX_READY f"
  "has_flag (o_state (set_state o' STATE_INDEX_WRITTEN)) f \<longleftrightarrow> has_flag (o_state o') f \<or> has_flag STATE_INDEX_WRITTEN f"
  "has_flag (o_state (set_state o' STATE_DATA_WRITTEN)) f \<longleftrightarrow> has_flag (o_state o') f \<or> has_flag STATE_DATA_WRITTEN f"
  by (simp_all add: set_state_def has_flag_OR)

lemma state_flag_table [simp]:
  "has_flag STATE_INDEX_READY STATE_INDEX_READY" "\<not> has_flag STATE_INDEX_READY STATE_INDEX_WRITTEN"
  "\<not> has_flag STATE_INDEX_READY STATE_DATA_WRITTEN" "\<not> has_flag STATE_INDEX_WRITTEN STATE_INDEX_READY"
  "has_flag STATE_INDEX_WRITTEN STATE_INDEX_WRITTEN" "\<not> has_flag STATE_INDEX_WRITTEN STATE_DATA_WRITTEN"
  "\<not> has_flag STATE_DATA_WRITTEN STATE_INDEX_READY" "\<not> has_flag STATE_DATA_WRITTEN STATE_INDEX_WRITTEN"
  "has_flag STATE_DATA_WRITTEN STATE_DATA_WRITTEN" "\<not> has_flag STATE_INIT f"
  by (simp_all add: has_flag_def state_defs)

subsection \<open>The index is complete\<close>

lemma blocks_ceiling: "int (blocks c) = (int (length (r_img c)) + 2 ^ r_k c - 1) div 2 ^ r_k c"
proof -
  have "int (blocks c) = int (length (r_img c) + 2 ^ r_k c - 1) div int (2 ^ r_k c)"
    by (simp only: blocks_def zdiv_int)
  also have "int (length (r_img c) + 2 ^ r_k c - 1) = int (length (r_img c)) + 2 ^ r_k c - 1"
  proof -
    have "1 \<le> length (r_img c) + 2 ^ r_k c" using one_le_power [of "2 :: nat" "r_k c"] by linarith
    then show ?thesis by (simp only: of_nat_diff of_nat_add of_nat_power of_nat_numeral of_nat_1)
  qed
  finally show ?thesis by simp
qed

lemma conf_aligned:
  assumes "conf_ok c" and "conf c o'"
  shows "drop_bit (o_blockShift o') (SrcSizeAligned o') = int (blocks c)"
    and "unat (out_sectors o' + 1) = Suc (blocks c)"
    and "index_slot (drop_bit (o_blockShift o') (SrcSizeAligned o')) = blocks c"
proof -
  have u: "uint ((2 :: u32) ^ r_k c) = 2 ^ r_k c"
    using assms(1) by (simp add: conf_ok_def uint_2p_len)
  show 1: "drop_bit (o_blockShift o') (SrcSizeAligned o') = int (blocks c)"
    using assms(2) by (simp add: conf_def SrcSizeAligned_def u blocks_ceiling drop_bit_eq_div)
  have b: "blocks c < 2 ^ 30 - 1" using assms(1) by (simp add: conf_ok_def)
  have "out_sectors o' + 1 = of_nat (Suc (blocks c))" by (simp add: out_sectors_def 1)
  moreover have "unat (of_nat (Suc (blocks c)) :: u32) = Suc (blocks c)"
    using b by (intro unat_of_nat_small) simp
  ultimately show "unat (out_sectors o' + 1) = Suc (blocks c)" by (simp only:)
  have "sint (word_of_int (int (blocks c)) :: u32) = int (blocks c)"
    by (rule sint_word_of_int_small) (use b in simp_all)
  then show "index_slot (drop_bit (o_blockShift o') (SrcSizeAligned o')) = blocks c"
    by (simp add: index_slot_def 1)
qed

text \<open>The header and index depend on the index and what stays fixed only.\<close>

lemma cso_prefix_cong:
  assumes "conf c o'" and "conf c o''" and "o_index o'' = o_index o'"
  shows "cso_prefix o'' = cso_prefix o'"
  using assms by (simp add: cso_prefix_def cso_header_def conf_def)

lemma Flush_ready:
  assumes c: "conf_ok c" and o': "conf c o'" and r: "rdy o'" and d: "\<not> dtw o'"
  shows "Flush junk o' = (if dec_mode c then set_state o' STATE_INDEX_WRITTEN
     else submit_write o' (IndexWrite (int (length (cso_prefix o'))) (cso_prefix o')))"
proof (cases "dec_mode c")
  case True
  then show ?thesis using o' r d by (simp add: Flush_def conf_def CheckFinish_def)
next
  case False
  have "WriteCSOIndex o' = submit_write o' (IndexWrite (int (length (cso_prefix o'))) (cso_prefix o'))"
    by (rule WriteCSOIndex_bytes) (use o' conf_aligned(2) [OF c o'] in \<open>simp_all add: conf_def\<close>)
  moreover have "o_fmt o' \<noteq> CSO_FMT_DAX" using c o' by (simp add: conf_ok_def conf_def)
  ultimately show ?thesis
    using False o' r by (cases "o_fmt o'") (simp_all add: Flush_def conf_def)
qed

definition run_state :: "run_conf \<Rightarrow> bool \<Rightarrow> u32 \<Rightarrow> u32" where
  "run_state c fin st = (if \<not> fin then st else if dec_mode c then st OR STATE_INDEX_READY OR STATE_INDEX_WRITTEN
     else st OR STATE_INDEX_READY)"

definition run_index :: "run_conf \<Rightarrow> bool \<Rightarrow> u32 list \<Rightarrow> int \<Rightarrow> u32 list" where
  "run_index c fin ix d = (if fin then ix[blocks c := index_value (r_sh c) d] else ix)"

lemma write_run_ok:
  assumes c: "conf_ok c" and o1: "conf c o1"
    and g: "gather (o_pending o1) (o_srcPos o1 + uint (o_blockSize o1)) (uint (o_blockSize o1)) [i] = (pend, np, secs)"
    and al: "all_allowed o1 secs" and d: "\<not> dtw o1"
    and ix: "length (layout_index o1 secs (o_dstPos o1) (o_index o1)) = Suc (blocks c)"
  shows "\<exists>o3. o3 = o1\<lparr>o_pending := pend,
            o_index := run_index c (o_srcSize o1 \<le> np) (layout_index o1 secs (o_dstPos o1) (o_index o1)) (layout_end o1 secs (o_dstPos o1)),
            o_state := run_state c (o_srcSize o1 \<le> np) (o_state o1)\<rparr>
     \<and> write_run junk P o1 i = (P, o3\<lparr>o_reqs := o_reqs o1
          @ (if o_srcSize o1 \<le> np \<and> \<not> dec_mode c then [IndexWrite (int (length (cso_prefix o3))) (cso_prefix o3)] else [])
          @ [DataWrite secs np (layout_end o1 secs (o_dstPos o1) - o_dstPos o1) (o_dstPos o1)
               (layout_bytes P o1 secs (o_dstPos o1))]\<rparr>)"
proof -
  let ?o2 = "o1\<lparr>o_pending := pend\<rparr>"
  have fr: "layout_end ?o2 is d = layout_end o1 is d" "layout_bytes P ?o2 is d = layout_bytes P o1 is d"
    "layout_index ?o2 is d x = layout_index o1 is d x" for "is" d x
  proof -
    have z: "stored_size ?o2 i d = stored_size o1 i d" for i d
      unfolding stored_size_def clip_size_def by simp
    have n: "next_pos ?o2 i d = next_pos o1 i d" "block_bytes P ?o2 i d = block_bytes P o1 i d"
      "block_entry ?o2 i d = block_entry o1 i d" for i d
      by (simp_all add: next_pos_def block_bytes_def block_entry_def z)
    show "layout_end ?o2 is d = layout_end o1 is d" by (induction "is" arbitrary: d) (simp_all add: n)
    show "layout_bytes P ?o2 is d = layout_bytes P o1 is d" by (induction "is" arbitrary: d) (simp_all add: n)
    show "layout_index ?o2 is d x = layout_index o1 is d x" by (induction "is" arbitrary: d x) (simp_all add: n)
  qed
  have "all_allowed ?o2 secs" using al by (simp add: all_allowed_def)
  from write_bufs_spec [OF this, of P "o_dstPos o1" "[]"] obtain bufs where
    wb: "write_bufs P ?o2 secs (o_dstPos ?o2) [] = (?o2\<lparr>o_index := layout_index o1 secs (o_dstPos o1) (o_index o1)\<rparr>,
           layout_end o1 secs (o_dstPos o1), bufs, True)"
    and cb: "concat bufs = layout_bytes P o1 secs (o_dstPos o1)"
    by (auto simp: fr)
  let ?ix = "layout_index o1 secs (o_dstPos o1) (o_index o1)" and ?e = "layout_end o1 secs (o_dstPos o1)"
  let ?last = "o_srcSize o1 \<le> np"
  define o3 where "o3 = o1\<lparr>o_pending := pend, o_index := run_index c ?last ?ix ?e, o_state := run_state c ?last (o_state o1)\<rparr>"
  have "o_file o1" using o1 by (simp add: conf_def)
  have "write_run junk P o1 i = (P, o3\<lparr>o_reqs := o_reqs o1
          @ (if ?last \<and> \<not> dec_mode c then [IndexWrite (int (length (cso_prefix o3))) (cso_prefix o3)] else [])
          @ [DataWrite secs np (?e - o_dstPos o1) (o_dstPos o1) (layout_bytes P o1 secs (o_dstPos o1))]\<rparr>)"
  proof (cases ?last)
    case False
    have "o3 = o1\<lparr>o_pending := pend, o_index := ?ix\<rparr>"
      using False by (simp add: o3_def run_index_def run_state_def)
    then show ?thesis
      using False \<open>o_file o1\<close> wb cb by (simp add: write_run_def g submit_write_def)
  next
    case True
    let ?o4 = "set_state (o1\<lparr>o_pending := pend, o_index := run_index c True ?ix ?e\<rparr>) STATE_INDEX_READY"
    have co: "conf c ?o4" using o1 ix by (simp add: conf_def set_state_def run_index_def)
    define o2 where "o2 = ?o2\<lparr>o_index := ?ix\<rparr>"
    have c2: "conf c o2" using o1 ix by (simp add: o2_def conf_def)
    have s2: "o_srcSize o2 = o_srcSize o1" by (simp add: o2_def)
    have sl: "o2\<lparr>o_index := (o_index o2)[index_slot (drop_bit (o_blockShift o2) (SrcSizeAligned o2)) :=
        word_of_int (drop_bit (o_indexShift o2) ?e)]\<rparr> = o1\<lparr>o_pending := pend, o_index := run_index c True ?ix ?e\<rparr>"
      using conf_aligned(3) [OF c c2] c2 by (simp add: run_index_def index_value_def conf_def) (simp add: o2_def)
    have wb2: "write_bufs P ?o2 secs (o_dstPos ?o2) [] = (o2, ?e, bufs, True)" using wb by (simp only: o2_def)
    have fl: "Flush junk ?o4 = (if dec_mode c then set_state ?o4 STATE_INDEX_WRITTEN
        else submit_write ?o4 (IndexWrite (int (length (cso_prefix ?o4))) (cso_prefix ?o4)))"
      by (rule Flush_ready [OF c co]) (use d in \<open>simp_all add: set_state_def has_flag_OR\<close>)
    have s3: "o3 = (if dec_mode c then set_state ?o4 STATE_INDEX_WRITTEN else ?o4)"
      using True by (simp add: o3_def run_state_def set_state_def or.assoc)
    have px: "cso_prefix ?o4 = cso_prefix o3"
      by (simp add: s3 cso_prefix_def cso_header_def set_state_def)
    define o4 where "o4 = ?o4"
    have ff: "o_file (Flush junk o4)" "o_dstPos (Flush junk o4) = o_dstPos o1"
      unfolding o4_def fl using \<open>o_file o1\<close> by (simp_all add: set_state_def submit_write_def)
    have "write_run junk P o1 i = (P, submit_write (Flush junk o4)
        (DataWrite secs np (?e - o_dstPos (Flush junk o4)) (o_dstPos (Flush junk o4)) (concat bufs)))"
      unfolding write_run_def g Let_def prod.case wb2
      using True ff(1) by (simp only: s2 sl o4_def not_True_eq_False if_False if_True)
    also have "\<dots> = (P, submit_write (Flush junk o4)
        (DataWrite secs np (?e - o_dstPos o1) (o_dstPos o1) (layout_bytes P o1 secs (o_dstPos o1))))"
      by (simp only: ff cb)
    also have "Flush junk o4 = o3\<lparr>o_reqs := o_reqs o1 @ (if ?last \<and> \<not> dec_mode c
        then [IndexWrite (int (length (cso_prefix o3))) (cso_prefix o3)] else [])\<rparr>"
      using True by (simp add: o4_def fl px) (simp add: s3 set_state_def submit_write_def)
    finally show ?thesis using True by (simp add: submit_write_def)
  qed
  then show ?thesis unfolding o3_def by blast
qed


text \<open>A format the file cannot hold: the write does not happen.\<close>

lemma UpdateIndex_length: "length (o_index (fst (UpdateIndex o' sp d cf))) = length (o_index o')"
  by (cases "o_fmt o'") (simp_all add: UpdateIndex_def Let_def call_def)

lemma write_bufs_length: "length (o_index (fst (write_bufs P o' is d bufs))) = length (o_index o')"
proof (induction P o' "is" d bufs rule: write_bufs.induct)
  case (2 P o' i "is" d bufs)
  obtain o1 ok where u: "UpdateIndex o' (Pos (o_sec o' i)) d (Format (o_sec o' i)) = (o1, ok)" by (rule prod.exhaust)
  have l: "length (o_index o1) = length (o_index o')"
    using UpdateIndex_length [of o' "Pos (o_sec o' i)" d "Format (o_sec o' i)"] u by simp
  show ?case
  proof (cases ok)
    case False
    then show ?thesis using u l by simp
  next
    case True
    obtain d2 pad where a: "Align (o_indexAlign o1) (d + uint (clip_size o1 d (BestSize (o_sec o' i)))) = (d2, pad)"
      by (rule prod.exhaust)
    show ?thesis
      using 2(1) [OF refl refl u [symmetric] refl _ refl] 2(2) [OF refl refl u [symmetric] refl _ refl _ refl a [symmetric] refl refl]
        True u l a by (simp add: Let_def)
  qed
qed simp

lemma write_run_refused:
  assumes "conf c o1"
    and g: "gather (o_pending o1) (o_srcPos o1 + uint (o_blockSize o1)) (uint (o_blockSize o1)) [i] = (pend, np, secs)"
    and al: "\<not> all_allowed o1 secs"
  shows "\<exists>ix msg. write_run junk P o1 i = (P, call (o1\<lparr>o_pending := pend, o_index := ix\<rparr>) (CFinish False msg))
    \<and> length ix = Suc (blocks c)"
proof -
  let ?o2 = "o1\<lparr>o_pending := pend\<rparr>"
  have "\<not> all_allowed ?o2 secs" using al by (simp add: all_allowed_def)
  from write_bufs_refused [OF this, of P "o_dstPos ?o2" "[]"] obtain ix d' bufs msg where
    wb: "write_bufs P ?o2 secs (o_dstPos ?o2) [] = (call (?o2\<lparr>o_index := ix\<rparr>) (CFinish False msg), d', bufs, False)"
    by blast
  have "length ix = Suc (blocks c)"
    using write_bufs_length [of P ?o2 secs "o_dstPos ?o2" "[]"] assms(1) unfolding wb by (simp add: call_def conf_def)
  moreover have "write_run junk P o1 i = (P, call (o1\<lparr>o_pending := pend, o_index := ix\<rparr>) (CFinish False msg))"
    unfolding write_run_def g Let_def prod.case wb by simp
  ultimately show ?thesis by blast
qed

subsection \<open>The blocks of a write\<close>

lemma mult_pow_inj: "int (a * 2 ^ k) = int (b * 2 ^ k) \<longleftrightarrow> a = (b :: nat)"
  by (metis mult_cancel2 of_nat_eq_iff power_not_zero zero_neq_numeral)

lemma run_secs:
  assumes inv: "oinv cx dec c p P o' G" and i: "g_role G i = Hand (g_w G)"
    and g: "gather (o_pending o') (o_srcPos o' + uint (o_blockSize o')) (uint (o_blockSize o')) [i] = (pend, np, secs)"
  shows "g_v G = g_w G" and "secs \<noteq> []" and "secs ! 0 = i"
    and "\<And>j. 0 < j \<Longrightarrow> j < length secs \<Longrightarrow> g_role G (secs ! j) = Ready (g_w G + j)"
    and "\<And>j. j < length secs \<Longrightarrow> \<exists>x. done_ok dec c P (o_sec o' (secs ! j)) (g_w G + j) x"
    and "distinct secs" and "np = int ((g_w G + length secs) * 2 ^ r_k c)"
    and "g_w G + length secs \<le> blocks c" and "(g_w G + length secs) * per_block c \<le> p"
    and "om_inv pend"
    and "\<And>x j. om_find x pend = Some j \<longleftrightarrow> (\<exists>b. g_role G j = Ready b \<and> x = int (b * 2 ^ r_k c)) \<and> j \<notin> set secs"
proof -
  let ?w = "g_w G" and ?r = "g_role G" and ?bs = "uint (o_blockSize o')"
  note I = oinvD [OF inv] and L = linksD [OF oinvD(4) [OF inv]] and B = blocksD [OF oinvD(5) [OF inv]]
    and M = memD [OF oinvD(3) [OF inv]]
  show v: "g_v G = ?w" using B(1) B(6) [of i ?w] i by simp
  have bs: "?bs = 2 ^ r_k c" using I(1,2) by (simp add: conf_def conf_ok_def uint_2p_len)
  have sp: "o_srcPos o' = int (?w * 2 ^ r_k c)" using I(9) by (simp add: finish_inv_def)
  have pos: "o_srcPos o' + ?bs + int k * ?bs = int ((?w + Suc k) * 2 ^ r_k c)" for k
    by (simp add: sp bs algebra_simps)
  have "length [i] < MAX_BUFS" "0 < ?bs" by (simp_all add: MAX_BUFS_def bs)
  from gather_spec [OF L(3) g this] obtain new where
    n: "secs = [i] @ new" "np = o_srcPos o' + ?bs + int (length new) * ?bs"
      "\<And>k. k < length new \<Longrightarrow> om_find (o_srcPos o' + ?bs + int k * ?bs) (o_pending o') = Some (new ! k)"
      "om_inv pend"
      "\<And>j. om_find j pend = (if \<exists>k < length new. j = o_srcPos o' + ?bs + int k * ?bs then None else om_find j (o_pending o'))"
    by blast
  show "secs \<noteq> []" "secs ! 0 = i" "om_inv pend" using n by simp_all
  have rd: "?r (new ! k) = Ready (?w + Suc k)" if "k < length new" for k
    using n(3) [OF that] unfolding pos L(4) by (auto simp only: mult_pow_inj)
  show R: "?r (secs ! j) = Ready (?w + j)" if "0 < j" "j < length secs" for j
    using rd [of "j - 1"] that by (cases j) (simp_all add: n(1))
  have blk: "role_block (?r (secs ! j)) = Some (?w + j)" if "j < length secs" for j
    using R [of j] that i by (cases "j = 0") (simp_all add: n(1))
  have used: "secs ! j < QUEUE_SIZE" if "j < length secs" for j
    by (rule role_used [OF I(4) blk [OF that]])
  have rok: "(\<exists>x. done_ok dec c P (o_sec o' (secs ! j)) (?w + j) x) \<and> Suc (?w + j) * per_block c \<le> p" if "j < length secs" for j
    using M(2) [OF used [OF that]] R [of j] that i
    by (cases "j = 0") (simp_all add: sec_ok_def n(1))
  then show "\<exists>x. done_ok dec c P (o_sec o' (secs ! j)) (?w + j) x" if "j < length secs" for j
    using that by blast
  show "distinct secs"
  proof (rule distinct_conv_nth [THEN iffD2], intro allI impI)
    fix a b assume "a < length secs" "b < length secs" "a \<noteq> b"
    then show "secs ! a \<noteq> secs ! b" using blk [of a] blk [of b] by auto
  qed
  show "np = int ((?w + length secs) * 2 ^ r_k c)"
    unfolding n(2) pos by (simp add: n(1))
  have last: "Suc (?w + length new) * per_block c \<le> p" using rok [of "length new"] by (simp add: n(1))
  then show "(?w + length secs) * per_block c \<le> p" by (simp add: n(1))
  have "Suc (?w + length new) * per_block c \<le> blocks c * per_block c" using last B(3) by linarith
  then show "?w + length secs \<le> blocks c" by (simp add: n(1) del: mult_Suc)
  have inew: "j \<in> set secs \<longleftrightarrow> j = i \<or> (\<exists>k < length new. j = new ! k)" for j
    by (auto simp: n(1) in_set_conv_nth)
  show "om_find x pend = Some j \<longleftrightarrow> (\<exists>b. ?r j = Ready b \<and> x = int (b * 2 ^ r_k c)) \<and> j \<notin> set secs" for x j
  proof (cases "\<exists>k < length new. x = o_srcPos o' + ?bs + int k * ?bs")
    case True
    then obtain k where k: "k < length new" "x = int ((?w + Suc k) * 2 ^ r_k c)" unfolding pos by blast
    have "j \<in> set secs" if "?r j = Ready b" "x = int (b * 2 ^ r_k c)" for b
    proof -
      have b: "b = ?w + Suc k" using that(2) unfolding k(2) by (simp only: mult_pow_inj)
      have "j = new ! k" by (rule B(4)) (use that(1) rd [OF k(1)] in \<open>simp_all add: b\<close>)
      then show ?thesis using inew k(1) by blast
    qed
    then show ?thesis using True by (auto simp: n(5))
  next
    case False
    have "j \<notin> set secs" if "?r j = Ready b" "x = int (b * 2 ^ r_k c)" for b
    proof
      assume "j \<in> set secs"
      then have "j = i \<or> (\<exists>k < length new. j = new ! k)" unfolding inew .
      moreover have "j \<noteq> i" using that(1) i by auto
      ultimately obtain k where "k < length new" "j = new ! k" by blast
      then have "x = o_srcPos o' + ?bs + int k * ?bs" using rd [of k] that unfolding pos by simp
      with False \<open>k < length new\<close> show False by blast
    qed
    then show ?thesis using False by (auto simp: n(5) L(4))
  qed
qed


subsection \<open>The invariant with other roles\<close>

lemma mem_inv_role:
  assumes m: "mem_inv cx dec c p P o' role" and s: "o_sec o'' = o_sec o'"
    and r: "\<And>j. j < QUEUE_SIZE \<Longrightarrow> role' j = role j \<or> role' j = Lost
      \<or> (\<exists>b. role' j = Writing b \<and> (role j = Hand b \<or> role j = Ready b))
      \<or> (\<exists>b. role' j = Ready b \<and> role j = Hand b) \<or> (\<exists>b. role' j = Hand b \<and> role j = Ready b)"
  shows "mem_inv cx dec c p P o'' role'"
proof -
  note M = memD [OF m]
  have "sec_ok cx dec c p P (o_sec o'' j) (role' j)" if "j < QUEUE_SIZE" for j
    using M(2) [OF that] r [OF that] by (auto simp: sec_ok_def s)
  then show ?thesis using M by (simp add: mem_inv_def s)
qed

lemma hole_cong:
  assumes "\<And>b. (\<exists>i. role_block (role' i) = Some b) \<longleftrightarrow> (\<exists>i. role_block (role i) = Some b)"
  shows "hole c p role' w \<longleftrightarrow> hole c p role w"
  unfolding hole_def using assms by (metis (no_types))

definition write_roles :: "(nat \<Rightarrow> role) \<Rightarrow> nat list \<Rightarrow> nat \<Rightarrow> role" where
  "write_roles role secs = (\<lambda>j. if j \<in> set secs then Writing (the (role_block (role j))) else role j)"

definition lose_roles :: "(nat \<Rightarrow> role) \<Rightarrow> nat list \<Rightarrow> nat \<Rightarrow> role" where
  "lose_roles role secs = (\<lambda>j. if j \<in> set secs then Lost else role j)"

text \<open>What an operation on finished blocks does to the roles: no block is in hand but those before.\<close>

definition passed_on :: "ghost \<Rightarrow> nat \<Rightarrow> ghost \<Rightarrow> bool" where
  "passed_on G i G' \<longleftrightarrow> (\<forall>j b. g_role G' j = Hand b \<longrightarrow> g_role G j = Hand b \<and> j \<noteq> i)
     \<and> (\<forall>j b. g_role G' j = Job b \<longleftrightarrow> g_role G j = Job b)"

lemma finish_todo:
  assumes "finish_inv c p o' G" and "o_todo o'' = o_todo o'" "o_srcPos o'' = o_srcPos o'" "o_srcSize o'' = o_srcSize o'"
    and "dtw o'' = dtw o'" "ixw o'' \<and> dtw o'' \<longleftrightarrow> ixw o' \<and> dtw o'" "g_w G' = g_w G"
    and "filter is_success (o_calls o'') = filter is_success (o_calls o')"
    and "(\<exists>e \<in> set (o_calls o''). is_error e) \<longleftrightarrow> hole c p' (g_role G') (g_w G) \<or> index_lost o''"
    and "\<And>i. o_todo o' = [] \<Longrightarrow> g_role G' i \<noteq> Ready (g_w G)"
  shows "finish_inv c p' o'' G'"
  using assms unfolding finish_inv_def by (elim conjE, intro conjI) simp_all

text \<open>
  What a step costs: how many completions are still owed to the writer (a waiting block may need a
  data write, the index and a return of \<open>progress_\<close>), and whether it reports an error.  A
  CSO v2 file takes a block in any format.
\<close>

fun req_cost :: "wreq \<Rightarrow> nat" where
  "req_cost (DataWrite secs np tw off bytes) = 2"
| "req_cost (IndexWrite n bytes) = 1"

definition load :: "out \<Rightarrow> nat" where
  "load o' = 4 * length (o_pending o') + sum_list (map req_cost (o_reqs o')) + length (o_todo o')"

definition failed :: "out \<Rightarrow> bool" where
  "failed o' \<longleftrightarrow> (\<exists>e \<in> set (o_calls o'). is_error e)"

definition modest :: "run_conf \<Rightarrow> nat \<Rightarrow> out \<Rightarrow> out \<Rightarrow> bool" where
  "modest c n o' o'' \<longleftrightarrow> load o'' \<le> load o' + n \<and> (r_fmt c = CSO_FMT_CSO2 \<longrightarrow> failed o'' \<longrightarrow> failed o')"

lemma modest_trans: "modest c m o' o1 \<Longrightarrow> modest c n o1 o'' \<Longrightarrow> modest c (m + n) o' o''"
  by (auto simp: modest_def)

lemma modest_same:
  "o_pending o'' = o_pending o' \<Longrightarrow> o_reqs o'' = o_reqs o' \<Longrightarrow> o_todo o'' = o_todo o' \<Longrightarrow> o_calls o'' = o_calls o'
    \<Longrightarrow> modest c n o' o''"
  by (simp add: modest_def load_def failed_def)

lemma modest_mono: "modest c m o' o'' \<Longrightarrow> m \<le> n \<Longrightarrow> modest c n o' o''"
  by (simp add: modest_def)

lemma om_insert_length: "length (om_insert k v m) \<le> Suc (length m)"
  by (induction k v m rule: om_insert.induct) auto

lemma write_run_refused_inv:
  assumes inv: "oinv cx dec c p P o' G" and i: "g_role G i = Hand (g_w G)"
    and g: "gather (o_pending o') (o_srcPos o' + uint (o_blockSize o')) (uint (o_blockSize o')) [i] = (pend, np, secs)"
    and al: "\<not> all_allowed o' secs" and run: "write_run junk P o' i = (P', o'')"
  shows "\<exists>G'. oinv cx dec c p P' o'' G' \<and> passed_on G i G' \<and> P' = P \<and> o_sec o'' = o_sec o' \<and> modest c 3 o' o''"
proof -
  note I = oinvD [OF inv] and L = linksD [OF oinvD(4) [OF inv]] and B = blocksD [OF oinvD(5) [OF inv]]
  note S = run_secs [OF inv i g]
  obtain ix msg where e: "P' = P" "o'' = call (o'\<lparr>o_pending := pend, o_index := ix\<rparr>) (CFinish False msg)"
    and ix: "length ix = Suc (blocks c)"
    using write_run_refused [OF I(2) g al, of junk P] run by auto
  let ?R = "lose_roles (g_role G) secs" and ?w = "g_w G"
  let ?G = "G\<lparr>g_role := ?R\<rparr>"
  have blk: "role_block (?R j) = Some b \<longleftrightarrow> j \<notin> set secs \<and> role_block (g_role G j) = Some b" for j b
    by (simp add: lose_roles_def)
  have isec: "i \<in> set secs" using S(2,3) by (metis length_greater_0_conv nth_mem)
  have secs: "\<exists>b. g_role G j = Hand b \<or> g_role G j = Ready b" if m: "j \<in> set secs" for j
  proof -
    obtain k where "k < length secs" "j = secs ! k" using m unfolding in_set_conv_nth by blast
    then show ?thesis using S(3) S(4) [of k] i by (cases "k = 0") auto
  qed
  have hole: "hole c p ?R ?w"
    unfolding hole_def
  proof (intro exI [of _ ?w] conjI allI order_refl)
    have "?w * per_block c < Suc ?w * per_block c" by simp
    also have "\<dots> \<le> (?w + length secs) * per_block c" using S(2) by (intro mult_le_mono1) (cases secs, simp_all)
    finally show "?w * per_block c < p" using S(9) by linarith
    show "role_block (?R j) \<noteq> Some ?w" for j
      using B(4) [of j ?w i] isec i unfolding blk by auto
  qed
  have nd: "filter is_data (o_reqs o') = []" by (rule no_data_reqs [OF I(6) S(1)])
  have nw: "g_role G j \<noteq> Writing b" for j b using B(5) [of j b] S(1) by auto
  have "oinv cx dec c p P' o'' ?G"
    unfolding oinv_def
  proof (intro conjI impI)
    show "conf_ok c" by (rule I(1))
    show "conf c o''" using I(2) ix by (simp add: e call_def conf_def)
    show "mem_inv cx dec c p P' o'' (g_role ?G)"
      unfolding e(1) by (rule mem_inv_role [OF I(3)]) (auto simp: e(2) call_def lose_roles_def)
    show "links c p o'' (g_role ?G)"
    proof (rule links_move [OF I(4)])
      show "g_role ?G j = g_role G j \<or> finished_role (g_role G j) \<and> finished_role (g_role ?G j)" for j
        using secs [of j] by (auto simp: lose_roles_def)
    qed (use S(10,11) in \<open>auto simp: e(2) call_def lose_roles_def\<close>)
    show "blocks_inv c p (g_role ?G) (g_w ?G) (g_v ?G)"
      unfolding blocks_inv_def using B by (auto simp: lose_roles_def split: if_splits)
    show "reqs_inv c p o'' ?G"
      by (rule reqs_inv_none) (use nd nw in \<open>auto simp: e(2) call_def lose_roles_def\<close>)
    show "layout_inv dec c o'' ?G" if "\<not> hole c p (g_role ?G) (g_w ?G)"
      using hole that by simp
    show "header_inv c o'' (g_v ?G)"
    proof -
      have lt: "g_v G \<noteq> blocks c" using S(1,2,8) by (cases secs) simp_all
      then show ?thesis using I(8)
        by (auto simp: header_inv_def e(2) call_def index_reqs_def)
    qed
    show "finish_inv c p o'' ?G"
      by (rule finish_todo [OF I(9)])
        (use I(9) hole in \<open>auto simp: e(2) call_def lose_roles_def finish_inv_def\<close>)
  qed
  moreover have "passed_on G i ?G"
    using isec secs by (fastforce simp: passed_on_def lose_roles_def)
  moreover have "modest c 3 o' o''"
  proof -
    have "r_fmt c \<noteq> CSO_FMT_CSO2" using al I(2) by (auto simp: all_allowed_def conf_def)
    then show ?thesis using gather_length [of "o_pending o'" "o_srcPos o' + uint (o_blockSize o')" "uint (o_blockSize o')" "[i]"] g by (simp add: modest_def load_def e(2) call_def)
  qed
  ultimately show ?thesis using e by (intro exI [of _ ?G]) (simp add: call_def)
qed


lemma layout_index_length [simp]: "length (layout_index o' is d ix) = length ix"
  by (induction "is" arbitrary: d ix) simp_all

lemma done_allowed:
  assumes "conf c o'" and "all_allowed o' secs" and "j < length secs"
    and "done_ok dec c P (o_sec o' (secs ! j)) b x"
  shows "format_allowed (r_fmt c) (fst x)"
proof -
  have "secs ! j \<in> set secs" using assms(3) by simp
  then have "format_allowed (o_fmt o') (Format (o_sec o' (secs ! j)))" using assms(2) unfolding all_allowed_def by blast
  then show ?thesis using assms(1,4) by (simp add: conf_def done_ok_def)
qed

text \<open>What is stored for the blocks \<open>w\<close>, \<open>w + 1\<close>, \<open>...\<close> that the objects \<open>secs\<close> hold.\<close>

definition taken :: "decoder \<Rightarrow> run_conf \<Rightarrow> pool \<Rightarrow> out \<Rightarrow> nat list \<Rightarrow> nat \<Rightarrow> contents \<Rightarrow> contents" where
  "taken dec c P o' secs w C = (\<lambda>b. if w \<le> b \<and> b < w + length secs
     then SOME x. done_ok dec c P (o_sec o' (secs ! (b - w))) b x else C b)"

lemma taken_done:
  assumes "\<And>j. j < length secs \<Longrightarrow> \<exists>x. done_ok dec c P (o_sec o' (secs ! j)) (w + j) x" and "j < length secs"
  shows "done_ok dec c P (o_sec o' (secs ! j)) (w + j) (taken dec c P o' secs w C (w + j))"
  using someI_ex [OF assms(1) [OF assms(2)]] assms(2) by (simp add: taken_def)

lemma taken_body: "n \<le> w \<Longrightarrow> body c (taken dec c P o' secs w C) n = body c C n"
  by (rule body_cong) (simp add: taken_def)

lemma taken_pos: "n \<le> w \<Longrightarrow> pos_of c (taken dec c P o' secs w C) n = pos_of c C n"
  by (simp add: pos_of_def taken_body)

definition after_write :: "decoder \<Rightarrow> run_conf \<Rightarrow> pool \<Rightarrow> out \<Rightarrow> nat list \<Rightarrow> ghost \<Rightarrow> ghost" where
  "after_write dec c P o' secs G = \<lparr>g_role = write_roles (g_role G) secs, g_w = g_w G, g_v = g_w G + length secs,
     g_C = taken dec c P o' secs (g_w G) (g_C G)\<rparr>"

lemma write_roles_block:
  assumes "\<And>j. j \<in> set secs \<Longrightarrow> role_block (role j) \<noteq> None"
  shows "role_block (write_roles role secs j) = role_block (role j)"
  using assms [of j] by (auto simp: write_roles_def)

lemma write_layout:
  assumes c: "conf_ok c" "conf c o'" and lay: "layout_inv dec c o' G" and v: "g_v G = g_w G"
    and dn: "\<And>j. j < length secs \<Longrightarrow> \<exists>x. done_ok dec c P (o_sec o' (secs ! j)) (g_w G + j) x"
    and le: "g_w G + length secs \<le> blocks c" and al: "all_allowed o' secs"
    and o'': "o_dstPos o'' = o_dstPos o'" "o_disk o'' = o_disk o'"
      "o_index o'' = run_index c fin (layout_index o' secs (o_dstPos o') (o_index o')) (layout_end o' secs (o_dstPos o'))"
    and fin: "fin \<longleftrightarrow> g_w G + length secs = blocks c" and ixw: "ixw o'' \<Longrightarrow> dec_mode c"
  shows "layout_inv dec c o'' (after_write dec c P o' secs G)"
    and "body c (g_C (after_write dec c P o' secs G)) (g_w G) @ layout_bytes P o' secs (o_dstPos o')
      = body c (g_C (after_write dec c P o' secs G)) (g_w G + length secs)"
    and "layout_end o' secs (o_dstPos o') - o_dstPos o' = int (length (layout_bytes P o' secs (o_dstPos o')))"
    and "o_dstPos o' = pos_of c (g_C (after_write dec c P o' secs G)) (g_w G)"
proof -
  let ?w = "g_w G" and ?C = "g_C (after_write dec c P o' secs G)"
  have C: "?C = taken dec c P o' secs ?w (g_C G)" by (simp add: after_write_def)
  have L: "short (g_C G) ?w" "o_dstPos o' = pos_of c (g_C G) ?w"
    "file_read (o_disk o') (nat (first_pos c)) (length (body c (g_C G) ?w)) = body c (g_C G) ?w"
    "\<And>b. b < ?w \<Longrightarrow> o_index o' ! b = index_entry (r_fmt c) (r_sh c) (pos_of c (g_C G) b) (fst (g_C G b))
          \<and> format_allowed (r_fmt c) (fst (g_C G b)) \<and> stored_ok dec c b (g_C G b)"
    "int (length (o_disk o')) \<le> pos_of c (g_C G) ?w" "\<And>i. g_role G i \<noteq> Lost"
    using lay unfolding layout_inv_def v by blast+
  have dn': "done_ok dec c P (o_sec o' (secs ! j)) (?w + j) (?C (?w + j))" if "j < length secs" for j
    unfolding C by (rule taken_done [OF dn that])
  have s: "short ?C ?w" using L(1) by (simp add: short_def C taken_def)
  have d: "o_dstPos o' = pos_of c ?C ?w" unfolding L(2) C taken_pos [OF order_refl] ..
  have ix: "length (o_index o') = Suc (blocks c)" using c(2) by (simp add: conf_def)
  note R = layout_run [OF c dn' s le ix, folded d]
  show d': "o_dstPos o' = pos_of c ?C ?w" by (rule d)
  show bd: "body c ?C ?w @ layout_bytes P o' secs (o_dstPos o') = body c ?C (?w + length secs)" using R by blast
  have "layout_end o' secs (o_dstPos o') = pos_of c ?C (?w + length secs)" using R by blast
  then show "layout_end o' secs (o_dstPos o') - o_dstPos o' = int (length (layout_bytes P o' secs (o_dstPos o')))"
    unfolding d pos_of_def bd [symmetric, folded d] by (simp add: d)
  have eq: "?C b = g_C G b" "pos_of c ?C b = pos_of c (g_C G) b" if "b < ?w" for b
    using that unfolding C by (simp_all add: taken_def taken_pos [unfolded taken_def])
  have ent: "o_index o'' ! b = index_entry (r_fmt c) (r_sh c) (pos_of c ?C b) (fst (?C b))
      \<and> format_allowed (r_fmt c) (fst (?C b)) \<and> stored_ok dec c b (?C b)" if b: "b < ?w + length secs" for b
  proof -
    have ib: "o_index o'' ! b = layout_index o' secs (o_dstPos o') (o_index o') ! b"
      using b le by (simp add: o''(3) run_index_def ix)
    have rb: "layout_index o' secs (o_dstPos o') (o_index o') ! b
        = (if ?w \<le> b \<and> b < ?w + length secs then index_entry (r_fmt c) (r_sh c) (pos_of c ?C b) (fst (?C b)) else o_index o' ! b)"
      using R b le by auto
    show ?thesis
    proof (cases "b < ?w")
      case True
      then show ?thesis using L(4) [OF True] ib rb by (simp add: eq)
    next
      case False
      have dj: "done_ok dec c P (o_sec o' (secs ! (b - ?w))) b (?C b)" using dn' [of "b - ?w"] False b by simp
      have "format_allowed (r_fmt c) (fst (?C b))"
        by (rule done_allowed [OF c(2) al _ dj]) (use False b in simp)
      moreover have "stored_ok dec c b (?C b)" using dj by (simp add: done_ok_def)
      ultimately show ?thesis using ib rb False b by simp
    qed
  qed
  have "o_index o'' ! blocks c = index_value (r_sh c) (pos_of c ?C (blocks c))" if "?w + length secs = blocks c"
    using R that ix by (simp add: o''(3) run_index_def fin)
  moreover have "body c ?C ?w = body c (g_C G) ?w" unfolding C by (rule taken_body) simp
  moreover have "short ?C (?w + length secs)" using R by blast
  ultimately show "layout_inv dec c o'' (after_write dec c P o' secs G)"
    using L(3) L(5) [folded L(2)] L(6) ent d ixw unfolding layout_inv_def
    by (auto simp: o''(1,2) after_write_def write_roles_def)
qed


lemma write_run_ok_inv:
  assumes inv: "oinv cx dec c p P o' G" and i: "g_role G i = Hand (g_w G)"
    and g: "gather (o_pending o') (o_srcPos o' + uint (o_blockSize o')) (uint (o_blockSize o')) [i] = (pend, np, secs)"
    and al: "all_allowed o' secs" and run: "write_run junk P o' i = (P', o'')"
  shows "\<exists>G'. oinv cx dec c p P' o'' G' \<and> passed_on G i G' \<and> P' = P \<and> o_sec o'' = o_sec o' \<and> modest c 3 o' o''"
proof -
  note I = oinvD [OF inv] and L = linksD [OF oinvD(4) [OF inv]] and B = blocksD [OF oinvD(5) [OF inv]]
  note S = run_secs [OF inv i g]
  let ?w = "g_w G" and ?G = "after_write dec c P o' secs G" and ?n = "length secs"
  let ?fin = "o_srcSize o' \<le> np"
  have n0: "0 < ?n" using S(2) by simp
  have wlt: "?w < blocks c" using S(8) n0 by linarith
  have fin: "?fin \<longleftrightarrow> ?w + ?n = blocks c"
  proof -
    have "?w + ?n < blocks c \<longleftrightarrow> (?w + ?n) * 2 ^ r_k c < length (r_img c)" by (rule blocks_iff)
    moreover have "o_srcSize o' = int (length (r_img c))" using I(2) by (simp add: conf_def)
    ultimately show ?thesis using S(7,8) by linarith
  qed
  have H: "\<not> rdy o'" "\<not> ixw o'" "index_reqs o' = []"
    using I(8) S(1) wlt unfolding header_inv_def by auto
  have dt: "\<not> dtw o'" using I(9) wlt unfolding finish_inv_def by auto
  have "length (layout_index o' secs (o_dstPos o') (o_index o')) = Suc (blocks c)"
    using I(2) by (simp add: conf_def)
  from write_run_ok [OF I(1,2) g al dt this, of junk P] run obtain o3 where
    o3: "o3 = o'\<lparr>o_pending := pend,
            o_index := run_index c ?fin (layout_index o' secs (o_dstPos o') (o_index o')) (layout_end o' secs (o_dstPos o')),
            o_state := run_state c ?fin (o_state o')\<rparr>"
    and P': "P' = P" and o'': "o'' = o3\<lparr>o_reqs := o_reqs o'
          @ (if ?fin \<and> \<not> dec_mode c then [IndexWrite (int (length (cso_prefix o3))) (cso_prefix o3)] else [])
          @ [DataWrite secs np (layout_end o' secs (o_dstPos o') - o_dstPos o') (o_dstPos o')
               (layout_bytes P o' secs (o_dstPos o'))]\<rparr>"
    by auto
  have px: "cso_prefix o'' = cso_prefix o3" by (simp add: o'' cso_prefix_def cso_header_def)
  have secs: "j < ?n \<Longrightarrow> g_role G (secs ! j) = (if j = 0 then Hand ?w else Ready (?w + j))" for j
    using S(3) S(4) [of j] i by auto
  have inset: "\<exists>k < ?n. j = secs ! k" if m: "j \<in> set secs" for j
    using m unfolding in_set_conv_nth by blast
  have blk: "role_block (g_role ?G j) = role_block (g_role G j)" for j
  proof -
    have "role_block (g_role G m) \<noteq> None" if "m \<in> set secs" for m
      using inset [OF that] secs by (auto split: if_splits)
    then show ?thesis by (simp add: after_write_def write_roles_block)
  qed
  have hole: "hole c p (g_role ?G) ?w \<longleftrightarrow> hole c p (g_role G) ?w" by (rule hole_cong) (simp only: blk)
  have nw: "g_role G j \<noteq> Writing b" for j b using B(5) [of j b] S(1) by auto
  have wr: "g_role ?G j = Writing b \<longleftrightarrow> (\<exists>k < ?n. j = secs ! k \<and> b = ?w + k)" for j b
  proof (cases "j \<in> set secs")
    case True
    then obtain k where k: "k < ?n" "j = secs ! k" using inset by blast
    have e: "g_role ?G j = Writing (?w + k)"
      using True secs [OF k(1)] by (simp add: after_write_def write_roles_def k(2) split: if_splits)
    have "m = k" if "m < ?n" "j = secs ! m" for m
      using that k S(6) by (simp add: nth_eq_iff_index_eq)
    then show ?thesis using e k by auto
  next
    case False
    then show ?thesis using nw by (auto simp: after_write_def write_roles_def)
  qed
  have same: "j \<notin> set secs \<Longrightarrow> g_role ?G j = g_role G j" for j
    by (simp add: after_write_def write_roles_def)
  have isec: "i \<in> set secs" using S(2,3) by (metis length_greater_0_conv nth_mem)
  have chg: "g_role ?G j = g_role G j
      \<or> (\<exists>b. g_role ?G j = Writing b \<and> (g_role G j = Hand b \<or> g_role G j = Ready b))" for j
  proof (cases "j \<in> set secs")
    case True
    then obtain k where k: "k < ?n" "j = secs ! k" using inset by blast
    then have "g_role ?G j = Writing (?w + k)" using wr by blast
    moreover have "g_role G j = Hand (?w + k) \<or> g_role G j = Ready (?w + k)" using secs [OF k(1)] k(2) by auto
    ultimately show ?thesis by blast
  qed (simp add: same)
  have co: "conf c o''" using I(2) by (simp add: conf_def o'' o3 run_index_def)
  have v': "g_w ?G = ?w" "g_v ?G = ?w + ?n" by (simp_all add: after_write_def)
  have nd: "filter is_data (o_reqs o') = []" by (rule no_data_reqs [OF I(6) S(1)])
  have lay: "layout_inv dec c o'' ?G \<and> body c (g_C ?G) ?w @ layout_bytes P o' secs (o_dstPos o') = body c (g_C ?G) (?w + ?n)
      \<and> layout_end o' secs (o_dstPos o') - o_dstPos o' = int (length (layout_bytes P o' secs (o_dstPos o')))
      \<and> o_dstPos o' = pos_of c (g_C ?G) ?w" if h: "\<not> hole c p (g_role ?G) ?w"
  proof -
    have "layout_inv dec c o' G" by (rule I(7)) (use h in \<open>simp only: hole not_False_eq_True\<close>)
    note W = write_layout [OF I(1,2) this S(1,5,8) al, of o'' ?fin]
    show ?thesis
      by (intro conjI W) (use H(2) in \<open>auto simp: o'' o3 fin run_state_def has_flag_OR split: if_splits\<close>)
  qed
  have "oinv cx dec c p P' o'' ?G"
    unfolding oinv_def v' P'
  proof (intro conjI impI)
    show "conf_ok c" "conf c o''" by (fact I(1), fact co)
    show "mem_inv cx dec c p P o'' (g_role ?G)"
    proof (rule mem_inv_role [OF I(3)])
      fix j show "g_role ?G j = g_role G j \<or> g_role ?G j = Lost
        \<or> (\<exists>b. g_role ?G j = Writing b \<and> (g_role G j = Hand b \<or> g_role G j = Ready b))
        \<or> (\<exists>b. g_role ?G j = Ready b \<and> g_role G j = Hand b) \<or> (\<exists>b. g_role ?G j = Hand b \<and> g_role G j = Ready b)"
        using chg [of j] by blast
    qed (simp add: o'' o3)
    show "links c p o'' (g_role ?G)"
    proof (rule links_move [OF I(4)])
      show "g_role ?G j = g_role G j \<or> finished_role (g_role G j) \<and> finished_role (g_role ?G j)" for j
        using chg [of j] by (elim disjE exE conjE) simp_all
      show "om_find x (o_pending o'') = Some j \<longleftrightarrow> (\<exists>b. g_role ?G j = Ready b \<and> x = int (b * 2 ^ r_k c))" for x j
        using S(11) [of x j] same [of j] by (cases "j \<in> set secs") (auto simp: o'' o3 after_write_def write_roles_def)
    qed (simp_all add: o'' o3 S(10))
    show "blocks_inv c p (g_role ?G) ?w (?w + ?n)"
      unfolding blocks_inv_def blk
    proof (intro conjI allI impI)
      show "i = j" if "role_block (g_role G i) = Some b" "role_block (g_role G j) = Some b" for i j b
        by (rule B(4) [OF that])
      show "?w + ?n \<le> b" if h: "role_block (g_role G j) = Some b" "g_role ?G j \<noteq> Writing b" for j b
      proof (rule ccontr)
        assume "\<not> ?w + ?n \<le> b"
        moreover have "?w \<le> b" using B(6) [OF h(1)] nw S(1) by simp
        ultimately have k: "b - ?w < ?n" "?w + (b - ?w) = b" by simp_all
        have "role_block (g_role G (secs ! (b - ?w))) = Some b"
          using secs [OF k(1)] k(2) by auto
        then have "j = secs ! (b - ?w)" by (rule B(4) [OF h(1)])
        then have "g_role ?G j = Writing b" unfolding wr using k by auto
        with h(2) show False ..
      qed
    qed (use B(3) S(9) wr in auto)
    show "reqs_inv c p o'' ?G"
      unfolding reqs_inv_def
    proof (intro conjI ballI impI)
      show "length (filter is_data (o_reqs o'')) \<le> 1" using nd by (simp add: o'')
      show "filter is_data (o_reqs o'') \<noteq> []" by (simp add: o'')
      fix q assume "q \<in> set (o_reqs o'')"
      then consider "\<not> is_data q" | "q = DataWrite secs np (layout_end o' secs (o_dstPos o') - o_dstPos o') (o_dstPos o')
               (layout_bytes P o' secs (o_dstPos o'))"
        using nd by (auto simp: o'' filter_empty_conv split: if_splits)
      then show "data_ok c p ?G q"
      proof cases
        case 1
        then show ?thesis by (cases q) (simp_all add: data_ok_def)
      next
        case 2
        have cov: "\<exists>j. g_role ?G j = Writing b" if "?w \<le> b" "b < ?w + ?n" for b
          unfolding wr using that by (intro exI [of _ "secs ! (b - ?w)"] exI [of _ "b - ?w"]) auto
        have "set secs = {j. \<exists>b. g_role ?G j = Writing b}"
          unfolding wr by (auto simp: in_set_conv_nth)
        then show ?thesis
          unfolding 2 data_ok_def wreq.case v' using S(6,7) n0 lay cov by auto
      qed
    qed
    show "layout_inv dec c o'' ?G" if "\<not> hole c p (g_role ?G) ?w" using lay [OF that] by blast
    show "header_inv c o'' (?w + ?n)"
      using H fin unfolding header_inv_def px
      by (auto simp: o'' o3 index_reqs_def run_state_def has_flag_OR)
    show "finish_inv c p o'' ?G"
    proof (rule finish_todo [OF I(9)])
      show "(\<exists>e \<in> set (o_calls o''). is_error e) \<longleftrightarrow> hole c p (g_role ?G) (g_w G) \<or> index_lost o''"
        using I(9) H unfolding finish_inv_def hole
        by (auto simp: o'' o3 index_lost_def index_reqs_def run_state_def has_flag_OR)
      show "g_role ?G j \<noteq> Ready (g_w G)" for j
      proof
        assume r: "g_role ?G j = Ready (g_w G)"
        then have "role_block (g_role G j) = Some ?w" using blk [of j] by simp
        then have "j = i" by (rule B(4)) (simp add: i)
        then have "g_role ?G j = Writing (?w + 0)" unfolding wr using n0 S(3) by (intro exI [of _ 0]) simp
        with r show False by simp
      qed
    qed (use dt in \<open>simp_all add: o'' o3 run_state_def has_flag_OR after_write_def\<close>)
  qed
  moreover have "passed_on G i ?G"
    unfolding passed_on_def
  proof (intro conjI allI impI)
    fix j b assume h: "g_role ?G j = Hand b"
    then have "j \<notin> set secs" by (auto simp: after_write_def write_roles_def split: if_splits)
    then show "g_role G j = Hand b" "j \<noteq> i" using h same isec by auto
  next
    fix j b show "g_role ?G j = Job b \<longleftrightarrow> g_role G j = Job b"
      using chg [of j] by (elim disjE exE conjE) simp_all
  qed
  moreover have "modest c 3 o' o''"
    using gather_length [of "o_pending o'" "o_srcPos o' + uint (o_blockSize o')" "uint (o_blockSize o')" "[i]"] g by (simp add: modest_def load_def failed_def o'' o3)
  ultimately show ?thesis using P' by (intro exI [of _ ?G]) (simp add: o'' o3)
qed

text \<open>Either way the run keeps the invariant.\<close>

lemma write_run_inv:
  assumes inv: "oinv cx dec c p P o' G" and i: "g_role G i = Hand (g_w G)"
    and run: "write_run junk P o' i = (P', o'')"
  shows "\<exists>G'. oinv cx dec c p P' o'' G' \<and> passed_on G i G' \<and> P' = P \<and> o_sec o'' = o_sec o' \<and> modest c 3 o' o''"
proof -
  obtain pend np secs where g: "gather (o_pending o') (o_srcPos o' + uint (o_blockSize o')) (uint (o_blockSize o')) [i] = (pend, np, secs)"
    by (rule prod_cases3)
  show ?thesis
    by (cases "all_allowed o' secs") (rule write_run_ok_inv [OF inv i g _ run] write_run_refused_inv [OF inv i g _ run], assumption)+
qed

end
