(* ===== verification/OutputSteps.thy ===== *)
theory OutputSteps
  imports OutputWrite
begin

section \<open>A run of the writer: every step keeps the invariant\<close>

subsection \<open>The memory of the writer\<close>

definition owned :: "out \<Rightarrow> ptr set" where
  "owned o' = (\<Union>i < QUEUE_SIZE. held (o_sec o' i))"

text \<open>A step of the writer that consumes the buffers \<open>X\<close> leaves everything it does not own alone.\<close>

definition frame :: "pool \<Rightarrow> out \<Rightarrow> ptr set \<Rightarrow> pool \<Rightarrow> out \<Rightarrow> bool" where
  "frame P o' X P' o'' \<longleftrightarrow> bufferSize P' = bufferSize P \<and> wild P' - owned o'' = wild P - owned o' - X
     \<and> (\<forall>q \<in> wild P - owned o' - X. mem P' q = mem P q)"

lemma frame_same: "o_sec o'' = o_sec o' \<Longrightarrow> frame P o' {} P o''"
  by (simp add: frame_def owned_def)

lemma frame_trans:
  assumes "frame P o' X P1 o1" and "frame P1 o1 Y P2 o2"
  shows "frame P o' (X \<union> Y) P2 o2"
proof -
  have e: "wild P - owned o' - (X \<union> Y) = wild P1 - owned o1 - Y" using assms(1) unfolding frame_def by blast
  have "mem P2 q = mem P q" if q: "q \<in> wild P - owned o' - (X \<union> Y)" for q
  proof -
    have "q \<in> wild P1 - owned o1 - Y" using q unfolding e .
    then have "mem P2 q = mem P1 q" using assms(2) unfolding frame_def by blast
    moreover have "mem P1 q = mem P q" using assms(1) q unfolding frame_def by blast
    ultimately show ?thesis by simp
  qed
  then show ?thesis using assms unfolding frame_def e by simp
qed

lemma role_ok_frame:
  assumes "role_ok dec c p P s r" and m: "\<And>q. q \<in> held s \<Longrightarrow> mem P' q = mem P q"
    and w: "held s \<subseteq> wild P'" and b: "bufferSize P' = bufferSize P"
  shows "role_ok dec c p P' s r"
proof -
  have rd: "mread (mem P') x a n = mread (mem P) x a n" if "x \<in> held s" for x a n
    using m [OF that] by (simp add: mread_def)
  have sb: "s_buffer s = Some x \<Longrightarrow> x \<in> held s" for x by (simp add: held_def)
  have bb: "BestBuffer s \<noteq> None \<Longrightarrow> the (BestBuffer s) \<in> held s"
    by (auto simp: BestBuffer_def held_def split: option.splits)
  have fl: "filling P' s base n H" if h: "filling P s base n H" for base n H
  proof -
    obtain x where x: "s_buffer s = Some x" "\<forall>i d. H i = Some d \<longrightarrow> mread (mem P) x (i * SECTOR_SIZE) SECTOR_SIZE = d"
      using h unfolding filling_def by blast
    have "x \<in> wild P'" "\<forall>i d. H i = Some d \<longrightarrow> mread (mem P') x (i * SECTOR_SIZE) SECTOR_SIZE = d"
      using sb [OF x(1)] w x(2) rd by auto
    then show ?thesis using h x(1) unfolding filling_def b by blast
  qed
  have dn: "done_ok dec c P' s a x" if "done_ok dec c P s a x" for a x
    using that bb rd unfolding done_ok_def by simp
  have dnx: "Ex (done_ok dec c P' s a)" if "Ex (done_ok dec c P s a)" for a using that dn by blast
  have jb: "job_ok c P' s a" if h: "job_ok c P s a" for a
  proof -
    obtain x where x: "s_buffer s = Some x" using h by (auto simp: job_ok_def)
    have "block_data P' s = block_data P s" using rd [OF sb [OF x]] by (simp add: block_data_def x)
    then show ?thesis using h by (simp add: job_ok_def)
  qed
  show ?thesis
    using assms(1) fl jb dnx by (cases r) (simp_all add: slot_def split: if_splits)
qed

text \<open>Roles other than \<open>Filling\<close> survive the arrival of a sector.\<close>

lemma role_ok_later:
  assumes "role_ok dec c p P s r" and "p \<le> p'" and "p' = p \<or> (\<forall>b. r \<noteq> Filling b)"
  shows "role_ok dec c p' P s r"
  using assms by (cases r) auto

lemma mem_inv_step:
  assumes m: "mem_inv cx dec c p P o' role" and i: "i < QUEUE_SIZE"
    and st: "mstep P (o_sec o' i) X P' s'" and X: "X \<inter> owned o' = {}"
    and s': "static_ok cx dec c s'" "role_ok dec c p' P' s' r"
    and p: "p \<le> p'" "\<And>j b. j < QUEUE_SIZE \<Longrightarrow> j \<noteq> i \<Longrightarrow> p' = p \<or> role j \<noteq> Filling b"
    and o'': "o_sec o'' = (o_sec o')(i := s')"
  shows "mem_inv cx dec c p' P' o'' (role(i := r))" and "frame P o' X P' o''"
proof -
  note M = memD [OF m] and S = mstepD [OF st]
  have other: "held (o_sec o' j) \<subseteq> wild P - held (o_sec o' i) - X" if j: "j < QUEUE_SIZE" "j \<noteq> i" for j
  proof -
    have "held (o_sec o' j) \<subseteq> wild P" using M(2) [OF j(1)] by (simp add: sec_ok_def)
    moreover have "held (o_sec o' j) \<inter> held (o_sec o' i) = {}" by (rule M(3) [OF j(1) i j(2)])
    moreover have "held (o_sec o' j) \<subseteq> owned o'" using j(1) by (auto simp: owned_def)
    ultimately show ?thesis using X by blast
  qed
  have ok: "sec_ok cx dec c p' P' (o_sec o'' j) ((role(i := r)) j)" if j: "j < QUEUE_SIZE" for j
  proof (cases "j = i")
    case True
    then show ?thesis using S(3,6) s' by (simp add: sec_ok_def o'')
  next
    case False
    note O = other [OF j False]
    have w: "held (o_sec o' j) \<subseteq> wild P'" using O S(4) by blast
    have "role_ok dec c p P (o_sec o' j) (role j)" using M(2) [OF j] by (simp add: sec_ok_def)
    then have "role_ok dec c p P' (o_sec o' j) (role j)"
      by (rule role_ok_frame [OF _ _ w S(2)]) (use S(5) O in blast)
    then have "role_ok dec c p' P' (o_sec o' j) (role j)"
      by (rule role_ok_later [OF _ p(1)]) (use p(2) [OF j False] in blast)
    then show ?thesis using M(2) [OF j] w False by (simp add: sec_ok_def o'')
  qed
  have dis: "held (o_sec o'' a) \<inter> held (o_sec o'' b) = {}" if h: "a < QUEUE_SIZE" "b < QUEUE_SIZE" "a \<noteq> b" for a b
  proof -
    have "held s' \<inter> held (o_sec o' j) = {}" if "j < QUEUE_SIZE" "j \<noteq> i" for j
      using other [OF that] S(4) by blast
    then show ?thesis using M(3) [OF h] h by (auto simp: o'')
  qed
  have "pool_ok c P'" using M(1) S(1,2) by (simp add: pool_ok_def)
  then show "mem_inv cx dec c p' P' o'' (role(i := r))" using ok dis unfolding mem_inv_def by blast
  have ow: "owned o' = held (o_sec o' i) \<union> (\<Union>j \<in> {..<QUEUE_SIZE} - {i}. held (o_sec o' j))"
    "owned o'' = held s' \<union> (\<Union>j \<in> {..<QUEUE_SIZE} - {i}. held (o_sec o' j))"
    using i by (auto simp: owned_def o'' split: if_splits)
  let ?R = "\<Union>j \<in> {..<QUEUE_SIZE} - {i}. held (o_sec o' j)"
  have "wild P' - owned o'' = wild P' - held s' - ?R" unfolding ow by blast
  also have "\<dots> = wild P - owned o' - X" unfolding S(4) ow by blast
  finally show "frame P o' X P' o''" using S(2,5) unfolding frame_def ow by blast
qed

lemma mem_inv_pool:
  assumes m: "mem_inv cx dec c p P o' role" and P': "pool_inv P'" "bufferSize P' = bufferSize P"
    and w: "owned o' \<subseteq> wild P'" "\<And>q. q \<in> owned o' \<Longrightarrow> mem P' q = mem P q" and o'': "o_sec o'' = o_sec o'"
  shows "mem_inv cx dec c p P' o'' role"
proof -
  note M = memD [OF m]
  have "sec_ok cx dec c p P' (o_sec o'' i) (role i)" if i: "i < QUEUE_SIZE" for i
  proof -
    have h: "held (o_sec o' i) \<subseteq> owned o'" using i by (auto simp: owned_def)
    have "role_ok dec c p P (o_sec o' i) (role i)" using M(2) [OF i] by (simp add: sec_ok_def)
    then have "role_ok dec c p P' (o_sec o' i) (role i)"
      by (rule role_ok_frame) (use h w P'(2) in blast)+
    then show ?thesis using M(2) [OF i] h w(1) unfolding sec_ok_def o'' by blast
  qed
  then show ?thesis using M P' unfolding mem_inv_def o'' pool_ok_def by simp
qed

subsection \<open>Steps that leave the file alone\<close>

text \<open>The file, its index, the requests and the calls are the same, the writing sectors and the
  holes too, and no block becomes ready at the position to be written.\<close>

lemma file_invs:
  assumes c: "conf c o'" "conf c o''"
    and e: "o_reqs o'' = o_reqs o'" "o_index o'' = o_index o'" "o_dstPos o'' = o_dstPos o'" "o_disk o'' = o_disk o'"
      "o_state o'' = o_state o'" "o_calls o'' = o_calls o'" "o_todo o'' = o_todo o'" "o_srcPos o'' = o_srcPos o'"
    and r: "\<And>j b. role' j = Writing b \<longleftrightarrow> g_role G j = Writing b"
      "hole c p' role' (g_w G) \<longleftrightarrow> hole c p (g_role G) (g_w G)"
      "\<And>j. o_todo o' = [] \<Longrightarrow> role' j = Ready (g_w G) \<Longrightarrow> g_role G j = Ready (g_w G)"
      "\<And>j. role' j = Lost \<longleftrightarrow> g_role G j = Lost"
    and i: "reqs_inv c p o' G" "\<not> hole c p (g_role G) (g_w G) \<longrightarrow> layout_inv dec c o' G" "header_inv c o' (g_v G)"
      "finish_inv c p o' G"
  shows "reqs_inv c p' o'' (G\<lparr>g_role := role'\<rparr>)"
    "\<not> hole c p' role' (g_w G) \<Longrightarrow> layout_inv dec c o'' (G\<lparr>g_role := role'\<rparr>)" "header_inv c o'' (g_v G)"
    "finish_inv c p' o'' (G\<lparr>g_role := role'\<rparr>)"
proof -
  let ?G = "G\<lparr>g_role := role'\<rparr>"
  have px: "cso_prefix o'' = cso_prefix o'" by (rule cso_prefix_cong [OF c e(2)])
  have d: "data_ok c p' ?G q = data_ok c p G q" for q
    by (cases q) (simp_all add: data_ok_def r(1,2))
  show "reqs_inv c p' o'' ?G" using i(1) unfolding reqs_inv_def e(1) d by (simp add: r(1))
  show "layout_inv dec c o'' ?G" if "\<not> hole c p' role' (g_w G)"
    using i(2) that unfolding r(2) layout_inv_def e(2-5) px by (simp add: r(4))
  show "header_inv c o'' (g_v G)" using i(3) unfolding header_inv_def index_reqs_def e(1,4,5) px .
  have ss: "o_srcSize o'' = o_srcSize o'" using c by (simp add: conf_def)
  show "finish_inv c p' o'' ?G"
  proof (rule finish_todo [OF i(4)])
    show "(\<exists>e \<in> set (o_calls o''). is_error e) \<longleftrightarrow> hole c p' (g_role ?G) (g_w G) \<or> index_lost o''"
      using i(4) unfolding finish_inv_def e(6) index_lost_def index_reqs_def e(1,5) by (simp add: r(2))
    show "g_role ?G j \<noteq> Ready (g_w G)" if "o_todo o' = []" for j
      using r(3) [OF that, of j] i(4) that unfolding finish_inv_def by auto
  qed (simp_all add: e ss)
qed


subsection \<open>A finished block\<close>

lemma hand_facts:
  assumes inv: "oinv cx dec c p P o' G" and i: "g_role G i = Hand b"
  shows "i < QUEUE_SIZE" "Pos (o_sec o' i) = int (b * 2 ^ r_k c)" "g_v G \<le> b" "b < blocks c" "b * per_block c < p"
    "o_srcPos o' = int (g_w G * 2 ^ r_k c)"
proof -
  note I = oinvD [OF inv] and B = blocksD [OF oinvD(5) [OF inv]]
  show u: "i < QUEUE_SIZE" by (rule role_used [OF I(4)]) (simp add: i)
  have r: "role_ok dec c p P (o_sec o' i) (Hand b)" using memD(2) [OF I(3) u] i by (simp add: sec_ok_def)
  then show "Pos (o_sec o' i) = int (b * 2 ^ r_k c)" by (auto simp: done_ok_def Pos_def)
  show "g_v G \<le> b" using B(6) [of i b] i by simp
  have s: "Suc b * per_block c \<le> p" using r by simp
  then have "Suc b * per_block c \<le> blocks c * per_block c" using B(3) by linarith
  then show "b < blocks c" by (simp add: Suc_le_eq del: mult_Suc)
  have "b * per_block c < Suc b * per_block c" by simp
  then show "b * per_block c < p" using s by linarith
  show "o_srcPos o' = int (g_w G * 2 ^ r_k c)" using I(9) by (simp add: finish_inv_def)
qed

lemma role_swap_hole:
  assumes "role_block r = role_block (role i)"
  shows "hole c p (role(i := r)) w \<longleftrightarrow> hole c p role w"
  by (rule hole_cong) (metis assms fun_upd_apply)

lemma blocks_inv_same:
  assumes "blocks_inv c p role w v" and "\<And>j. role_block (role' j) = role_block (role j)"
    and "\<And>j d. role' j = Writing d \<longleftrightarrow> role j = Writing d"
  shows "blocks_inv c p role' w v"
  using assms(1) unfolding blocks_inv_def assms(2,3) .

lemma HandleReady_inv:
  assumes inv: "oinv cx dec c p P o' G" and i: "g_role G i = Hand b"
    and run: "HandleReadySector junk P o' (Some i) = (P', o'')"
  shows "\<exists>G'. oinv cx dec c p P' o'' G' \<and> passed_on G i G' \<and> P' = P \<and> o_sec o'' = o_sec o' \<and> modest c 4 o' o''"
proof -
  note I = oinvD [OF inv] and L = linksD [OF oinvD(4) [OF inv]] and B = blocksD [OF oinvD(5) [OF inv]]
  note H = hand_facts [OF inv i]
  show ?thesis
  proof (cases "b = g_w G")
    case True
    then have "write_run junk P o' i = (P', o'')" using run H(2,6) by (simp add: HandleReadySector_Some)
    with write_run_inv [OF inv _ this] i True obtain G' where
      "oinv cx dec c p P' o'' G'" "passed_on G i G'" "P' = P" "o_sec o'' = o_sec o'" "modest c 3 o' o''" by blast
    moreover from this(5) have "modest c 4 o' o''" by (rule modest_mono) simp
    ultimately show ?thesis by blast
  next
    case False
    let ?R = "(g_role G)(i := Ready b)" and ?x = "int (b * 2 ^ r_k c)"
    let ?G = "G\<lparr>g_role := ?R\<rparr>"
    have "o_srcPos o' \<noteq> Pos (o_sec o' i)" using False unfolding H(2,6) by (simp only: mult_pow_inj not_sym)
    then have e: "P' = P" "o'' = o'\<lparr>o_pending := om_insert ?x i (o_pending o')\<rparr>"
      using run H(2) by (simp_all add: HandleReadySector_Some)
    have rb: "role_block (?R j) = role_block (g_role G j)" for j using i by simp
    have hl: "hole c p ?R (g_w G) \<longleftrightarrow> hole c p (g_role G) (g_w G)" by (rule role_swap_hole) (simp add: i)
    have co: "conf c o''" using I(2) by (simp add: e conf_def)
    have nR: "g_role G j \<noteq> Ready b" for j using B(4) [of j b i] i by auto
    have wr: "?R j = Writing d \<longleftrightarrow> g_role G j = Writing d" for j d by (simp add: i)
    have rd: "?R j = Ready (g_w G) \<Longrightarrow> g_role G j = Ready (g_w G)" for j using False by (auto split: if_splits)
    have lay: "\<not> hole c p (g_role G) (g_w G) \<longrightarrow> layout_inv dec c o' G" using I(7) by blast
    have eq: "o_reqs o'' = o_reqs o'" "o_index o'' = o_index o'" "o_dstPos o'' = o_dstPos o'" "o_disk o'' = o_disk o'"
      "o_state o'' = o_state o'" "o_calls o'' = o_calls o'" "o_todo o'' = o_todo o'" "o_srcPos o'' = o_srcPos o'"
      by (simp_all add: e(2))
    have lo: "?R j = Lost \<longleftrightarrow> g_role G j = Lost" for j by (simp add: i)
  note F = file_invs [where role' = ?R, OF I(2) co eq wr hl rd lo I(6) lay I(8,9)]
    have "oinv cx dec c p P' o'' ?G"
      unfolding oinv_def
    proof (intro conjI impI)
      show "conf_ok c" "conf c o''" by (fact I(1), fact co)
      show "mem_inv cx dec c p P' o'' (g_role ?G)"
        unfolding e(1) by (rule mem_inv_role [OF I(3)]) (auto simp: e(2) i)
      show "links c p o'' (g_role ?G)"
      proof (rule links_move [OF I(4)])
        show "g_role ?G j = g_role G j \<or> finished_role (g_role G j) \<and> finished_role (g_role ?G j)" for j
          by (simp add: i)
        show "om_inv (o_pending o'')" using om.insert_inv [OF L(3), of ?x i] by (simp add: e(2))
        show "om_find x (o_pending o'') = Some j \<longleftrightarrow> (\<exists>d. g_role ?G j = Ready d \<and> x = int (d * 2 ^ r_k c))" for x j
        proof (cases "x = ?x")
          case True
          have "(\<exists>d. g_role ?G j = Ready d \<and> x = int (d * 2 ^ r_k c)) \<longleftrightarrow> g_role ?G j = Ready b"
            unfolding True by (auto simp only: mult_pow_inj)
          also have "\<dots> \<longleftrightarrow> j = i" using nR by simp
          finally show ?thesis using True om.insert_find [OF L(3), of x ?x i] by (auto simp: e(2))
        next
          case False
          then have "om_find x (o_pending o'') = om_find x (o_pending o')"
            using om.insert_find [OF L(3), of x ?x i] by (simp add: e(2))
          then show ?thesis using False L(4) [of x j] i by auto
        qed
      qed (simp_all add: e(2))
      show "blocks_inv c p (g_role ?G) (g_w ?G) (g_v ?G)"
        using blocks_inv_same [where role' = ?R, OF I(5) rb wr] by simp
      show "reqs_inv c p o'' ?G" "header_inv c o'' (g_v ?G)" "finish_inv c p o'' ?G"
        using F(1,3,4) by simp_all
      show "layout_inv dec c o'' ?G" if "\<not> hole c p (g_role ?G) (g_w ?G)"
        using F(2) that by simp
    qed
    moreover have "passed_on G i ?G" by (auto simp: passed_on_def i)
    moreover have "modest c 4 o' o''"
      using om_insert_length [of ?x i "o_pending o'"] by (simp add: modest_def load_def failed_def e(2) del: of_nat_mult)
    ultimately show ?thesis using e by auto
  qed
qed


subsection \<open>A step of one sector object\<close>

lemma sector_step_inv:
  assumes inv: "oinv cx dec c p P o' G" and i: "i < QUEUE_SIZE"
    and st: "mstep P (o_sec o' i) X P' s'" "X \<inter> owned o' = {}"
    and s': "static_ok cx dec c s'" "role_ok dec c p' P' s' r"
    and p: "p \<le> p'" "\<And>j b. j < QUEUE_SIZE \<Longrightarrow> j \<noteq> i \<Longrightarrow> p' = p \<or> g_role G j \<noteq> Filling b"
    and o'': "o_sec o'' = (o_sec o')(i := s')" "conf c o''"
    and e: "o_reqs o'' = o_reqs o'" "o_index o'' = o_index o'" "o_dstPos o'' = o_dstPos o'" "o_disk o'' = o_disk o'"
      "o_state o'' = o_state o'" "o_calls o'' = o_calls o'" "o_todo o'' = o_todo o'" "o_srcPos o'' = o_srcPos o'"
    and l: "links c p' o'' ((g_role G)(i := r))" and b: "blocks_inv c p' ((g_role G)(i := r)) (g_w G) (g_v G)"
    and h: "hole c p' ((g_role G)(i := r)) (g_w G) \<longleftrightarrow> hole c p (g_role G) (g_w G)"
    and r: "\<And>d. r \<noteq> Writing d" "\<And>d. g_role G i \<noteq> Writing d" "\<And>d. r \<noteq> Ready d" "r \<noteq> Lost" "g_role G i \<noteq> Lost"
  shows "oinv cx dec c p' P' o'' (G\<lparr>g_role := (g_role G)(i := r)\<rparr>) \<and> frame P o' X P' o''"
proof -
  note I = oinvD [OF inv]
  let ?R = "(g_role G)(i := r)"
  have wr: "?R j = Writing d \<longleftrightarrow> g_role G j = Writing d" for j d using r by simp
  have rd: "?R j = Ready (g_w G) \<Longrightarrow> g_role G j = Ready (g_w G)" for j using r(3) by (auto split: if_splits)
  have lay: "\<not> hole c p (g_role G) (g_w G) \<longrightarrow> layout_inv dec c o' G" using I(7) by blast
  have lo: "?R j = Lost \<longleftrightarrow> g_role G j = Lost" for j using r(4,5) by simp
  note F = file_invs [where role' = ?R, OF I(2) o''(2) e wr h rd lo I(6) lay I(8,9)]
  note M = mem_inv_step [OF I(3) i st s' p o''(1)]
  have "oinv cx dec c p' P' o'' (G\<lparr>g_role := ?R\<rparr>)"
    unfolding oinv_def using I(1) o''(2) M(1) l b F by simp
  then show ?thesis using M(2) by blast
qed

subsection \<open>The return of \<open>progress_\<close>\<close>

lemma ready_block: "oinv cx dec c p P o' G \<Longrightarrow> g_role G i = Ready b \<Longrightarrow> g_v G \<le> b \<and> b < blocks c"
proof -
  assume inv: "oinv cx dec c p P o' G" and i: "g_role G i = Ready b"
  note I = oinvD [OF inv] and B = blocksD [OF oinvD(5) [OF inv]]
  have u: "i < QUEUE_SIZE" by (rule role_used [OF I(4)]) (simp add: i)
  have "role_ok dec c p P (o_sec o' i) (Ready b)" using memD(2) [OF I(3) u] i by (simp add: sec_ok_def)
  then have "Suc b * per_block c \<le> blocks c * per_block c" using B(3) by simp
  then have "b < blocks c" by (simp add: Suc_le_eq del: mult_Suc)
  then show ?thesis using B(6) [of i b] i by simp
qed

text \<open>The frame on top is taken; no block may be ready at the position to be written.\<close>

lemma pop_todo:
  assumes inv: "oinv cx dec c p P o' G" and t: "o_todo o' = np # rest" "np < o_srcSize o'"
    and nr: "\<And>j. g_role G j \<noteq> Ready (g_w G)"
  shows "oinv cx dec c p P (o'\<lparr>o_todo := rest\<rparr>) G"
proof -
  note I = oinvD [OF inv]
  have px: "cso_prefix (o'\<lparr>o_todo := rest\<rparr>) = cso_prefix o'" by (simp add: cso_prefix_def cso_header_def)
  have ot: "o_reqs (o'\<lparr>o_todo := rest\<rparr>) = o_reqs o'" "o_state (o'\<lparr>o_todo := rest\<rparr>) = o_state o'"
    "o_disk (o'\<lparr>o_todo := rest\<rparr>) = o_disk o'" by simp_all
  have "finish_inv c p (o'\<lparr>o_todo := rest\<rparr>) G"
    using I(9) t nr unfolding finish_inv_def index_lost_def index_reqs_def by (elim conjE, intro conjI) simp_all
  moreover have "header_inv c (o'\<lparr>o_todo := rest\<rparr>) (g_v G)"
    using I(8) unfolding header_inv_def px index_reqs_def ot .
  moreover have "mem_inv cx dec c p P (o'\<lparr>o_todo := rest\<rparr>) (g_role G)" using I(3) by (simp add: mem_inv_def)
  moreover have "links c p (o'\<lparr>o_todo := rest\<rparr>) (g_role G)" using I(4) by (simp add: links_def)
  moreover have "reqs_inv c p (o'\<lparr>o_todo := rest\<rparr>) G" using I(6) by (simp add: reqs_inv_def)
  moreover have "layout_inv dec c (o'\<lparr>o_todo := rest\<rparr>) G" if "\<not> hole c p (g_role G) (g_w G)"
    using I(7) [OF that] unfolding layout_inv_def px by simp
  moreover have "conf c (o'\<lparr>o_todo := rest\<rparr>)" using I(2) by (simp add: conf_def)
  ultimately show ?thesis unfolding oinv_def using I(1,5) by blast
qed

text \<open>The first block of the queue is taken in hand.\<close>

lemma take_ready:
  assumes inv: "oinv cx dec c p P o' G" and i: "g_role G i = Ready (g_w G)" and t: "o_todo o' = np # rest" "np < o_srcSize o'"
  shows "oinv cx dec c p P (o'\<lparr>o_todo := rest, o_pending := om_erase (int (g_w G * 2 ^ r_k c)) (o_pending o')\<rparr>)
    (G\<lparr>g_role := (g_role G)(i := Hand (g_w G))\<rparr>)"
proof -
  note I = oinvD [OF inv] and L = linksD [OF oinvD(4) [OF inv]] and B = blocksD [OF oinvD(5) [OF inv]]
  let ?R = "(g_role G)(i := Hand (g_w G))" and ?x = "int (g_w G * 2 ^ r_k c)"
  let ?o1 = "o'\<lparr>o_pending := om_erase ?x (o_pending o')\<rparr>" and ?G = "G\<lparr>g_role := ?R\<rparr>"
  have rb: "role_block (?R j) = role_block (g_role G j)" for j using i by simp
  have wr: "?R j = Writing d \<longleftrightarrow> g_role G j = Writing d" for j d by (simp add: i)
  have hl: "hole c p ?R (g_w G) \<longleftrightarrow> hole c p (g_role G) (g_w G)" by (rule role_swap_hole) (simp add: i)
  have co: "conf c ?o1" using I(2) by (simp add: conf_def)
  have nR: "?R j \<noteq> Ready (g_w G)" for j using B(4) [of j "g_w G" i] i by auto
  have lay: "\<not> hole c p (g_role G) (g_w G) \<longrightarrow> layout_inv dec c o' G" using I(7) by blast
  have eq: "o_reqs ?o1 = o_reqs o'" "o_index ?o1 = o_index o'" "o_dstPos ?o1 = o_dstPos o'" "o_disk ?o1 = o_disk o'"
      "o_state ?o1 = o_state o'" "o_calls ?o1 = o_calls o'" "o_todo ?o1 = o_todo o'" "o_srcPos ?o1 = o_srcPos o'"
    by simp_all
  have rd: "?R j = Ready (g_w G) \<Longrightarrow> g_role G j = Ready (g_w G)" for j using nR by blast
  have lo: "?R j = Lost \<longleftrightarrow> g_role G j = Lost" for j by (simp add: i)
  note F = file_invs [where role' = ?R, OF I(2) co eq wr hl rd lo I(6) lay I(8,9)]
  have "oinv cx dec c p P ?o1 ?G"
    unfolding oinv_def
  proof (intro conjI impI)
    show "conf_ok c" "conf c ?o1" by (fact I(1), fact co)
    show "mem_inv cx dec c p P ?o1 (g_role ?G)"
      by (rule mem_inv_role [OF I(3)]) (auto simp: i)
    show "links c p ?o1 (g_role ?G)"
    proof (rule links_move [OF I(4)])
      show "g_role ?G j = g_role G j \<or> finished_role (g_role G j) \<and> finished_role (g_role ?G j)" for j
        by (simp add: i)
      show "om_inv (o_pending ?o1)" using om.erase_inv [OF L(3), of ?x] by simp
      show "om_find x (o_pending ?o1) = Some j \<longleftrightarrow> (\<exists>d. g_role ?G j = Ready d \<and> x = int (d * 2 ^ r_k c))" for x j
      proof (cases "x = ?x")
        case True
        have "(\<exists>d. g_role ?G j = Ready d \<and> x = int (d * 2 ^ r_k c)) \<longleftrightarrow> g_role ?G j = Ready (g_w G)"
          unfolding True by (auto simp only: mult_pow_inj)
        then show ?thesis using True nR [of j] om.erase_find [OF L(3), of x ?x] by auto
      next
        case False
        then have "om_find x (om_erase ?x (o_pending o')) = om_find x (o_pending o')"
          using om.erase_find [OF L(3), of x ?x] by simp
        then show ?thesis using False L(4) [of x j] i by auto
      qed
    qed simp_all
    show "blocks_inv c p (g_role ?G) (g_w ?G) (g_v ?G)"
      using blocks_inv_same [where role' = ?R, OF I(5) rb wr] by simp
    show "reqs_inv c p ?o1 ?G" "header_inv c ?o1 (g_v ?G)" "finish_inv c p ?o1 ?G"
      using F(1,3,4) by simp_all
    show "layout_inv dec c ?o1 ?G" if "\<not> hole c p (g_role ?G) (g_w ?G)"
      using F(2) that by simp
  qed
  then have "oinv cx dec c p P (?o1\<lparr>o_todo := rest\<rparr>) ?G"
    by (rule pop_todo [of _ _ _ _ _ _ _ np]) (use t nR in \<open>simp_all del: fun_upd_apply\<close>)
  moreover have "o'\<lparr>o_todo := rest, o_pending := om_erase ?x (o_pending o')\<rparr> = ?o1\<lparr>o_todo := rest\<rparr>"
    by (cases o') simp
  ultimately show ?thesis by (simp only:)
qed

lemma progress_inv:
  assumes inv: "oinv cx dec c p P o' G" and run: "progress_return junk P o' = (P', o'')"
  shows "\<exists>G'. oinv cx dec c p P' o'' G' \<and> P' = P \<and> o_sec o'' = o_sec o'
    \<and> (\<forall>j b. g_role G' j = Hand b \<longrightarrow> g_role G j = Hand b) \<and> (\<forall>j b. g_role G' j = Job b \<longleftrightarrow> g_role G j = Job b)
    \<and> modest c 0 o' o'' \<and> (o_todo o' \<noteq> [] \<longrightarrow> load o'' < load o')"
proof (cases "o_todo o'")
  case Nil
  then show ?thesis using inv run by (intro exI [of _ G]) (simp add: progress_return_def modest_def)
next
  case (Cons np rest)
  note I = oinvD [OF inv] and L = linksD [OF oinvD(4) [OF inv]] and B = blocksD [OF oinvD(5) [OF inv]]
  have sp: "o_srcPos o' = int (g_w G * 2 ^ r_k c)" using I(9) by (simp add: finish_inv_def)
  have e: "(P', o'') = HandleWrittenSectors_rest junk P (o'\<lparr>o_todo := rest\<rparr>) np"
    using run Cons by (simp add: progress_return_def)
  show ?thesis
  proof (cases "o_srcSize o' \<le> np")
    case True
    have F: "g_w G = blocks c" "\<not> dtw o'" "length (filter (\<lambda>x. o_srcSize o' \<le> x) rest) = 0"
      using I(9) Cons True unfolding finish_inv_def by (auto split: if_splits)
    have nr: "g_role G j \<noteq> Ready (g_w G)" for j
      using ready_block [OF inv, of j "g_w G"] F(1) by auto
    let ?o1 = "set_state (o'\<lparr>o_todo := rest\<rparr>) STATE_DATA_WRITTEN"
    have o'': "P' = P" "o'' = (if ixw o' then call ?o1 (CFinish True []) else ?o1)"
      using e True by (simp_all add: HandleWrittenSectors_rest_def CheckFinish_def)
    have px: "cso_prefix o'' = cso_prefix o'" by (simp add: o'' cso_prefix_def cso_header_def set_state_def call_def)
    have fl: "ixw o'' = ixw o'" "rdy o'' = rdy o'" "dtw o''"
      by (simp_all add: o'' call_def)
    have ot: "o_reqs o'' = o_reqs o'" "o_index o'' = o_index o'" "o_dstPos o'' = o_dstPos o'" "o_disk o'' = o_disk o'"
      "o_todo o'' = rest" "o_srcPos o'' = o_srcPos o'" "o_srcSize o'' = o_srcSize o'" "o_sec o'' = o_sec o'"
      "o_pending o'' = o_pending o'" "o_freeSectors o'' = o_freeSectors o'" "o_partial o'' = o_partial o'"
      by (simp_all add: o'' call_def set_state_def)
    have co: "conf c o''" using I(2) by (simp add: o'' conf_def call_def set_state_def)
    have cl: "o_calls o'' = o_calls o' @ (if ixw o' then [CFinish True []] else [])"
      by (simp add: o'' call_def set_state_def)
    have er: "(\<exists>e \<in> set (o_calls o''). is_error e) \<longleftrightarrow> (\<exists>e \<in> set (o_calls o'). is_error e)"
      by (auto simp: cl)
    have "finish_inv c p o'' G"
      unfolding finish_inv_def ot fl er
      using I(9) F Cons nr unfolding finish_inv_def
      by (elim conjE, intro conjI) (simp_all add: cl index_lost_def index_reqs_def ot fl)
    moreover have "header_inv c o'' (g_v G)" using I(8) unfolding header_inv_def index_reqs_def px ot fl .
    moreover have "mem_inv cx dec c p P o'' (g_role G)" using I(3) unfolding mem_inv_def ot .
    moreover have "links c p o'' (g_role G)" using I(4) unfolding links_def ot .
    moreover have "reqs_inv c p o'' G" using I(6) unfolding reqs_inv_def ot .
    moreover have "layout_inv dec c o'' G" if "\<not> hole c p (g_role G) (g_w G)"
      using I(7) [OF that] unfolding layout_inv_def ot px fl .
    ultimately have "oinv cx dec c p P' o'' G" unfolding oinv_def o''(1) using I(1,5) co by blast
    moreover have "modest c 0 o' o'' \<and> load o'' < load o'"
      using er by (simp add: modest_def load_def failed_def ot Cons)
    ultimately show ?thesis using o''(1) ot(8) by blast
  next
    case False
    then have lt: "np < o_srcSize o'" by simp
    have e2: "(P', o'') = HandleReadySector junk P (o'\<lparr>o_todo := rest\<rparr>) None"
      using e False by (simp add: HandleWrittenSectors_rest_def)
    show ?thesis
    proof (cases "\<exists>i. g_role G i = Ready (g_w G)")
      case False
      have nb: "om_find (o_srcPos o') (o_pending o') = None"
        using False unfolding sp by (cases "om_find (int (g_w G * 2 ^ r_k c)) (o_pending o')") (auto simp: L(4) mult_pow_inj simp del: of_nat_mult)
      have "P' = P \<and> o'' = o'\<lparr>o_todo := rest\<rparr>"
      proof (cases "om_begin (o_pending o')")
        case None
        then show ?thesis using e2 by (simp add: HandleReadySector_None_eq)
      next
        case (Some ki)
        obtain k i where ki: "ki = (k, i)" by (rule prod.exhaust)
        have f: "om_find k (o_pending o') = Some i" using om.begin_find [OF L(3)] Some ki by simp
        then obtain b where b: "g_role G i = Ready b" "k = int (b * 2 ^ r_k c)" unfolding L(4) by blast
        have u: "i < QUEUE_SIZE" by (rule role_used [OF I(4)]) (simp add: b)
        have "Pos (o_sec o' i) = k"
          using memD(2) [OF I(3) u] b by (auto simp: sec_ok_def done_ok_def Pos_def)
        then have "o_srcPos o' \<noteq> Pos (o_sec o' i)" using f nb by auto
        then show ?thesis using e2 Some ki by (simp add: HandleReadySector_None_eq)
      qed
      then show ?thesis using pop_todo [OF inv Cons lt] False
        by (intro exI [of _ G]) (auto simp: modest_def load_def failed_def Cons)
    next
      case True
      then obtain i where i: "g_role G i = Ready (g_w G)" by blast
      let ?x = "int (g_w G * 2 ^ r_k c)"
      have f: "om_find ?x (o_pending o') = Some i" unfolding L(4) using i by blast
      have least: "?x \<le> j" if m: "om_find j (o_pending o') \<noteq> None" for j
      proof -
        obtain a where "om_find j (o_pending o') = Some a" using m by blast
        then obtain b where b: "g_role G a = Ready b" "j = int (b * 2 ^ r_k c)" unfolding L(4) by blast
        have "g_w G \<le> b" using ready_block [OF inv b(1)] B(1) by linarith
        then have "g_w G * 2 ^ r_k c \<le> b * 2 ^ r_k c" by (rule mult_le_mono1)
        then show ?thesis unfolding b(2) by (simp only: of_nat_le_iff)
      qed
      obtain v where v: "om_begin (o_pending o') = Some (?x, v)"
        using om.begin_at [OF L(3) least] f by auto
      have "v = i" using om.begin_find [OF L(3) v] f by simp
      have u: "i < QUEUE_SIZE" by (rule role_used [OF I(4)]) (simp add: i)
      have "Pos (o_sec o' i) = ?x"
        using memD(2) [OF I(3) u] i by (auto simp: sec_ok_def done_ok_def Pos_def)
      then have w: "write_run junk P (o'\<lparr>o_todo := rest, o_pending := om_erase ?x (o_pending o')\<rparr>) i = (P', o'')"
        using e2 v \<open>v = i\<close> sp by (simp add: HandleReadySector_None_eq)
      let ?G = "G\<lparr>g_role := (g_role G)(i := Hand (g_w G))\<rparr>"
      have "g_role ?G i = Hand (g_w ?G)" by simp
      from write_run_inv [OF take_ready [OF inv i Cons lt] this w] obtain G' where
        G': "oinv cx dec c p P' o'' G'" "passed_on ?G i G'" "P' = P" "o_sec o'' = o_sec o'"
          "modest c 3 (o'\<lparr>o_todo := rest, o_pending := om_erase ?x (o_pending o')\<rparr>) o''" by auto
      have "modest c 0 o' o'' \<and> load o'' < load o'"
        using G'(5) om_erase_length [OF f] by (simp add: modest_def load_def failed_def Cons del: of_nat_mult)
      then show ?thesis
        using i G'(1-4) by (intro exI [of _ G']) (auto simp: passed_on_def split: if_splits)
    qed
  qed
qed

end
