(* ===== verification/OutputDone.thy ===== *)
theory OutputDone
  imports OutputSteps
begin

section \<open>A run of the writer: completions\<close>

subsection \<open>Reading a file after a write elsewhere\<close>

lemma file_read_keep:
  assumes "file_read f a n = B" and "length B = n" and "a + n \<le> off \<or> off + length bs \<le> a"
  shows "file_read (file_write f off bs) a n = B"
proof (cases "n = 0")
  case True
  then show ?thesis using assms by (simp add: file_read_def)
next
  case False
  have "length B = min n (length f - a)" using assms(1) by (auto simp: file_read_def)
  then have "a + n \<le> length f" using assms(2) False by linarith
  then show ?thesis using file_read_write_other [OF assms(3)] assms(1) by simp
qed

lemma file_read_extend:
  assumes "file_read f a (length B) = B"
  shows "file_read (file_write f (a + length B) bs) a (length B + length bs) = B @ bs"
proof -
  let ?g = "file_write f (a + length B) bs"
  have "file_read ?g a (length B) = B" by (rule file_read_keep [OF assms]) simp_all
  moreover have "file_read ?g (a + length B) (length bs) = bs" by (rule file_read_write_same)
  moreover have "file_read ?g a (length B + length bs) = file_read ?g a (length B) @ file_read ?g (a + length B) (length bs)"
    by (simp add: file_read_def take_add add.commute)
  ultimately show ?thesis by simp
qed

lemma prefix_below:
  assumes "conf_ok c" and "conf c o'" and "\<not> dec_mode c"
  shows "int (length (cso_prefix o')) \<le> first_pos c"
proof -
  have l: "length (cso_prefix o') = sizeof_CSOHeader + 4 * Suc (blocks c)"
    using length_cso_header_bytes [OF cso_header_wf_written, of o'] assms(2) by (simp add: cso_prefix_def conf_def)
  have b: "blocks c < 2 ^ 30 - 1" using assms(1) by (simp add: conf_ok_def)
  have "unat (of_nat (Suc (blocks c)) :: u32) = Suc (blocks c)"
    using b by (intro unat_of_nat_small) simp
  moreover have "(of_nat (blocks c) + 1 :: u32) = of_nat (Suc (blocks c))" by simp
  ultimately have "uint (of_nat (blocks c) + 1 :: u32) = int (Suc (blocks c))" by (metis uint_nat)
  then have "DstFirstSectorPos (r_flags c) (of_nat (blocks c)) = int (length (cso_prefix o'))"
    using assms by (simp add: DstFirstSectorPos_def conf_ok_def l)
  then show ?thesis using first_pos_aligned(3) [OF assms(1)] by simp
qed

subsection \<open>Giving sectors back\<close>

lemma release_sectors_inv:
  assumes "mem_inv cx dec c p P o' role" and "distinct is" and "set is \<subseteq> {..<QUEUE_SIZE}"
    and "release_sectors P o' is = (P', o'')"
  shows "\<exists>sec. o'' = o'\<lparr>o_sec := sec, o_freeSectors := o_freeSectors o' @ is\<rparr>
    \<and> mem_inv cx dec c p P' o'' (\<lambda>j. if j \<in> set is then Free else role j) \<and> frame P o' {} P' o''"
  using assms
proof (induction "is" arbitrary: P o' role)
  case Nil
  then show ?case by (intro exI [of _ "o_sec o'"]) (auto simp: frame_same)
next
  case (Cons i "is")
  have i: "i < QUEUE_SIZE" "i \<notin> set is" using Cons.prems(2,3) by auto
  obtain P1 s1 where r: "sector_Release P (o_sec o' i) = (P1, s1)" by (rule prod.exhaust)
  note M = memD [OF Cons.prems(1)]
  have S: "held (o_sec o' i) \<subseteq> wild P" "apart (o_sec o' i)" "static_ok cx dec c (o_sec o' i)" "pool_inv P"
    using M(1) M(2) [OF i(1)] by (simp_all add: sec_ok_def pool_ok_def)
  note R = Release_idle [OF S(4,1,2,3) r]
  let ?o1 = "o'\<lparr>o_sec := (o_sec o')(i := s1), o_freeSectors := o_freeSectors o' @ [i]\<rparr>"
  have m1: "mem_inv cx dec c p P1 ?o1 (role(i := Free))" and f1: "frame P o' {} P1 ?o1"
    using mem_inv_step [OF Cons.prems(1) i(1), of "{}" P1 s1 p Free ?o1] R by simp_all
  have rest: "release_sectors P1 ?o1 is = (P', o'')" using Cons.prems(4) r by simp
  have "distinct is" "set is \<subseteq> {..<QUEUE_SIZE}" using Cons.prems(2,3) by simp_all
  from Cons.IH [OF m1 this rest] obtain sec where
    o'': "o'' = ?o1\<lparr>o_sec := sec, o_freeSectors := o_freeSectors ?o1 @ is\<rparr>"
    and m2: "mem_inv cx dec c p P' o'' (\<lambda>j. if j \<in> set is then Free else (role(i := Free)) j)"
    and f2: "frame P1 ?o1 {} P' o''"
    by blast
  have "(\<lambda>j. if j \<in> set is then Free else (role(i := Free)) j) = (\<lambda>j. if j \<in> set (i # is) then Free else role j)"
    by (auto simp: fun_eq_iff)
  then have "mem_inv cx dec c p P' o'' (\<lambda>j. if j \<in> set (i # is) then Free else role j)" using m2 by simp
  moreover have "frame P o' {} P' o''" using frame_trans [OF f1 f2] by simp
  ultimately show ?case using o'' by (intro exI [of _ sec]) simp
qed

text \<open>The sectors of a write after it: free.\<close>

definition free_roles :: "(nat \<Rightarrow> role) \<Rightarrow> nat \<Rightarrow> role" where
  "free_roles role = (\<lambda>j. if \<exists>b. role j = Writing b then Free else role j)"

lemma free_roles_block:
  "role_block (free_roles role j) = Some b \<longleftrightarrow> role_block (role j) = Some b \<and> role j \<noteq> Writing b"
  by (cases "role j") (auto simp: free_roles_def)

lemma free_roles_not [simp]:
  "free_roles role j \<noteq> Writing b" "free_roles role j = Ready b \<longleftrightarrow> role j = Ready b"
  "free_roles role j = Job b \<longleftrightarrow> role j = Job b" "free_roles role j = Hand b \<longleftrightarrow> role j = Hand b"
  "free_roles role j = Filling b \<longleftrightarrow> role j = Filling b" "free_roles role j = Out \<longleftrightarrow> role j = Out"
  "free_roles role j = Free \<longleftrightarrow> role j = Free \<or> (\<exists>b. role j = Writing b)"
  by (auto simp: free_roles_def)

lemma data_released:
  assumes inv: "oinv cx dec c p P o' G" and w: "DataWrite secs np tw off bytes \<in> set (o_reqs o')"
    and o1: "o_sec o1 = o_sec o'" "o_freeSectors o1 = o_freeSectors o'" "o_partial o1 = o_partial o'" "o_pending o1 = o_pending o'"
    and rel: "release_sectors P o1 secs = (P', o2)"
  shows "\<exists>sec. o2 = o1\<lparr>o_sec := sec, o_freeSectors := o_freeSectors o1 @ secs\<rparr>
    \<and> mem_inv cx dec c p P' o2 (free_roles (g_role G)) \<and> links c p o2 (free_roles (g_role G)) \<and> frame P o' {} P' o2"
proof -
  note I = oinvD [OF inv] and L = linksD [OF oinvD(4) [OF inv]]
  note D = data_reqD [OF I(6) w]
  have sub: "set secs \<subseteq> {..<QUEUE_SIZE}"
  proof
    fix i assume "i \<in> set secs"
    then obtain b where "g_role G i = Writing b" using D(3) by blast
    then show "i \<in> {..<QUEUE_SIZE}" using role_used [OF I(4), of i b] by simp
  qed
  have m: "mem_inv cx dec c p P o1 (g_role G)" using I(3) by (simp add: mem_inv_def o1)
  from release_sectors_inv [OF m D(2) sub rel] obtain sec where
    o2: "o2 = o1\<lparr>o_sec := sec, o_freeSectors := o_freeSectors o1 @ secs\<rparr>"
    and m2: "mem_inv cx dec c p P' o2 (\<lambda>j. if j \<in> set secs then Free else g_role G j)" and f2: "frame P o1 {} P' o2"
    by blast
  have e: "(\<lambda>j. if j \<in> set secs then Free else g_role G j) = free_roles (g_role G)"
    unfolding free_roles_def D(3) by simp
  have "set secs \<inter> {i. g_role G i = Free} = {}" unfolding D(3) by auto
  then have "distinct (o_freeSectors o2)" "set (o_freeSectors o2) = {i. free_roles (g_role G) i = Free}"
    using L(1,2) D(2,3) by (auto simp: o2 o1)
  then have "links c p o2 (free_roles (g_role G))"
    using I(4) unfolding links_def by (simp add: o2 o1)
  moreover have "frame P o' {} P' o2" using f2 by (simp add: frame_def owned_def o1)
  ultimately show ?thesis using o2 m2 unfolding e by blast
qed

lemma filter_remove: "\<not> Q w \<Longrightarrow> filter Q (remove1 w xs) = filter Q xs"
  by (induction xs) auto

lemma filter_single:
  assumes "length (filter Q xs) \<le> 1" and "w \<in> set xs" and "Q w"
  shows "filter Q (remove1 w xs) = []"
proof -
  have "w \<in> set (filter Q xs)" using assms(2,3) by simp
  then have "filter Q xs = [w]" using assms(1) by (cases "filter Q xs") auto
  then show ?thesis by (simp add: filter_remove1)
qed


subsection \<open>A data write completes\<close>

definition write_disk :: "u8 list \<Rightarrow> int \<Rightarrow> int \<Rightarrow> u8 list \<Rightarrow> u8 list" where
  "write_disk d off result bytes = (if result < 0 then d else file_write d (nat off) (take (nat result) bytes))"

definition settled :: "ghost \<Rightarrow> ghost \<Rightarrow> bool" where
  "settled G G' \<longleftrightarrow> (\<forall>j b. g_role G' j = Hand b \<longrightarrow> g_role G j = Hand b)
     \<and> (\<forall>j b. g_role G' j = Job b \<longleftrightarrow> g_role G j = Job b)"

lemma data_fails_inv:
  assumes inv: "oinv cx dec c p P o' G" and w: "DataWrite secs np tw off bytes \<in> set (o_reqs o')" and r: "result \<noteq> tw"
    and run: "write_done P o' (DataWrite secs np tw off bytes) result = (P', o'')"
  shows "\<exists>G'. oinv cx dec c p P' o'' G' \<and> frame P o' {} P' o'' \<and> settled G G'"
proof -
  note I = oinvD [OF inv] and B = blocksD [OF oinvD(5) [OF inv]]
  note D = data_reqD [OF I(6) w]
  let ?q = "DataWrite secs np tw off bytes" and ?R = "free_roles (g_role G)"
  define o1 where "o1 = o'\<lparr>o_reqs := remove1 ?q (o_reqs o'), o_disk := write_disk (o_disk o') off result bytes\<rparr>"
  obtain P1 o2 where rel: "release_sectors P o1 secs = (P1, o2)" by (rule prod.exhaust)
  have e: "P' = P1" "o'' = call o2 (CFinish False ''Data could not be written to output file'')"
    using run r rel by (simp_all add: write_done_def HandleWrittenSectors_def o1_def write_disk_def Let_def)
  obtain sec where o2: "o2 = o1\<lparr>o_sec := sec, o_freeSectors := o_freeSectors o1 @ secs\<rparr>"
    and m: "mem_inv cx dec c p P1 o2 ?R" and l: "links c p o2 ?R" and f: "frame P o' {} P1 o2"
    using data_released [OF inv w _ _ _ _ rel] by (auto simp: o1_def)
  let ?G = "G\<lparr>g_role := ?R\<rparr>"
  have ot: "o_todo o'' = o_todo o'" "o_srcPos o'' = o_srcPos o'" "o_srcSize o'' = o_srcSize o'" "o_state o'' = o_state o'"
    "o_index o'' = o_index o'" "o_reqs o'' = remove1 ?q (o_reqs o')"
    "o_calls o'' = o_calls o' @ [CFinish False ''Data could not be written to output file'']" "o_sec o'' = o_sec o2"
    by (simp_all add: e o2 o1_def call_def)
  have co: "conf c o''" using I(2) by (simp add: e o2 o1_def call_def conf_def)
  have px: "cso_prefix o'' = cso_prefix o'" by (rule cso_prefix_cong [OF I(2) co ot(5)])
  have ir: "index_reqs o'' = index_reqs o'" unfolding index_reqs_def ot by (rule filter_remove) simp
  have hole: "hole c p ?R (g_w G)"
    unfolding hole_def
  proof (intro exI [of _ "g_w G"] conjI order_refl allI)
    have "g_w G * per_block c < g_v G * per_block c" using D(1) by simp
    then show "g_w G * per_block c < p" using B(2) by linarith
    show "role_block (?R i) \<noteq> Some (g_w G)" for i
      using B(6) [of i "g_w G"] D(1) unfolding free_roles_block by auto
  qed
  have "oinv cx dec c p P' o'' ?G"
    unfolding oinv_def
  proof (intro conjI impI)
    show "conf_ok c" "conf c o''" by (fact I(1), fact co)
    show "mem_inv cx dec c p P' o'' (g_role ?G)" using m by (simp add: e mem_inv_def call_def)
    show "links c p o'' (g_role ?G)" using l by (simp add: e links_def call_def)
    show "blocks_inv c p (g_role ?G) (g_w ?G) (g_v ?G)"
      unfolding blocks_inv_def using B free_roles_block by simp blast
    show "reqs_inv c p o'' ?G"
    proof (rule reqs_inv_none)
      show "filter is_data (o_reqs o'') = []"
        unfolding ot by (rule filter_single [OF _ w]) (use I(6) in \<open>simp_all add: reqs_inv_def\<close>)
    qed simp
    show "layout_inv dec c o'' ?G" if "\<not> hole c p (g_role ?G) (g_w ?G)" using hole that by simp
    show "header_inv c o'' (g_v ?G)" using I(8) unfolding header_inv_def ir px ot by auto
    show "finish_inv c p o'' ?G"
    proof (rule finish_todo [OF I(9)])
      show "g_role ?G j \<noteq> Ready (g_w G)" for j
        using ready_block [OF inv, of j "g_w G"] D(1) by auto
    qed (use hole in \<open>simp_all add: ot\<close>)
  qed
  moreover have "frame P o' {} P' o''" using f by (simp add: e frame_def owned_def call_def)
  moreover have "settled G ?G" by (simp add: settled_def)
  ultimately show ?thesis by blast
qed

lemma data_written_layout:
  assumes inv: "oinv cx dec c p P o' G" and w: "DataWrite secs np tw off bytes \<in> set (o_reqs o')"
    and h: "\<not> hole c p (g_role G) (g_w G)" and co: "conf c o''" and r: "\<And>j. role' j = Lost \<Longrightarrow> g_role G j = Lost"
    and o'': "o_disk o'' = write_disk (o_disk o') off tw bytes" "o_dstPos o'' = o_dstPos o' + tw" "o_index o'' = o_index o'"
      "o_state o'' = o_state o'"
  shows "layout_inv dec c o'' (G\<lparr>g_role := role', g_w := g_v G\<rparr>)"
proof -
  note I = oinvD [OF inv]
  let ?C = "g_C G" and ?w = "g_w G" and ?v = "g_v G"
  have D: "off = pos_of c ?C ?w" "tw = int (length bytes)" "body c ?C ?w @ bytes = body c ?C ?v"
    using data_reqD(6) [OF I(6) w h] by blast+
  note lay = I(7) [OF h, unfolded layout_inv_def]
  have fp: "0 \<le> first_pos c" by (rule first_pos_aligned(2) [OF I(1)])
  have n: "nat off = nat (first_pos c) + length (body c ?C ?w)"
    using fp by (simp add: D(1) pos_of_def nat_add_distrib)
  have d: "o_disk o'' = file_write (o_disk o') (nat (first_pos c) + length (body c ?C ?w)) bytes"
    by (simp add: o'' write_disk_def n D(2))
  have rd: "file_read (o_disk o'') (nat (first_pos c)) (length (body c ?C ?v)) = body c ?C ?v"
    using file_read_extend [of "o_disk o'" "nat (first_pos c)" "body c ?C ?w" bytes] lay
    unfolding d D(3) [symmetric] by simp
  have pos: "o_dstPos o'' = pos_of c ?C ?v"
    using lay by (simp add: o'' D(2) pos_of_def D(3) [symmetric])
  have px: "cso_prefix o'' = cso_prefix o'" by (rule cso_prefix_cong [OF I(2) co o''(3)])
  have hd: "take (length (cso_prefix o')) (o_disk o'') = cso_prefix o'" if x: "ixw o'" "\<not> dec_mode c"
  proof -
    have "file_read (o_disk o') 0 (length (cso_prefix o')) = cso_prefix o'"
      using lay x by (simp add: file_read_def)
    then have "file_read (o_disk o'') 0 (length (cso_prefix o')) = cso_prefix o'"
      unfolding d by (rule file_read_keep) (use prefix_below [OF I(1,2) x(2)] in \<open>auto simp: nat_le_iff le_nat_iff\<close>)
    then show ?thesis by (simp add: file_read_def)
  qed
  have "length (o_disk o'') \<le> nat (pos_of c ?C ?v)"
  proof -
    have "nat (first_pos c) + length (body c ?C ?w) + length bytes = nat (pos_of c ?C ?v)"
      using fp by (simp add: pos_of_def nat_add_distrib D(3) [symmetric])
    moreover have "length (o_disk o') \<le> nat (first_pos c) + length (body c ?C ?w)"
      using lay fp by (simp add: pos_of_def) linarith
    ultimately show ?thesis unfolding d length_file_write by simp
  qed
  then have "int (length (o_disk o'')) \<le> pos_of c ?C ?v" using fp by (simp add: pos_of_def)
  then show ?thesis
    using lay rd pos hd r unfolding layout_inv_def px o''(3,4) by (auto simp del: of_nat_le_iff)
qed

lemma data_written_inv:
  assumes inv: "oinv cx dec c p P o' G" and w: "DataWrite secs np tw off bytes \<in> set (o_reqs o')"
    and run: "write_done P o' (DataWrite secs np tw off bytes) tw = (P', o'')"
  shows "\<exists>G'. oinv cx dec c p P' o'' G' \<and> frame P o' {} P' o'' \<and> settled G G'"
proof -
  note I = oinvD [OF inv] and B = blocksD [OF oinvD(5) [OF inv]]
  note D = data_reqD [OF I(6) w]
  let ?q = "DataWrite secs np tw off bytes" and ?R = "free_roles (g_role G)"
  define o1 where "o1 = o'\<lparr>o_reqs := remove1 ?q (o_reqs o'), o_disk := write_disk (o_disk o') off tw bytes\<rparr>"
  obtain P1 o2 where rel: "release_sectors P o1 secs = (P1, o2)" by (rule prod.exhaust)
  obtain sec where o2: "o2 = o1\<lparr>o_sec := sec, o_freeSectors := o_freeSectors o1 @ secs\<rparr>"
    and m: "mem_inv cx dec c p P1 o2 ?R" and l: "links c p o2 ?R" and f: "frame P o' {} P1 o2"
    using data_released [OF inv w _ _ _ _ rel] by (auto simp: o1_def)
  let ?call = "CProgress np (o_srcSize o') (o_dstPos o' + tw)"
  have e: "P' = P1" "o'' = o2\<lparr>o_srcPos := np, o_dstPos := o_dstPos o' + tw, o_calls := o_calls o' @ [?call], o_todo := np # o_todo o'\<rparr>"
    using run rel by (simp_all add: write_done_def HandleWrittenSectors_def o1_def write_disk_def Let_def o2 call_def)
  let ?G = "G\<lparr>g_role := ?R, g_w := g_v G\<rparr>"
  have ot: "o_todo o'' = np # o_todo o'" "o_srcPos o'' = np" "o_srcSize o'' = o_srcSize o'" "o_state o'' = o_state o'"
    "o_index o'' = o_index o'" "o_reqs o'' = remove1 ?q (o_reqs o')" "o_calls o'' = o_calls o' @ [?call]" "o_sec o'' = o_sec o2"
    "o_disk o'' = write_disk (o_disk o') off tw bytes" "o_dstPos o'' = o_dstPos o' + tw"
    by (simp_all add: e o2 o1_def)
  have co: "conf c o''" using I(2) by (simp add: e o2 o1_def conf_def)
  have px: "cso_prefix o'' = cso_prefix o'" by (rule cso_prefix_cong [OF I(2) co ot(5)])
  have ir: "index_reqs o'' = index_reqs o'" unfolding index_reqs_def ot by (rule filter_remove) simp
  have hole: "hole c p ?R (g_v G) \<longleftrightarrow> hole c p (g_role G) (g_w G)"
    unfolding hole_def
  proof
    assume "\<exists>b\<ge>g_v G. b * per_block c < p \<and> (\<forall>i. role_block (?R i) \<noteq> Some b)"
    then obtain b where b: "g_v G \<le> b" "b * per_block c < p" "\<forall>i. role_block (?R i) \<noteq> Some b" by blast
    have "role_block (g_role G i) \<noteq> Some b" for i
    proof
      assume s: "role_block (g_role G i) = Some b"
      then have "g_role G i = Writing b" using b(3) unfolding free_roles_block by blast
      then show False using B(5) [of i b] b(1) by simp
    qed
    then show "\<exists>b\<ge>g_w G. b * per_block c < p \<and> (\<forall>i. role_block (g_role G i) \<noteq> Some b)"
      using b B(1) by (intro exI [of _ b]) auto
  next
    assume "\<exists>b\<ge>g_w G. b * per_block c < p \<and> (\<forall>i. role_block (g_role G i) \<noteq> Some b)"
    then obtain b where b: "g_w G \<le> b" "b * per_block c < p" "\<forall>i. role_block (g_role G i) \<noteq> Some b" by blast
    have "g_v G \<le> b"
    proof (rule ccontr)
      assume "\<not> g_v G \<le> b"
      then obtain i where "g_role G i = Writing b" using D(5) [of b] b(1) by auto
      then show False using b(3) by (metis role_block.simps(5))
    qed
    then show "\<exists>b\<ge>g_v G. b * per_block c < p \<and> (\<forall>i. role_block (?R i) \<noteq> Some b)"
      using b free_roles_block by blast
  qed
  have "oinv cx dec c p P' o'' ?G"
    unfolding oinv_def
  proof (intro conjI impI)
    show "conf_ok c" "conf c o''" by (fact I(1), fact co)
    show "mem_inv cx dec c p P' o'' (g_role ?G)" using m by (simp add: e mem_inv_def)
    show "links c p o'' (g_role ?G)" using l by (simp add: e links_def)
    show "blocks_inv c p (g_role ?G) (g_w ?G) (g_v ?G)"
      unfolding blocks_inv_def using B free_roles_block by simp blast
    show "reqs_inv c p o'' ?G"
    proof (rule reqs_inv_none)
      show "filter is_data (o_reqs o'') = []"
        unfolding ot by (rule filter_single [OF _ w]) (use I(6) in \<open>simp_all add: reqs_inv_def\<close>)
    qed simp
    show "layout_inv dec c o'' ?G" if "\<not> hole c p (g_role ?G) (g_w ?G)"
    proof (rule data_written_layout [OF inv w _ co _ ot(9,10,5,4)])
      show "\<not> hole c p (g_role G) (g_w G)" using that hole by simp
      show "g_role G j = Lost" if "?R j = Lost" for j using that by (auto simp: free_roles_def split: if_splits)
    qed
    show "header_inv c o'' (g_v ?G)" using I(8) unfolding header_inv_def ir px ot by auto
    show "finish_inv c p o'' ?G"
    proof -
      have vb: "g_v G \<le> blocks c"
      proof -
        have "g_v G * per_block c \<le> blocks c * per_block c" using B(2,3) by linarith
        then show ?thesis by simp
      qed
      then have lt: "g_w G \<noteq> blocks c" using D(1) by simp
      have F: "o_srcPos o' = int (g_w G * 2 ^ r_k c)" "\<forall>x \<in> set (o_todo o'). x \<le> o_srcPos o'"
        "filter (\<lambda>x. o_srcSize o' \<le> x) (o_todo o') = []" "\<not> dtw o'"
        "filter is_success (o_calls o') = []"
        "(\<exists>e \<in> set (o_calls o'). is_error e) \<longleftrightarrow> hole c p (g_role G) (g_w G) \<or> index_lost o'"
        using I(9) lt unfolding finish_inv_def by (auto split: if_splits)
      have "o_srcPos o' \<le> np"
      proof -
        have "g_w G * 2 ^ r_k c \<le> g_v G * 2 ^ r_k c" using B(1) by (rule mult_le_mono1)
        then show ?thesis unfolding F(1) D(4) by (simp only: of_nat_le_iff)
      qed
      then have t: "\<forall>x \<in> set (np # o_todo o'). x \<le> np" using F(2) by auto
      have fin: "o_srcSize o' \<le> np \<longleftrightarrow> g_v G = blocks c"
      proof -
        have "g_v G < blocks c \<longleftrightarrow> g_v G * 2 ^ r_k c < length (r_img c)" by (rule blocks_iff)
        moreover have "o_srcSize o' = int (length (r_img c))" using I(2) by (simp add: conf_def)
        ultimately show ?thesis using vb unfolding D(4) by linarith
      qed
      have "index_lost o'' \<longleftrightarrow> index_lost o'" unfolding index_lost_def ir ot ..
      then show ?thesis
        unfolding finish_inv_def ot ghost.simps hole using F t fin D(4) by (auto simp: hole)
    qed
  qed
  moreover have "frame P o' {} P' o''" using f by (simp add: e frame_def owned_def)
  moreover have "settled G ?G" by (simp add: settled_def)
  ultimately show ?thesis by blast
qed


subsection \<open>The index write completes\<close>

lemma index_write_done:
  assumes inv: "oinv cx dec c p P o' G" and w: "IndexWrite n bytes \<in> set (o_reqs o')"
    and run: "write_done P o' (IndexWrite n bytes) result = (P', o'')"
  shows "\<exists>G'. oinv cx dec c p P' o'' G' \<and> frame P o' {} P' o'' \<and> settled G G'"
proof -
  note I = oinvD [OF inv]
  let ?q = "IndexWrite n bytes" and ?ok = "result = n"
  have "?q \<in> set (index_reqs o')" using w by (simp add: index_reqs_def)
  then have H: "index_reqs o' = [?q]" "n = int (length bytes)" "bytes = cso_prefix o'" "rdy o'" "\<not> ixw o'" "\<not> dec_mode c"
    using I(8) unfolding header_inv_def by auto
  let ?disk = "write_disk (o_disk o') 0 result bytes"
  define o1 where "o1 = o'\<lparr>o_reqs := remove1 ?q (o_reqs o'), o_disk := ?disk\<rparr>"
  have e: "P' = P" "o'' = (if ?ok then CheckFinish (set_state o1 STATE_INDEX_WRITTEN)
      else call o1 (CFinish False ''Unable to write header data''))"
    using run by (auto simp: write_done_def o1_def write_disk_def Let_def split: if_splits)
  have st: "rdy o'' = rdy o'" "ixw o'' \<longleftrightarrow> ?ok" "dtw o'' = dtw o'"
    using H(5) by (auto simp: e CheckFinish_def call_def o1_def)
  have cl: "o_calls o'' = o_calls o' @ (if ?ok then (if dtw o' then [CFinish True []] else [])
      else [CFinish False ''Unable to write header data''])"
    by (simp add: e CheckFinish_def call_def o1_def) (simp add: set_state_def)
  have ot: "o_todo o'' = o_todo o'" "o_srcPos o'' = o_srcPos o'" "o_srcSize o'' = o_srcSize o'" "o_dstPos o'' = o_dstPos o'"
    "o_index o'' = o_index o'" "o_reqs o'' = remove1 ?q (o_reqs o')" "o_sec o'' = o_sec o'" "o_disk o'' = ?disk"
    "o_pending o'' = o_pending o'" "o_freeSectors o'' = o_freeSectors o'" "o_partial o'' = o_partial o'"
    by (simp_all add: e o1_def CheckFinish_def call_def set_state_def)
  have co: "conf c o''" using I(2) by (simp add: e o1_def CheckFinish_def call_def set_state_def conf_def)
  have px: "cso_prefix o'' = cso_prefix o'" by (rule cso_prefix_cong [OF I(2) co ot(5)])
  have ir: "index_reqs o'' = []"
    using H(1) unfolding index_reqs_def ot by (simp add: filter_remove1)
  have dr: "filter is_data (o_reqs o'') = filter is_data (o_reqs o')"
    unfolding ot by (rule filter_remove) simp
  have keep: "file_read ?disk (nat (first_pos c)) k = B" if "file_read (o_disk o') (nat (first_pos c)) k = B" "length B = k" for B k
  proof (cases "result < 0")
    case True
    then show ?thesis using that by (simp add: write_disk_def)
  next
    case False
    have "length (take (nat result) bytes) \<le> nat (first_pos c)"
      using prefix_below [OF I(1,2) H(6)] H(3) by simp
    then have "file_read (file_write (o_disk o') (nat 0) (take (nat result) bytes)) (nat (first_pos c)) k = B"
      by (intro file_read_keep [OF that]) simp
    then show ?thesis using False by (simp add: write_disk_def)
  qed
  have hd: "take (length bytes) ?disk = bytes" if ?ok
    using that H(2) file_read_write_same [of "o_disk o'" 0 bytes] by (simp add: write_disk_def file_read_def)
  have dl: "int (length ?disk) \<le> pos_of c (g_C G) (g_w G)" if l: "int (length (o_disk o')) \<le> pos_of c (g_C G) (g_w G)"
  proof -
    have "length (take (nat result) bytes) \<le> nat (first_pos c)"
      using prefix_below [OF I(1,2) H(6)] H(3) by simp
    then have "int (length (take (nat result) bytes)) \<le> pos_of c (g_C G) (g_w G)"
      using first_pos_aligned(2) [OF I(1)] by (simp add: pos_of_def)
    then show ?thesis using l by (simp add: write_disk_def length_file_write max_def)
  qed
  have "oinv cx dec c p P' o'' G"
    unfolding oinv_def e(1)
  proof (intro conjI impI)
    show "conf_ok c" "conf c o''" "blocks_inv c p (g_role G) (g_w G) (g_v G)" by (fact I(1), fact co, fact I(5))
    show "mem_inv cx dec c p P o'' (g_role G)" using I(3) unfolding mem_inv_def ot .
    show "links c p o'' (g_role G)" using I(4) unfolding links_def ot .
    have "set (o_reqs o'') \<subseteq> set (o_reqs o')" unfolding ot by (rule set_remove1_subset)
    then show "reqs_inv c p o'' G" using I(6) unfolding reqs_inv_def dr by blast
    show "layout_inv dec c o'' G" if h: "\<not> hole c p (g_role G) (g_w G)"
      using I(7) [OF h] keep hd H(3) dl unfolding layout_inv_def ot st px by auto
    show "header_inv c o'' (g_v G)" using I(8) H(4) unfolding header_inv_def ir st by auto
    have err: "(\<exists>e \<in> set (o_calls o''). is_error e) \<longleftrightarrow> hole c p (g_role G) (g_w G) \<or> index_lost o''"
    proof -
      have "(\<exists>e \<in> set (o_calls o'). is_error e) \<longleftrightarrow> hole c p (g_role G) (g_w G)"
        using I(9) H(1) unfolding finish_inv_def index_lost_def by simp
      then show ?thesis
        unfolding index_lost_def ir st cl using H(4) by (cases ?ok) auto
    qed
    show "finish_inv c p o'' G"
      unfolding finish_inv_def ot st err
      using I(9) H(5) unfolding finish_inv_def by (elim conjE, intro conjI) (simp_all add: cl)
  qed
  then show ?thesis using frame_same [OF ot(7), of P] e(1) by (intro exI [of _ G]) (simp add: settled_def)
qed

lemma write_done_inv:
  assumes inv: "oinv cx dec c p P o' G" and w: "q \<in> set (o_reqs o')"
    and run: "write_done P o' q result = (P', o'')"
  shows "\<exists>G'. oinv cx dec c p P' o'' G' \<and> frame P o' {} P' o'' \<and> settled G G'"
proof (cases q)
  case (IndexWrite n bytes)
  then show ?thesis using index_write_done [OF inv] w run by simp
next
  case (DataWrite secs np tw off bytes)
  then show ?thesis
    using data_written_inv [OF inv] data_fails_inv [OF inv] w run by (cases "result = tw") simp_all
qed

text \<open>A completed write costs nothing more; one that wrote everything reports no error.\<close>

lemma release_sectors_rest: "release_sectors P o' secs = (P', o'') \<Longrightarrow> \<exists>sec f. o'' = o'\<lparr>o_sec := sec, o_freeSectors := f\<rparr>"
proof (induction secs arbitrary: P o')
  case Nil
  then show ?case by (intro exI [of _ "o_sec o'"] exI [of _ "o_freeSectors o'"]) simp
next
  case (Cons i secs)
  obtain P1 s1 where r: "sector_Release P (o_sec o' i) = (P1, s1)" by (rule prod.exhaust)
  from Cons.IH [of P1] Cons.prems r show ?case by fastforce
qed

lemma req_removed: "q \<in> set qs \<Longrightarrow> sum_list (map req_cost qs) = req_cost q + sum_list (map req_cost (remove1 q qs))"
  by (induction qs) auto

fun full_result :: "wreq \<Rightarrow> int" where
  "full_result (DataWrite secs np tw off bytes) = tw"
| "full_result (IndexWrite n bytes) = n"

lemma write_done_cost:
  assumes w: "q \<in> set (o_reqs o')" and run: "write_done P o' q result = (P', o'')"
  shows "load o'' < load o' \<and> (result = full_result q \<longrightarrow> modest c 0 o' o'')"
proof (cases q)
  case (IndexWrite n bytes)
  show ?thesis
    using run req_removed [OF w]
    by (auto simp: IndexWrite write_done_def Let_def load_def failed_def modest_def CheckFinish_def call_def set_state_def
      split: if_splits)
next
  case (DataWrite secs np tw off bytes)
  define o1 where "o1 = o'\<lparr>o_reqs := remove1 q (o_reqs o'), o_disk := (if result < 0 then o_disk o'
     else file_write (o_disk o') (nat off) (take (nat result) bytes))\<rparr>"
  obtain P1 o2 where rel: "release_sectors P o1 secs = (P1, o2)" by (rule prod.exhaust)
  obtain sec f where o2: "o2 = o1\<lparr>o_sec := sec, o_freeSectors := f\<rparr>" using release_sectors_rest [OF rel] by blast
  have o1: "o_reqs o1 = remove1 q (o_reqs o')" "o_pending o1 = o_pending o'" "o_todo o1 = o_todo o'" "o_calls o1 = o_calls o'"
    by (simp_all add: o1_def)
  have "o'' = (if result \<noteq> tw then call o2 (CFinish False ''Data could not be written to output file'')
      else snd (HandleWrittenSectors P o1 True secs np tw))"
    using run rel unfolding write_done_def DataWrite wreq.case o1_def [unfolded DataWrite, symmetric]
    by (auto simp: HandleWrittenSectors_def Let_def split: prod.splits if_splits)
  then show ?thesis
    using req_removed [OF w] rel
    by (auto simp: HandleWrittenSectors_def Let_def load_def failed_def modest_def call_def DataWrite o2 o1 [unfolded DataWrite])
qed

subsection \<open>A worker's job completes\<close>

lemma of_nat_block:
  assumes "conf_ok c" and "a < blocks c" and "b < blocks c"
  shows "(of_nat a :: u32) = of_nat b \<longleftrightarrow> a = b"
proof -
  have "a < 2 ^ LENGTH(32)" "b < 2 ^ LENGTH(32)" using assms by (simp_all add: conf_ok_def)
  then have "unat (of_nat a :: u32) = a" "unat (of_nat b :: u32) = b" by (simp_all add: unat_of_nat_small)
  then show ?thesis by metis
qed

lemma begun_block:
  assumes "oinv cx dec c p P o' G" and "role_block (g_role G i) = Some b"
  shows "b < blocks c" "i < QUEUE_SIZE" "b * per_block c < p"
proof -
  note I = oinvD [OF assms(1)]
  show u: "i < QUEUE_SIZE" by (rule role_used [OF I(4) assms(2)])
  have "role_ok dec c p P (o_sec o' i) (g_role G i)" using memD(2) [OF I(3) u] by (simp add: sec_ok_def)
  then have "b * per_block c < p \<or> Suc b * per_block c \<le> p"
    using assms(2) by (cases "g_role G i") auto
  moreover have "b * per_block c < Suc b * per_block c" by simp
  ultimately have "b * per_block c < p" by linarith
  then show "b * per_block c < p" .
  then have "b * per_block c < blocks c * per_block c" using blocksD(3) [OF I(5)] by linarith
  then show "b < blocks c" by simp
qed

text \<open>The links when a block that was being compressed is taken in hand or lost.\<close>

lemma links_hand:
  assumes inv: "oinv cx dec c p P o' G" and i: "g_role G i = Job b" and r: "r = Hand b \<or> r = Lost"
    and e: "o_freeSectors o'' = o_freeSectors o'" "o_pending o'' = o_pending o'"
    and pt: "\<And>x. x \<noteq> of_nat b \<Longrightarrow> o_partial o'' x = o_partial o' x" "o_partial o'' (of_nat b) = o_partial o' (of_nat b) \<or> o_partial o'' (of_nat b) = None"
  shows "links c p o'' ((g_role G)(i := r))"
proof -
  note I = oinvD [OF inv] and L = linksD [OF oinvD(4) [OF inv]] and B = blocksD [OF oinvD(5) [OF inv]]
  have rb: "role_block (g_role G i) = Some b" using i by auto
  have fr: "((g_role G)(i := r)) j = Free \<longleftrightarrow> g_role G j = Free" "((g_role G)(i := r)) j = Ready d \<longleftrightarrow> g_role G j = Ready d"
    "((g_role G)(i := r)) j = Out \<longleftrightarrow> g_role G j = Out" "((g_role G)(i := r)) j = Filling d \<longleftrightarrow> g_role G j = Filling d" for j d
    using i r by auto
  show ?thesis
    unfolding links_def fr e
  proof (intro conjI allI impI)
    show "o_partial o'' (of_nat d) = Some j" if f: "g_role G j = Filling d" for j d
    proof -
      have ji: "j \<noteq> i" using f i by auto
      have rd: "role_block (g_role G j) = Some d" using f by simp
      then have "d \<noteq> b" using B(4) [OF rd, of i] rb ji by auto
      then have "(of_nat d :: u32) \<noteq> of_nat b"
        using of_nat_block [OF I(1) begun_block(1) [OF inv rd] begun_block(1) [OF inv rb]] by simp
      then show ?thesis using pt(1) L(5) [OF f] by simp
    qed
    show "unat x * per_block c < p" if h: "o_partial o'' x \<noteq> None" for x
    proof -
      have "o_partial o' x \<noteq> None" using h pt by (cases "x = of_nat b") auto
      then show ?thesis using L(6) [of x] by blast
    qed
  qed (use L in blast)+
qed

lemma job_fails_inv:
  assumes inv: "oinv cx dec c p P o' G" and i: "g_role G i = Job b"
  shows "oinv cx dec c p P (call o' (CFinish False msg)) (G\<lparr>g_role := (g_role G)(i := Lost)\<rparr>)"
proof -
  note I = oinvD [OF inv] and B = blocksD [OF oinvD(5) [OF inv]]
  let ?R = "(g_role G)(i := Lost)" and ?o = "call o' (CFinish False msg)"
  let ?G = "G\<lparr>g_role := ?R\<rparr>"
  have rb: "role_block (?R j) = Some d \<longleftrightarrow> j \<noteq> i \<and> role_block (g_role G j) = Some d" for j d by simp
  have wr: "?R j = Writing d \<longleftrightarrow> g_role G j = Writing d" for j d by (simp add: i)
  have ib: "role_block (g_role G i) = Some b" by (simp add: i)
  have hole: "hole c p ?R (g_w G)"
    unfolding hole_def
  proof (intro exI [of _ b] conjI allI)
    show "g_w G \<le> b" using B(1) B(6) [OF ib] i by simp
    show "b * per_block c < p" by (rule begun_block(3) [OF inv ib])
    show "role_block (?R j) \<noteq> Some b" for j unfolding rb using B(4) [of j b i] ib by blast
  qed
  have ot: "o_reqs ?o = o_reqs o'" "o_index ?o = o_index o'" "o_state ?o = o_state o'" "o_todo ?o = o_todo o'"
    "o_srcPos ?o = o_srcPos o'" "o_srcSize ?o = o_srcSize o'" "o_sec ?o = o_sec o'" "o_disk ?o = o_disk o'" by (simp_all add: call_def)
  have co: "conf c ?o" using I(2) by (simp add: call_def conf_def)
  have px: "cso_prefix ?o = cso_prefix o'" by (rule cso_prefix_cong [OF I(2) co ot(2)])
  show ?thesis
    unfolding oinv_def
  proof (intro conjI impI)
    show "conf_ok c" "conf c ?o" by (fact I(1), fact co)
    show "mem_inv cx dec c p P ?o (g_role ?G)" by (rule mem_inv_role [OF I(3) ot(7)]) simp
    show "links c p ?o (g_role ?G)"
      using links_hand [OF inv, of i b Lost ?o] i by (simp add: call_def)
    show "blocks_inv c p (g_role ?G) (g_w ?G) (g_v ?G)"
      unfolding blocks_inv_def using B by (simp add: i)
    show "reqs_inv c p ?o ?G"
    proof -
      have "data_ok c p ?G q" if h: "data_ok c p G q" for q
        using h hole wr by (cases q) (simp_all add: data_ok_def del: fun_upd_apply)
      then show ?thesis using I(6) wr unfolding reqs_inv_def ot by (simp del: fun_upd_apply)
    qed
    show "layout_inv dec c ?o ?G" if "\<not> hole c p (g_role ?G) (g_w ?G)" using hole that by simp
    show "header_inv c ?o (g_v ?G)" using I(8) unfolding header_inv_def index_reqs_def px ot by auto
    show "finish_inv c p ?o ?G"
    proof (rule finish_todo [OF I(9)])
      show "g_role ?G j \<noteq> Ready (g_w G)" if "o_todo o' = []" for j
        using I(9) that unfolding finish_inv_def by simp
    qed (use hole in \<open>simp_all add: call_def\<close>)
  qed
qed

lemma work_done_inv:
  assumes inv: "oinv cx dec c p P o' G" and i: "g_role G i = Job b"
    and run: "work_done cx junk P o' i status = (P', o'')"
  shows "\<exists>G'. oinv cx dec c p P' o'' G' \<and> frame P o' {} P' o''
    \<and> (\<forall>j d. g_role G' j = Hand d \<longrightarrow> g_role G j = Hand d) \<and> (\<forall>j d. g_role G' j = Job d \<longleftrightarrow> g_role G j = Job d \<and> j \<noteq> i)
    \<and> (\<forall>j. s_enqueued (o_sec o'' j) = s_enqueued (o_sec o' j))
    \<and> load o'' \<le> load o' + 4 \<and> (0 \<le> status \<longrightarrow> modest c 4 o' o'')"
proof -
  note I = oinvD [OF inv] and B = blocksD [OF oinvD(5) [OF inv]]
  have ib: "role_block (g_role G i) = Some b" by (simp add: i)
  have u: "i < QUEUE_SIZE" by (rule begun_block(2) [OF inv ib])
  have S: "held (o_sec o' i) \<subseteq> wild P" "static_ok cx dec c (o_sec o' i)" "job_ok c P (o_sec o' i) b" "Suc b * per_block c \<le> p"
    "ShouldCompress (r_flags c)"
    using memD(2) [OF I(3) u] i by (simp_all add: sec_ok_def)
  have P: "pool_inv P" "unat (bufferSize P) \<le> 2 ^ 20" using memD(1) [OF I(3)] by (simp_all add: pool_ok_def)
  have rdy: "s_ready (o_sec o' i) = Some (of_nat b)" using S(3) by (simp add: job_ok_def)
  show ?thesis
  proof (cases "status < 0")
    case True
    have e: "P' = P" "o'' = call o' (CFinish False ''Failed to compress sector'')"
      using run True rdy by (simp_all add: work_done_def sector_after_work_def call_ready_def sector_callback_def)
    show ?thesis
      using job_fails_inv [OF inv i] frame_same [of o'' o' P]
      by (intro exI [of _ "G\<lparr>g_role := (g_role G)(i := Lost)\<rparr>"]) (use True in \<open>simp add: e call_def load_def\<close>)
  next
    case False
    obtain P1 s1 where w: "sector_work cx P (o_sec o' i) = (P1, s1)" by (rule prod.exhaust)
    have J: "mstep P (o_sec o' i) {} P1 s1" "static_ok cx dec c s1" "s_ready s1 = Some (of_nat b)"
      "\<exists>x. done_ok dec c P1 s1 b x"
      using job_done [OF I(1) S(5,2,3) P S(1) w] by blast+
    define o1 where "o1 = (let o1 = o'\<lparr>o_sec := (o_sec o')(i := s1)\<rparr> in
      if o_blockSize o' \<noteq> of_nat SECTOR_SIZE then o1\<lparr>o_partial := (o_partial o1)(of_nat b := None)\<rparr> else o1)"
    have h: "HandleReadySector junk P1 o1 (Some i) = (P', o'')"
      using run False w J(3)
      by (simp add: work_done_def sector_after_work_def call_ready_def sector_callback_def o1_def Let_def split: if_splits)
    have en: "s_enqueued s1 = s_enqueued (o_sec o' i)"
    proof -
      have "trial_step (P, o_sec o' i) (P1, s1)"
        using sector_work_ok [of P "o_sec o' i" cx dec] w S(1) P(1)
        by (auto simp: step_ok_def trial_pre_def best_ptrs_def held_def)
      then show ?thesis by (rule trial_step_fields)
    qed
    have ot: "o_sec o1 = (o_sec o')(i := s1)" "o_reqs o1 = o_reqs o'" "o_index o1 = o_index o'" "o_dstPos o1 = o_dstPos o'"
      "o_disk o1 = o_disk o'" "o_state o1 = o_state o'" "o_calls o1 = o_calls o'" "o_todo o1 = o_todo o'" "o_srcPos o1 = o_srcPos o'"
      "o_freeSectors o1 = o_freeSectors o'" "o_pending o1 = o_pending o'"
      by (simp_all add: o1_def Let_def)
    have co: "conf c o1" using I(2) by (simp add: o1_def Let_def conf_def)
    let ?R = "(g_role G)(i := Hand b)"
    have lk: "links c p o1 ?R"
      by (rule links_hand [OF inv]) (auto simp: i ot o1_def [unfolded Let_def])
    have rb: "role_block (?R j) = role_block (g_role G j)" for j by (simp add: i)
    have wr: "?R j = Writing d \<longleftrightarrow> g_role G j = Writing d" for j d by (simp add: i)
    have bk: "blocks_inv c p ?R (g_w G) (g_v G)" by (rule blocks_inv_same [OF I(5) rb wr])
    have hl: "hole c p ?R (g_w G) \<longleftrightarrow> hole c p (g_role G) (g_w G)" by (rule role_swap_hole) (simp add: i)
    have ro: "role_ok dec c p P1 s1 (Hand b)" using J(4) S(4) by simp
    have st: "oinv cx dec c p P1 o1 (G\<lparr>g_role := ?R\<rparr>) \<and> frame P o' {} P1 o1"
      by (rule sector_step_inv [OF inv u J(1) _ J(2) ro order_refl _ ot(1) co ot(2-9) lk bk hl]) (simp_all add: i)
    have "g_role (G\<lparr>g_role := ?R\<rparr>) i = Hand b" by simp
    from HandleReady_inv [OF conjunct1 [OF st] this h] obtain G' where G':
      "oinv cx dec c p P' o'' G'" "passed_on (G\<lparr>g_role := ?R\<rparr>) i G'" "P' = P1" "o_sec o'' = o_sec o1" "modest c 4 o1 o''"
      by blast
    have md: "modest c 4 o' o''"
      using modest_trans [OF modest_same [where n = 0] G'(5), of o'] by (simp add: ot)
    have "frame P o' {} P' o''"
      using st frame_trans [of P o' "{}" P1 o1 "{}" P1 o''] frame_same [OF G'(4), of P1] G'(3) by simp
    moreover have "g_role G j = Hand d" if "g_role G' j = Hand d" for j d
      using G'(2) that by (auto simp: passed_on_def split: if_splits)
    moreover have "g_role G' j = Job d \<longleftrightarrow> g_role G j = Job d \<and> j \<noteq> i" for j d
      using G'(2) by (auto simp: passed_on_def split: if_splits)
    moreover have "s_enqueued (o_sec o'' j) = s_enqueued (o_sec o' j)" for j
      using en by (simp add: G'(4) ot(1))
    ultimately show ?thesis using G'(1) md unfolding modest_def by blast
  qed
qed

end
