(* ===== verification/OutputEnqueue.thy ===== *)
theory OutputEnqueue
  imports OutputDone
begin

section \<open>A run of the writer: a sector arrives\<close>

definition prepared :: "run_conf \<Rightarrow> sector \<Rightarrow> sector" where
  "prepared c s = (if \<not> ShouldCompress (r_flags c) then DisableCompress s else s)"

lemma prepared_fields [simp]:
  "s_buffer (prepared c s) = s_buffer s" "s_best (prepared c s) = s_best s" "s_enqueued (prepared c s) = s_enqueued s"
  by (simp_all add: prepared_def DisableCompress_def)

lemma prepared_slot:
  assumes "slot c P s b m"
  shows "slot c P (prepared c s) b m"
proof (cases "ShouldCompress (r_flags c)")
  case True
  then show ?thesis using assms by (simp add: prepared_def)
next
  case False
  have "filling P (DisableCompress s) base n H = filling P s base n H" for base n H
    by (simp add: filling_def DisableCompress_def)
  moreover have "idle (DisableCompress s) = idle s" "s_best (DisableCompress s) = s_best s"
    by (simp_all add: idle_def DisableCompress_def)
  ultimately show ?thesis using assms False by (simp add: prepared_def slot_def del: of_nat_mult split: if_splits)
qed

text \<open>The object the sector goes to: a free one for the first sector of a block, then the one filling it.\<close>

definition target :: "run_conf \<Rightarrow> nat \<Rightarrow> ghost \<Rightarrow> nat \<Rightarrow> bool" where
  "target c p G i \<longleftrightarrow> i < QUEUE_SIZE \<and> g_role G i = (if p mod per_block c = 0 then Free else Filling (p div per_block c))"

lemma target_slot:
  assumes inv: "oinv cx dec c p P o' G" and t: "target c p G i"
  shows "slot c P (prepared c (o_sec o' i)) (p div per_block c) (p mod per_block c)"
    and "s_compress (prepared c (o_sec o' i)) = ShouldCompress (r_flags c)"
    and "static_ok cx dec c (prepared c (o_sec o' i))" and "\<not> s_enqueued (o_sec o' i)"
proof -
  note I = oinvD [OF inv]
  let ?b = "p div per_block c" and ?m = "p mod per_block c" and ?s = "o_sec o' i"
  have i: "i < QUEUE_SIZE" using t by (simp add: target_def)
  have s: "static_ok cx dec c ?s" "role_ok dec c p P ?s (g_role G i)"
    using memD(2) [OF I(3) i] by (simp_all add: sec_ok_def)
  show "static_ok cx dec c (prepared c ?s)"
    by (rule static_cong [OF s(1)]) (simp_all add: prepared_def DisableCompress_def)
  have m: "p - ?b * per_block c = ?m" by (simp add: minus_div_mult_eq_mod)
  have sl: "slot c P ?s ?b ?m"
    using s(2) t m by (cases "?m = 0") (simp_all add: target_def slot_def idle_def)
  then show "slot c P (prepared c ?s) ?b ?m" by (rule prepared_slot)
  show "s_compress (prepared c ?s) = ShouldCompress (r_flags c)"
    using s(2) t by (cases "?m = 0"; cases "ShouldCompress (r_flags c)") (simp_all add: target_def prepared_def DisableCompress_def)
  show "\<not> s_enqueued ?s"
    using sl filling_fields(2) by (auto simp: slot_def idle_def split: if_splits)
qed

definition next_role :: "run_conf \<Rightarrow> nat \<Rightarrow> role" where
  "next_role c p = (if Suc (p mod per_block c) < per_block c then Filling (p div per_block c)
     else if ShouldCompress (r_flags c) then Job (p div per_block c) else Hand (p div per_block c))"

lemma next_role_block [simp]: "role_block (next_role c p) = Some (p div per_block c)"
  by (simp add: next_role_def)

lemma next_role_not [simp]:
  "next_role c p \<noteq> Writing d" "next_role c p \<noteq> Lost" "next_role c p \<noteq> Ready d" "next_role c p \<noteq> Free" "next_role c p \<noteq> Out"
  by (simp_all add: next_role_def)

text \<open>The block of the arriving sector: no other object has it, and no other block is being filled.\<close>

lemma target_alone:
  assumes inv: "oinv cx dec c p P o' G" and t: "target c p G i" and j: "j \<noteq> i"
  shows "g_role G j \<noteq> Filling d" and "role_block (g_role G j) \<noteq> Some (p div per_block c)"
proof -
  note I = oinvD [OF inv] and B = blocksD [OF oinvD(5) [OF inv]]
  let ?b = "p div per_block c" and ?m = "p mod per_block c"
  have p: "p = ?b * per_block c + ?m" by simp
  show nb: "role_block (g_role G j) \<noteq> Some ?b"
  proof
    assume h: "role_block (g_role G j) = Some ?b"
    show False
    proof (cases "?m = 0")
      case True
      then have "?b * per_block c = p" using p by linarith
      then show False using begun_block(3) [OF inv h] by simp
    next
      case False
      then have "role_block (g_role G i) = Some ?b" using t by (simp add: target_def)
      then show False using B(4) [OF h] j by blast
    qed
  qed
  show "g_role G j \<noteq> Filling d"
  proof
    assume h: "g_role G j = Filling d"
    then have u: "j < QUEUE_SIZE" by (intro begun_block(2) [OF inv]) simp
    have "d * per_block c < p" "p < Suc d * per_block c"
      using memD(2) [OF I(3) u] h by (simp_all add: sec_ok_def)
    then have "p div per_block c = d"
      by (intro div_nat_eqI) (simp_all add: mult.commute)
    then show False using nb h by simp
  qed
qed

lemma div_Suc_block:
  assumes "Suc (p mod n) < n"
  shows "Suc p mod n = Suc (p mod n)" and "Suc p div n = p div n"
  using assms by (simp_all add: mod_Suc div_Suc)

lemma arrive_links:
  assumes inv: "oinv cx dec c p P o' G" and t: "target c p G i" and pl: "p < blocks c * per_block c"
    and fr: "distinct (o_freeSectors o3)" "set (o_freeSectors o3) = {j. g_role G j = Free} - {i}"
    and pd: "o_pending o3 = o_pending o'"
    and pt: "\<And>x. x \<noteq> of_nat (p div per_block c) \<Longrightarrow> o_partial o3 x = o_partial o' x"
      "Suc (p mod per_block c) < per_block c \<Longrightarrow> o_partial o3 (of_nat (p div per_block c)) = Some i"
  shows "links c (Suc p) o3 ((g_role G)(i := next_role c p))"
proof -
  note I = oinvD [OF inv] and L = linksD [OF oinvD(4) [OF inv]]
  let ?b = "p div per_block c" and ?R = "(g_role G)(i := next_role c p)"
  have bl: "?b < blocks c" using pl by (simp add: less_mult_imp_div_less)
  have q: "role_block (g_role G i) = None \<or> g_role G i = Filling ?b" "g_role G i \<noteq> Out" "\<And>d. g_role G i \<noteq> Ready d"
    using t by (auto simp: target_def split: if_splits)
  have fr': "{j. ?R j = Free} = {j. g_role G j = Free} - {i}" by auto
  show ?thesis
    unfolding links_def fr' pd
  proof (intro conjI allI impI)
    show "om_find x (o_pending o') = Some j \<longleftrightarrow> (\<exists>d. ?R j = Ready d \<and> x = int (d * 2 ^ r_k c))" for x j
      using L(4) [of x j] q(3) by auto
    show "QUEUE_SIZE \<le> j \<longleftrightarrow> ?R j = Out" for j using L(7) [of j] q(2) by auto
    show "o_partial o3 (of_nat d) = Some j" if h: "?R j = Filling d" for j d
    proof -
      have "j = i" using h target_alone(1) [OF inv t, of j d] by (auto split: if_splits)
      then show ?thesis using h pt(2) by (simp add: next_role_def split: if_splits)
    qed
    show "unat x * per_block c < Suc p" if h: "o_partial o3 x \<noteq> None" for x
    proof (cases "x = of_nat ?b")
      case True
      have "?b < 2 ^ LENGTH(32)" using bl I(1) by (simp add: conf_ok_def)
      then have "unat x = ?b" using True by (simp add: unat_of_nat_small)
      then show ?thesis by (simp only: div_times_less_eq_dividend le_imp_less_Suc)
    next
      case False
      then show ?thesis using pt(1) L(6) [of x] h by simp
    qed
    show "\<exists>j. ?R j = Filling (Suc p div per_block c)" if h: "Suc p mod per_block c \<noteq> 0"
    proof (rule exI [of _ i])
      have "Suc (p mod per_block c) < per_block c" using h by (auto simp: mod_Suc intro: Suc_lessI split: if_splits)
      then show "?R i = Filling (Suc p div per_block c)" using div_Suc_block by (simp add: next_role_def)
    qed
  qed (use fr L(3) in simp_all)
qed

lemma arrive_blocks:
  assumes inv: "oinv cx dec c p P o' G" and t: "target c p G i" and pl: "p < blocks c * per_block c"
  shows "blocks_inv c (Suc p) ((g_role G)(i := next_role c p)) (g_w G) (g_v G)"
    and "hole c (Suc p) ((g_role G)(i := next_role c p)) (g_w G) \<longleftrightarrow> hole c p (g_role G) (g_w G)"
proof -
  note B = blocksD [OF oinvD(5) [OF inv]]
  let ?b = "p div per_block c" and ?R = "(g_role G)(i := next_role c p)"
  have ib: "role_block (g_role G i) = (if p mod per_block c = 0 then None else Some ?b)" "\<And>d. g_role G i \<noteq> Writing d"
    using t by (simp_all add: target_def)
  have rb: "role_block (?R j) = (if j = i then Some ?b else role_block (g_role G j))" for j by simp
  have alone: "j \<noteq> i \<Longrightarrow> role_block (g_role G j) \<noteq> Some ?b" for j by (rule target_alone(2) [OF inv t])
  have vb: "g_v G \<le> ?b" using B(2) by (simp add: less_eq_div_iff_mult_less_eq)
  show "blocks_inv c (Suc p) ?R (g_w G) (g_v G)"
    unfolding blocks_inv_def rb
  proof (intro conjI allI impI)
    show "a = j" if "(if a = i then Some ?b else role_block (g_role G a)) = Some d"
      "(if j = i then Some ?b else role_block (g_role G j)) = Some d" for a j d
      using that alone B(4) [of a d j] by (auto split: if_splits)
    show "g_w G \<le> d" "d < g_v G" if "?R j = Writing d" for j d
      using that B(5) [of j d] by (auto split: if_splits)
    show "g_v G \<le> d" if "(if j = i then Some ?b else role_block (g_role G j)) = Some d" "?R j \<noteq> Writing d" for j d
      using that vb B(6) [of j d] by (auto split: if_splits)
  qed (use B(1,2) pl in simp_all)
  show "hole c (Suc p) ?R (g_w G) \<longleftrightarrow> hole c p (g_role G) (g_w G)"
  proof
    assume "hole c (Suc p) ?R (g_w G)"
    then obtain d where d: "g_w G \<le> d" "d * per_block c < Suc p" "\<And>j. role_block (?R j) \<noteq> Some d"
      unfolding hole_def by blast
    have ne: "d \<noteq> ?b" using d(3) [of i] by simp
    have "d * per_block c \<noteq> p"
    proof
      assume "d * per_block c = p"
      then have "?b = d" by auto
      with ne show False by simp
    qed
    moreover have "role_block (g_role G j) \<noteq> Some d" for j
      using d(3) [of j] ne ib(1) by (cases "j = i") auto
    ultimately show "hole c p (g_role G) (g_w G)" using d(1,2) unfolding hole_def by auto
  next
    assume "hole c p (g_role G) (g_w G)"
    then obtain d where d: "g_w G \<le> d" "d * per_block c < p" "\<And>j. role_block (g_role G j) \<noteq> Some d"
      unfolding hole_def by blast
    have ne: "d \<noteq> ?b"
    proof
      assume e: "d = ?b"
      then have "p mod per_block c = 0" using d(3) [of i] ib(1) by (auto split: if_splits)
      then have "?b * per_block c = p" by auto
      with e d(2) show False by simp
    qed
    have "role_block (?R j) \<noteq> Some d" for j unfolding rb using d(3) [of j] ne by simp
    then show "hole c (Suc p) ?R (g_w G)" using d(1,2) unfolding hole_def by (intro exI [of _ d]) simp
  qed
qed


subsection \<open>One call of \<open>Process\<close>\<close>

definition arrived :: "run_conf \<Rightarrow> nat \<Rightarrow> out \<Rightarrow> ghost \<Rightarrow> nat \<Rightarrow> out \<Rightarrow> ghost \<Rightarrow> bool" where
  "arrived c p o' G i o'' G' \<longleftrightarrow> (\<forall>j d. g_role G' j = Hand d \<longrightarrow> g_role G j = Hand d)
     \<and> (\<forall>j. (\<exists>d. g_role G' j = Job d) \<longleftrightarrow> (\<exists>d. g_role G j = Job d) \<or> j = i \<and> s_enqueued (o_sec o'' j))
     \<and> (\<forall>j. j \<noteq> i \<longrightarrow> s_enqueued (o_sec o'' j) = s_enqueued (o_sec o' j))
     \<and> (Suc (p mod per_block c) < per_block c \<longrightarrow> target c (Suc p) G' i \<and> o_partial o'' (of_nat (p div per_block c)) = Some i)"

definition arrival_cost :: "run_conf \<Rightarrow> nat \<Rightarrow> nat" where
  "arrival_cost c p = (if Suc (p mod per_block c) < per_block c then 0 else 4)"

lemma arrive:
  assumes inv: "oinv cx dec c p P o' G" and t: "target c p G i" and pl: "p < blocks c * per_block c"
    and q: "q \<in> wild P - owned o'" "sector_bytes P q = sector_at c p"
    and sc: "o_sec o2 = (o_sec o')(i := prepared c (o_sec o' i))" and co: "conf c o2"
    and fr: "distinct (o_freeSectors o2)" "set (o_freeSectors o2) = {j. g_role G j = Free} - {i}"
    and pd: "o_pending o2 = o_pending o'"
    and pt: "\<And>x. x \<noteq> of_nat (p div per_block c) \<Longrightarrow> o_partial o2 x = o_partial o' x"
      "Suc (p mod per_block c) < per_block c \<Longrightarrow> o_partial o2 (of_nat (p div per_block c)) = Some i"
    and e: "o_reqs o2 = o_reqs o'" "o_index o2 = o_index o'" "o_dstPos o2 = o_dstPos o'" "o_disk o2 = o_disk o'"
      "o_state o2 = o_state o'" "o_calls o2 = o_calls o'" "o_todo o2 = o_todo o'" "o_srcPos o2 = o_srcPos o'"
    and run: "process_sector junk P o2 i (int (p * SECTOR_SIZE)) q (of_nat (p div per_block c)) = (P', o'')"
  shows "\<exists>G'. oinv cx dec c (Suc p) P' o'' G' \<and> frame P o' {q} P' o'' \<and> arrived c p o' G i o'' G'
    \<and> modest c (arrival_cost c p) o' o''"
proof -
  note I = oinvD [OF inv]
  let ?b = "p div per_block c" and ?m = "p mod per_block c" and ?n = "per_block c" and ?r = "next_role c p"
  let ?s = "prepared c (o_sec o' i)" and ?R = "(g_role G)(i := ?r)"
  let ?G = "G\<lparr>g_role := ?R\<rparr>"
  have i: "i < QUEUE_SIZE" using t by (simp add: target_def)
  note T = target_slot [OF inv t]
  have bl: "?b < blocks c" using pl by (simp add: less_mult_imp_div_less)
  have mn: "?m < ?n" by simp
  have pe: "p = ?b * ?n + ?m" by simp
  have pos: "p * SECTOR_SIZE = ?b * 2 ^ r_k c + ?m * SECTOR_SIZE"
    using pe per_block_size [OF I(1)] by (metis add_mult_distrib mult.assoc)
  obtain P1 s1 res where pr: "Process P ?s (int (?b * 2 ^ r_k c + ?m * SECTOR_SIZE)) q (of_nat ?b) = (P1, s1, res)"
    by (rule prod_cases3)
  have P: "pool_inv P" "2 ^ r_k c \<le> unat (bufferSize P)" using memD(1) [OF I(3)] by (simp_all add: pool_ok_def)
  have q1: "q \<in> wild P - held ?s" using q(1) i by (auto simp: owned_def held_def)
  have q2: "sector_bytes P q = sector_at c (?b * ?n + ?m)" using q(2) by simp
  from slot_step [OF I(1) T(3) T(1) mn bl P q1 q2 pr]
  have S: "mstep P ?s {q} P1 s1" "s_compress s1 = ShouldCompress (r_flags c)" "static_ok cx dec c s1"
    "Suc ?m < ?n \<Longrightarrow> res = PWait \<and> slot c P1 s1 ?b (Suc ?m)"
    "\<not> Suc ?m < ?n \<Longrightarrow> ready_after dec c P1 s1 ?b res"
    using T(2) by simp_all
  have ms: "mstep P (o_sec o' i) {q} P1 s1" by (rule mstep_from [OF S(1)]) simp_all
  define o3 where "o3 = (let o3 = o2\<lparr>o_sec := (o_sec o2)(i := s1)\<rparr> in
    if res = PReady (of_nat ?b) True [] \<and> o_blockSize o2 \<noteq> of_nat SECTOR_SIZE
    then o3\<lparr>o_partial := (o_partial o3)(of_nat ?b := None)\<rparr> else o3)"
  have ot: "o_sec o3 = (o_sec o')(i := s1)" "o_reqs o3 = o_reqs o'" "o_index o3 = o_index o'" "o_dstPos o3 = o_dstPos o'"
      "o_disk o3 = o_disk o'" "o_state o3 = o_state o'" "o_calls o3 = o_calls o'" "o_todo o3 = o_todo o'" "o_srcPos o3 = o_srcPos o'"
      "o_freeSectors o3 = o_freeSectors o2" "o_pending o3 = o_pending o'"
    by (simp_all add: o3_def Let_def sc e pd)
  have co3: "conf c o3" using co by (simp add: o3_def Let_def conf_def)
  have fin: "\<not> Suc ?m < ?n \<Longrightarrow> Suc ?m = ?n" using mn by linarith
  have Sb: "Suc ?b * ?n = ?b * ?n + ?n" by simp
  have ro: "role_ok dec c (Suc p) P1 s1 ?r"
  proof (cases "Suc ?m < ?n")
    case True
    have "Suc p - ?b * ?n = Suc ?m" using pe by linarith
    moreover have "?b * ?n < Suc p" "Suc p < Suc ?b * ?n" unfolding Sb using pe True by linarith+
    ultimately show ?thesis using True S(2) S(4) by (simp add: next_role_def del: mult_Suc)
  next
    case False
    have "Suc ?b * ?n \<le> Suc p" unfolding Sb using pe fin [OF False] by linarith
    then show ?thesis using False S(2) S(5) [OF False]
      by (auto simp: next_role_def ready_after_def simp del: mult_Suc split: if_splits)
  qed
  have en: "s_enqueued s1 \<longleftrightarrow> (\<exists>d. ?r = Job d)"
  proof (cases "Suc ?m < ?n")
    case True
    have "\<not> s_enqueued s1" using S(4) [OF True] filling_fields(2) by (auto simp: slot_def)
    then show ?thesis using True by (simp add: next_role_def)
  next
    case False
    then show ?thesis using S(2) S(5) [OF False]
      by (auto simp: next_role_def ready_after_def job_ok_def split: if_splits)
  qed
  have lk: "links c (Suc p) o3 ?R"
  proof (rule arrive_links [OF inv t pl])
    show "distinct (o_freeSectors o3)" "set (o_freeSectors o3) = {j. g_role G j = Free} - {i}"
      "o_pending o3 = o_pending o'" using fr by (simp_all add: ot)
    show "o_partial o3 x = o_partial o' x" if "x \<noteq> of_nat ?b" for x
      using pt(1) [OF that] that by (auto simp: o3_def Let_def)
    show "o_partial o3 (of_nat ?b) = Some i" if "Suc ?m < ?n"
      using pt(2) [OF that] S(4) [OF that] by (simp add: o3_def Let_def)
  qed
  note bh = arrive_blocks [OF inv t pl]
  have st: "oinv cx dec c (Suc p) P1 o3 ?G \<and> frame P o' {q} P1 o3"
    by (rule sector_step_inv [OF inv i ms _ S(3) ro _ _ ot(1) co3 ot(2-9) lk bh])
      (use q(1) t target_alone(1) [OF inv t] in \<open>auto simp: target_def split: if_splits\<close>)
  have cb: "sector_callback junk P1 (o2\<lparr>o_sec := (o_sec o2)(i := s1)\<rparr>) i res = (P', o'')"
    using run pr by (simp add: process_sector_def sc pos del: of_nat_mult of_nat_add)
  show ?thesis
  proof (cases "\<exists>d. ?r = Hand d")
    case False
    have w: "res = PWait \<or> res = PQueued"
      using False S(2,4,5) by (auto simp: next_role_def ready_after_def split: if_splits)
    then have o'': "P' = P1" "o'' = o3" using cb by (auto simp: sector_callback_def o3_def Let_def)
    have "arrived c p o' G i o'' ?G"
      unfolding arrived_def
    proof (intro conjI allI impI)
      show "g_role G j = Hand d" if "g_role ?G j = Hand d" for j d
        using that False by (auto split: if_splits)
      show "(\<exists>d. g_role ?G j = Job d) \<longleftrightarrow> (\<exists>d. g_role G j = Job d) \<or> j = i \<and> s_enqueued (o_sec o'' j)" for j
        using en t by (cases "j = i") (auto simp: o''(2) ot(1) target_def)
      show "s_enqueued (o_sec o'' j) = s_enqueued (o_sec o' j)" if "j \<noteq> i" for j using that by (simp add: o''(2) ot(1))
      show "target c (Suc p) ?G i" if h: "Suc ?m < ?n"
        using i h div_Suc_block [OF h] by (simp add: target_def next_role_def)
      show "o_partial o'' (of_nat ?b) = Some i" if h: "Suc ?m < ?n"
        using pt(2) [OF h] S(4) [OF h] by (simp add: o''(2) o3_def Let_def)
    qed
    moreover have "modest c (arrival_cost c p) o' o''" by (rule modest_same) (simp_all add: o''(2) ot)
    ultimately show ?thesis using st o'' by blast
  next
    case True
    then have h: "?r = Hand ?b" "\<not> Suc ?m < ?n" "\<not> ShouldCompress (r_flags c)"
      by (auto simp: next_role_def split: if_splits)
    have rs: "res = PReady (of_nat ?b) True []" using S(2) S(5) [OF h(2)] h(3) by (simp add: ready_after_def)
    have hr: "HandleReadySector junk P1 o3 (Some i) = (P', o'')"
      using cb by (simp add: rs sector_callback_def o3_def Let_def split: if_splits)
    have "g_role ?G i = Hand ?b" using h(1) by simp
    from HandleReady_inv [OF conjunct1 [OF st] this hr] obtain G' where G':
      "oinv cx dec c (Suc p) P' o'' G'" "passed_on ?G i G'" "P' = P1" "o_sec o'' = o_sec o3" "modest c 4 o3 o''" by blast
    have md: "modest c (arrival_cost c p) o' o''"
      using modest_trans [OF modest_same [where n = 0] G'(5), of o'] h(2) by (simp add: ot arrival_cost_def)
    have f: "frame P o' {q} P' o''"
      using st frame_trans [of P o' "{q}" P1 o3 "{}" P1 o''] frame_same [OF G'(4), of P1] G'(3) by simp
    have "arrived c p o' G i o'' G'"
      unfolding arrived_def
    proof (intro conjI allI impI)
      show "g_role G j = Hand d" if "g_role G' j = Hand d" for j d
        using G'(2) that by (auto simp: passed_on_def split: if_splits)
      have "(\<exists>d. g_role G' j = Job d) \<longleftrightarrow> (\<exists>d. g_role ?G j = Job d)" for j
        using G'(2) by (simp add: passed_on_def)
      then show "(\<exists>d. g_role G' j = Job d) \<longleftrightarrow> (\<exists>d. g_role G j = Job d) \<or> j = i \<and> s_enqueued (o_sec o'' j)" for j
        using en t h(1) by (cases "j = i") (auto simp: G'(4) ot(1) target_def)
      show "s_enqueued (o_sec o'' j) = s_enqueued (o_sec o' j)" if "j \<noteq> i" for j using that by (simp add: G'(4) ot(1))
    qed (use h(2) in simp_all)
    then show ?thesis using G'(1) f md by blast
  qed
qed


subsection \<open>Padding the last block\<close>

lemma oinv_pool:
  assumes inv: "oinv cx dec c p P o' G" and P': "pool_inv P'" "bufferSize P' = bufferSize P"
    and w: "owned o' \<subseteq> wild P'" "\<And>q. q \<in> owned o' \<Longrightarrow> mem P' q = mem P q"
  shows "oinv cx dec c p P' o' G"
  using inv mem_inv_pool [OF oinvD(3) [OF inv] P' w] unfolding oinv_def by blast

lemma owned_wild: "oinv cx dec c p P o' G \<Longrightarrow> owned o' \<subseteq> wild P"
  using memD(2) [OF oinvD(3)] by (fastforce simp: owned_def sec_ok_def)

lemma prepared_again: "s_compress s = ShouldCompress (r_flags c) \<Longrightarrow> prepared c s = s"
  by (cases s) (simp add: prepared_def DisableCompress_def)

lemma sectors_per_size:
  assumes "conf_ok c"
  shows "p * SECTOR_SIZE < blocks c * 2 ^ r_k c \<longleftrightarrow> p < blocks c * per_block c"
proof -
  have e: "blocks c * 2 ^ r_k c = (blocks c * per_block c) * SECTOR_SIZE"
    unfolding per_block_size [OF assms, symmetric] by (simp only: mult.assoc)
  show ?thesis unfolding e by (simp only: mult_less_cancel2) (simp add: SECTOR_SIZE_def)
qed

lemma pad_step:
  assumes inv: "oinv cx dec c p P o' G" and t: "target c p G i" and pl: "p < blocks c * per_block c"
    and m: "p mod per_block c \<noteq> 0" and pt: "o_partial o' (of_nat (p div per_block c)) = Some i"
    and past: "length (r_img c) \<le> p * SECTOR_SIZE"
    and run: "Alloc P = (P1, pb)" "process_sector junk (put P1 pb 0 (replicate SECTOR_SIZE 0)) o' i (int (p * SECTOR_SIZE)) pb
      (of_nat (p div per_block c)) = (P', o'')"
  shows "\<exists>G'. oinv cx dec c (Suc p) P' o'' G' \<and> frame P o' {} P' o'' \<and> arrived c p o' G i o'' G'
    \<and> modest c (arrival_cost c p) o' o''"
proof -
  note I = oinvD [OF inv] and L = linksD [OF oinvD(4) [OF inv]]
  let ?P2 = "put P1 pb 0 (replicate SECTOR_SIZE 0)"
  have pi: "pool_inv P" using memD(1) [OF I(3)] by (simp add: pool_ok_def)
  have A: "pool_inv ?P2" "wild ?P2 = insert pb (wild P)" "pb \<notin> wild P" "bufferSize ?P2 = bufferSize P"
    using bp.st_alloc_inv [OF pi] bp.st_alloc_out [OF pi] bp.st_alloc_fresh [OF pi] alloc_size [of P] run(1) by simp_all
  have mem: "mem ?P2 q = mem P q" if "q \<in> wild P" for q
    using that A(3) alloc_mem [of P] run(1) by (auto simp: mwrite_def)
  have ow: "owned o' \<subseteq> wild P" by (rule owned_wild [OF inv])
  have inv2: "oinv cx dec c p ?P2 o' G"
    by (rule oinv_pool [OF inv A(1,4)]) (use ow A(2) mem in auto)
  have pb: "pb \<in> wild ?P2 - owned o'" using A ow by auto
  have z: "sector_bytes ?P2 pb = sector_at c p"
    using mread_same [of "mem P1" pb 0 "replicate SECTOR_SIZE 0"] past by (simp add: sector_bytes_def sector_at_def)
  have nf: "g_role G i \<noteq> Free" using t m by (simp add: target_def)
  have i: "i < QUEUE_SIZE" "g_role G i = Filling (p div per_block c)" using t m by (simp_all add: target_def)
  have "role_ok dec c p P (o_sec o' i) (Filling (p div per_block c))"
    using memD(2) [OF I(3) i(1)] i(2) by (simp add: sec_ok_def)
  then have pr: "prepared c (o_sec o' i) = o_sec o' i" by (intro prepared_again) simp
  from arrive [OF inv2 t pl pb z, of o' junk P' o''] obtain G' where G':
    "oinv cx dec c (Suc p) P' o'' G'" "frame ?P2 o' {pb} P' o''" "arrived c p o' G i o'' G'" "modest c (arrival_cost c p) o' o''"
    using I(2) L(1,2) nf pt run(2) pr by auto
  have "wild ?P2 - owned o' - {pb} = wild P - owned o'" using A(2,3) by auto
  then have "frame P o' {} P' o''"
    using G'(2) A(4) mem unfolding frame_def by auto
  then show ?thesis using G'(1,3,4) by blast
qed

lemma pad_inv:
  assumes "oinv cx dec c p P o' G" and "target c p G i" and "p < blocks c * per_block c"
    and "p mod per_block c \<noteq> 0" and "o_partial o' (of_nat (p div per_block c)) = Some i"
    and "length (r_img c) \<le> p * SECTOR_SIZE" and "Suc (p div per_block c) = blocks c"
    and "pad_block junk P o' i (of_nat (p div per_block c)) (int (p * SECTOR_SIZE)) (int (blocks c * 2 ^ r_k c)) = (P', o'')"
  shows "\<exists>G'. oinv cx dec c (blocks c * per_block c) P' o'' G' \<and> frame P o' {} P' o''
    \<and> (\<forall>j d. g_role G' j = Hand d \<longrightarrow> g_role G j = Hand d)
    \<and> (\<forall>j. (\<exists>d. g_role G' j = Job d) \<longleftrightarrow> (\<exists>d. g_role G j = Job d) \<or> j = i \<and> s_enqueued (o_sec o'' j))
    \<and> (\<forall>j. j \<noteq> i \<longrightarrow> s_enqueued (o_sec o'' j) = s_enqueued (o_sec o' j)) \<and> modest c 4 o' o''"
  using assms
proof (induction "blocks c * per_block c - p" arbitrary: p P o' G)
  case 0
  then show ?case by simp
next
  case (Suc k)
  note c = oinvD(1) [OF Suc.prems(1)]
  let ?n = "per_block c" and ?b = "p div per_block c"
  obtain P1 pb where al: "Alloc P = (P1, pb)" by (rule prod.exhaust)
  let ?P2 = "put P1 pb 0 (replicate SECTOR_SIZE 0)"
  obtain P3 o3 where ps: "process_sector junk ?P2 o' i (int (p * SECTOR_SIZE)) pb (of_nat ?b) = (P3, o3)" by (rule prod.exhaust)
  have "p * SECTOR_SIZE < blocks c * 2 ^ r_k c" using Suc.prems(3) sectors_per_size [OF c] by simp
  then have lt: "int (p * SECTOR_SIZE) < int (blocks c * 2 ^ r_k c)" by (simp only: of_nat_less_iff)
  have nx: "int (p * SECTOR_SIZE) + int SECTOR_SIZE = int (Suc p * SECTOR_SIZE)" by simp
  have rest: "pad_block junk P3 o3 i (of_nat ?b) (int (Suc p * SECTOR_SIZE)) (int (blocks c * 2 ^ r_k c)) = (P', o'')"
    using Suc.prems(8) unfolding pad_block.simps [of junk P o'] if_P [OF lt] al ps prod.case Let_def nx .
  from pad_step [OF Suc.prems(1-6) al ps] obtain G1 where G1:
    "oinv cx dec c (Suc p) P3 o3 G1" "frame P o' {} P3 o3" "arrived c p o' G i o3 G1" "modest c (arrival_cost c p) o' o3" by blast
  note A = G1(3) [unfolded arrived_def]
  have pe: "p = ?b * ?n + p mod ?n" by simp
  have bn: "blocks c * ?n = ?b * ?n + ?n" unfolding Suc.prems(7) [symmetric] by simp
  show ?case
  proof (cases "Suc (p mod ?n) < ?n")
    case True
    note dv = div_Suc_block [OF True]
    have t1: "target c (Suc p) G1 i" "o_partial o3 (of_nat ?b) = Some i" using A True by blast+
    have k: "k = blocks c * ?n - Suc p" using Suc.hyps(2) by linarith
    have lt': "Suc p < blocks c * ?n" using bn pe True by linarith
    have past: "length (r_img c) \<le> Suc p * SECTOR_SIZE" using Suc.prems(6) by simp
    from Suc.hyps(1) [OF k G1(1) t1(1) lt' _ _ past] dv t1(2) Suc.prems(7) rest
    obtain G' where G': "oinv cx dec c (blocks c * ?n) P' o'' G'" "frame P3 o3 {} P' o''"
      "\<forall>j d. g_role G' j = Hand d \<longrightarrow> g_role G1 j = Hand d"
      "\<forall>j. (\<exists>d. g_role G' j = Job d) \<longleftrightarrow> (\<exists>d. g_role G1 j = Job d) \<or> j = i \<and> s_enqueued (o_sec o'' j)"
      "\<forall>j. j \<noteq> i \<longrightarrow> s_enqueued (o_sec o'' j) = s_enqueued (o_sec o3 j)" "modest c 4 o3 o''"
      by (auto simp del: of_nat_mult mult_Suc)
    have ne: "\<not> s_enqueued (o_sec o3 i)" by (rule target_slot(4) [OF G1(1) t1(1)])
    have "frame P o' {} P' o''" using frame_trans [OF G1(2) G'(2)] by simp
    moreover have "modest c 4 o' o''" using modest_trans [OF G1(4) G'(6)] True by (simp add: arrival_cost_def)
    moreover have "(\<exists>d. g_role G' j = Job d) \<longleftrightarrow> (\<exists>d. g_role G j = Job d) \<or> j = i \<and> s_enqueued (o_sec o'' j)" for j
      using G'(4) A ne by (cases "j = i") auto
    ultimately show ?thesis using G'(1,3,5) A by (intro exI [of _ G']) auto
  next
    case False
    have "p mod ?n < ?n" by simp
    then have "Suc (p mod ?n) = ?n" using False by linarith
    then have last: "Suc p = blocks c * ?n" using bn pe by linarith
    then have "\<not> Suc p * SECTOR_SIZE < blocks c * 2 ^ r_k c" using sectors_per_size [OF c, of "Suc p"] by simp
    then have nlt: "\<not> int (Suc p * SECTOR_SIZE) < int (blocks c * 2 ^ r_k c)" by (simp only: of_nat_less_iff not_False_eq_True)
    have e: "P' = P3" "o'' = o3"
      using rest unfolding pad_block.simps [of junk P3 o3] if_not_P [OF nlt] by simp_all
    show ?thesis
      unfolding e using G1 A False by (intro exI [of _ G1]) (auto simp: last arrival_cost_def)
  qed
qed

end
