(* ===== verification/OutputTake.thy ===== *)
theory OutputTake
  imports OutputEnqueue
begin

section \<open>A run of the writer: \<open>Enqueue\<close> and the start\<close>

subsection \<open>The object a sector goes to\<close>

text \<open>The choice \<open>Enqueue\<close> makes, as a function.\<close>

definition pick_sector :: "out \<Rightarrow> u32 \<Rightarrow> nat \<times> out" where
  "pick_sector o' block =
     (if o_blockSize o' \<noteq> of_nat SECTOR_SIZE then
        (case o_partial o' block of
           Some i \<Rightarrow> (i, o')
         | None \<Rightarrow> (last (o_freeSectors o'), o'\<lparr>o_freeSectors := butlast (o_freeSectors o'),
                              o_partial := (o_partial o')(block \<mapsto> last (o_freeSectors o'))\<rparr>))
      else (last (o_freeSectors o'), o'\<lparr>o_freeSectors := butlast (o_freeSectors o')\<rparr>))"

definition prepare :: "out \<Rightarrow> nat \<Rightarrow> out" where
  "prepare o' i = (if \<not> ShouldCompress (o_flags o')
     then o'\<lparr>o_sec := (o_sec o')(i := DisableCompress (o_sec o' i))\<rparr> else o')"

lemma Enqueue_eq:
  assumes "block = word_of_int (drop_bit (o_blockShift o') pos)" and "pick_sector o' block = (i, o1)"
    and "process_sector junk P (prepare o1 i) i pos buffer block = (P3, o3)"
  shows "Enqueue junk P o' pos buffer =
     (if o_blockSize o3 \<noteq> of_nat SECTOR_SIZE \<and> pos + int SECTOR_SIZE \<ge> o_srcSize o3 then
        pad_block junk P3 o3 i block (o_srcSize o3) (block_pos (SrcSizeAligned o3) (o_blockSize o3))
      else (P3, o3))"
proof -
  have f: "o_flags o1 = o_flags o'"
    using assms(2) by (auto simp: pick_sector_def split: if_splits option.splits)
  show ?thesis
    using assms(2,3) unfolding Enqueue_def assms(1) [symmetric] pick_sector_def prepare_def f
    by (simp add: Let_def cong: if_cong option.case_cong)
qed

lemma one_sector_block:
  assumes "conf_ok c"
  shows "(2 :: u32) ^ r_k c = of_nat SECTOR_SIZE \<longleftrightarrow> per_block c = 1"
proof -
  have k: "11 \<le> r_k c" "r_k c < 32" using assms by (simp_all add: conf_ok_def)
  have "(2 :: u32) ^ r_k c = 2 ^ 11 \<longleftrightarrow> unat ((2 :: u32) ^ r_k c) = unat ((2 :: u32) ^ 11)" by (rule word_unat_eq_iff)
  also have "\<dots> \<longleftrightarrow> (2 :: nat) ^ r_k c = 2 ^ 11" unfolding unat_2p [of "r_k c", where 'a = 32, simplified, OF k(2)] by simp
  also have "\<dots> \<longleftrightarrow> r_k c = 11" by (rule power_inject_exp) simp
  also have "\<dots> \<longleftrightarrow> per_block c = 1" using k(1) by (auto simp: per_block_def)
  finally show ?thesis by (simp add: SECTOR_SIZE_def)
qed

lemma sector_number:
  assumes "conf_ok c"
  shows "drop_bit (r_k c) (int (q * SECTOR_SIZE)) = int (q div per_block c)"
proof -
  have "q * SECTOR_SIZE div 2 ^ r_k c = q div per_block c"
    unfolding per_block_size [OF assms, symmetric] by (simp add: SECTOR_SIZE_def)
  then have "int (q * SECTOR_SIZE) div int (2 ^ r_k c) = int (q div per_block c)" by (simp only: zdiv_int [symmetric])
  then show ?thesis by (simp add: drop_bit_eq_div)
qed

lemma pick_target:
  assumes inv: "oinv cx dec c q P o' G" and nf: "\<not> QueueFull o'" and ql: "q < blocks c * per_block c"
    and ch: "pick_sector o' (of_nat (q div per_block c)) = (i, o1)"
  shows "target c q G i"
    and "distinct (o_freeSectors o1)" and "set (o_freeSectors o1) = {j. g_role G j = Free} - {i}"
    and "\<And>x. x \<noteq> of_nat (q div per_block c) \<Longrightarrow> o_partial o1 x = o_partial o' x"
    and "Suc (q mod per_block c) < per_block c \<Longrightarrow> o_partial o1 (of_nat (q div per_block c)) = Some i"
    and "\<exists>f pt. o1 = o'\<lparr>o_freeSectors := f, o_partial := pt\<rparr>"
proof -
  note I = oinvD [OF inv] and L = linksD [OF oinvD(4) [OF inv]]
  let ?b = "q div per_block c" and ?free = "o_freeSectors o'"
  have bs: "o_blockSize o' = of_nat SECTOR_SIZE \<longleftrightarrow> per_block c = 1"
    using one_sector_block [OF I(1)] I(2) by (simp add: conf_def)
  have ne: "?free \<noteq> []" using nf by (simp add: QueueFull_def)
  then have fs: "?free = butlast ?free @ [last ?free]" by simp
  have bl: "distinct (butlast ?free)" "set (butlast ?free) = {j. g_role G j = Free} - {last ?free}"
  proof -
    have "distinct (butlast ?free @ [last ?free])" using L(1) fs by simp
    then show "distinct (butlast ?free)" by simp
    have "last ?free \<notin> set (butlast ?free)" using \<open>distinct (butlast ?free @ [last ?free])\<close> by simp
    moreover have "set (butlast ?free @ [last ?free]) = {j. g_role G j = Free}" using L(2) fs by simp
    ultimately show "set (butlast ?free) = {j. g_role G j = Free} - {last ?free}" by auto
  qed
  have lf: "g_role G (last ?free) = Free" using L(2) ne last_in_set by blast
  have lu: "last ?free < QUEUE_SIZE" using L(7) [of "last ?free"] lf by (simp add: not_le [symmetric])
  have "target c q G i \<and> distinct (o_freeSectors o1) \<and> set (o_freeSectors o1) = {j. g_role G j = Free} - {i}
      \<and> (\<forall>x. x \<noteq> of_nat ?b \<longrightarrow> o_partial o1 x = o_partial o' x)
      \<and> (Suc (q mod per_block c) < per_block c \<longrightarrow> o_partial o1 (of_nat ?b) = Some i)
      \<and> (\<exists>f pt. o1 = o'\<lparr>o_freeSectors := f, o_partial := pt\<rparr>)"
  proof (cases "q mod per_block c = 0")
    case True
    have "o_partial o' (of_nat ?b) = None"
    proof (rule ccontr)
      assume "o_partial o' (of_nat ?b) \<noteq> None"
      then have "unat (of_nat ?b :: u32) * per_block c < q" by (rule L(6))
      moreover have "?b < blocks c" using ql by (simp add: less_mult_imp_div_less)
      then have "?b < 2 ^ LENGTH(32)" using I(1) by (simp add: conf_ok_def)
      moreover have "?b * per_block c = q" using True by auto
      ultimately show False by (simp add: unat_of_nat_small)
    qed
    then have "i = last ?free"
      "o1 = o'\<lparr>o_freeSectors := butlast ?free,
        o_partial := (if per_block c = 1 then o_partial o' else (o_partial o')(of_nat ?b \<mapsto> i))\<rparr>"
      using ch bs by (auto simp: pick_sector_def split: if_splits)
    note e = this
    have "target c q G i" using lf lu True by (simp add: target_def e(1))
    moreover have "o_freeSectors o1 = butlast ?free" unfolding e(2) by simp
    moreover have "o_partial o1 x = o_partial o' x" if "x \<noteq> of_nat ?b" for x using that unfolding e(2) by simp
    moreover have "o_partial o1 (of_nat ?b) = Some i" if "Suc (q mod per_block c) < per_block c" using that unfolding e(2) by auto
    moreover have "\<exists>f pt. o1 = o'\<lparr>o_freeSectors := f, o_partial := pt\<rparr>" unfolding e(2) by blast
    ultimately show ?thesis
      using bl e(1) by simp
  next
    case False
    then obtain j where j: "g_role G j = Filling ?b" using L(8) by blast
    have pt: "o_partial o' (of_nat ?b) = Some j" by (rule L(5) [OF j])
    have "per_block c \<noteq> 1" using False by auto
    then have e: "i = j" "o1 = o'" using ch pt bs by (auto simp: pick_sector_def)
    have u: "j < QUEUE_SIZE" by (rule role_used [OF I(4)]) (simp add: j)
    have eq: "\<exists>f pt. o' = o'\<lparr>o_freeSectors := f, o_partial := pt\<rparr>"
      by (rule exI [of _ "o_freeSectors o'"], rule exI [of _ "o_partial o'"]) simp
    have t: "target c q G i" using False j u by (simp add: e target_def)
    have "{a. g_role G a = Free} - {j} = {a. g_role G a = Free}" using j by auto
    then show ?thesis using L(1,2) pt t eq unfolding e by simp
  qed
  then show "target c q G i" "distinct (o_freeSectors o1)" "set (o_freeSectors o1) = {j. g_role G j = Free} - {i}"
    "\<And>x. x \<noteq> of_nat ?b \<Longrightarrow> o_partial o1 x = o_partial o' x"
    "Suc (q mod per_block c) < per_block c \<Longrightarrow> o_partial o1 (of_nat ?b) = Some i"
    "\<exists>f pt. o1 = o'\<lparr>o_freeSectors := f, o_partial := pt\<rparr>"
    by blast+
qed

text \<open>How many sectors are in once the reader has delivered the first \<open>n\<close>: the padding comes with the last.\<close>

definition sectors_in :: "run_conf \<Rightarrow> nat \<Rightarrow> nat" where
  "sectors_in c n = (if n * SECTOR_SIZE < length (r_img c) then n else blocks c * per_block c)"

lemma last_block_end:
  assumes c: "conf_ok c" and q: "q * SECTOR_SIZE < length (r_img c)" "length (r_img c) \<le> Suc q * SECTOR_SIZE"
  shows "length (r_img c) = Suc q * SECTOR_SIZE" and "Suc (q div per_block c) = blocks c"
proof -
  obtain m where m: "length (r_img c) = SECTOR_SIZE * m" using c by (auto simp: conf_ok_def)
  have "q < m" "m \<le> Suc q" using q unfolding m by (simp_all add: SECTOR_SIZE_def)
  then show L: "length (r_img c) = Suc q * SECTOR_SIZE" unfolding m using \<open>q < m\<close> \<open>m \<le> Suc q\<close>
    by (metis le_antisym Suc_le_eq mult.commute)
  let ?b = "q div per_block c"
  have e: "x * 2 ^ r_k c = (x * per_block c) * SECTOR_SIZE" for x
    unfolding per_block_size [OF c, symmetric] by (simp only: mult.assoc)
  have ss: "0 < SECTOR_SIZE" by (simp add: SECTOR_SIZE_def)
  have "?b * per_block c \<le> q" by simp
  then have "?b < blocks c" unfolding blocks_iff L e using ss by (simp only: mult_less_cancel2 less_Suc_eq_le)
  moreover have "q < Suc ?b * per_block c" by (simp add: dividend_less_div_times)
  then have "\<not> Suc ?b < blocks c" unfolding blocks_iff L e using ss by (simp only: mult_less_cancel2) simp
  ultimately show "Suc ?b = blocks c" by simp
qed

subsection \<open>\<open>Enqueue\<close>\<close>

text \<open>What a step of the environment leaves of the jobs and of the blocks in hand.\<close>

definition accepted :: "out \<Rightarrow> ghost \<Rightarrow> out \<Rightarrow> ghost \<Rightarrow> bool" where
  "accepted o' G o'' G' \<longleftrightarrow> (\<forall>j d. g_role G' j = Hand d \<longrightarrow> g_role G j = Hand d)
     \<and> (\<forall>j. (\<exists>d. g_role G' j = Job d) \<longleftrightarrow> (\<exists>d. g_role G j = Job d) \<or> \<not> s_enqueued (o_sec o' j) \<and> s_enqueued (o_sec o'' j))
     \<and> (\<exists>i. \<forall>j. j \<noteq> i \<longrightarrow> s_enqueued (o_sec o'' j) = s_enqueued (o_sec o' j))"

lemma Enqueue_inv:
  assumes inv: "oinv cx dec c q P o' G" and nf: "\<not> QueueFull o'" and ql: "q * SECTOR_SIZE < length (r_img c)"
    and b: "b \<in> wild P - owned o'" "sector_bytes P b = img_sector (r_img c) q"
    and run: "Enqueue junk P o' (int (q * SECTOR_SIZE)) b = (P', o'')"
  shows "\<exists>G'. oinv cx dec c (sectors_in c (Suc q)) P' o'' G' \<and> frame P o' {b} P' o'' \<and> accepted o' G o'' G'
    \<and> modest c 4 o' o''"
proof -
  note I = oinvD [OF inv]
  let ?b = "q div per_block c"
  have qb: "q < blocks c * per_block c" by (rule sector_block [OF I(1) ql])
  have bk: "of_nat ?b = (word_of_int (drop_bit (o_blockShift o') (int (q * SECTOR_SIZE))) :: u32)"
    using I(2) sector_number [OF I(1), of q] by (simp add: conf_def)
  obtain i o1 where ch: "pick_sector o' (of_nat ?b) = (i, o1)" by (rule prod.exhaust)
  note T = pick_target [OF inv nf qb ch]
  obtain P3 o3 where ps: "process_sector junk P (prepare o1 i) i (int (q * SECTOR_SIZE)) b (of_nat ?b) = (P3, o3)"
    by (rule prod.exhaust)
  obtain f pt where o1: "o1 = o'\<lparr>o_freeSectors := f, o_partial := pt\<rparr>" using T(6) by blast
  have fl: "o_flags o' = r_flags c" using I(2) by (simp add: conf_def)
  have pr: "prepare o1 i = o1\<lparr>o_sec := (o_sec o')(i := prepared c (o_sec o' i))\<rparr>"
    by (simp add: prepare_def prepared_def o1 fl)
  have sb: "sector_bytes P b = sector_at c q" using b(2) ql by (simp add: sector_at_def)
  have ne: "\<not> s_enqueued (o_sec o' i)" by (rule target_slot(4) [OF inv T(1)])
  have co: "conf c (prepare o1 i)" using I(2) unfolding pr conf_def by (simp add: o1)
  let ?o2 = "prepare o1 i"
  have fe: "o_sec ?o2 = (o_sec o')(i := prepared c (o_sec o' i))" "o_freeSectors ?o2 = o_freeSectors o1"
    "o_partial ?o2 = o_partial o1" "o_pending ?o2 = o_pending o'"
    "o_reqs ?o2 = o_reqs o'" "o_index ?o2 = o_index o'" "o_dstPos ?o2 = o_dstPos o'" "o_disk ?o2 = o_disk o'"
    "o_state ?o2 = o_state o'" "o_calls ?o2 = o_calls o'" "o_todo ?o2 = o_todo o'" "o_srcPos ?o2 = o_srcPos o'"
    unfolding pr by (simp_all add: o1)
  from arrive [OF inv T(1) qb b(1) sb fe(1) co, unfolded fe(2,3), OF T(2,3) fe(4) T(4,5) fe(5-12) ps] obtain G1 where G1:
    "oinv cx dec c (Suc q) P3 o3 G1" "frame P o' {b} P3 o3" "arrived c q o' G i o3 G1" "modest c (arrival_cost c q) o' o3"
    by blast
  have md: "modest c 4 o' o3" by (rule modest_mono [OF G1(4)]) (simp add: arrival_cost_def)
  note A = G1(3) [unfolded arrived_def]
  have t1: "accepted o' G o3 G1"
    unfolding accepted_def
  proof (intro conjI allI impI)
    show "g_role G j = Hand d" if "g_role G1 j = Hand d" for j d using that A by blast
    show "(\<exists>d. g_role G1 j = Job d) \<longleftrightarrow> (\<exists>d. g_role G j = Job d) \<or> \<not> s_enqueued (o_sec o' j) \<and> s_enqueued (o_sec o3 j)" for j
      using A ne by (cases "j = i") auto
    show "\<exists>i. \<forall>j. j \<noteq> i \<longrightarrow> s_enqueued (o_sec o3 j) = s_enqueued (o_sec o' j)" using A by blast
  qed
  have co3: "o_blockSize o3 = 2 ^ r_k c" "o_srcSize o3 = int (length (r_img c))" using oinvD(2) [OF G1(1)] by (simp_all add: conf_def)
  have nx: "int (q * SECTOR_SIZE) + int SECTOR_SIZE = int (Suc q * SECTOR_SIZE)" by simp
  have cond: "(o_blockSize o3 \<noteq> of_nat SECTOR_SIZE \<and> int (q * SECTOR_SIZE) + int SECTOR_SIZE \<ge> o_srcSize o3) \<longleftrightarrow>
      per_block c \<noteq> 1 \<and> length (r_img c) \<le> Suc q * SECTOR_SIZE"
    unfolding co3 one_sector_block [OF I(1)] nx by (simp only: of_nat_le_iff)
  note E = Enqueue_eq [OF bk ch ps, unfolded cond run]
  show ?thesis
  proof (cases "length (r_img c) \<le> Suc q * SECTOR_SIZE")
    case False
    then have e: "P' = P3" "o'' = o3" "sectors_in c (Suc q) = Suc q" using E by (simp_all add: sectors_in_def)
    show ?thesis unfolding e using G1 t1 md by blast
  next
    case True
    note B = last_block_end [OF I(1) ql True]
    have si: "sectors_in c (Suc q) = blocks c * per_block c" using True by (simp add: sectors_in_def)
    have sa: "SrcSizeAligned o3 = int (length (r_img c)) + 2 ^ r_k c - 1"
      unfolding SrcSizeAligned_def co3 using I(1) by (simp add: uint_nat unat_2p conf_ok_def)
    have k: "r_k c < 32" "length (r_img c) < 2 ^ 48" using I(1) by (simp_all add: conf_ok_def)
    have pz: "block_pos (SrcSizeAligned o3) (o_blockSize o3) = int (blocks c * 2 ^ r_k c)"
    proof -
      have one: "1 \<le> length (r_img c)" using ql by (cases "r_img c") simp_all
      then have x: "SrcSizeAligned o3 = int (length (r_img c) + 2 ^ r_k c - 1)" unfolding sa by simp
      have "(2 :: nat) ^ r_k c \<le> 2 ^ 32" using k(1) by (intro power_increasing) simp_all
      then have "length (r_img c) + 2 ^ r_k c - 1 < 2 ^ 63" using k(2) by simp
      then have "int (length (r_img c) + 2 ^ r_k c - 1) < int (2 ^ 63)" by (simp only: of_nat_less_iff)
      then have lt: "SrcSizeAligned o3 < 2 ^ 63" unfolding x by (simp only: of_nat_power of_nat_numeral)
      have "block_pos (SrcSizeAligned o3) (2 ^ r_k c) = SrcSizeAligned o3 - SrcSizeAligned o3 mod 2 ^ r_k c"
        by (rule block_pos_eq [OF _ lt k(1)]) (simp add: x)
      also have "\<dots> = SrcSizeAligned o3 div 2 ^ r_k c * 2 ^ r_k c" by (simp add: minus_mod_eq_div_mult)
      also have "\<dots> = int (blocks c) * 2 ^ r_k c" unfolding x blocks_def by (simp add: zdiv_int)
      finally show ?thesis by (simp add: co3)
    qed
    have ln: "o_srcSize o3 = int (Suc q * SECTOR_SIZE)" unfolding co3 B(1) ..
    have qe: "q = ?b * per_block c + q mod per_block c" by simp
    have be: "blocks c * per_block c = ?b * per_block c + per_block c" unfolding B(2) [symmetric] by simp
    show ?thesis
    proof (cases "per_block c \<noteq> 1 \<and> Suc (q mod per_block c) < per_block c")
      case True
      then have h: "Suc (q mod per_block c) < per_block c" by simp
      note dv = div_Suc_block [OF h]
      have t: "target c (Suc q) G1 i" "o_partial o3 (of_nat ?b) = Some i" using A h by blast+
      have "pad_block junk P3 o3 i (of_nat ?b) (int (Suc q * SECTOR_SIZE)) (int (blocks c * 2 ^ r_k c)) = (P', o'')"
        using E True B(1) unfolding pz ln by simp
      then have pb: "pad_block junk P3 o3 i (of_nat (Suc q div per_block c)) (int (Suc q * SECTOR_SIZE)) (int (blocks c * 2 ^ r_k c)) = (P', o'')"
        by (simp only: dv)
      have lt: "Suc q < blocks c * per_block c" using qe be h by linarith
      have m0: "Suc q mod per_block c \<noteq> 0" by (simp add: dv)
      have pt: "o_partial o3 (of_nat (Suc q div per_block c)) = Some i" using t(2) by (simp add: dv)
      have past: "length (r_img c) \<le> Suc q * SECTOR_SIZE" using B(1) by simp
      have lb: "Suc (Suc q div per_block c) = blocks c" using B(2) by (simp add: dv)
      from pad_inv [OF G1(1) t(1) lt m0 pt past lb pb]
      obtain G' where G': "oinv cx dec c (blocks c * per_block c) P' o'' G'" "frame P3 o3 {} P' o''"
        "\<forall>j d. g_role G' j = Hand d \<longrightarrow> g_role G1 j = Hand d"
        "\<forall>j. (\<exists>d. g_role G' j = Job d) \<longleftrightarrow> (\<exists>d. g_role G1 j = Job d) \<or> j = i \<and> s_enqueued (o_sec o'' j)"
        "\<forall>j. j \<noteq> i \<longrightarrow> s_enqueued (o_sec o'' j) = s_enqueued (o_sec o3 j)" "modest c 4 o3 o''"
        by blast
      have n3: "\<not> s_enqueued (o_sec o3 i)" by (rule target_slot(4) [OF G1(1) t(1)])
      have "accepted o' G o'' G'"
        unfolding accepted_def
      proof (intro conjI allI impI)
        show "g_role G j = Hand d" if "g_role G' j = Hand d" for j d
          by (rule A [THEN conjunct1, rule_format]) (rule G'(3) [rule_format, OF that])
        show "(\<exists>d. g_role G' j = Job d) \<longleftrightarrow> (\<exists>d. g_role G j = Job d) \<or> \<not> s_enqueued (o_sec o' j) \<and> s_enqueued (o_sec o'' j)" for j
          using G'(4,5) A ne n3 by (cases "j = i") auto
        show "\<exists>i. \<forall>j. j \<noteq> i \<longrightarrow> s_enqueued (o_sec o'' j) = s_enqueued (o_sec o' j)"
          using G'(5) A by (intro exI [of _ i]) auto
      qed
      moreover have "modest c 4 o' o''" using modest_trans [OF G1(4) G'(6)] h by (simp add: arrival_cost_def)
      ultimately show ?thesis using G'(1) frame_trans [OF G1(2) G'(2)] unfolding si by auto
    next
      case False
      have "q mod per_block c < per_block c" by simp
      then have sq: "Suc q = blocks c * per_block c" using False qe be by linarith
      have "P' = P3 \<and> o'' = o3"
      proof (cases "per_block c = 1")
        case True
        then show ?thesis using E by simp
      next
        case False
        have "\<not> int (Suc q * SECTOR_SIZE) < int (blocks c * 2 ^ r_k c)"
          using sectors_per_size [OF I(1), of "Suc q"] sq by (simp only: of_nat_less_iff)
        then show ?thesis
          using E False B(1) unfolding pz ln pad_block.simps [of junk P3 o3] by simp
      qed
      then have e: "P' = P3" "o'' = o3" by simp_all
      show ?thesis unfolding e si sq [symmetric] using G1(1,2) t1 md by blast
    qed
  qed
qed

end
