(* ===== verification/OutputTrace.thy ===== *)
theory OutputTrace
  imports OutputTake
begin

section \<open>A run of the writer: all of it\<close>

subsection \<open>The steps of a run\<close>

text \<open>
  The writer between two callbacks, the number of sectors the reader has delivered, and the worker jobs
  that are queued.  A step carries whether it went well: a job that was not cancelled, a
  write that wrote everything.  \<open>Enqueue\<close> queues the jobs of the sectors that become enqueued.
\<close>

record run =
  r_pool :: pool
  r_out :: out
  r_next :: nat
  r_jobs :: "nat set"

inductive run_step :: "codecs \<Rightarrow> (nat \<Rightarrow> u16) \<Rightarrow> u8 list \<Rightarrow> run \<Rightarrow> bool \<Rightarrow> run \<Rightarrow> bool"
  for cx :: codecs and junk :: "nat \<Rightarrow> u16" and img :: "u8 list" where
  sector_arrives: "\<not> QueueFull (r_out s) \<Longrightarrow> r_next s * SECTOR_SIZE < length img
    \<Longrightarrow> b \<in> wild (r_pool s) - owned (r_out s) \<Longrightarrow> sector_bytes (r_pool s) b = img_sector img (r_next s)
    \<Longrightarrow> Enqueue junk (r_pool s) (r_out s) (int (r_next s * SECTOR_SIZE)) b = (P', o'')
    \<Longrightarrow> run_step cx junk img s True \<lparr>r_pool = P', r_out = o'', r_next = Suc (r_next s),
          r_jobs = r_jobs s \<union> {i. i < QUEUE_SIZE \<and> \<not> s_enqueued (o_sec (r_out s) i) \<and> s_enqueued (o_sec o'' i)}\<rparr>"
| job_ends: "i \<in> r_jobs s \<Longrightarrow> work_done cx junk (r_pool s) (r_out s) i status = (P', o'')
    \<Longrightarrow> run_step cx junk img s (0 \<le> status) \<lparr>r_pool = P', r_out = o'', r_next = r_next s, r_jobs = r_jobs s - {i}\<rparr>"
| write_ends: "q \<in> set (o_reqs (r_out s)) \<Longrightarrow> write_done (r_pool s) (r_out s) q result = (P', o'')
    \<Longrightarrow> run_step cx junk img s (result = full_result q)
          \<lparr>r_pool = P', r_out = o'', r_next = r_next s, r_jobs = r_jobs s\<rparr>"
| progress_returns: "o_todo (r_out s) \<noteq> [] \<Longrightarrow> progress_return junk (r_pool s) (r_out s) = (P', o'')
    \<Longrightarrow> run_step cx junk img s True \<lparr>r_pool = P', r_out = o'', r_next = r_next s, r_jobs = r_jobs s\<rparr>"

text \<open>
  A run: steps of the writer, and between them whatever the rest of the program does with buffers
  the writer does not own.  \<open>n\<close> counts the steps; \<open>ok\<close> asks that all of them went well.
\<close>

definition elsewhere :: "run \<Rightarrow> pool \<Rightarrow> bool" where
  "elsewhere s P' \<longleftrightarrow> pool_inv P' \<and> bufferSize P' = bufferSize (r_pool s) \<and> owned (r_out s) \<subseteq> wild P'
     \<and> (\<forall>q \<in> owned (r_out s). mem P' q = mem (r_pool s) q)"

inductive out_run :: "codecs \<Rightarrow> (nat \<Rightarrow> u16) \<Rightarrow> u8 list \<Rightarrow> bool \<Rightarrow> run \<Rightarrow> nat \<Rightarrow> run \<Rightarrow> bool"
  for cx :: codecs and junk :: "nat \<Rightarrow> u16" and img :: "u8 list" and ok :: bool and s0 :: run where
  run_start: "out_run cx junk img ok s0 0 s0"
| run_elsewhere: "out_run cx junk img ok s0 n s \<Longrightarrow> elsewhere s P' \<Longrightarrow> out_run cx junk img ok s0 n (s\<lparr>r_pool := P'\<rparr>)"
| run_more: "out_run cx junk img ok s0 n s \<Longrightarrow> run_step cx junk img s g s' \<Longrightarrow> ok \<longrightarrow> g
    \<Longrightarrow> out_run cx junk img ok s0 (Suc n) s'"

text \<open>The start: \<open>Output\<close> is constructed and \<open>SetFile\<close> called.\<close>

definition writer_start :: "codecs \<Rightarrow> out \<Rightarrow> Task \<Rightarrow> u8 list \<Rightarrow> nat \<Rightarrow> CSOFormat \<Rightarrow> pool \<Rightarrow> run" where
  "writer_start cx o0 task img k fmt P = \<lparr>r_pool = P,
     r_out = SetFile (Output_new cx o0 task) True (int (length img)) (2 ^ k) fmt, r_next = 0, r_jobs = {}\<rparr>"

definition writer_conf :: "Task \<Rightarrow> u8 list \<Rightarrow> nat \<Rightarrow> CSOFormat \<Rightarrow> run_conf" where
  "writer_conf task img k fmt = \<lparr>r_img = img, r_flags = task_flags task, r_fmt = fmt, r_k = k,
     r_sh = (if has_flag (task_flags task) TASKFLAG_DECOMPRESS then 0
       else find_shift (DstFirstSectorPos (task_flags task) (of_nat ((length img + 2 ^ k - 1) div 2 ^ k)) + int (length img)) 62)\<rparr>"

subsection \<open>The start has the invariant\<close>

lemma setup_sectors_fields:
  "setup_sectors sec is bs al oc lc i = (if i \<in> set is then Setup (sec i) bs al oc lc else sec i)"
  by (induction "is" arbitrary: sec) (auto simp: Setup_def)

lemma AddZlib_headers: "set (AddZlib cx zs st h) \<subseteq> set zs \<union> {z. z_withHeader z = h}"
  by (auto simp: AddZlib_def Let_def)

lemma Sector_new_headers: "z \<in> set (s_zStreams (Sector_new cx s0 flags)) \<Longrightarrow> z_withHeader z = has_flag flags TASKFLAG_FMT_DAX"
  by (auto simp: Sector_new_def Let_def AddZlib_def split: if_splits)

definition ghost_start :: ghost where
  "ghost_start = \<lparr>g_role = (\<lambda>i. if i < QUEUE_SIZE then Free else Out), g_w = 0, g_v = 0,
     g_C = (\<lambda>_. (SECTOR_FMT_ORIG, []))\<rparr>"

lemma start_fields:
  fixes cx :: codecs and o0 :: out and task :: Task and img :: "u8 list" and k :: nat and fmt :: CSOFormat and P :: pool
  assumes "conf_ok (writer_conf task img k fmt)"
  defines "o' \<equiv> r_out (writer_start cx o0 task img k fmt P)" and "c \<equiv> writer_conf task img k fmt"
  shows "conf c o'" "o_dstPos o' = first_pos c" "o_srcPos o' = 0" "o_state o' = STATE_HAS_FILE"
    "o_freeSectors o' = [0..<QUEUE_SIZE]" "o_pending o' = []" "o_partial o' = (\<lambda>_. None)" "o_reqs o' = []"
    "o_disk o' = []" "o_todo o' = []" "o_calls o' = []"
    "i < QUEUE_SIZE \<Longrightarrow> \<exists>oc lc. o_sec o' i = Setup (Sector_new cx (o_sec o0 i) (task_flags task)) (2 ^ k) (2 ^ r_sh c) oc lc"
proof -
  have k: "11 \<le> k" "k \<le> 18" "r_sh c \<le> 11" "fmt \<noteq> CSO_FMT_DAX" "blocks c < 2 ^ 30 - 1" "length img < 2 ^ 48"
    using assms(1) unfolding c_def [symmetric] by (simp_all add: conf_ok_def c_def writer_conf_def)
  have u: "uint ((2 :: u32) ^ k) = 2 ^ k" "unat ((2 :: u32) ^ k) = 2 ^ k" using k(2) by (simp_all add: uint_2p_len unat_2p)
  have s: "drop_bit k (int (length img) + uint ((2 :: u32) ^ k) - 1) = int (blocks c)"
    using blocks_ceiling [of c] by (simp add: u drop_bit_eq_div c_def writer_conf_def)
  have n: "unat (of_nat (blocks c) + 1 :: u32) = Suc (blocks c)"
  proof -
    have "unat (of_nat (Suc (blocks c)) :: u32) = Suc (blocks c)" using k(5) by (intro unat_of_nat_small) simp
    then show ?thesis by (simp add: add.commute)
  qed
  have c: "r_k c = k" "r_img c = img" "r_flags c = task_flags task" "r_fmt c = fmt" by (simp_all add: c_def writer_conf_def)
  have sh: "(if has_flag (task_flags task) TASKFLAG_DECOMPRESS then 0
      else find_shift (DstFirstSectorPos (task_flags task) (of_nat (blocks c)) + int (length img)) 62) = r_sh c"
    by (simp add: c_def writer_conf_def blocks_def)
  have sh1: "has_flag (task_flags task) TASKFLAG_DECOMPRESS \<Longrightarrow> r_sh c = 0"
    and sh2: "\<not> has_flag (task_flags task) TASKFLAG_DECOMPRESS
      \<Longrightarrow> find_shift (DstFirstSectorPos (task_flags task) (of_nat (blocks c)) + int (length img)) 62 = r_sh c"
    using sh by simp_all
  note d = o'_def writer_start_def SetFile_def Output_new_def Let_def u(2) s s [unfolded u(1)] shift_of_pow2
  show "conf c o'" using k(4) n sh1 sh2
    by (cases "has_flag (task_flags task) TASKFLAG_DECOMPRESS") (simp_all add: d conf_def c set_state_def push_bit_of_1)
  show "o_dstPos o' = first_pos c" using k(4) sh1 sh2
    by (cases "has_flag (task_flags task) TASKFLAG_DECOMPRESS") (simp_all add: d c set_state_def first_pos_def push_bit_of_1)
  show "o_srcPos o' = 0" "o_state o' = STATE_HAS_FILE" "o_freeSectors o' = [0..<QUEUE_SIZE]" "o_pending o' = []"
    "o_partial o' = (\<lambda>_. None)" "o_reqs o' = []" "o_disk o' = []" "o_todo o' = []" "o_calls o' = []"
    using k(4) by (simp_all add: d set_state_def STATE_INIT_def)
  show "i < QUEUE_SIZE \<Longrightarrow> \<exists>oc lc. o_sec o' i = Setup (Sector_new cx (o_sec o0 i) (task_flags task)) (2 ^ k) (2 ^ r_sh c) oc lc"
    using k(4) sh1 sh2
    by (cases "has_flag (task_flags task) TASKFLAG_DECOMPRESS")
      (simp_all add: d set_state_def setup_sectors_fields push_bit_of_1, blast+)
qed

lemma start_inv:
  assumes c: "conf_ok (writer_conf task img k fmt)" and P: "pool_ok (writer_conf task img k fmt) P" and cx: "codecs_ok cx dec False"
  shows "oinv cx dec (writer_conf task img k fmt) 0 P (r_out (writer_start cx o0 task img k fmt P)) ghost_start"
proof -
  let ?c = "writer_conf task img k fmt" and ?o = "r_out (writer_start cx o0 task img k fmt P)"
  note F = start_fields [OF c, where cx = cx and ?o0.0 = o0 and P = P]
  have bp: "0 < blocks ?c" by (rule blocks_pos [OF c])
  have fl: "r_flags ?c = task_flags task" "r_k ?c = k" by (simp_all add: writer_conf_def)
  have nd: "\<not> has_flag (task_flags task) TASKFLAG_FMT_DAX" using c by (simp add: conf_ok_def fl)
  have sec: "sec_ok cx dec ?c 0 P (o_sec ?o i) Free \<and> held (o_sec ?o i) = {}" if i: "i < QUEUE_SIZE" for i
  proof -
    obtain oc lc where s: "o_sec ?o i = Setup (Sector_new cx (o_sec o0 i) (task_flags task)) (2 ^ k) (2 ^ r_sh ?c) oc lc"
      using F(12) [OF i] by blast
    show ?thesis
      using cx nd Sector_new_headers [of _ cx "o_sec o0 i" "task_flags task"]
      by (auto simp: sec_ok_def s static_ok_def codecs_fit_def fl idle_def apart_def held_def Setup_def Sector_new_def Let_def)
  qed
  have fresh: "\<not> rdy ?o" "\<not> ixw ?o" "\<not> dtw ?o" by (simp_all add: F(4) has_flag_def state_defs)
  then have sf: "\<not> has_flag STATE_HAS_FILE STATE_INDEX_WRITTEN" by (simp add: F(4))
  have nh: "\<not> hole ?c 0 (g_role ghost_start) 0" by (simp add: hole_def)
  have nn: "g_role ghost_start i \<noteq> r" if "r \<noteq> Free" "r \<noteq> Out" for i r using that by (simp add: ghost_start_def)
  have rb: "role_block (g_role ghost_start i) = None" for i by (simp add: ghost_start_def)
  show ?thesis
    unfolding oinv_def
  proof (intro conjI impI)
    show "conf_ok ?c" "conf ?c ?o" by (fact c, fact F(1))
    show "mem_inv cx dec ?c 0 P ?o (g_role ghost_start)"
      using sec P by (simp add: mem_inv_def ghost_start_def)
    show "links ?c 0 ?o (g_role ghost_start)"
      unfolding links_def F by (auto simp: ghost_start_def om_find_def)
    show "blocks_inv ?c 0 (g_role ghost_start) (g_w ghost_start) (g_v ghost_start)"
      unfolding blocks_inv_def rb by (simp add: nn) (simp add: ghost_start_def)
    show "reqs_inv ?c 0 ?o ghost_start" by (rule reqs_inv_none) (simp_all add: F nn)
    show "layout_inv dec ?c ?o ghost_start"
      unfolding layout_inv_def F using sf bp first_pos_aligned(2) [OF c] by (simp add: ghost_start_def short_def file_read_def)
    show "header_inv ?c ?o (g_v ghost_start)"
      using fresh bp by (simp add: header_inv_def index_reqs_def F(8) ghost_start_def)
    show "finish_inv ?c 0 ?o ghost_start"
      using fresh bp nh nn unfolding finish_inv_def F index_lost_def by (simp add: ghost_start_def)
  qed
qed

subsection \<open>Every run has the invariant\<close>

definition run_inv :: "codecs \<Rightarrow> decoder \<Rightarrow> run_conf \<Rightarrow> run \<Rightarrow> ghost \<Rightarrow> bool" where
  "run_inv cx dec c s G \<longleftrightarrow> oinv cx dec c (sectors_in c (r_next s)) (r_pool s) (r_out s) G
     \<and> (\<forall>j d. g_role G j \<noteq> Hand d) \<and> r_jobs s = {j. \<exists>d. g_role G j = Job d}"

lemma job_enqueued:
  assumes "oinv cx dec c p P o' G" and "g_role G j = Job d"
  shows "s_enqueued (o_sec o' j)" and "j < QUEUE_SIZE"
proof -
  show u: "j < QUEUE_SIZE" by (rule role_used [OF oinvD(4) [OF assms(1)]]) (simp add: assms(2))
  have "role_ok dec c p P (o_sec o' j) (Job d)"
    using memD(2) [OF oinvD(3) [OF assms(1)] u] assms(2) by (simp add: sec_ok_def)
  then show "s_enqueued (o_sec o' j)" by (simp add: job_ok_def)
qed

text \<open>
  What is left to do bounds the steps: a sector can start a job or make a block ready, a job can make a
  block ready.
\<close>

definition weight :: "run_conf \<Rightarrow> run \<Rightarrow> nat" where
  "weight c s = 10 * (length (r_img c) div SECTOR_SIZE - r_next s) + 5 * card (r_jobs s) + load (r_out s)"

definition step_result :: "codecs \<Rightarrow> decoder \<Rightarrow> run_conf \<Rightarrow> run \<Rightarrow> bool \<Rightarrow> run \<Rightarrow> bool" where
  "step_result cx dec c s g s' \<longleftrightarrow> (\<exists>G'. run_inv cx dec c s' G') \<and> weight c s' < weight c s
     \<and> (g \<longrightarrow> r_fmt c = CSO_FMT_CSO2 \<longrightarrow> failed (r_out s') \<longrightarrow> failed (r_out s))"

lemma jobs_finite: "run_inv cx dec c s G \<Longrightarrow> finite (r_jobs s)"
  using job_enqueued(2) by (auto simp: run_inv_def intro!: finite_subset [of _ "{..<QUEUE_SIZE}"])

lemma sector_result:
  assumes inv: "run_inv cx dec c s G" and nf: "\<not> QueueFull (r_out s)" and q: "r_next s * SECTOR_SIZE < length (r_img c)"
    and b: "b \<in> wild (r_pool s) - owned (r_out s)" "sector_bytes (r_pool s) b = img_sector (r_img c) (r_next s)"
    and run: "Enqueue junk (r_pool s) (r_out s) (int (r_next s * SECTOR_SIZE)) b = (P', o'')"
  shows "step_result cx dec c s True \<lparr>r_pool = P', r_out = o'', r_next = Suc (r_next s),
          r_jobs = r_jobs s \<union> {i. i < QUEUE_SIZE \<and> \<not> s_enqueued (o_sec (r_out s) i) \<and> s_enqueued (o_sec o'' i)}\<rparr>"
proof -
  let ?q = "r_next s" and ?N = "length (r_img c) div SECTOR_SIZE"
  let ?new = "{i. i < QUEUE_SIZE \<and> \<not> s_enqueued (o_sec (r_out s) i) \<and> s_enqueued (o_sec o'' i)}"
  have i0: "oinv cx dec c ?q (r_pool s) (r_out s) G" "\<And>j d. g_role G j \<noteq> Hand d" "r_jobs s = {j. \<exists>d. g_role G j = Job d}"
    using inv q by (simp_all add: run_inv_def sectors_in_def)
  from Enqueue_inv [OF i0(1) nf q b run] obtain G' where
    G': "oinv cx dec c (sectors_in c (Suc ?q)) P' o'' G'" "accepted (r_out s) G o'' G'" "modest c 4 (r_out s) o''" by blast
  obtain i where A: "\<And>j d. g_role G' j = Hand d \<Longrightarrow> g_role G j = Hand d"
    "\<And>j. (\<exists>d. g_role G' j = Job d) \<longleftrightarrow> (\<exists>d. g_role G j = Job d) \<or> \<not> s_enqueued (o_sec (r_out s) j) \<and> s_enqueued (o_sec o'' j)"
    "\<And>j. j \<noteq> i \<Longrightarrow> s_enqueued (o_sec o'' j) = s_enqueued (o_sec (r_out s) j)"
    using G'(2) unfolding accepted_def by blast
  have small: "j < QUEUE_SIZE" if "\<exists>d. g_role G' j = Job d" for j using that job_enqueued(2) [OF G'(1)] by blast
  have J: "r_jobs s \<union> ?new = {j. \<exists>d. g_role G' j = Job d}"
    unfolding i0(3) using A(2) small by auto
  have "?new \<subseteq> {i}" using A(3) by blast
  then have "card ?new \<le> 1" using card_mono [of "{i}" ?new] by simp
  then have "card (r_jobs s \<union> ?new) \<le> card (r_jobs s) + 1" using card_Un_le [of "r_jobs s" ?new] by linarith
  moreover have "?q < ?N"
  proof -
    obtain m where m: "length (r_img c) = SECTOR_SIZE * m" using oinvD(1) [OF i0(1)] by (auto simp: conf_ok_def)
    then show ?thesis using q by (simp add: SECTOR_SIZE_def)
  qed
  ultimately show ?thesis
    using G'(1,3) A(1) i0(2) J unfolding step_result_def run_inv_def weight_def modest_def by auto
qed

lemma step_inv:
  assumes inv: "run_inv cx dec c s G" and st: "run_step cx junk (r_img c) s g s'"
  shows "step_result cx dec c s g s'"
  using st
proof cases
  case (sector_arrives b P' o'')
  then show ?thesis using sector_result [OF inv] by simp
next
  case (job_ends i status P' o'')
  have i0: "oinv cx dec c (sectors_in c (r_next s)) (r_pool s) (r_out s) G" "\<And>j d. g_role G j \<noteq> Hand d"
    "r_jobs s = {j. \<exists>d. g_role G j = Job d}"
    using inv by (simp_all add: run_inv_def)
  obtain b where b: "g_role G i = Job b" using job_ends(3) i0(3) by blast
  from work_done_inv [OF i0(1) b job_ends(4)] obtain G' where
    G': "oinv cx dec c (sectors_in c (r_next s)) P' o'' G'" "\<And>j d. g_role G' j = Hand d \<Longrightarrow> g_role G j = Hand d"
    "\<And>j d. g_role G' j = Job d \<longleftrightarrow> g_role G j = Job d \<and> j \<noteq> i" "load o'' \<le> load (r_out s) + 4"
    "0 \<le> status \<Longrightarrow> modest c 4 (r_out s) o''" by blast
  have J: "r_jobs s - {i} = {j. \<exists>d. g_role G' j = Job d}" unfolding i0(3) using G'(3) by auto
  have nH: "g_role G' j \<noteq> Hand d" for j d using G'(2) i0(2) by blast
  have "card (r_jobs s - {i}) + 1 = card (r_jobs s)"
    using card_Suc_Diff1 [OF jobs_finite [OF inv] job_ends(3)] by simp
  then have "weight c s' < weight c s" using G'(4) by (simp add: job_ends(2) weight_def)
  moreover have "run_inv cx dec c s' G'" using G'(1) nH J by (simp add: run_inv_def job_ends(2))
  ultimately show ?thesis
    using G'(5) unfolding step_result_def by (auto simp: job_ends(1,2) modest_def)
next
  case (write_ends q result P' o'')
  have i0: "oinv cx dec c (sectors_in c (r_next s)) (r_pool s) (r_out s) G" "\<And>j d. g_role G j \<noteq> Hand d"
    "r_jobs s = {j. \<exists>d. g_role G j = Job d}"
    using inv by (simp_all add: run_inv_def)
  from write_done_inv [OF i0(1) write_ends(3,4)] obtain G' where
    G': "oinv cx dec c (sectors_in c (r_next s)) P' o'' G'" "settled G G'" by blast
  note C = write_done_cost [OF write_ends(3,4)]
  have "run_inv cx dec c s' G'" using G' i0(2,3) by (auto simp: run_inv_def settled_def write_ends(2))
  then show ?thesis
    using C unfolding step_result_def by (auto simp: write_ends(1,2) modest_def weight_def)
next
  case (progress_returns P' o'')
  have i0: "oinv cx dec c (sectors_in c (r_next s)) (r_pool s) (r_out s) G" "\<And>j d. g_role G j \<noteq> Hand d"
    "r_jobs s = {j. \<exists>d. g_role G j = Job d}"
    using inv by (simp_all add: run_inv_def)
  from progress_inv [OF i0(1) progress_returns(4)] progress_returns(3) obtain G' where
    G': "oinv cx dec c (sectors_in c (r_next s)) P' o'' G'" "\<And>j d. g_role G' j = Hand d \<Longrightarrow> g_role G j = Hand d"
    "\<And>j d. g_role G' j = Job d \<longleftrightarrow> g_role G j = Job d" "modest c 0 (r_out s) o''" "load o'' < load (r_out s)" by blast
  have "run_inv cx dec c s' G'" using G'(1-3) i0(2,3) by (auto simp: run_inv_def progress_returns(2))
  then show ?thesis
    using G'(4,5) unfolding step_result_def by (auto simp: progress_returns(1,2) modest_def weight_def)
qed

lemma elsewhere_inv:
  assumes "run_inv cx dec c s G" and "elsewhere s P'"
  shows "run_inv cx dec c (s\<lparr>r_pool := P'\<rparr>) G"
proof -
  have "oinv cx dec c (sectors_in c (r_next s)) P' (r_out s) G"
    by (rule oinv_pool [of _ _ _ _ "r_pool s"]) (use assms in \<open>auto simp: run_inv_def elsewhere_def\<close>)
  then show ?thesis using assms(1) by (simp add: run_inv_def)
qed

text \<open>A run from a state with the invariant: it keeps the invariant and is bounded.\<close>

lemma run_result:
  assumes inv: "run_inv cx dec c s0 G0" and run: "out_run cx junk (r_img c) ok s0 n s"
  shows "(\<exists>G. run_inv cx dec c s G) \<and> n + weight c s \<le> weight c s0
    \<and> (ok \<longrightarrow> r_fmt c = CSO_FMT_CSO2 \<longrightarrow> failed (r_out s) \<longrightarrow> failed (r_out s0))"
  using run
proof induction
  case run_start
  then show ?case using inv by auto
next
  case (run_elsewhere n s P')
  then show ?case using elsewhere_inv by (fastforce simp: weight_def)
next
  case (run_more n s g s')
  then obtain G where "run_inv cx dec c s G" by blast
  from step_inv [OF this run_more.hyps(2)] run_more show ?case by (auto simp: step_result_def)
qed

lemma start_run_inv:
  assumes "conf_ok (writer_conf task img k fmt)" and "pool_ok (writer_conf task img k fmt) P" and "codecs_ok cx dec False"
  shows "run_inv cx dec (writer_conf task img k fmt) (writer_start cx o0 task img k fmt P) ghost_start"
proof -
  have "img \<noteq> []" using assms(1) by (simp add: conf_ok_def writer_conf_def)
  then have s: "sectors_in (writer_conf task img k fmt) 0 = 0" by (simp add: sectors_in_def writer_conf_def)
  have p: "r_pool (writer_start cx o0 task img k fmt P) = P" "r_next (writer_start cx o0 task img k fmt P) = 0"
    "r_jobs (writer_start cx o0 task img k fmt P) = {}" by (simp_all add: writer_start_def)
  show ?thesis
    unfolding run_inv_def p s using start_inv [OF assms, of o0] by (auto simp: ghost_start_def)
qed

end
