(* ===== verification/OutputReport.thy ===== *)
theory OutputReport
  imports OutputTrace
begin

section \<open>A run of the writer: what its reports mean\<close>

subsection \<open>After the success report\<close>

definition succeeded :: "out \<Rightarrow> bool" where
  "succeeded o' \<longleftrightarrow> (\<exists>e \<in> set (o_calls o'). is_success e)"

lemma succeeded_flags:
  assumes "finish_inv c p o' G"
  shows "succeeded o' \<longleftrightarrow> ixw o' \<and> dtw o'"
proof -
  have "succeeded o' \<longleftrightarrow> filter is_success (o_calls o') \<noteq> []" by (simp add: succeeded_def filter_empty_conv)
  then show ?thesis using assms unfolding finish_inv_def by (auto split: if_splits)
qed

lemma success_state:
  assumes inv: "run_inv cx dec c s G" and ok: "succeeded (r_out s)"
  shows "\<not> failed (r_out s)" "length (filter is_success (o_calls (r_out s))) = 1" "g_w G = blocks c" "g_v G = blocks c"
    "sectors_in c (r_next s) = blocks c * per_block c" "layout_inv dec c (r_out s) G" "o_reqs (r_out s) = []" "r_jobs s = {}"
    "length (r_img c) \<le> r_next s * SECTOR_SIZE" "owned (r_out s) = {}"
proof -
  let ?p = "sectors_in c (r_next s)" and ?o = "r_out s"
  have i0: "oinv cx dec c ?p (r_pool s) ?o G" "\<And>j d. g_role G j \<noteq> Hand d" "r_jobs s = {j. \<exists>d. g_role G j = Job d}"
    using inv by (simp_all add: run_inv_def)
  note I = oinvD [OF i0(1)] and B = blocksD [OF oinvD(5) [OF i0(1)]]
  have F: "ixw ?o" "dtw ?o" using ok succeeded_flags [OF I(9)] by simp_all
  show w: "g_w G = blocks c" using I(9) F(2) by (simp add: finish_inv_def)
  have le: "g_v G * per_block c \<le> blocks c * per_block c" using B(2,3) by linarith
  then have "g_v G \<le> blocks c" using per_block_pos [of c] by simp
  then show v: "g_v G = blocks c" using B(1) w by simp
  show p: "?p = blocks c * per_block c" using B(2,3) v by simp
  have nh: "\<not> hole c ?p (g_role G) (g_w G)" using w p by (auto simp: hole_def)
  have "\<not> index_lost ?o" using F by (simp add: index_lost_def)
  then show "\<not> failed ?o" using I(9) nh unfolding finish_inv_def failed_def by blast
  show "length (filter is_success (o_calls ?o)) = 1" using I(9) F by (simp add: finish_inv_def)
  show lay: "layout_inv dec c ?o G" by (rule I(7) [OF nh])
  have "index_reqs ?o = []" using I(8) F by (auto simp: header_inv_def)
  moreover have "filter is_data (o_reqs ?o) = []" by (rule no_data_reqs [OF I(6)]) (simp add: v w)
  ultimately show "o_reqs ?o = []" by (cases "o_reqs ?o") (auto simp: index_reqs_def split: if_splits)
  have none: "role_block (g_role G i) = None" for i
  proof (rule ccontr)
    assume "role_block (g_role G i) \<noteq> None"
    then obtain b where b: "role_block (g_role G i) = Some b" by blast
    have "b < blocks c" by (rule begun_block(1) [OF i0(1) b])
    then show False using B(6) [OF b] B(5) [of i b] v w by fastforce
  qed
  have nj: "g_role G j \<noteq> Job d" for j d using none [of j] by auto
  then show "r_jobs s = {}" unfolding i0(3) by simp
  show "length (r_img c) \<le> r_next s * SECTOR_SIZE"
  proof (rule ccontr)
    assume "\<not> ?thesis"
    then have lt: "r_next s * SECTOR_SIZE < length (r_img c)" by simp
    then have "?p = r_next s" by (simp add: sectors_in_def)
    then show False using sector_block [OF I(1) lt] p by simp
  qed
  have "held (o_sec ?o i) = {}" if i: "i < QUEUE_SIZE" for i
  proof -
    have "g_role G i \<noteq> Lost" using lay unfolding layout_inv_def by blast
    moreover have "g_role G i \<noteq> Out" using linksD(7) [OF I(4), of i] i by simp
    ultimately have "g_role G i = Free" using none [of i] by (cases "g_role G i") simp_all
    then show ?thesis using memD(2) [OF I(3) i] by (simp add: sec_ok_def idle_def held_def)
  qed
  then show "owned ?o = {}" by (simp add: owned_def)
qed

subsection \<open>Some step is always possible\<close>

lemma clean_state:
  assumes inv: "run_inv cx dec c s G" and nf: "\<not> failed (r_out s)"
  shows "\<not> hole c (sectors_in c (r_next s)) (g_role G) (g_w G)" "\<not> index_lost (r_out s)" "layout_inv dec c (r_out s) G"
proof -
  have i0: "oinv cx dec c (sectors_in c (r_next s)) (r_pool s) (r_out s) G" using inv by (simp add: run_inv_def)
  note I = oinvD [OF i0]
  show h: "\<not> hole c (sectors_in c (r_next s)) (g_role G) (g_w G)" "\<not> index_lost (r_out s)"
    using I(9) nf unfolding finish_inv_def failed_def by blast+
  show "layout_inv dec c (r_out s) G" by (rule I(7) [OF h(1)])
qed

text \<open>With nothing under way, the reader has not delivered everything and a sector object is free.\<close>

lemma not_stuck:
  assumes inv: "run_inv cx dec c s G" and nf: "\<not> failed (r_out s)" and ns: "\<not> succeeded (r_out s)"
    and q: "r_jobs s = {}" "o_reqs (r_out s) = []" "o_todo (r_out s) = []"
  shows "r_next s * SECTOR_SIZE < length (r_img c) \<and> \<not> QueueFull (r_out s)"
proof -
  let ?p = "sectors_in c (r_next s)" and ?o = "r_out s" and ?w = "g_w G" and ?n = "per_block c"
  have i0: "oinv cx dec c ?p (r_pool s) ?o G" "\<And>j d. g_role G j \<noteq> Hand d" "\<And>j d. g_role G j \<noteq> Job d"
    using inv q(1) by (auto simp: run_inv_def)
  note I = oinvD [OF i0(1)] and B = blocksD [OF oinvD(5) [OF i0(1)]] and C = clean_state [OF inv nf]
  have lost: "g_role G i \<noteq> Lost" for i using C(3) unfolding layout_inv_def by blast
  have nw: "g_role G i \<noteq> Writing b" for i b using I(6) q(2) unfolding reqs_inv_def by auto
  have nr: "g_role G i \<noteq> Ready ?w" for i using I(9) q(3) unfolding finish_inv_def by blast
  have wb: "?w < blocks c"
  proof (rule ccontr)
    assume "\<not> ?w < blocks c"
    moreover have "?w * ?n \<le> blocks c * ?n" using mult_le_mono1 [OF B(1), of ?n] B(2,3) by linarith
    ultimately have w: "?w = blocks c" by simp
    have d: "dtw ?o" using I(9) w q(3) unfolding finish_inv_def by (auto split: if_splits)
    have "?w * ?n \<le> g_v G * ?n" using B(1) by (rule mult_le_mono1)
    then have "g_v G * ?n = blocks c * ?n" using order_trans [OF B(2,3)] unfolding w by simp
    then have "g_v G = blocks c" using per_block_pos [of c] by auto
    then have "rdy ?o" using I(8) by (simp add: header_inv_def)
    then have "ixw ?o" using C(2) q(2) by (simp add: index_lost_def index_reqs_def)
    with d ns show False using succeeded_flags [OF I(9)] by simp
  qed
  have early: "b = ?w" if b: "role_block (g_role G i) = Some b" "?p < Suc ?w * ?n" for i b
  proof -
    have "b * ?n < Suc ?w * ?n" using begun_block(3) [OF i0(1) b(1)] b(2) by linarith
    then have "b < Suc ?w" by (simp only: mult_less_cancel2)
    moreover have "?w \<le> b" using B(1) B(6) [OF b(1) nw] by linarith
    ultimately show ?thesis by simp
  qed
  have pw: "?p < Suc ?w * ?n"
  proof (rule ccontr)
    assume h: "\<not> ?p < Suc ?w * ?n"
    have "?w * ?n < Suc ?w * ?n" by simp
    then have "?w * ?n < ?p" using h by linarith
    then obtain i where i: "role_block (g_role G i) = Some ?w" using C(1) unfolding hole_def by blast
    then have f: "g_role G i = Filling ?w" using i0(2,3) nw nr by (cases "g_role G i") auto
    have "?p < Suc ?w * ?n" using memD(2) [OF I(3) begun_block(2) [OF i0(1) i]] f by (simp add: sec_ok_def)
    with h show False ..
  qed
  have "Suc ?w * ?n \<le> blocks c * ?n" using wb by (intro mult_le_mono1) simp
  then have "?p \<noteq> blocks c * ?n" using pw by linarith
  then have r: "r_next s * SECTOR_SIZE < length (r_img c)" by (auto simp: sectors_in_def split: if_splits)
  have "\<exists>i < QUEUE_SIZE. g_role G i = Free"
  proof (rule ccontr)
    assume h: "\<not> ?thesis"
    have busy: "role_block (g_role G i) = Some ?w" if u: "i < QUEUE_SIZE" for i
    proof -
      have "g_role G i \<noteq> Free" "g_role G i \<noteq> Out" using h u linksD(7) [OF I(4), of i] by auto
      then obtain b where b: "role_block (g_role G i) = Some b" using lost [of i] by (cases "g_role G i") auto
      then show ?thesis using early [OF b pw] by simp
    qed
    have "(0 :: nat) = 1" by (rule B(4) [OF busy busy]) (simp_all add: QUEUE_SIZE_def)
    then show False by simp
  qed
  then have "o_freeSectors ?o \<noteq> []" using linksD(2) [OF I(4)] by force
  then show ?thesis using r by (simp add: QueueFull_def)
qed

lemma fresh_buffer:
  assumes inv: "run_inv cx dec c s G" and that: "q * SECTOR_SIZE < length (r_img c)"
  shows "\<exists>P' b. elsewhere s P' \<and> b \<in> wild P' - owned (r_out s) \<and> sector_bytes P' b = img_sector (r_img c) q"
proof -
  have i0: "oinv cx dec c (sectors_in c (r_next s)) (r_pool s) (r_out s) G" using inv by (simp add: run_inv_def)
  note I = oinvD [OF i0]
  let ?P = "r_pool s"
  obtain P1 b where al: "Alloc ?P = (P1, b)" by (rule prod.exhaust)
  let ?P2 = "put P1 b 0 (img_sector (r_img c) q)"
  have pi: "pool_inv ?P" using memD(1) [OF I(3)] by (simp add: pool_ok_def)
  have A: "pool_inv ?P2" "wild ?P2 = insert b (wild ?P)" "b \<notin> wild ?P" "bufferSize ?P2 = bufferSize ?P"
    using bp.st_alloc_inv [OF pi] bp.st_alloc_out [OF pi] bp.st_alloc_fresh [OF pi] alloc_size [of ?P] al by simp_all
  have mem: "mem ?P2 x = mem ?P x" if "x \<in> wild ?P" for x
    using that A(3) alloc_mem [of ?P] al by (auto simp: mwrite_def)
  have ow: "owned (r_out s) \<subseteq> wild ?P" by (rule owned_wild [OF i0])
  have l: "length (img_sector (r_img c) q) = SECTOR_SIZE"
    using length_sector_at [OF I(1), of q] that by (simp add: sector_at_def)
  have "sector_bytes ?P2 b = img_sector (r_img c) q"
    using mread_same [of "mem P1" b 0 "img_sector (r_img c) q"] l by (simp add: sector_bytes_def)
  moreover have "elsewhere s ?P2" using A ow mem unfolding elsewhere_def by blast
  moreover have "b \<in> wild ?P2 - owned (r_out s)" using A ow by auto
  ultimately show ?thesis by blast
qed

lemma run_step_possible:
  assumes inv: "run_inv cx dec c s G" and nf: "\<not> failed (r_out s)" and ns: "\<not> succeeded (r_out s)"
  shows "\<exists>P' s'. elsewhere s P' \<and> run_step cx junk (r_img c) (s\<lparr>r_pool := P'\<rparr>) True s'"
proof -
  have i0: "oinv cx dec c (sectors_in c (r_next s)) (r_pool s) (r_out s) G" using inv by (simp add: run_inv_def)
  have same: "elsewhere s (r_pool s)"
    using memD(1) [OF oinvD(3) [OF i0]] owned_wild [OF i0] by (simp add: elsewhere_def pool_ok_def)
  have sp: "s\<lparr>r_pool := r_pool s\<rparr> = s" by simp
  consider (job) i where "i \<in> r_jobs s" | (req) q where "q \<in> set (o_reqs (r_out s))" | (todo) "o_todo (r_out s) \<noteq> []"
    | (idle) "r_jobs s = {}" "o_reqs (r_out s) = []" "o_todo (r_out s) = []"
    by (cases "o_reqs (r_out s)") auto
  then show ?thesis
  proof cases
    case job
    obtain P' o'' where "work_done cx junk (r_pool s) (r_out s) i 0 = (P', o'')" by (rule prod.exhaust)
    from run_step.job_ends [OF job this, of "r_img c"] show ?thesis using same sp by (metis order_refl)
  next
    case req
    obtain P' o'' where "write_done (r_pool s) (r_out s) q (full_result q) = (P', o'')" by (rule prod.exhaust)
    from run_step.write_ends [OF req this, of cx junk "r_img c"] show ?thesis using same sp by metis
  next
    case todo
    obtain P' o'' where "progress_return junk (r_pool s) (r_out s) = (P', o'')" by (rule prod.exhaust)
    from run_step.progress_returns [OF todo this, of cx "r_img c"] show ?thesis using same sp by metis
  next
    case idle
    note N = not_stuck [OF inv nf ns idle]
    obtain P' b where b: "elsewhere s P'" "b \<in> wild P' - owned (r_out s)" "sector_bytes P' b = img_sector (r_img c) (r_next s)"
      using fresh_buffer [OF inv] N by blast
    let ?s = "s\<lparr>r_pool := P'\<rparr>"
    obtain P2 o2 where "Enqueue junk (r_pool ?s) (r_out ?s) (int (r_next ?s * SECTOR_SIZE)) b = (P2, o2)" by (rule prod.exhaust)
    from run_step.sector_arrives [OF _ _ _ _ this, of "r_img c" cx] b N show ?thesis by auto
  qed
qed

text \<open>A run whose jobs and writes all go well reaches the success report, if no format is refused.\<close>

lemma clean_run_ends:
  assumes "run_inv cx dec c s G" and "\<not> failed (r_out s)" and "r_fmt c = CSO_FMT_CSO2"
    and "out_run cx junk (r_img c) True s0 n s"
  shows "\<exists>m s'. out_run cx junk (r_img c) True s0 m s' \<and> succeeded (r_out s')"
  using assms
proof (induction "weight c s" arbitrary: s G n rule: less_induct)
  case less
  show ?case
  proof (cases "succeeded (r_out s)")
    case True
    then show ?thesis using less.prems(4) by blast
  next
    case False
    from run_step_possible [OF less.prems(1,2) False] obtain P' s' where
      e: "elsewhere s P'" and st: "run_step cx junk (r_img c) (s\<lparr>r_pool := P'\<rparr>) True s'" by blast
    note i1 = elsewhere_inv [OF less.prems(1) e]
    have r1: "out_run cx junk (r_img c) True s0 n (s\<lparr>r_pool := P'\<rparr>)" by (rule run_elsewhere [OF less.prems(4) e])
    have r2: "out_run cx junk (r_img c) True s0 (Suc n) s'" by (rule run_more [OF r1 st]) simp
    from step_inv [OF i1 st] obtain G' where G': "run_inv cx dec c s' G'" "weight c s' < weight c (s\<lparr>r_pool := P'\<rparr>)"
      "\<not> failed (r_out s')"
      using less.prems(2,3) by (auto simp: step_result_def)
    have "weight c s' < weight c s" using G'(2) by (simp add: weight_def)
    from less.hyps [OF this G'(1,3) less.prems(3) r2] show ?thesis .
  qed
qed

end
