(* ===== verification/OutputFile.thy ===== *)
theory OutputFile
  imports OutputReport
begin

section \<open>A run of the writer: the file it leaves\<close>

subsection \<open>Decompressing\<close>

lemma take_sectors:
  assumes c: "conf_ok c"
  shows "take (length (r_img c) - a * SECTOR_SIZE) (concat (map (\<lambda>j. sector_at c (a + j)) [0..<n]))
    = take (n * SECTOR_SIZE) (drop (a * SECTOR_SIZE) (r_img c))"
proof (induction n)
  case 0
  then show ?case by simp
next
  case (Suc n)
  let ?L = "length (r_img c)" and ?xs = "concat (map (\<lambda>j. sector_at c (a + j)) [0..<n])"
  have l: "length ?xs = n * SECTOR_SIZE"
    using c by (simp add: length_concat o_def sum_list_triv)
  have s: "take ((a + n) * SECTOR_SIZE - a * SECTOR_SIZE) ys = take (n * SECTOR_SIZE) ys" for ys :: "u8 list"
    by (simp add: add_mult_distrib)
  obtain m where m: "?L = SECTOR_SIZE * m" using c by (auto simp: conf_ok_def)
  show ?case
  proof (cases "(a + n) * SECTOR_SIZE < ?L")
    case True
    then have "a + n < m" unfolding m by (simp add: SECTOR_SIZE_def)
    then have "Suc (a + n) * SECTOR_SIZE \<le> ?L" unfolding m by (metis Suc_leI mult.commute mult_le_mono2)
    then have ge: "SECTOR_SIZE \<le> ?L - a * SECTOR_SIZE - n * SECTOR_SIZE" by (simp add: add_mult_distrib)
    have "SECTOR_SIZE + n * SECTOR_SIZE \<le> ?L - a * SECTOR_SIZE" using ge by (simp add: SECTOR_SIZE_def)
    then have x: "take (?L - a * SECTOR_SIZE) ?xs = ?xs" "n * SECTOR_SIZE \<le> ?L - a * SECTOR_SIZE" using l by simp_all
    have e: "take (?L - a * SECTOR_SIZE - length ?xs) (sector_at c (a + n)) = img_sector (r_img c) (a + n)"
      using ge l length_sector_at [OF c, of "a + n"] True by (simp add: sector_at_def)
    have "img_sector (r_img c) (a + n) = take SECTOR_SIZE (drop (n * SECTOR_SIZE) (drop (a * SECTOR_SIZE) (r_img c)))"
      by (simp add: img_sector_def file_read_def add_mult_distrib add.commute)
    then show ?thesis
      using Suc.IH e by (simp add: take_add x(1) min_absorb2 [OF x(2)] add.commute [of SECTOR_SIZE])
  next
    case False
    then have z: "?L - a * SECTOR_SIZE \<le> n * SECTOR_SIZE" by (simp add: add_mult_distrib)
    then have "take (n * SECTOR_SIZE + SECTOR_SIZE) (drop (a * SECTOR_SIZE) (r_img c))
        = take (n * SECTOR_SIZE) (drop (a * SECTOR_SIZE) (r_img c))" by simp
    then show ?thesis using Suc.IH z l by (simp add: add.commute [of SECTOR_SIZE])
  qed
qed

lemma block_img_take:
  assumes c: "conf_ok c"
  shows "take (length (r_img c) - b * 2 ^ r_k c) (block_img c b) = take (2 ^ r_k c) (drop (b * 2 ^ r_k c) (r_img c))"
proof -
  have e: "b * 2 ^ r_k c = b * per_block c * SECTOR_SIZE"
    unfolding per_block_size [OF c, symmetric] by (simp only: mult.assoc)
  show ?thesis
    using take_sectors [OF c, of "b * per_block c" "per_block c"]
    unfolding block_img_def e per_block_size [OF c] .
qed

lemma decompressed_body:
  assumes c: "conf_ok c" and d: "dec_mode c"
  shows "b \<le> blocks c \<Longrightarrow> (\<And>i. i < b \<Longrightarrow> snd (C i) = block_img c i) \<Longrightarrow> body c C b = take (b * 2 ^ r_k c) (r_img c)"
proof (induction b)
  case 0
  then show ?case by simp
next
  case (Suc b)
  let ?L = "length (r_img c)" and ?d = "b * 2 ^ r_k c"
  have IH: "body c C b = take ?d (r_img c)" using Suc by simp
  have lt: "?d < ?L" using Suc.prems(1) by (simp only: blocks_iff [symmetric])
  have sh: "r_sh c = 0" using c d by (simp add: conf_ok_def)
  have pos: "pos_of c C b = int ?d" using IH lt first_pos_decompress [OF c d] by (simp add: pos_of_def)
  let ?bs = "block_img c b"
  have l: "length ?bs = 2 ^ r_k c" by (rule length_block_img [OF c])
  have l32: "length ?bs < 2 ^ 32" unfolding l using c by (intro power_strict_increasing) (simp_all add: conf_ok_def)
  have z: "uint (place_size c (int ?d) (length ?bs)) = int (min (2 ^ r_k c) (?L - ?d))"
  proof -
    have e: "int (?L - ?d) = int ?L - int ?d" using lt by (simp only: of_nat_diff less_imp_le)
    have "int ?d \<le> int ?L" using lt by (simp only: of_nat_le_iff less_imp_le)
    then show ?thesis
      using uint_place_size [OF l32, of c "int ?d"] d unfolding of_nat_min e l by simp
  qed
  then have uz: "unat (place_size c (int ?d) (length ?bs)) = min (2 ^ r_k c) (?L - ?d)"
    by (simp only: unat_eq_nat_uint nat_int)
  then have nz: "place_size c (int ?d) (length ?bs) \<noteq> 0" using lt by (metis min_less_iff_conj nat_less_le unat_0 zero_less_diff zero_less_numeral zero_less_power)
  have "place_bytes c (int ?d) ?bs = take (min (2 ^ r_k c) (?L - ?d)) ?bs"
    using nz by (simp add: place_bytes_def Let_def uz sh Align_def del: of_nat_mult)
  also have "\<dots> = take (?L - ?d) ?bs" using l by (simp add: min_def)
  also have "\<dots> = take (2 ^ r_k c) (drop ?d (r_img c))" by (rule block_img_take [OF c])
  finally have "body c C (Suc b) = take ?d (r_img c) @ take (2 ^ r_k c) (drop ?d (r_img c))"
    using Suc.prems(2) [of b] by (simp add: body_Suc pos IH del: of_nat_mult)
  then show ?case by (simp only: mult_Suc add.commute [of "2 ^ r_k c" "b * 2 ^ r_k c"] take_add)
qed

lemma file_layout:
  assumes c: "conf_ok c" and lay: "layout_inv dec c o' G"
  shows "drop (nat (first_pos c)) (o_disk o') = body c (g_C G) (g_w G)"
proof -
  have f: "0 \<le> first_pos c" by (rule first_pos_aligned(2) [OF c])
  have r: "take (length (body c (g_C G) (g_w G))) (drop (nat (first_pos c)) (o_disk o')) = body c (g_C G) (g_w G)"
    and l: "int (length (o_disk o')) \<le> pos_of c (g_C G) (g_w G)"
    using lay unfolding layout_inv_def file_read_def by blast+
  have "length (drop (nat (first_pos c)) (o_disk o')) \<le> length (body c (g_C G) (g_w G))"
    using l f by (simp add: pos_of_def)
  then show ?thesis using r by simp
qed

lemma decompressed_disk:
  assumes inv: "run_inv cx dec c s G" and ok: "succeeded (r_out s)" and d: "dec_mode c"
  shows "o_disk (r_out s) = r_img c"
proof -
  note S = success_state [OF inv ok]
  have c: "conf_ok c" using inv oinvD(1) unfolding run_inv_def by blast
  have st: "stored_ok dec c b (g_C G b)" if "b < blocks c" for b using S(6) that unfolding layout_inv_def S(4) by blast
  have "snd (g_C G b) = block_img c b" if "b < blocks c" for b
    using st [OF that] d by (simp add: stored_ok_def ShouldCompress_def split: if_splits)
  then have b: "body c (g_C G) (blocks c) = take (blocks c * 2 ^ r_k c) (r_img c)" by (intro decompressed_body [OF c d]) simp_all
  have "length (r_img c) \<le> blocks c * 2 ^ r_k c" using blocks_iff [of "blocks c" c] by simp
  then show ?thesis using file_layout [OF c S(6)] first_pos_decompress [OF c d] b by (simp add: S(3))
qed

subsection \<open>Compressing\<close>

text \<open>Room in the index for every position, were no block to shrink.\<close>

definition room :: "run_conf \<Rightarrow> bool" where
  "room c \<longleftrightarrow> first_pos c + int (blocks c * 2 ^ r_k c) < 2 ^ (31 + r_sh c)"

lemma aligned_least:
  assumes sh: "sh < 32" and d: "0 \<le> d" and e: "2 ^ sh dvd e" "d + int n \<le> e"
  shows "fst (Align (2 ^ sh) (d + int n)) \<le> e"
proof (rule ccontr)
  assume h: "\<not> ?thesis"
  let ?a = "fst (Align (2 ^ sh) (d + int n))"
  note al = Align_pow2 [OF sh, of "d + int n"]
  have p: "0 \<le> d + int n" using d by simp
  have "?a - e < 2 ^ sh" using al(2,3) [OF p] e(2) by linarith
  moreover have "2 ^ sh dvd ?a - e" using al(1) [OF p] e(1) by (rule dvd_diff)
  ultimately show False using h zdvd_not_zless [of "?a - e" "2 ^ sh"] by simp
qed

lemma place_sizes:
  assumes c: "conf_ok c" and nd: "\<not> dec_mode c" and st: "stored_ok dec c b x" and d: "0 \<le> d" "2 ^ r_sh c dvd d"
  shows "int (length (place_bytes c d (snd x))) \<le> 2 ^ r_k c"
    and "fst x = SECTOR_FMT_ORIG \<longleftrightarrow> int (length (place_bytes c d (snd x))) = 2 ^ r_k c"
    and "\<exists>pad. place_bytes c d (snd x) = snd x @ pad" and "fst x = SECTOR_FMT_ORIG \<Longrightarrow> place_bytes c d (snd x) = snd x"
proof -
  let ?bs = "snd x"
  have k: "r_k c < 32" "r_sh c \<le> r_k c" "r_sh c < 32" using c by (simp_all add: conf_ok_def)
  have k32: "(2 :: nat) ^ r_k c < 2 ^ 32" using k(1) by (intro power_strict_increasing) simp_all
  have le: "length ?bs \<le> 2 ^ r_k c"
    using st length_block_img [OF c, of b] by (auto simp: stored_ok_def split: if_splits)
  then have l32: "length ?bs < 2 ^ 32" using k32 by linarith
  have nd': "\<not> has_flag (r_flags c) TASKFLAG_DECOMPRESS" by (rule nd)
  have u: "uint (place_size c d (length ?bs)) = int (length ?bs)"
    using uint_place_size [OF l32, of c d] nd' by simp
  then have un: "unat (place_size c d (length ?bs)) = length ?bs" by (simp only: unat_eq_nat_uint nat_int)
  have z: "place_size c d (length ?bs) = 0 \<longleftrightarrow> ?bs = []" by (metis length_0_conv un unat_eq_zero)
  note L = length_place_bytes(1) [OF c l32 d, unfolded u] and al = Align_pow2 [OF k(3), of "d + int (length ?bs)"]
  have len: "int (length (place_bytes c d ?bs)) = (if ?bs = [] then d else fst (Align (2 ^ r_sh c) (d + int (length ?bs)))) - d"
    using L nd' z by simp
  show pad: "\<exists>pad. place_bytes c d ?bs = ?bs @ pad" using z by (auto simp: place_bytes_def Let_def un)
  have o1: "place_bytes c d ?bs = ?bs" "length ?bs = 2 ^ r_k c" if o: "fst x = SECTOR_FMT_ORIG"
  proof -
    show l: "length ?bs = 2 ^ r_k c" using st o length_block_img [OF c, of b] by (simp add: stored_ok_def)
    have "(2 :: int) ^ r_sh c dvd 2 ^ r_k c" by (rule le_imp_power_dvd [OF k(2)])
    then have "2 ^ r_sh c dvd d + int (length ?bs)" using d(2) l by simp
    then have "Align (2 ^ r_sh c) (d + int (length ?bs)) = (d + int (length ?bs), 0)" using al(4) d(1) by simp
    then have "length (place_bytes c d ?bs) = length ?bs" using len l by (auto split: if_splits)
    then show "place_bytes c d ?bs = ?bs" using pad by auto
  qed
  have o2: "int (length (place_bytes c d ?bs)) < 2 ^ r_k c" if o: "fst x \<noteq> SECTOR_FMT_ORIG"
  proof -
    obtain y where y: "y < 2 ^ r_k c" "length ?bs \<le> y" "2 ^ r_sh c dvd y" using st o by (auto simp: stored_ok_def)
    obtain m where m: "y = 2 ^ r_sh c * m" using y(3) by blast
    have "2 ^ r_sh c dvd d + int y" using d(2) by (simp add: m)
    moreover have "d + int (length ?bs) \<le> d + int y" using y(2) by simp
    ultimately have "fst (Align (2 ^ r_sh c) (d + int (length ?bs))) \<le> d + int y"
      by (rule aligned_least [OF k(3) d(1)])
    moreover have "int y < 2 ^ r_k c" using y(1) by (metis of_nat_less_iff of_nat_numeral of_nat_power)
    moreover have "int (length (place_bytes c d ?bs)) \<le> int y"
      using len calculation(1) by (cases "?bs = []") simp_all
    ultimately show ?thesis by (simp only: order_le_less_trans)
  qed
  show "fst x = SECTOR_FMT_ORIG \<Longrightarrow> place_bytes c d ?bs = ?bs" by (rule o1(1))
  show "int (length (place_bytes c d ?bs)) \<le> 2 ^ r_k c" using o1 o2 by (cases "fst x = SECTOR_FMT_ORIG") simp_all
  show "fst x = SECTOR_FMT_ORIG \<longleftrightarrow> int (length (place_bytes c d ?bs)) = 2 ^ r_k c"
    using o1 o2 by (cases "fst x = SECTOR_FMT_ORIG") auto
qed

lemma pos_of_bound:
  assumes c: "conf_ok c" and nd: "\<not> dec_mode c" and st: "\<And>i. i < b \<Longrightarrow> stored_ok dec c i (C i)" and s: "short C b"
  shows "pos_of c C b \<le> first_pos c + int (b * 2 ^ r_k c)"
  using st s
proof (induction b)
  case 0
  then show ?case by simp
next
  case (Suc b)
  have s: "short C b" using Suc.prems(2) by (simp add: short_def)
  have "int (length (place_bytes c (pos_of c C b) (snd (C b)))) \<le> 2 ^ r_k c"
    by (rule place_sizes(1) [OF c nd Suc.prems(1)]) (use pos_of_ok [OF c s] in simp_all)
  moreover have "pos_of c C b \<le> first_pos c + int (b * 2 ^ r_k c)" using Suc s by simp
  moreover have "int (Suc b * 2 ^ r_k c) = 2 ^ r_k c + int (b * 2 ^ r_k c)" by simp
  ultimately show ?case unfolding pos_of_Suc by linarith
qed

lemma concat_piece:
  assumes "\<And>x. x \<in> set xs \<Longrightarrow> length x = m" and "j < length xs"
  shows "take m (drop (j * m) (concat xs)) = xs ! j"
  using assms
proof (induction xs arbitrary: j)
  case Nil
  then show ?case by simp
next
  case (Cons x xs)
  then show ?case by (cases j) (simp_all add: drop_all)
qed

lemma block_holds: "conf_ok c \<Longrightarrow> holds_block (r_img c) (r_k c) b (block_img c b)"
  unfolding holds_block_def
proof (intro conjI allI impI)
  assume c: "conf_ok c"
  show "length (block_img c b) = 2 ^ r_k c" by (rule length_block_img [OF c])
  fix j assume j: "j < 2 ^ (r_k c - 11)" "(b * 2 ^ (r_k c - 11) + j) * SECTOR_SIZE < length (r_img c)"
  let ?xs = "map (\<lambda>j. sector_at c (b * per_block c + j)) [0..<per_block c]"
  have "take SECTOR_SIZE (drop (j * SECTOR_SIZE) (concat ?xs)) = ?xs ! j"
    by (rule concat_piece) (use c j in \<open>auto simp: per_block_def\<close>)
  also have "\<dots> = img_sector (r_img c) (b * 2 ^ (r_k c - 11) + j)"
    using j by (simp add: per_block_def sector_at_def)
  finally show "file_read (block_img c b) (j * SECTOR_SIZE) SECTOR_SIZE = img_sector (r_img c) (b * 2 ^ (r_k c - 11) + j)"
    by (simp add: file_read_def block_img_def)
qed

lemma stored_reads:
  assumes c: "conf_ok c" and cap: "2 ^ Suc (r_k c) \<le> cap"
    and st: "stored_ok (decodes dx False) c b x" and bytes: "bytes = snd x @ pad" "fst x = SECTOR_FMT_ORIG \<Longrightarrow> bytes = snd x"
    and short: "int (length bytes) \<le> 2 ^ r_k c"
  shows "block_stored dx cap (r_img c) (r_k c) b (fst x) bytes"
proof (cases "fst x = SECTOR_FMT_ORIG")
  case True
  then show ?thesis using st bytes(2) block_holds [OF c, of b] by (simp add: block_stored_def stored_ok_def)
next
  case False
  then have d: "decodes dx False (fst x) bytes (block_img c b)" using st by (simp add: stored_ok_def bytes(1))
  have l: "length (block_img c b) = 2 ^ r_k c" by (rule length_block_img [OF c])
  have "r_k c < 31" using c by (simp add: conf_ok_def)
  then have "(2 :: int) ^ r_k c < 2 ^ 31" by (rule power_strict_increasing) simp
  with short have "int (length bytes) < 2 ^ 31" by (rule le_less_trans)
  then have s: "length bytes < 2 ^ 31" by simp
  show ?thesis
  proof (cases "fst x")
    case SECTOR_FMT_DEFLATE
    have "length (block_img c b) < 2 * 2 ^ r_k c" unfolding l by simp
    then have "length (block_img c b) < cap" using cap by simp
    then have "fst (d_inflateInit dx False) \<and> (\<exists>msg. d_inflate dx False bytes cap = (True, msg, block_img c b))"
      using d s unfolding decodes_def SECTOR_FMT_DEFLATE SectorFormat.case by blast
    then show ?thesis using SECTOR_FMT_DEFLATE block_holds [OF c, of b] by (auto simp: block_stored_def)
  next
    case SECTOR_FMT_LZ4
    then have "d_lz4 dx bytes (2 ^ r_k c) = (int (2 ^ r_k c), block_img c b)" using d l s by (simp add: decodes_def)
    then show ?thesis using SECTOR_FMT_LZ4 block_holds [OF c, of b] l by (simp add: block_stored_def)
  qed (use False in simp)
qed

lemma header_size:
  assumes "conf_ok c" and "\<not> dec_mode c"
  shows "DstFirstSectorPos (r_flags c) (of_nat (blocks c)) = 28 + 4 * int (blocks c)"
proof -
  have b: "blocks c < 2 ^ 30 - 1" using assms(1) by (simp add: conf_ok_def)
  have "unat (of_nat (Suc (blocks c)) :: u32) = Suc (blocks c)"
    using b by (intro unat_of_nat_small) simp
  moreover have "(of_nat (blocks c) + 1 :: u32) = of_nat (Suc (blocks c))" by simp
  ultimately have "uint (of_nat (blocks c) + 1 :: u32) = int (Suc (blocks c))" by (metis uint_nat)
  then show ?thesis using assms by (simp add: DstFirstSectorPos_def conf_ok_def sizeof_CSOHeader_def)
qed

text \<open>The first block starts inside the range of the image: a header is small, and it is only
  aligned for large images.\<close>

lemma first_pos_inside:
  assumes c: "conf_ok c" and nd: "\<not> dec_mode c"
    and sh: "0 < r_sh c \<Longrightarrow> 2 ^ 30 \<le> length (r_img c)"
  shows "first_pos c < int (length (r_img c))"
proof -
  let ?L = "length (r_img c)" and ?B = "blocks c"
  have k: "r_sh c < 32" "r_sh c \<le> 11" using c by (simp_all add: conf_ok_def)
  have p: "0 \<le> 28 + 4 * int ?B" by simp
  have k11: "2048 \<le> (2 :: nat) ^ r_k c"
    using power_increasing [of 11 "r_k c" "2 :: nat"] c by (simp add: conf_ok_def)
  have L: "2048 * (?B - 1) < ?L" "2048 \<le> ?L" "1 \<le> ?B"
  proof -
    have "?B - 1 < blocks c" using blocks_pos [OF c] by simp
    then have "(?B - 1) * 2 ^ r_k c < ?L" unfolding blocks_iff .
    moreover have "(?B - 1) * 2048 \<le> (?B - 1) * 2 ^ r_k c" using k11 by (rule mult_le_mono2)
    ultimately show "2048 * (?B - 1) < ?L" by linarith
    have "2048 dvd ?L" "?L \<noteq> 0" using c by (auto simp: conf_ok_def SECTOR_SIZE_def)
    then show "2048 \<le> ?L" by (simp add: dvd_imp_le)
    show "1 \<le> ?B" using blocks_pos [OF c] by simp
  qed
  note al = Align_pow2 [OF k(1) p]
  have f: "first_pos c = fst (Align (2 ^ r_sh c) (28 + 4 * int ?B))"
    unfolding first_pos_def header_size [OF c nd] ..
  show ?thesis
  proof (cases "r_sh c = 0")
    case True
    then have "first_pos c = 28 + 4 * int ?B" unfolding f by (simp add: Align_def)
    then show ?thesis using L by linarith
  next
    case False
    have "(2 :: int) ^ r_sh c \<le> 2 ^ 11" using k(2) by (intro power_increasing) simp_all
    then have "first_pos c < 28 + 4 * int ?B + 2048" unfolding f using al(2,3) by simp
    moreover have "1073741824 \<le> ?L" using sh False by simp
    ultimately show ?thesis using L by linarith
  qed
qed

lemma file_written:
  assumes inv: "run_inv cx (decodes dx False) c s G" and ok: "succeeded (r_out s)" and nd: "\<not> dec_mode c"
    and rm: "room c" and cap: "2 ^ Suc (r_k c) \<le> cap"
    and sh: "0 < r_sh c \<Longrightarrow> 2 ^ 30 \<le> length (r_img c)"
  shows "written_file dx cap (r_fmt c) (r_k c) (r_sh c) (r_img c) (o_disk (r_out s)) (o_index (r_out s))"
proof -
  note S = success_state [OF inv ok]
  let ?o = "r_out s" and ?C = "g_C G" and ?B = "blocks c"
  have c: "conf_ok c" using inv oinvD(1) unfolding run_inv_def by blast
  note lay = S(6) [unfolded layout_inv_def S(3,4)]
  have st: "o_index ?o ! b = index_entry (r_fmt c) (r_sh c) (pos_of c ?C b) (fst (?C b))"
    "format_allowed (r_fmt c) (fst (?C b))" "stored_ok (decodes dx False) c b (?C b)" if "b < ?B" for b
    using lay that by blast+
  have lastix: "o_index ?o ! ?B = index_value (r_sh c) (pos_of c ?C ?B)" using lay by blast
  have short: "short ?C b" if "b \<le> ?B" for b using lay that by (auto simp: short_def)
  note P = pos_of_ok [OF c short]
  have lim: "pos_of c ?C b < 2 ^ (31 + r_sh c)" if b: "b \<le> ?B" for b
  proof -
    have "pos_of c ?C b \<le> first_pos c + int (b * 2 ^ r_k c)"
      by (rule pos_of_bound [where dec = "decodes dx False", OF c nd]) (use st b short in auto)
    also have "\<dots> \<le> first_pos c + int (?B * 2 ^ r_k c)" using b by (simp del: of_nat_mult)
    finally show ?thesis using rm by (simp only: room_def) 
  qed
  have f0: "0 \<le> first_pos c" by (rule first_pos_aligned(2) [OF c])
  have disk: "drop (nat (first_pos c)) (o_disk ?o) = body c ?C ?B" using file_layout [OF c S(6)] unfolding S(3) .
  show ?thesis
    unfolding written_file_def
  proof (intro exI [of _ "pos_of c ?C"] exI [of _ "\<lambda>b. fst (?C b)"] conjI allI impI)
    show "pos_of c ?C 0 < int (length (r_img c))" using first_pos_inside [OF c nd sh] by simp
    fix b assume "b * 2 ^ r_k c < length (r_img c)"
    then have b: "b < ?B" "Suc b \<le> ?B" "b \<le> ?B" unfolding blocks_iff [symmetric] by simp_all
    let ?d = "pos_of c ?C b" and ?d' = "pos_of c ?C (Suc b)" and ?pl = "place_bytes c (pos_of c ?C b) (snd (?C b))"
    have d: "0 \<le> ?d" "2 ^ r_sh c dvd ?d" "0 \<le> ?d'" "2 ^ r_sh c dvd ?d'" using P [OF b(3)] P [OF b(2)] by simp_all
    note Z = place_sizes [OF c nd st(3) [OF b(1)] d(1,2)]
    have dd: "?d' - ?d = int (length ?pl)" by (simp add: pos_of_Suc)
    obtain pad where pad: "?pl = snd (?C b) @ pad" using Z(3) by blast
    have ne: "?pl \<noteq> []"
    proof (cases "fst (?C b) = SECTOR_FMT_ORIG")
      case True
      then have "int (length ?pl) = 2 ^ r_k c" using Z(2) by simp
      then show ?thesis by auto
    next
      case False
      then have "decodes dx False (fst (?C b)) ?pl (block_img c b)" using st(3) [OF b(1)] unfolding pad by (simp add: stored_ok_def)
      then show ?thesis by (simp add: decodes_def)
    qed
    obtain r where r: "body c ?C ?B = body c ?C (Suc b) @ r"
      using body_prefix [of c ?C "Suc b" "?B - Suc b"] b(2) by auto
    have bd: "drop (length (body c ?C b)) (body c ?C ?B) = ?pl @ r" unfolding r body_Suc by simp
    have nd: "nat ?d = length (body c ?C b) + nat (first_pos c)" using f0 by (simp add: pos_of_def nat_add_distrib)
    have dr: "drop (nat ?d) (o_disk ?o) = ?pl @ r"
      unfolding nd drop_drop [symmetric] disk bd ..
    have n: "nat (?d' - ?d) = length ?pl" by (simp only: dd nat_int)
    have rd: "file_read (o_disk ?o) (nat ?d) (nat (?d' - ?d)) = ?pl"
      unfolding file_read_def dr n by simp
    have "0 < length (drop (nat ?d) (o_disk ?o))" unfolding dr using ne by simp
    then have lt: "nat ?d < length (o_disk ?o)" by simp
    have le: "nat ?d' \<le> length (o_disk ?o)"
    proof -
      have "length (o_disk ?o) - nat ?d = length ?pl + length r" using arg_cong [OF dr, of length] by simp
      moreover have "nat ?d' = nat ?d + length ?pl" using d(1) by (simp add: pos_of_Suc nat_add_distrib)
      ultimately show ?thesis using lt by linarith
    qed
    have nx: "o_index ?o ! Suc b AND 0x7FFFFFFF = index_value (r_sh c) ?d'"
    proof (cases "Suc b = ?B")
      case True
      then show ?thesis
        using index_entry_value(1) [OF d(3) lim [OF b(2)], of CSO_FMT_CSO1 SECTOR_FMT_DEFLATE] lastix by (simp add: index_entry_def)
    next
      case False
      then have "Suc b < ?B" using b(2) by simp
      then show ?thesis using st(1) index_entry_value(1) [OF d(3) lim [OF b(2)]] by simp
    qed
    show "written_block dx cap (r_fmt c) (r_k c) (r_sh c) (r_img c) (o_disk ?o) (o_index ?o) (pos_of c ?C) (\<lambda>b. fst (?C b)) b"
      unfolding written_block_def rd
    proof (intro conjI)
      show "block_stored dx cap (r_img c) (r_k c) b (fst (?C b)) ?pl"
        by (rule stored_reads [OF c cap st(3) [OF b(1)] pad Z(4,1)])
      show "?d' - ?d \<le> 2 ^ r_k c" "(fst (?C b) = SECTOR_FMT_ORIG) = (?d' - ?d = 2 ^ r_k c)" unfolding dd by (fact Z(1,2))+
      show "?d \<le> ?d'" using dd by linarith
    qed (use st(1,2) [OF b(1)] nx d lim [OF b(2)] le in simp_all)
  qed
qed

end
