(* ===== verification/OutputTheorems.thy ===== *)
theory OutputTheorems
  imports OutputFile
begin

section \<open>The writer as a whole\<close>

text \<open>
  What every run of the writer guarantees, whatever the order of the completions and whichever of
  them fail: from the construction of \<open>Output\<close> over the sectors the reader delivers to the success
  report, and on to the reader of the file.
\<close>

subsection \<open>The setting\<close>

text \<open>A pool, an image and options the program can meet; of the codecs only that they respect the
  capacity of their buffers.\<close>

definition writer_ready :: "codecs \<Rightarrow> Task \<Rightarrow> u8 list \<Rightarrow> nat \<Rightarrow> CSOFormat \<Rightarrow> pool \<Rightarrow> bool" where
  "writer_ready cx task img k fmt P \<longleftrightarrow> conf_ok (writer_conf task img k fmt) \<and> pool_ok (writer_conf task img k fmt) P
     \<and> codecs_ok cx any_result False"

lemma writer_conf_fields [simp]:
  "r_img (writer_conf task img k fmt) = img" "r_flags (writer_conf task img k fmt) = task_flags task"
  "r_k (writer_conf task img k fmt) = k" "r_fmt (writer_conf task img k fmt) = fmt"
  by (simp_all add: writer_conf_def)

lemma writer_start_fields [simp]:
  "r_next (writer_start cx o0 task img k fmt P) = 0" "r_jobs (writer_start cx o0 task img k fmt P) = {}"
  by (simp_all add: writer_start_def)

lemma ready_run:
  assumes "writer_ready cx task img k fmt P" and "codecs_ok cx dec False" and "out_run cx junk img ok (writer_start cx o0 task img k fmt P) n s"
  obtains G where "run_inv cx dec (writer_conf task img k fmt) s G"
    and "n + weight (writer_conf task img k fmt) s \<le> weight (writer_conf task img k fmt) (writer_start cx o0 task img k fmt P)"
proof -
  let ?c = "writer_conf task img k fmt"
  have "run_inv cx dec ?c (writer_start cx o0 task img k fmt P) ghost_start"
    using start_run_inv assms(1,2) by (simp add: writer_ready_def)
  from run_result [OF this, of junk ok n s] assms(3) that show ?thesis by auto
qed

lemma ready_any: "writer_ready cx task img k fmt P \<Longrightarrow> codecs_ok cx any_result False"
  by (simp add: writer_ready_def)

lemma start_fresh:
  assumes "writer_ready cx task img k fmt P"
  shows "o_calls (r_out (writer_start cx o0 task img k fmt P)) = []" "load (r_out (writer_start cx o0 task img k fmt P)) = 0"
proof -
  have c: "conf_ok (writer_conf task img k fmt)" using assms by (simp add: writer_ready_def)
  show "o_calls (r_out (writer_start cx o0 task img k fmt P)) = []" "load (r_out (writer_start cx o0 task img k fmt P)) = 0"
    using start_fields [OF c, where cx = cx and ?o0.0 = o0 and P = P] by (simp_all add: load_def)
qed

text \<open>Index entries are shifted for large images only.\<close>

lemma shift_large:
  assumes c: "conf_ok (writer_conf task img k fmt)" and nd: "\<not> has_flag (task_flags task) TASKFLAG_DECOMPRESS"
    and sh: "0 < r_sh (writer_conf task img k fmt)"
  shows "2 ^ 30 \<le> length img"
proof -
  let ?c = "writer_conf task img k fmt"
  let ?w = "DstFirstSectorPos (task_flags task) (of_nat (blocks ?c)) + int (length img)"
  have w: "?w = 28 + 4 * int (blocks ?c) + int (length img)" using header_size [OF c] nd by simp
  have s: "r_sh ?c = find_shift ?w 62" using nd by (simp add: writer_conf_def blocks_def)
  have "2 ^ (30 + r_sh ?c) \<le> ?w" unfolding s by (rule find_shift_least) (use sh s in simp)
  moreover have "(2 :: int) ^ 31 \<le> 2 ^ (30 + r_sh ?c)" using sh by (intro power_increasing) simp_all
  ultimately have b: "2147483648 \<le> 28 + 4 * int (blocks ?c) + int (length img)" unfolding w by simp
  have "blocks ?c - 1 < blocks ?c" using blocks_pos [OF c] by simp
  then have "(blocks ?c - 1) * 2 ^ k < length img" using blocks_iff [of "blocks ?c - 1" ?c] by simp
  moreover have "2048 \<le> (2 :: nat) ^ k" using power_increasing [of 11 k "2 :: nat"] c by (simp add: conf_ok_def)
  then have "(blocks ?c - 1) * 2048 \<le> (blocks ?c - 1) * 2 ^ k" by (rule mult_le_mono2)
  ultimately have "(blocks ?c - 1) * 2048 < length img" by linarith
  then show ?thesis using b by simp
qed

lemma file_reads:
  assumes rd: "writer_ready cx task img k fmt P" and nd: "\<not> has_flag (task_flags task) TASKFLAG_DECOMPRESS"
    and run: "out_run cx junk img ok (writer_start cx o0 task img k fmt P) n s" and ok: "succeeded (r_out s)"
    and rb: "codecs_ok cx (decodes dx False) False" "room (writer_conf task img k fmt)"
    and g: "\<And>n. length (g n) = n" and P: "pool_inv P2" "wild P2 = {}" and fd: "0 \<le> fd"
    and t: "ck_pending t = []" and x: "\<not> i_resumeShouldRead x"
  shows "\<exists>st. ck_open_cso g (blocks (writer_conf task img k fmt)) (o_disk (r_out s)) (P2, t, x) fd
      = begin_reading checksum_client st \<and> ck_ready dx (o_disk (r_out s)) img st"
proof -
  let ?c = "writer_conf task img k fmt" and ?o = "r_out s"
  obtain G where inv: "run_inv cx (decodes dx False) ?c s G" by (rule ready_run [OF rd rb(1) run])
  note S = success_state [OF inv ok]
  have i0: "oinv cx (decodes dx False) ?c (sectors_in ?c (r_next s)) (r_pool s) ?o G" using inv by (simp add: run_inv_def)
  note I = oinvD [OF i0]
  have nd': "\<not> dec_mode ?c" using nd by simp
  have C: "11 \<le> k" "k \<le> 18" "r_sh ?c \<le> 11" "fmt \<noteq> CSO_FMT_DAX" "SECTOR_SIZE dvd length img" "length img < 2 ^ 48"
    "blocks ?c < 2 ^ 30 - 1" using I(1) by (simp_all add: conf_ok_def)
  have wr: "cso_writer fmt k (r_sh ?c) (int (length img)) (blocks ?c) ?o"
    using I(2) C blocks_ceiling [of ?c] unfolding cso_writer_def conf_def by (auto simp: SECTOR_SIZE_def)
  have "ixw ?o" using ok succeeded_flags [OF I(9)] by simp
  then have pf: "take (length (cso_prefix ?o)) (o_disk ?o) = cso_prefix ?o" using S(6) nd' unfolding layout_inv_def by blast
  have sh: "0 < r_sh ?c \<Longrightarrow> 2 ^ 30 \<le> length (r_img ?c)" using shift_large [OF I(1) nd] by simp
  have w: "\<forall>cap \<ge> 2 ^ Suc k. written_file dx cap fmt k (r_sh ?c) img (o_disk ?o) (o_index ?o)"
    using file_written [OF inv ok nd' rb(2) _ sh] by simp
  show ?thesis by (rule ck_open_cso_reads [OF wr pf w refl g P fd t x])
qed

subsection \<open>Properties\<close>

text \<open>C1: What is compressed can be read back.  Whatever the order in which the sectors, the worker jobs,
  the writes and the returns of the progress callback interleave: when the writer reports success for a
  CSO v1, CSO v2 or ZSO file, the checksum task, opening the bytes on disk, ends with the success message
  that carries the CRC-32 of the source image.  The conditions are that the decoders give back what the
  codecs compress, with the size of the data as LZ4's target (\<open>codecs_ok\<close>, \<open>decodes\<close>), and that every
  position would fit the index even if no block shrank (\<open>room\<close>; without it the top bit of an entry
  can be lost).\<close>

theorem compressed_file_checks:
  assumes "writer_ready cx task img k fmt P" and "\<not> has_flag (task_flags task) TASKFLAG_DECOMPRESS"
    and "out_run cx junk img ok (writer_start cx o0 task img k fmt P) n s" and "succeeded (r_out s)"
    and "codecs_ok cx (decodes dx False) False" "room (writer_conf task img k fmt)"
    and "\<forall>n. length (g n) = n" "pool_inv P2" "wild P2 = {}" "0 \<le> fd" "ck_pending t = []" "\<not> i_resumeShouldRead x"
    and "3 * (length img div SECTOR_SIZE) + 2 \<le> N"
  shows "\<exists>P' t' x'. drive N (o_disk (r_out s)) dx checksum_client
      (ck_open_cso g (blocks (writer_conf task img k fmt)) (o_disk (r_out s)) (P2, t, x) fd) = (P', t', x') \<and> wild P' = {}
    \<and> last (ck_events t') = EvError TASK_SUCCESS (Some (''CRC32: '' @ hex8 (crc32_spec 0 img)))"
proof -
  have g: "\<And>n. length (g n) = n" using assms(7) by blast
  obtain st where "ck_open_cso g (blocks (writer_conf task img k fmt)) (o_disk (r_out s)) (P2, t, x) fd
      = begin_reading checksum_client st" "ck_ready dx (o_disk (r_out s)) img st"
    using file_reads [OF assms(1-6) g assms(8-12)] by blast
  moreover have "img \<noteq> []" using assms(1) by (simp add: writer_ready_def conf_ok_def)
  ultimately show ?thesis using ck_drive [OF _ _ assms(13)] by simp
qed

text \<open>C2: When the writer reports success for a decompression, the file is the image, byte for byte, whatever
  the order of the completions.\<close>

theorem decompressed_file:
  assumes "writer_ready cx task img k fmt P" and "has_flag (task_flags task) TASKFLAG_DECOMPRESS"
    and "out_run cx junk img ok (writer_start cx o0 task img k fmt P) n s" and "succeeded (r_out s)"
  shows "o_disk (r_out s) = img"
proof -
  obtain G where inv: "run_inv cx any_result (writer_conf task img k fmt) s G" by (rule ready_run [OF assms(1) ready_any [OF assms(1)] assms(3)])
  show ?thesis using decompressed_disk [OF inv assms(4)] assms(2) by simp
qed

text \<open>C4: The concurrent writer refines a sequential one.  In every reachable state without an error
  report there are stored forms \<open>C\<close> of the blocks, each of which decodes to its block, such that the bytes on
  disk after the header are what a writer gives that stores the blocks \<open>0\<close> to \<open>w - 1\<close> one
  after the other (\<open>body\<close>), \<open>srcPos_\<close> and \<open>dstPos_\<close> stand after them, and the index has their
  positions.\<close>

theorem writer_refines:
  assumes "writer_ready cx task img k fmt P" and "codecs_ok cx (decodes dx False) False"
    and "out_run cx junk img ok (writer_start cx o0 task img k fmt P) n s" and "\<not> failed (r_out s)"
  shows "\<exists>C w. w \<le> blocks (writer_conf task img k fmt)
    \<and> drop (nat (first_pos (writer_conf task img k fmt))) (o_disk (r_out s)) = body (writer_conf task img k fmt) C w
    \<and> o_srcPos (r_out s) = int (w * 2 ^ k) \<and> o_dstPos (r_out s) = pos_of (writer_conf task img k fmt) C w
    \<and> (\<forall>b < w. stored_ok (decodes dx False) (writer_conf task img k fmt) b (C b) \<and> format_allowed fmt (fst (C b))
         \<and> o_index (r_out s) ! b = index_entry fmt (r_sh (writer_conf task img k fmt)) (pos_of (writer_conf task img k fmt) C b) (fst (C b)))"
proof -
  let ?c = "writer_conf task img k fmt"
  obtain G where inv: "run_inv cx (decodes dx False) ?c s G" by (rule ready_run [OF assms(1-3)])
  note lay = clean_state(3) [OF inv assms(4)]
  have i0: "oinv cx (decodes dx False) ?c (sectors_in ?c (r_next s)) (r_pool s) (r_out s) G" using inv by (simp add: run_inv_def)
  note I = oinvD [OF i0] and B = blocksD [OF oinvD(5) [OF i0]]
  have "g_w G * per_block ?c \<le> blocks ?c * per_block ?c" using mult_le_mono1 [OF B(1)] B(2,3) by (meson order_trans)
  then have "g_w G \<le> blocks ?c" by simp
  moreover have "o_srcPos (r_out s) = int (g_w G * 2 ^ k)" using I(9) by (simp add: finish_inv_def)
  ultimately show ?thesis
    using file_layout [OF I(1) lay] lay B(1) unfolding layout_inv_def
    by (intro exI [of _ "g_C G"] exI [of _ "g_w G"]) auto
qed

text \<open>C3: The success report is true.  Once the writer has reported success, it has never reported an
  error, has reported success once, has no write or job under way, the whole image has been delivered, and
  every buffer it used is back in the pool.\<close>

theorem writer_success:
  assumes "writer_ready cx task img k fmt P"
    and "out_run cx junk img ok (writer_start cx o0 task img k fmt P) n s" and "succeeded (r_out s)"
  shows "\<not> failed (r_out s) \<and> length (filter is_success (o_calls (r_out s))) = 1
    \<and> o_reqs (r_out s) = [] \<and> r_jobs s = {} \<and> length img \<le> r_next s * SECTOR_SIZE \<and> owned (r_out s) = {}"
proof -
  obtain G where inv: "run_inv cx any_result (writer_conf task img k fmt) s G"
    by (rule ready_run [OF assms(1) ready_any [OF assms(1)] assms(2)])
  show ?thesis using success_state [OF inv assms(3)] by simp
qed

text \<open>C5: The writer is never stuck.  In every reachable state in which it has reported neither an
  error nor success, a step is possible that goes well: a job or a write under way, a return of the progress
  callback, or the next sector of the reader, for which the queue has room.\<close>

theorem writer_progress:
  assumes "writer_ready cx task img k fmt P"
    and "out_run cx junk img ok (writer_start cx o0 task img k fmt P) n s"
    and "\<not> failed (r_out s)" and "\<not> succeeded (r_out s)"
  shows "\<exists>P' s'. elsewhere s P' \<and> run_step cx junk img (s\<lparr>r_pool := P'\<rparr>) True s'"
proof -
  obtain G where inv: "run_inv cx any_result (writer_conf task img k fmt) s G"
    by (rule ready_run [OF assms(1) ready_any [OF assms(1)] assms(2)])
  show ?thesis using run_step_possible [OF inv assms(3,4)] by simp
qed

text \<open>C6: Every run of the writer is finite: it has at most ten steps for each sector of the image,
  jobs, writes and returns of the progress callback included.\<close>

theorem writer_terminates:
  assumes "writer_ready cx task img k fmt P"
    and "out_run cx junk img ok (writer_start cx o0 task img k fmt P) n s"
  shows "n \<le> 10 * (length img div SECTOR_SIZE)"
proof -
  obtain G where "n + weight (writer_conf task img k fmt) s \<le> weight (writer_conf task img k fmt) (writer_start cx o0 task img k fmt P)"
    by (rule ready_run [OF assms(1) ready_any [OF assms(1)] assms(2)])
  then show ?thesis using start_fresh(2) [OF assms(1)] by (simp add: weight_def)
qed

text \<open>C17: The state of the writer is well formed in every reachable state.  The buffers of the 32 \<open>Sector\<close>
  objects are allocated and no two objects share one; the free list has distinct objects below 32 that hold
  nothing; the queue is an ordered map whose objects are finished blocks at the position they are queued
  under; the index has an entry for each block and one more.\<close>

theorem writer_state_typed:
  assumes "writer_ready cx task img k fmt P"
    and "out_run cx junk img ok (writer_start cx o0 task img k fmt P) n s"
  shows "pool_inv (r_pool s) \<and> owned (r_out s) \<subseteq> wild (r_pool s)
    \<and> (\<forall>i < QUEUE_SIZE. \<forall>j < QUEUE_SIZE. i \<noteq> j \<longrightarrow> held (o_sec (r_out s) i) \<inter> held (o_sec (r_out s) j) = {})
    \<and> distinct (o_freeSectors (r_out s)) \<and> (\<forall>i \<in> set (o_freeSectors (r_out s)). i < QUEUE_SIZE \<and> idle (o_sec (r_out s) i))
    \<and> om_inv (o_pending (r_out s))
    \<and> (\<forall>x i. om_find x (o_pending (r_out s)) = Some i \<longrightarrow> i < QUEUE_SIZE \<and> i \<notin> set (o_freeSectors (r_out s)) \<and> Pos (o_sec (r_out s) i) = x)
    \<and> length (o_index (r_out s)) = Suc (blocks (writer_conf task img k fmt))"
proof -
  let ?c = "writer_conf task img k fmt" and ?o = "r_out s"
  obtain G where inv: "run_inv cx any_result ?c s G" by (rule ready_run [OF assms(1) ready_any [OF assms(1)] assms(2)])
  have i0: "oinv cx any_result ?c (sectors_in ?c (r_next s)) (r_pool s) ?o G" using inv by (simp add: run_inv_def)
  note I = oinvD [OF i0] and M = memD [OF oinvD(3) [OF i0]] and L = linksD [OF oinvD(4) [OF i0]]
  have free: "i < QUEUE_SIZE \<and> idle (o_sec ?o i)" if "i \<in> set (o_freeSectors ?o)" for i
  proof -
    have r: "g_role G i = Free" using that L(2) by blast
    then have "i < QUEUE_SIZE" using L(7) [of i] by (simp add: not_le [symmetric])
    then show ?thesis using M(2) [of i] r by (simp add: sec_ok_def)
  qed
  have pend: "i < QUEUE_SIZE \<and> i \<notin> set (o_freeSectors ?o) \<and> Pos (o_sec ?o i) = x" if f: "om_find x (o_pending ?o) = Some i" for x i
  proof -
    obtain b where b: "g_role G i = Ready b" "x = int (b * 2 ^ r_k ?c)" using f L(4) by blast
    have u: "i < QUEUE_SIZE" by (rule role_used [OF I(4)]) (simp add: b)
    then show ?thesis using M(2) [OF u] b L(2) by (auto simp: sec_ok_def done_ok_def Pos_def)
  qed
  show ?thesis
    using M(1,3) L(1,3) free pend owned_wild [OF i0] I(2) unfolding pool_ok_def conf_def by blast
qed

subsection \<open>A sample run\<close>

text \<open>One sector, with the codec for runs of one byte.\<close>

definition run_task :: "bool \<Rightarrow> Task" where
  "run_task decompress = \<lparr>task_input = ''a.iso'', task_output = ''a.cso'', task_block_size = DEFAULT_BLOCK_SIZE,
     task_flags = (if decompress then TASKFLAG_DECOMPRESS else 0),
     orig_max_cost_percent = (\<lambda>_. 0), lz4_max_cost_percent = (\<lambda>_. 0)\<rparr>"

abbreviation run_pool :: pool where "run_pool \<equiv> BufferPool_init (\<lambda>_ _. 0)"

definition run_from :: "bool \<Rightarrow> run" where
  "run_from decompress = writer_start run_codecs sample_out (run_task decompress) sample_image 11 CSO_FMT_CSO2 run_pool"

lemma run_flags: "task_flags (run_task False) = 0" "task_flags (run_task True) = TASKFLAG_DECOMPRESS"
  "has_flag (task_flags (run_task d)) TASKFLAG_DECOMPRESS = d" "\<not> has_flag (task_flags (run_task d)) TASKFLAG_FMT_DAX"
  by (cases d, simp_all add: run_task_def has_flag_def flag_defs)+

lemma run_blocks: "blocks (writer_conf (run_task d) sample_image 11 CSO_FMT_CSO2) = 1"
  by (simp add: blocks_def sample_image_def)

lemma run_shift: "r_sh (writer_conf (run_task d) sample_image 11 CSO_FMT_CSO2) = 0"
proof -
  have "DstFirstSectorPos (task_flags (run_task False)) 1 = 32"
    using run_flags(3,4) [of False] by (simp add: DstFirstSectorPos_def sizeof_CSOHeader_def)
  moreover have "find_shift 2080 62 = 0"
  proof (rule ccontr)
    assume "find_shift 2080 62 \<noteq> 0"
    then have "(2 :: int) ^ 31 \<le> 2 ^ (30 + find_shift 2080 62)" "2 ^ (30 + find_shift 2080 62) \<le> (2080 :: int)"
      using find_shift_least [of 2080 62] by (intro power_increasing, simp_all)
    then show False by simp
  qed
  ultimately show ?thesis
    using run_flags(3) [of d] by (cases d) (auto simp: writer_conf_def sample_image_def)
qed

lemma run_ready: "writer_ready run_codecs (run_task d) sample_image 11 CSO_FMT_CSO2 run_pool"
  unfolding writer_ready_def
proof (intro conjI)
  show "conf_ok (writer_conf (run_task d) sample_image 11 CSO_FMT_CSO2)"
    using run_flags(4) [of d] run_shift [of d] run_blocks [of d]
    by (simp add: conf_ok_def sample_image_def SECTOR_SIZE_def)
  show "pool_ok (writer_conf (run_task d) sample_image 11 CSO_FMT_CSO2) run_pool"
    using pool_inv_init by (simp add: pool_ok_def BufferPool_init_def MIN_SIZE_def)
  show "codecs_ok run_codecs any_result False" by (rule codecs_any [OF run_codecs_ok])
qed

lemma run_room: "room (writer_conf (run_task False) sample_image 11 CSO_FMT_CSO2)"
  using run_shift [of False] run_blocks [of False] run_flags(3,4) [of False]
  by (simp add: room_def first_pos_def DstFirstSectorPos_def sizeof_CSOHeader_def Align_def)

text \<open>Both sample runs reach the success report.\<close>

lemma sample_run:
  "\<exists>n s. out_run run_codecs (\<lambda>_. 0) sample_image True (run_from d) n s \<and> succeeded (r_out s)"
proof -
  let ?c = "writer_conf (run_task d) sample_image 11 CSO_FMT_CSO2"
  have "run_inv run_codecs any_result ?c (run_from d) ghost_start"
    unfolding run_from_def using run_ready [of d] by (intro start_run_inv) (simp_all add: writer_ready_def)
  moreover have "\<not> failed (r_out (run_from d))"
    using start_fresh(1) [OF run_ready [of d]] by (simp add: run_from_def failed_def)
  ultimately show ?thesis
    using clean_run_ends [of run_codecs any_result ?c "run_from d" ghost_start "\<lambda>_. 0" "run_from d" 0] run_start by force
qed

lemma compressed_file_checks_witness:
  "\<exists>n s P' t' x'. out_run run_codecs (\<lambda>_. 0) sample_image True (run_from False) n s
     \<and> drive 5 (o_disk (r_out s)) run_decoders checksum_client
         (ck_open_cso (\<lambda>n. replicate n 0) 1 (o_disk (r_out s)) (run_pool, sample_task, sample_input) 3) = (P', t', x')
     \<and> last (ck_events t') = EvError TASK_SUCCESS (Some (''CRC32: '' @ hex8 (crc32_spec 0 sample_image)))"
proof -
  obtain n s where r: "out_run run_codecs (\<lambda>_. 0) sample_image True (run_from False) n s" "succeeded (r_out s)"
    using sample_run by blast
  have p: "pool_inv run_pool" "wild run_pool = {}"
    using pool_inv_init by (simp_all add: BufferPool_init_def wild_def)
  have "3 * (length sample_image div SECTOR_SIZE) + 2 \<le> (5 :: nat)" by (simp add: sample_image_def SECTOR_SIZE_def)
  from compressed_file_checks [OF run_ready [of False] _ r(1) [unfolded run_from_def] r(2) run_codecs_ok run_room _ p _ _ _ this,
      of "\<lambda>n. replicate n 0" 3 sample_task sample_input] r(1)
  show ?thesis using run_flags(3) [of False] run_blocks [of False]
    by (simp add: sample_task_def sample_input_def Input_new_def) blast
qed

lemma decompressed_file_witness:
  "\<exists>n s. out_run run_codecs (\<lambda>_. 0) sample_image True (run_from True) n s \<and> o_disk (r_out s) = replicate 2048 7"
proof -
  obtain n s where r: "out_run run_codecs (\<lambda>_. 0) sample_image True (run_from True) n s" "succeeded (r_out s)"
    using sample_run by blast
  have "o_disk (r_out s) = sample_image"
    by (rule decompressed_file [OF run_ready [of True] _ r(1) [unfolded run_from_def] r(2)]) (simp only: run_flags(3))
  then show ?thesis using r(1) unfolding sample_image_def by blast
qed

lemma writer_refines_witness:
  "\<exists>n s C. out_run run_codecs (\<lambda>_. 0) sample_image True (run_from False) n s \<and> succeeded (r_out s)
     \<and> (\<exists>w. drop 32 (o_disk (r_out s)) = body (writer_conf (run_task False) sample_image 11 CSO_FMT_CSO2) C w)"
proof -
  obtain n s where r: "out_run run_codecs (\<lambda>_. 0) sample_image True (run_from False) n s" "succeeded (r_out s)"
    using sample_run by blast
  have "\<not> failed (r_out s)"
    by (rule ready_run [OF run_ready run_codecs_ok r(1) [unfolded run_from_def]]) (use success_state(1) r(2) in blast)
  moreover have "first_pos (writer_conf (run_task False) sample_image 11 CSO_FMT_CSO2) = 32"
    using run_shift [of False] run_blocks [of False] run_flags(3,4) [of False]
    by (simp add: first_pos_def DstFirstSectorPos_def sizeof_CSOHeader_def Align_def)
  ultimately show ?thesis
    using writer_refines [OF run_ready run_codecs_ok r(1) [unfolded run_from_def]] r by auto
qed

lemma writer_success_witness:
  "\<exists>n s. out_run run_codecs (\<lambda>_. 0) sample_image True (run_from False) n s \<and> succeeded (r_out s)
     \<and> \<not> failed (r_out s) \<and> 2048 \<le> r_next s * SECTOR_SIZE \<and> owned (r_out s) = {}"
proof -
  obtain n s where r: "out_run run_codecs (\<lambda>_. 0) sample_image True (run_from False) n s" "succeeded (r_out s)"
    using sample_run by blast
  from writer_success [OF run_ready r(1) [unfolded run_from_def] r(2)] r show ?thesis
    by (auto simp: sample_image_def)
qed

lemma writer_progress_witness:
  "\<exists>P' s'. elsewhere (run_from False) P' \<and> run_step run_codecs (\<lambda>_. 0) sample_image ((run_from False)\<lparr>r_pool := P'\<rparr>) True s'"
  unfolding run_from_def
  by (rule writer_progress [OF run_ready run_start])
    (simp_all add: failed_def succeeded_def start_fresh(1) [OF run_ready])

lemma writer_terminates_witness:
  "\<exists>n s. out_run run_codecs (\<lambda>_. 0) sample_image True (run_from False) n s \<and> succeeded (r_out s) \<and> n \<le> 10"
proof -
  obtain n s where r: "out_run run_codecs (\<lambda>_. 0) sample_image True (run_from False) n s" "succeeded (r_out s)"
    using sample_run by blast
  from writer_terminates [OF run_ready r(1) [unfolded run_from_def]] r show ?thesis
    by (auto simp: sample_image_def SECTOR_SIZE_def)
qed

lemma writer_state_typed_witness:
  "\<exists>n s. out_run run_codecs (\<lambda>_. 0) sample_image True (run_from False) n s \<and> succeeded (r_out s)
     \<and> pool_inv (r_pool s) \<and> distinct (o_freeSectors (r_out s)) \<and> length (o_index (r_out s)) = 2"
proof -
  obtain n s where r: "out_run run_codecs (\<lambda>_. 0) sample_image True (run_from False) n s" "succeeded (r_out s)"
    using sample_run by blast
  note T = writer_state_typed [OF run_ready r(1) [unfolded run_from_def]]
  show ?thesis
  proof (intro exI [of _ n] exI [of _ s] conjI)
    show "pool_inv (r_pool s)" "distinct (o_freeSectors (r_out s))" using T by blast+
    show "length (o_index (r_out s)) = 2" using T run_blocks [of False] by simp
  qed (fact r)+
qed

end
