(* ===== verification/Spec2Isabelle.thy ===== *)
theory Spec2Isabelle
  imports Delivery CompressionTask Cli UVHelper ZopfliGreedy ZopfliStored OutputTheorems
begin

text \<open>
  maxcso compresses ISO images into CSO v1, CSO v2, ZSO and DAX files, decompresses them and
  computes their CRC-32.  This development models the program of src/src and src/cli and those
  vendored parts the results of the program rest on: zlib's CRC-32 and Zopfli's deflate writer.

  The parts and how they interact.  The command line (\<open>Cli\<close>, src/cli/cli.cpp) turns the
  arguments into tasks.  A checksum task (\<open>Checksum\<close>, src/src/checksum.cpp) and a compression task
  (\<open>CompressionTask\<close>, src/src/compress.cpp) are clients of \<open>Input\<close> (src/src/input.cpp), which
  detects the format of a file and delivers its sectors one by one, decompressing the blocks they
  come from.  The compression task passes the sectors to \<open>Output\<close> (src/src/output.cpp), which
  collects them in \<open>Sector\<close> objects (src/src/sector.cpp), one for each output block; a full block
  runs the compression trials, and finished blocks are written in order, with the index and the
  header at the end.  All buffers come from one \<open>BufferPool\<close> (src/src/buffer_pool.cpp).  Requests
  to libuv go through \<open>UVHelper\<close> (src/src/uv_helper.h), which keeps their callbacks.

  How the code is represented.  An object is a record of its members; an operation is a function
  from the state to the new state.  The heap of the buffers is part of the pool, as a map from
  pointers to bytes, so that double use and stale contents are visible.  A request to libuv is recorded
  in the state of the object that makes it, and its completion callback is an operation of its
  own, which the environment performs with the result of the request; the callbacks run on one
  thread, so they are atomic, and the work functions of the thread pool touch only the object that
  queued them.  Integers have the width of the code (\<open>Prelude\<close>: u8, u16, u32, u64) where it
  matters; file positions are int.

  \<^item> \<open>Prelude\<close>: types of integers, little-endian bytes, lists, the heap of buffers.
  \<^item> \<open>Formats\<close> (cso.h, dax.h, compress.h): constants, packed headers and their bytes, \<open>Task\<close>.
  \<^item> \<open>BufferPool\<close>: \<open>Alloc\<close>, \<open>Release\<close>, \<open>SetBufferSize\<close>, \<open>Clear\<close>; the invariant \<open>pool_inv\<close>, with the
    buffers the clients hold (\<open>wild\<close>), and a locale of what clients rely on.
  \<^item> \<open>Sector\<close>, \<open>SectorProps\<close>, \<open>SectorFill\<close>: a block, its trials, how sectors fill it.
  \<^item> \<open>OrderedMap\<close>, \<open>Output\<close>, \<open>OutputProps\<close>: the queue of finished blocks, their writing, index
    and header.
  \<^item> \<open>OutputRun\<close>, \<open>OutputLayout\<close>, \<open>OutputInv\<close>, \<open>OutputWrite\<close>, \<open>OutputSteps\<close>, \<open>OutputDone\<close>,
    \<open>OutputEnqueue\<close>, \<open>OutputTake\<close>: the writer under every interleaving.  Each of the 32 \<open>Sector\<close> objects has
    a role (\<open>role\<close>: free, collecting a block, compressing, queued, being written); the invariant \<open>oinv\<close>
    ties the roles to the free list, the map of partial sectors, the queue, the requests, the index, the
    bytes on disk and the reports, and each handler keeps it.  \<open>OutputTrace\<close>: the step relation
    \<open>run_step\<close> of writer, reader, workers and file system, the runs \<open>out_run\<close>, and the measure
    \<open>weight\<close> that every step decreases.  \<open>OutputReport\<close>, \<open>OutputFile\<close>, \<open>OutputTheorems\<close>: what a success report
    means for the state and for the file, absence of deadlock, termination, and the way back through the
    reader.
  \<^item> \<open>Input\<close>, \<open>InputDetect\<close>, \<open>InputProps\<close>: detection of formats, locating a sector, the cache,
    decompression and delivery; what a file has to satisfy for a client to get the image (\<open>serves\<close>).
  \<^item> \<open>RoundTrip\<close>, \<open>Delivery\<close>: the reader on what the writer produces.
  \<^item> \<open>Checksum\<close>, \<open>CompressionTask\<close>: the two clients.
  \<^item> \<open>Cli\<close>: arguments, validation, tasks, and the callbacks that report progress and errors.
  \<^item> \<open>UVHelper\<close>: tickets of requests, and the counted static mutex.
  \<^item> \<open>Crc32\<close>, \<open>Crc32Props\<close> (src/zlib/crc32.c): the loops over bytes and words, the tables and
    \<open>crc32_combine\<close>, against a bitwise specification.
  \<^item> \<open>ZopfliSymbols\<close>, \<open>ZopfliSymbolsProps\<close> (symbols.h): symbols and extra bits against the tables
    of RFC 1951.  \<open>ZopfliTree\<close>, \<open>ZopfliKatajainen\<close>, \<open>ZopfliCodes\<close> (tree.c, katajainen.c): code
    lengths and codes.  \<open>ZopfliStore\<close>, \<open>ZopfliStoreProps\<close> (lz77.c): the list of commands with its
    cumulative histograms.  \<open>ZopfliBits\<close>, \<open>ZopfliDeflate\<close>, \<open>ZopfliBlocks\<close>, \<open>ZopfliStored\<close>
    (deflate.c): the bit writer, the trees, the blocks, and their decoding by readers of stored and
    fixed blocks written from RFC 1951 (\<open>inflate_fixed\<close> with its own code \<open>fixed_ll\<close>, \<open>fixed_d\<close>).
  \<^item> \<open>ZopfliHash\<close> (hash.c), \<open>ZopfliCache\<close> (cache.c), \<open>ZopfliMatch\<close> (lz77.c): the hash chains with their
    invariant (\<open>hash_ok\<close>), the cache of longest matches (\<open>cache_ok\<close>), and the search, which answers a match
    (\<open>found\<close>) and fails no assertion.  \<open>ZopfliExpand\<close>: what commands stand for (\<open>expand\<close>), and
    commands that cover a stretch of data (\<open>tiles\<close>).  \<open>ZopfliGreedy\<close> (lz77.c): lazy matching, from the
    data to commands and through a block back to the data.

  Parameters.  The compressors and decompressors that are not modelled (zlib's deflate and
  inflate, 7-zip, libdeflate, LZ4, and Zopfli as a whole) are arguments.  What is asked of them is
  \<open>codecs_ok\<close>: the result of a compressor fits its buffer and stands in a relation to the block.  With
  \<open>any_result\<close> the relation holds of anything, which is enough for the safety, progress and termination of
  the writer.  With \<open>decodes\<close> the decompressors of the reader give the block back whatever padding follows:
  inflate ends at the end of its stream, and LZ4's partial decoder has the size of the block as its target,
  never more (Note 5 of lz4.h).  Costs given in percent are functions of the block size, and texts
  made from doubles are arguments as well.

  Bounds and fuel.  \<open>drive\<close> performs at most \<open>N\<close> completions; three for each sector and two more
  are enough for a checksum to end, which the theorems state.  A run of the writer has at most
  ten steps for each sector.  The theorems about runs are for images of whole sectors below \<open>2 ^ 48\<close> bytes, CSO
  and ZSO or decompression, block sizes from 2048 to \<open>2 ^ 18\<close>, and shifts of the index up to 11
  (\<open>conf_ok\<close>); for other sizes the padding of the last block goes wrong (see the findings).  The readers of deflate take the
  number of symbols or blocks as fuel; the theorems give enough.  All other loops terminate by
  the measure of their definition.

  Not modelled: the event loops of libuv and the loops over several tasks, signals and terminal
  set-up, the Windows files, vendored compressors other than the parts above, and Zopfli's optimal
  parsing and block splitting, whose costs are floating-point numbers.
\<close>

section \<open>The checksum of zlib\<close>

text \<open>C24: The word-at-a-time loop of zlib's \<open>crc32\<close> computes, for every alignment of the buffer
  and every length, the shift-register checksum of its specification.\<close>

theorem crc32_little_correct: "crc32_little addr crc buf = crc32_spec crc buf"
  by (rule crc32_little_spec)

end
